(* ===== verification/Kernel_Prelude.thy ===== *)
theory Kernel_Prelude
  imports Main "HOL-Library.Word"
begin

text \<open>
  The vocabulary every component shares: the integer types of \<^verbatim>\<open>kern/libc/common.h\<close>, panics
  and faults as values, the address macros of \<^verbatim>\<open>kern/mm/allocator.h\<close>, and the generic lemmas
  on results, words and lists.
\<close>

unbundle bit_operations_syntax

named_theorems result_simps \<open>unfolding of the error-passing combinators\<close>
named_theorems addr_simps \<open>the address macros read through unat\<close>

section \<open>Integer types\<close>

type_synonym u8 = "8 word"
type_synonym u16 = "16 word"
type_synonym u32 = "32 word"
type_synonym u64 = "64 word"
type_synonym paddr = u64

text \<open>
  A C \<^verbatim>\<open>int\<close> is an \<^typ>\<open>int\<close>; where an operation can leave the 32-bit range its result is passed
  through \<open>i32\<close>, the two's complement wrap-around of the target machine.
\<close>

definition i32 :: "int \<Rightarrow> int" where
  "i32 x = (x + 2 ^ 31) mod 2 ^ 32 - 2 ^ 31"

section \<open>Panics and faults as values\<close>

datatype kerror =
    Panic string     \<comment> \<open>\<^verbatim>\<open>panic\<close> or a failed \<^verbatim>\<open>kassert\<close>: the CPU is halted with interrupts off\<close>
  | NullDeref        \<comment> \<open>an access through a null pointer\<close>
  | WildPointer      \<comment> \<open>a pointer used as an object it does not point to\<close>
  | DivideError      \<comment> \<open>the divide exception of the CPU\<close>

type_synonym 'a result = "kerror + 'a"

definition ebind :: "'a result \<Rightarrow> ('a \<Rightarrow> 'b result) \<Rightarrow> 'b result" where
  "ebind m f = (case m of Inl e \<Rightarrow> Inl e | Inr x \<Rightarrow> f x)"

definition kassert :: "string \<Rightarrow> bool \<Rightarrow> 'a result \<Rightarrow> 'a result" where
  "kassert msg b k = (if b then k else Inl (Panic msg))"

section \<open>Address macros\<close>

definition PAGESHIFT :: nat where "PAGESHIFT = 12"
definition PAGESIZE :: u64 where "PAGESIZE = push_bit PAGESHIFT 1"
definition PAGEMASK :: u64 where "PAGEMASK = PAGESIZE - 1"
definition LARGEPAGESHIFT :: nat where "LARGEPAGESHIFT = 21"
definition LARGEPAGESIZE :: u64 where "LARGEPAGESIZE = push_bit LARGEPAGESHIFT 1"
definition LARGEPAGEMASK :: u64 where "LARGEPAGEMASK = of_nat LARGEPAGESHIFT - 1"
definition HUGEPAGESHIFT :: nat where "HUGEPAGESHIFT = 30"
definition HUGEPAGESIZE :: u64 where "HUGEPAGESIZE = push_bit HUGEPAGESHIFT 1"
definition HUGEPAGEMASK :: u64 where "HUGEPAGEMASK = HUGEPAGESIZE - 1"

text \<open>\<^verbatim>\<open>_virt_base\<close> of \<^verbatim>\<open>linker.ld\<close>, whose address is \<^verbatim>\<open>KERN_OFFSET\<close>.\<close>

definition KERN_OFFSET :: u64 where "KERN_OFFSET = 0xFFFFFF0000000000"
definition KERN_MAX_MEMORY :: u64 where "KERN_MAX_MEMORY = push_bit 30 512"

definition PGNUM :: "u64 \<Rightarrow> u64" where "PGNUM pg_addr = drop_bit PAGESHIFT pg_addr"
definition PG :: "u64 \<Rightarrow> u64" where "PG addr = push_bit PAGESHIFT (PGNUM addr)"
definition PGALIGN :: "u64 \<Rightarrow> u64" where "PGALIGN addr = ((addr - 1) OR PAGEMASK) + 1"
definition PADDR_TO_KPTR :: "u64 \<Rightarrow> u64" where "PADDR_TO_KPTR a = a + KERN_OFFSET"
definition KPTR_TO_PADDR :: "u64 \<Rightarrow> u64" where "KPTR_TO_PADDR p = p - KERN_OFFSET"

section \<open>Lemmas on results\<close>

lemma ebind_Inl [simp, result_simps]: "ebind (Inl e) f = Inl e"
  by (simp add: ebind_def)

lemma ebind_Inr [simp, result_simps]: "ebind (Inr x) f = f x"
  by (simp add: ebind_def)

lemma ebind_eq_Inr [result_simps]: "ebind m f = Inr y \<longleftrightarrow> (\<exists>x. m = Inr x \<and> f x = Inr y)"
  by (cases m) auto

lemma ebind_assoc: "ebind (ebind m f) g = ebind m (\<lambda>x. ebind (f x) g)"
  by (cases m) auto

lemma kassert_True [simp, result_simps]: "kassert msg True k = k"
  by (simp add: kassert_def)

lemma kassert_False [simp, result_simps]: "kassert msg False k = Inl (Panic msg)"
  by (simp add: kassert_def)

lemma kassert_eq_Inr [result_simps]: "kassert msg b k = Inr y \<longleftrightarrow> b \<and> k = Inr y"
  by (simp add: kassert_def)

section \<open>Lemmas on the address macros\<close>

lemma PAGESIZE_val [simp]: "PAGESIZE = 4096"
  by (simp add: PAGESIZE_def PAGESHIFT_def)

lemma PAGEMASK_val [simp]: "PAGEMASK = 4095"
  by (simp add: PAGEMASK_def)

lemma unat_PGNUM [addr_simps]: "unat (PGNUM a) = unat a div 4096"
  by (simp only: PGNUM_def PAGESHIFT_def unat_drop_bit_eq) (simp add: drop_bit_eq_div)

lemma unat_u64_less: "unat (a :: u64) < 18446744073709551616"
  using unsigned_less [of a, where ?'a = nat] by simp

lemma PGNUM_less [addr_simps]: "unat (PGNUM a) < 2 ^ 52"
  using unat_u64_less [of a] by (simp add: unat_PGNUM)

lemma unat_PG [addr_simps]: "unat (PG a) = unat a div 4096 * 4096"
proof -
  have "PG a = of_nat (unat (PGNUM a)) * of_nat 4096"
    by (simp add: PG_def PAGESHIFT_def push_bit_eq_mult)
  then have "PG a = of_nat (unat a div 4096 * 4096)"
    by (simp only: unat_PGNUM of_nat_mult)
  moreover have "unat a div 4096 * 4096 < 2 ^ 64"
    using unat_u64_less [of a] by simp
  ultimately show ?thesis
    using of_nat_inverse [of "unat a div 4096 * 4096" "PG a"] by simp
qed

lemma PG_le: "PG a \<le> a"
  by (simp add: word_le_nat_alt unat_PG)

lemma PG_of_page [simp]: "unat a mod 4096 = 0 \<Longrightarrow> PG a = a"
  by (rule word_unat_eq_iff [THEN iffD2]) (auto simp: unat_PG)

lemma or_4095: "(n::nat) OR 4095 = n div 4096 * 4096 + 4095"
proof -
  have "n OR mask 12 = push_bit 12 (drop_bit 12 n) OR mask 12"
    by (rule bit_eqI) (auto simp: bit_simps)
  also have "\<dots> = push_bit 12 (drop_bit 12 n) + mask 12"
    by (rule disjunctive_add [symmetric]) (auto simp: bit_simps)
  finally show ?thesis
    by (simp add: mask_eq_exp_minus_1 push_bit_eq_mult drop_bit_eq_div)
qed

text \<open>Rounding up to a page: the least page boundary at or above an address.\<close>

lemma unat_PGALIGN:
  assumes "unat a \<le> 2 ^ 64 - 4096"
  shows "unat (PGALIGN a) = (unat a + 4095) div 4096 * 4096"
proof (cases "a = 0")
  case True
  then show ?thesis by (simp add: PGALIGN_def)
next
  case False
  then have ge: "0 < unat a" by (simp add: unat_gt_0)
  then have 1: "unat (a - 1) = unat a - 1"
    by (metis One_nat_def Suc_leI unat_1 unat_sub word_le_nat_alt)
  have 2: "unat ((a - 1) OR 4095) = (unat a - 1) div 4096 * 4096 + 4095"
    by (simp add: unsigned_or_eq 1 or_4095)
  obtain k where k: "unat a = Suc k"
    using ge gr0_implies_Suc by blast
  have 3: "(unat a + 4095) div 4096 * 4096 = k div 4096 * 4096 + 4096"
    using div_add_self1 [of 4096 k] by (simp add: k)
  have "k div 4096 * 4096 \<le> k" by simp
  then have "k div 4096 * 4096 + 4095 + 1 < 2 ^ 64"
    using assms k by linarith
  then have "unat ((a - 1) OR 4095) + 1 < 2 ^ 64"
    by (simp add: 2 k)
  then have "unat (((a - 1) OR 4095) + 1) = unat ((a - 1) OR 4095) + 1"
    using unat_add_lem [of "(a - 1) OR 4095" 1] by simp
  then show ?thesis
    using 2 3 k by (simp add: PGALIGN_def)
qed

section \<open>Lemmas on runs of indices\<close>

lemma all_offsets_iff: "(\<forall>k < n. P (s + k)) \<longleftrightarrow> (\<forall>i \<in> {s..<s + n}. P i)" for s n :: nat
proof
  assume L: "\<forall>k < n. P (s + k)"
  show "\<forall>i \<in> {s..<s + n}. P i"
  proof
    fix i assume "i \<in> {s..<s + n}"
    then have "i - s < n" and "s + (i - s) = i" by auto
    with L show "P i" by metis
  qed
qed auto

end
