(* ===== verification/List_Node.thy ===== *)
theory List_Node
  imports Kernel_Prelude
begin

text \<open>
  The intrusive doubly linked list of \<^verbatim>\<open>kern/libc/list.h\<close>. A node is a pair of pointers inside
  some larger object, so the list lives in a store from pointers to nodes; the pointer type is
  a type variable, and each client (slab queues, the page free list, the scheduler) names its own.
  The operations are the source's assignments in the source's order, each reading the store the
  previous one left. The abstraction \<open>dlist\<close> says which sequence of nodes hangs on a head;
  every operation is shown to act on that sequence, to leave other lists alone, and the locale
  \<open>intrusive_list\<close> states this contract for the clients.
\<close>

section \<open>Nodes and operations\<close>

record 'p list_node =
  node_prev :: 'p
  node_next :: 'p

type_synonym 'p node_heap = "'p \<Rightarrow> 'p list_node"

definition set_prev :: "'p node_heap \<Rightarrow> 'p \<Rightarrow> 'p \<Rightarrow> 'p node_heap" where
  "set_prev h p q = h(p := (h p)\<lparr>node_prev := q\<rparr>)"

definition set_next :: "'p node_heap \<Rightarrow> 'p \<Rightarrow> 'p \<Rightarrow> 'p node_heap" where
  "set_next h p q = h(p := (h p)\<lparr>node_next := q\<rparr>)"

definition Delete :: "'p node_heap \<Rightarrow> 'p \<Rightarrow> 'p node_heap" where
  "Delete h this =
     (let h1 = set_next h (node_prev (h this)) (node_next (h this))
      in set_prev h1 (node_next (h1 this)) (node_prev (h1 this)))"

definition InsertBefore :: "'p node_heap \<Rightarrow> 'p \<Rightarrow> 'p \<Rightarrow> 'p node_heap" where
  "InsertBefore h this children =
     (let h1 = set_next h this children;
          h2 = set_prev h1 this (node_prev (h1 children));
          h3 = set_prev h2 children this
      in set_next h3 (node_prev (h3 this)) this)"

definition InsertAfter :: "'p node_heap \<Rightarrow> 'p \<Rightarrow> 'p \<Rightarrow> 'p node_heap" where
  "InsertAfter h this parent =
     (let h1 = set_next h this (node_next (h parent));
          h2 = set_prev h1 this parent;
          h3 = set_next h2 (node_prev (h2 this)) this
      in set_prev h3 (node_next (h3 this)) this)"

definition InitHead :: "'p node_heap \<Rightarrow> 'p \<Rightarrow> 'p node_heap" where
  "InitHead h this = set_next (set_prev h this this) this this"

definition is_empty :: "'p node_heap \<Rightarrow> 'p \<Rightarrow> bool" where
  "is_empty h this \<longleftrightarrow> node_next (h this) = this"

section \<open>The sequence of nodes on a head\<close>

fun chain :: "'p node_heap \<Rightarrow> 'p \<Rightarrow> 'p list \<Rightarrow> 'p \<Rightarrow> bool" where
  "chain h a [] z \<longleftrightarrow> node_next (h a) = z \<and> node_prev (h z) = a"
| "chain h a (x # xs) z \<longleftrightarrow> node_next (h a) = x \<and> node_prev (h x) = a \<and> chain h x xs z"

definition dlist :: "'p node_heap \<Rightarrow> 'p \<Rightarrow> 'p list \<Rightarrow> bool" where
  "dlist h hp xs \<longleftrightarrow> chain h hp xs hp \<and> distinct (hp # xs)"

section \<open>Reading a store after an assignment\<close>

lemma node_next_set_next [simp]:
  "node_next (set_next h p q x) = (if x = p then q else node_next (h x))"
  by (simp add: set_next_def)

lemma node_prev_set_next [simp]: "node_prev (set_next h p q x) = node_prev (h x)"
  by (simp add: set_next_def)

lemma node_prev_set_prev [simp]:
  "node_prev (set_prev h p q x) = (if x = p then q else node_prev (h x))"
  by (simp add: set_prev_def)

lemma node_next_set_prev [simp]: "node_next (set_prev h p q x) = node_next (h x)"
  by (simp add: set_prev_def)

lemma node_eqI:
  "node_prev (h x) = node_prev (h' x) \<Longrightarrow> node_next (h x) = node_next (h' x) \<Longrightarrow> h x = h' x"
  for h h' :: "'p node_heap"
  by (rule list_node.equality) auto

lemma Delete_next: "node_next (Delete h n x) =
    (if x = node_prev (h n) then node_next (h n) else node_next (h x))"
  by (simp add: Delete_def Let_def)

lemma Delete_prev: "node_prev (h n) \<noteq> n \<Longrightarrow> node_prev (Delete h n x) =
    (if x = node_next (h n) then node_prev (h n) else node_prev (h x))"
  by (simp add: Delete_def Let_def)

lemma InsertAfter_next: "p \<noteq> n \<Longrightarrow> node_next (InsertAfter h n p x) =
    (if x = p then n else if x = n then node_next (h p) else node_next (h x))"
  by (simp add: InsertAfter_def Let_def)

lemma InsertAfter_prev: "p \<noteq> n \<Longrightarrow> node_prev (InsertAfter h n p x) =
    (if x = node_next (h p) then n else if x = n then p else node_prev (h x))"
  by (simp add: InsertAfter_def Let_def)

lemma InsertBefore_next: "c \<noteq> n \<Longrightarrow> node_next (InsertBefore h n c x) =
    (if x = node_prev (h c) then n else if x = n then c else node_next (h x))"
  by (simp add: InsertBefore_def Let_def)

lemma InsertBefore_prev: "c \<noteq> n \<Longrightarrow> node_prev (InsertBefore h n c x) =
    (if x = c then n else if x = n then node_prev (h c) else node_prev (h x))"
  by (simp add: InsertBefore_def Let_def)

lemma InitHead_next: "node_next (InitHead h n x) = (if x = n then n else node_next (h x))"
  by (simp add: InitHead_def)

lemma InitHead_prev: "node_prev (InitHead h n x) = (if x = n then n else node_prev (h x))"
  by (simp add: InitHead_def)

section \<open>Chains\<close>

lemma chain_append:
  "chain h a (xs @ y # ys) z \<longleftrightarrow> chain h a xs y \<and> chain h y ys z"
  by (induction xs arbitrary: a) auto

lemma chain_cong:
  assumes "\<And>x. x \<in> set (a # xs) \<Longrightarrow> node_next (h x) = node_next (h' x)"
    and "\<And>x. x \<in> set (xs @ [z]) \<Longrightarrow> node_prev (h x) = node_prev (h' x)"
  shows "chain h a xs z = chain h' a xs z"
  using assms by (induction xs arbitrary: a) auto

lemma dlist_cong:
  "(\<And>x. x \<in> set (hp # xs) \<Longrightarrow> h x = h' x) \<Longrightarrow> dlist h hp xs = dlist h' hp xs"
  unfolding dlist_def by (intro arg_cong2 [where f = "(\<and>)"] chain_cong) auto

lemma dlist_Nil [simp]: "dlist h hp [] \<longleftrightarrow> node_next (h hp) = hp \<and> node_prev (h hp) = hp"
  by (simp add: dlist_def)

lemma dlist_distinct: "dlist h hp xs \<Longrightarrow> distinct (hp # xs)"
  by (simp add: dlist_def)

lemma dlist_next: "dlist h hp xs \<Longrightarrow> node_next (h hp) = (case xs of [] \<Rightarrow> hp | x # _ \<Rightarrow> x)"
  by (cases xs) (auto simp: dlist_def)

lemma dlist_prev: "dlist h hp xs \<Longrightarrow> node_prev (h hp) = (if xs = [] then hp else last xs)"
  by (cases xs rule: rev_cases) (auto simp: dlist_def chain_append)

text \<open>The neighbours of a node in the middle of a list.\<close>

lemma dlist_neighbours:
  assumes "dlist h hp (xs @ n # ys)"
  shows "node_prev (h n) = (if xs = [] then hp else last xs)"
    and "node_next (h n) = (case ys of [] \<Rightarrow> hp | y # _ \<Rightarrow> y)"
proof -
  from assms have l: "chain h hp xs n" and r: "chain h n ys hp"
    by (auto simp: dlist_def chain_append)
  from l show "node_prev (h n) = (if xs = [] then hp else last xs)"
    by (cases xs rule: rev_cases) (auto simp: chain_append)
  from r show "node_next (h n) = (case ys of [] \<Rightarrow> hp | y # _ \<Rightarrow> y)"
    by (cases ys) auto
qed

lemma dlist_next_mem:
  assumes "dlist h hp xs" and "p \<in> set (hp # xs)"
  shows "node_next (h p) \<in> set (hp # xs)"
proof (cases "p = hp")
  case True
  then show ?thesis using dlist_next [OF assms(1)] by (cases xs) auto
next
  case False
  with assms(2) obtain as bs where "xs = as @ p # bs" by (auto dest: split_list)
  then show ?thesis using dlist_neighbours(2) [of h hp as p bs] assms(1) by (cases bs) auto
qed

lemma dlist_prev_mem:
  assumes "dlist h hp xs" and "p \<in> set (hp # xs)"
  shows "node_prev (h p) \<in> set (hp # xs)"
proof (cases "p = hp")
  case True
  then show ?thesis using dlist_prev [OF assms(1)] by auto
next
  case False
  with assms(2) obtain as bs where "xs = as @ p # bs" by (auto dest: split_list)
  then show ?thesis using dlist_neighbours(1) [of h hp as p bs] assms(1) by auto
qed

lemma dlist_unique: "dlist h hp xs \<Longrightarrow> dlist h hp ys \<Longrightarrow> xs = ys"
proof -
  have "chain h a xs z \<Longrightarrow> chain h a ys z \<Longrightarrow> z \<notin> set xs \<Longrightarrow> z \<notin> set ys \<Longrightarrow> xs = ys" for a z
  proof (induction xs arbitrary: a ys)
    case Nil
    then show ?case by (cases ys) auto
  next
    case (Cons x xs)
    then show ?case by (cases ys) auto
  qed
  then show "dlist h hp xs \<Longrightarrow> dlist h hp ys \<Longrightarrow> xs = ys"
    by (auto simp: dlist_def)
qed

section \<open>What each operation does to its list\<close>

lemma dlist_InitHead: "dlist (InitHead h hp) hp []"
  by (simp add: InitHead_next InitHead_prev)

lemma dlist_is_empty: "dlist h hp xs \<Longrightarrow> is_empty h hp \<longleftrightarrow> xs = []"
  using dlist_next [of h hp xs] dlist_distinct [of h hp xs]
  by (cases xs) (auto simp: is_empty_def)

text \<open>Insertion behind a node \<open>p\<close> of the ring, the head or a member.\<close>

lemma chain_InsertAfter:
  assumes "chain h p ys z" and "p \<noteq> n" and "n \<notin> set ys" and "n \<noteq> z"
    and "distinct (p # ys)" and "z \<notin> set ys"
  shows "chain (InsertAfter h n p) p (n # ys) z"
proof (cases ys)
  case Nil
  with assms show ?thesis
    by (simp add: InsertAfter_next InsertAfter_prev)
next
  case (Cons y ys')
  have "chain (InsertAfter h n p) y ys' z = chain h y ys' z"
    using assms Cons by (intro chain_cong) (auto simp: InsertAfter_next InsertAfter_prev)
  with assms Cons show ?thesis
    by (auto simp: InsertAfter_next InsertAfter_prev)
qed

lemma chain_InsertAfter_frame:
  assumes "chain h a xs p" and "chain h p ys z" and "p \<noteq> n" and "n \<notin> set (a # xs)"
    and "p \<notin> set (a # xs)" and "distinct (p # xs @ ys)" and "z \<notin> set xs" and "z \<noteq> p"
  shows "chain (InsertAfter h n p) a xs p"
proof -
  have "node_next (h p) \<notin> set (xs @ [p])"
    using assms by (cases ys) auto
  then have "chain (InsertAfter h n p) a xs p = chain h a xs p"
    using assms by (intro chain_cong) (auto simp: InsertAfter_next InsertAfter_prev)
  with assms show ?thesis by simp
qed

lemma dlist_InsertAfter_head:
  assumes "dlist h hp xs" and "n \<notin> set (hp # xs)"
  shows "dlist (InsertAfter h n hp) hp (n # xs)"
  using assms unfolding dlist_def by (auto intro!: chain_InsertAfter simp del: chain.simps)

lemma dlist_InsertAfter:
  assumes "dlist h hp (xs @ p # ys)" and "n \<notin> set (hp # xs @ p # ys)"
  shows "dlist (InsertAfter h n p) hp (xs @ p # n # ys)"
proof -
  from assms have "chain (InsertAfter h n p) p (n # ys) hp"
    by (intro chain_InsertAfter) (auto simp: dlist_def chain_append)
  moreover from assms have "chain (InsertAfter h n p) hp xs p"
    by (intro chain_InsertAfter_frame [where ys = ys and z = hp]) (auto simp: dlist_def chain_append)
  ultimately show ?thesis
    using assms by (auto simp: dlist_def chain_append)
qed

text \<open>Insertion before a node is insertion behind its predecessor.\<close>

lemma InsertBefore_InsertAfter:
  assumes "node_next (h (node_prev (h c))) = c" and "c \<noteq> n" and "node_prev (h c) \<noteq> n"
  shows "InsertBefore h n c = InsertAfter h n (node_prev (h c))"
  by (rule ext, rule node_eqI)
    (use assms in \<open>auto simp: InsertBefore_next InsertBefore_prev InsertAfter_next InsertAfter_prev\<close>)

lemma dlist_InsertBefore_head:
  assumes "dlist h hp xs" and "n \<notin> set (hp # xs)"
  shows "dlist (InsertBefore h n hp) hp (xs @ [n])"
proof (cases xs rule: rev_cases)
  case Nil
  with assms have "InsertBefore h n hp = InsertAfter h n hp"
    using InsertBefore_InsertAfter [of h hp n] by auto
  with Nil assms show ?thesis
    using dlist_InsertAfter_head [of h hp "[]" n] by simp
next
  case (snoc ys y)
  with assms have "node_prev (h hp) = y" and "node_next (h y) = hp"
    using dlist_prev [of h hp xs] dlist_neighbours(2) [of h hp ys y "[]"] by auto
  then have "InsertBefore h n hp = InsertAfter h n y"
    using assms snoc InsertBefore_InsertAfter [of h hp n] by auto
  with snoc assms show ?thesis
    using dlist_InsertAfter [of h hp ys y "[]" n] by auto
qed

lemma dlist_InsertBefore:
  assumes "dlist h hp (xs @ c # ys)" and "n \<notin> set (hp # xs @ c # ys)"
  shows "dlist (InsertBefore h n c) hp (xs @ n # c # ys)"
proof (cases xs rule: rev_cases)
  case Nil
  with assms have "node_prev (h c) = hp" and "node_next (h hp) = c"
    using dlist_neighbours(1) [of h hp xs c ys] dlist_next [of h hp xs] 
      dlist_next [of h hp "xs @ c # ys"] by auto
  then have "InsertBefore h n c = InsertAfter h n hp"
    using assms InsertBefore_InsertAfter [of h c n] by auto
  with Nil assms show ?thesis
    using dlist_InsertAfter_head [of h hp "c # ys" n] by auto
next
  case (snoc zs z)
  with assms have "node_prev (h c) = z" and "node_next (h z) = c"
    using dlist_neighbours(1) [of h hp xs c ys] dlist_neighbours(2) [of h hp zs z "c # ys"] by auto
  then have "InsertBefore h n c = InsertAfter h n z"
    using assms snoc InsertBefore_InsertAfter [of h c n] by auto
  with snoc assms show ?thesis
    using dlist_InsertAfter [of h hp zs z "c # ys" n] by auto
qed

lemma chain_Delete:
  assumes "chain h a xs n" and "chain h n ys z" and "n \<notin> set (a # xs @ ys @ [z])"
    and "distinct (a # xs @ ys)" and "distinct (xs @ ys @ [z])"
  shows "chain (Delete h n) a (xs @ ys) z"
proof -
  let ?p = "last (a # xs)" and ?q = "hd (ys @ [z])"
  have p: "node_prev (h n) = ?p"
    using assms(1) by (cases xs rule: rev_cases) (auto simp: chain_append)
  have q: "node_next (h n) = ?q"
    using assms(2) by (cases ys) auto
  have pn: "node_prev (h n) \<noteq> n"
    using assms(3) p by (cases xs rule: rev_cases) auto
  note D = Delete_next [of h n] Delete_prev [where h = h and n = n, OF pn]
  show ?thesis
  proof (cases xs rule: rev_cases)
    case Nil
    show ?thesis
    proof (cases ys)
      case Nil
      with \<open>xs = []\<close> p q show ?thesis by (simp add: D)
    next
      case (Cons y ys')
      have "chain (Delete h n) y ys' z = chain h y ys' z"
        using assms p q Cons \<open>xs = []\<close> by (intro chain_cong) (auto simp: D)
      with assms p q Cons \<open>xs = []\<close> show ?thesis by (auto simp: D)
    qed
  next
    case (snoc xs' x)
    have l: "chain (Delete h n) a xs' x = chain h a xs' x"
      using assms p q snoc by (intro chain_cong) (auto simp: D hd_append)
    show ?thesis
    proof (cases ys)
      case Nil
      with assms l p q snoc show ?thesis by (auto simp: D chain_append)
    next
      case (Cons y ys')
      have "chain (Delete h n) y ys' z = chain h y ys' z"
        using assms p q Cons snoc by (intro chain_cong) (auto simp: D)
      with assms l p q Cons snoc show ?thesis by (auto simp: D chain_append)
    qed
  qed
qed

lemma dlist_Delete:
  assumes "dlist h hp (xs @ n # ys)"
  shows "dlist (Delete h n) hp (xs @ ys)"
  using assms unfolding dlist_def
  by (auto simp: chain_append intro: chain_Delete)

lemma dlist_Delete_remove1:
  assumes "dlist h hp xs" and "n \<in> set xs"
  shows "dlist (Delete h n) hp (remove1 n xs)"
proof -
  from assms(2) obtain as bs where "xs = as @ n # bs" "n \<notin> set as"
    by (meson split_list_first)
  with assms(1) show ?thesis
    using dlist_Delete [of h hp as n bs] by (simp add: remove1_append)
qed

section \<open>Frame: what each operation leaves alone\<close>

lemma Delete_other:
  assumes "node_prev (h n) \<noteq> n" and "x \<noteq> node_prev (h n)" and "x \<noteq> node_next (h n)"
  shows "Delete h n x = h x"
  using assms by (intro node_eqI) (auto simp: Delete_next Delete_prev)

lemma Delete_frame:
  assumes "dlist h hp (xs @ n # ys)" and "x \<notin> set (hp # xs @ ys)"
  shows "Delete h n x = h x"
proof (rule Delete_other)
  note nb = dlist_neighbours [OF assms(1)]
  have ne: "n \<notin> set (hp # xs @ ys)" using dlist_distinct [OF assms(1)] by auto
  show "node_prev (h n) \<noteq> n"
    using nb(1) ne by (cases xs rule: rev_cases) auto
  show "x \<noteq> node_prev (h n)"
    using nb(1) assms(2) by (cases xs rule: rev_cases) auto
  show "x \<noteq> node_next (h n)"
    using nb(2) assms(2) by (cases ys) auto
qed

lemma InsertAfter_frame:
  assumes "dlist h hp xs" and "p \<in> set (hp # xs)" and "n \<notin> set (hp # xs)" and "x \<notin> set (n # hp # xs)"
  shows "InsertAfter h n p x = h x"
proof -
  have "node_next (h p) \<in> set (hp # xs)"
    using assms(1,2) by (rule dlist_next_mem)
  moreover have "p \<noteq> n" using assms(2,3) by auto
  ultimately show ?thesis
    using assms by (intro node_eqI) (auto simp: InsertAfter_next InsertAfter_prev)
qed

lemma InsertBefore_frame:
  assumes "dlist h hp xs" and "n \<notin> set (hp # xs)" and "x \<notin> set (n # hp # xs)"
  shows "InsertBefore h n hp x = h x"
proof -
  have "node_prev (h hp) \<in> set (hp # xs)"
    using dlist_prev [OF assms(1)] by auto
  moreover have "hp \<noteq> n" using assms(2) by auto
  ultimately show ?thesis
    using assms by (intro node_eqI) (auto simp: InsertBefore_next InsertBefore_prev)
qed

lemma InitHead_frame: "x \<noteq> n \<Longrightarrow> InitHead h n x = h x"
  by (intro node_eqI) (auto simp: InitHead_next InitHead_prev)

section \<open>The contract the clients use\<close>

text \<open>
  \<open>contents s hp xs\<close>: in state \<open>s\<close> the nodes \<open>xs\<close> hang on the head \<open>hp\<close>, in this order.
\<close>

locale intrusive_list =
  fixes contents :: "'s \<Rightarrow> 'p \<Rightarrow> 'p list \<Rightarrow> bool"
    and push_front :: "'s \<Rightarrow> 'p \<Rightarrow> 'p \<Rightarrow> 's"
    and push_back :: "'s \<Rightarrow> 'p \<Rightarrow> 'p \<Rightarrow> 's"
    and unlink :: "'s \<Rightarrow> 'p \<Rightarrow> 's"
  assumes contents_distinct: "contents s hp xs \<Longrightarrow> distinct (hp # xs)"
    and contents_push_front:
      "contents s hp xs \<Longrightarrow> n \<notin> set (hp # xs) \<Longrightarrow> contents (push_front s n hp) hp (n # xs)"
    and contents_push_back:
      "contents s hp xs \<Longrightarrow> n \<notin> set (hp # xs) \<Longrightarrow> contents (push_back s n hp) hp (xs @ [n])"
    and contents_unlink:
      "contents s hp (xs @ n # ys) \<Longrightarrow> contents (unlink s n) hp (xs @ ys)"
    and push_front_other:
      "contents s hp xs \<Longrightarrow> contents s hp' ys \<Longrightarrow> n \<notin> set (hp # xs) \<Longrightarrow>
       set (hp' # ys) \<inter> set (n # hp # xs) = {} \<Longrightarrow> contents (push_front s n hp) hp' ys"
    and push_back_other:
      "contents s hp xs \<Longrightarrow> contents s hp' ys \<Longrightarrow> n \<notin> set (hp # xs) \<Longrightarrow>
       set (hp' # ys) \<inter> set (n # hp # xs) = {} \<Longrightarrow> contents (push_back s n hp) hp' ys"
    and unlink_other:
      "contents s hp (xs @ n # ys) \<Longrightarrow> contents s hp' zs \<Longrightarrow>
       set (hp' # zs) \<inter> set (hp # xs @ ys) = {} \<Longrightarrow> contents (unlink s n) hp' zs"
begin

text \<open>Pushing a whole sequence, as the set-up loops do.\<close>

lemma push_front_all:
  "contents s hp xs \<Longrightarrow> distinct ns \<Longrightarrow> set ns \<inter> set (hp # xs) = {} \<Longrightarrow>
   contents (fold (\<lambda>n s. push_front s n hp) ns s) hp (rev ns @ xs)"
proof (induction ns arbitrary: s xs)
  case Nil
  then show ?case by simp
next
  case (Cons n ns)
  then have "contents (push_front s n hp) hp (n # xs)"
    by (intro contents_push_front) auto
  then have "contents (fold (\<lambda>n s. push_front s n hp) ns (push_front s n hp)) hp (rev ns @ n # xs)"
    using Cons.prems by (intro Cons.IH) auto
  then show ?case by simp
qed

lemma push_front_all_other:
  "contents s hp xs \<Longrightarrow> contents s hp' ys \<Longrightarrow> distinct ns \<Longrightarrow> set ns \<inter> set (hp # xs) = {} \<Longrightarrow>
   set (hp' # ys) \<inter> (set ns \<union> set (hp # xs)) = {} \<Longrightarrow>
   contents (fold (\<lambda>n s. push_front s n hp) ns s) hp' ys"
proof (induction ns arbitrary: s xs)
  case Nil
  then show ?case by simp
next
  case (Cons n ns)
  have "contents (push_front s n hp) hp (n # xs)"
    using Cons.prems by (intro contents_push_front) auto
  moreover have "contents (push_front s n hp) hp' ys"
    using Cons.prems by (intro push_front_other [where xs = xs]) auto
  ultimately have "contents (fold (\<lambda>n s. push_front s n hp) ns (push_front s n hp)) hp' ys"
    using Cons.prems by (intro Cons.IH) auto
  then show ?case by simp
qed

text \<open>Taking the first node and queueing it at the back rotates the list: round robin.\<close>

lemma rotate_front:
  "contents s hp (x # xs) \<Longrightarrow> contents (push_back (unlink s x) x hp) hp (xs @ [x])"
  using contents_unlink [of s hp "[]" x xs] contents_distinct [of s hp "x # xs"]
  by (intro contents_push_back) auto

text \<open>Moving a node from one list to the front of another.\<close>

lemma move_to_front:
  assumes "contents s a (xs @ n # ys)" and "contents s b zs"
    and "set (a # xs @ n # ys) \<inter> set (b # zs) = {}"
  shows "contents (push_front (unlink s n) n b) b (n # zs)"
    and "contents (push_front (unlink s n) n b) a (xs @ ys)"
proof -
  have a: "contents (unlink s n) a (xs @ ys)"
    using assms(1) by (rule contents_unlink)
  have b: "contents (unlink s n) b zs"
    using assms by (intro unlink_other [OF assms(1)]) auto
  show "contents (push_front (unlink s n) n b) b (n # zs)"
    using b assms(3) by (intro contents_push_front) auto
  show "contents (push_front (unlink s n) n b) a (xs @ ys)"
    using contents_distinct [OF assms(1)] assms(3)
    by (intro push_front_other [OF b a]) auto
qed

end

interpretation ln: intrusive_list dlist InsertAfter InsertBefore Delete
proof (unfold_locales, goal_cases)
  case 1
  then show ?case by (rule dlist_distinct)
next
  case 2
  then show ?case by (rule dlist_InsertAfter_head)
next
  case 3
  then show ?case by (rule dlist_InsertBefore_head)
next
  case 4
  then show ?case by (rule dlist_Delete)
next
  case (5 s hp xs hp' ys n)
  have "dlist (InsertAfter s n hp) hp' ys = dlist s hp' ys"
    using 5 by (intro dlist_cong InsertAfter_frame) auto
  then show ?case using 5 by simp
next
  case (6 s hp xs hp' ys n)
  have "dlist (InsertBefore s n hp) hp' ys = dlist s hp' ys"
    using 6 by (intro dlist_cong InsertBefore_frame) auto
  then show ?case using 6 by simp
next
  case (7 s hp xs n ys hp' zs)
  have "dlist (Delete s n) hp' zs = dlist s hp' zs"
    using 7 by (intro dlist_cong Delete_frame) auto
  then show ?case using 7 by simp
qed

section \<open>Several lists in one store\<close>

text \<open>
  \<open>forest h H Q\<close>: the heads \<open>H\<close> carry the sequences \<open>Q\<close>, and no node or head occurs in two of the
  rings. \<open>ring Q hp\<close> is everything linked on \<open>hp\<close>.
\<close>

definition ring :: "('p \<Rightarrow> 'p list) \<Rightarrow> 'p \<Rightarrow> 'p set" where
  "ring Q hp = insert hp (set (Q hp))"

definition forest :: "'p node_heap \<Rightarrow> 'p set \<Rightarrow> ('p \<Rightarrow> 'p list) \<Rightarrow> bool" where
  "forest h H Q \<longleftrightarrow> (\<forall>a \<in> H. dlist h a (Q a)) \<and> (\<forall>a \<in> H. \<forall>b \<in> H. a \<noteq> b \<longrightarrow> ring Q a \<inter> ring Q b = {})"

lemma forest_dlist: "forest h H Q \<Longrightarrow> a \<in> H \<Longrightarrow> dlist h a (Q a)"
  by (simp add: forest_def)

lemma forest_disjoint: "forest h H Q \<Longrightarrow> a \<in> H \<Longrightarrow> b \<in> H \<Longrightarrow> n \<in> ring Q a \<Longrightarrow> n \<in> ring Q b \<Longrightarrow> a = b"
  unfolding forest_def by blast

lemma forest_distinct: "forest h H Q \<Longrightarrow> a \<in> H \<Longrightarrow> distinct (a # Q a)"
  by (rule dlist_distinct [OF forest_dlist])

lemma forest_subset: "forest h H Q \<Longrightarrow> H' \<subseteq> H \<Longrightarrow> forest h H' Q"
  unfolding forest_def by blast

lemma forest_Delete:
  assumes "forest h H Q" and "a \<in> H" and "n \<in> set (Q a)"
  shows "forest (Delete h n) H (Q(a := remove1 n (Q a)))"
proof -
  let ?Q = "Q(a := remove1 n (Q a))"
  have ring: "ring ?Q b \<subseteq> ring Q b" for b
    using set_remove1_subset [of n "Q a"] by (auto simp: ring_def)
  obtain xs ys where xy: "Q a = xs @ n # ys" "n \<notin> set xs"
    using assms(3) by (meson split_list_first)
  have d: "dlist h a (xs @ n # ys)" using forest_dlist [OF assms(1,2)] xy by simp
  have "dlist (Delete h n) b (?Q b)" if "b \<in> H" for b
  proof (cases "b = a")
    case True
    then show ?thesis using ln.contents_unlink [OF d] xy by (simp add: remove1_append)
  next
    case False
    then have "ring Q b \<inter> ring Q a = {}" using assms(1,2) that unfolding forest_def by blast
    then show ?thesis
      using ln.unlink_other [OF d forest_dlist [OF assms(1) that]] False xy by (auto simp: ring_def)
  qed
  moreover have "ring ?Q b \<inter> ring ?Q c = {}" if "b \<in> H" "c \<in> H" "b \<noteq> c" for b c
  proof -
    have "ring Q b \<inter> ring Q c = {}" using assms(1) that unfolding forest_def by blast
    with ring [of b] ring [of c] show ?thesis by blast
  qed
  ultimately show ?thesis unfolding forest_def by simp
qed

lemma forest_InsertAfter:
  assumes "forest h H Q" and "a \<in> H" and "\<forall>b \<in> H. n \<notin> ring Q b"
  shows "forest (InsertAfter h n a) H (Q(a := n # Q a))"
proof -
  let ?Q = "Q(a := n # Q a)"
  have na: "n \<notin> set (a # Q a)" using assms by (auto simp: ring_def)
  have d: "dlist h a (Q a)" using forest_dlist [OF assms(1,2)] .
  have "dlist (InsertAfter h n a) b (?Q b)" if "b \<in> H" for b
  proof (cases "b = a")
    case True
    then show ?thesis using ln.contents_push_front [OF d na] by simp
  next
    case False
    then have "ring Q b \<inter> ring Q a = {}" "n \<notin> ring Q b" using assms that unfolding forest_def by blast+
    then show ?thesis
      using ln.push_front_other [OF d forest_dlist [OF assms(1) that] na] False by (auto simp: ring_def)
  qed
  moreover have "ring ?Q b = (if b = a then insert n (ring Q b) else ring Q b)" for b
    by (auto simp: ring_def)
  ultimately show ?thesis
    using assms unfolding forest_def by auto
qed

lemma forest_InitHead:
  assumes "forest h H Q" and "\<forall>b \<in> H. a \<notin> ring Q b"
  shows "forest (InitHead h a) (insert a H) (Q(a := []))"
proof -
  let ?Q = "Q(a := [])"
  have "dlist (InitHead h a) b (?Q b)" if "b \<in> insert a H" for b
  proof (cases "b = a")
    case True
    then show ?thesis using dlist_InitHead [of h a] by simp
  next
    case False
    then have b: "b \<in> H" "a \<notin> ring Q b" using that assms(2) by auto
    then have "dlist (InitHead h a) b (Q b) = dlist h b (Q b)"
      by (intro dlist_cong InitHead_frame) (auto simp: ring_def)
    then show ?thesis using forest_dlist [OF assms(1) b(1)] False by simp
  qed
  moreover have "ring ?Q b = (if b = a then {a} else ring Q b)" for b
    by (auto simp: ring_def)
  ultimately show ?thesis
    using assms unfolding forest_def by auto
qed

lemma forest_cong:
  assumes "forest h H Q" and "\<And>a. a \<in> H \<Longrightarrow> Q' a = Q a"
  shows "forest h H Q'"
  using assms unfolding forest_def ring_def by auto

lemma forest_is_empty: "forest h H Q \<Longrightarrow> a \<in> H \<Longrightarrow> is_empty h a \<longleftrightarrow> Q a = []"
  by (rule dlist_is_empty [OF forest_dlist])

lemma forest_next: "forest h H Q \<Longrightarrow> a \<in> H \<Longrightarrow> Q a = n # ns \<Longrightarrow> node_next (h a) = n"
  using dlist_next [OF forest_dlist, of h H Q a] by simp

text \<open>Filling one list with fresh nodes.\<close>

lemma forest_push_all:
  "forest h H Q \<Longrightarrow> a \<in> H \<Longrightarrow> distinct ns \<Longrightarrow> \<forall>n \<in> set ns. \<forall>b \<in> H. n \<notin> ring Q b \<Longrightarrow>
   forest (fold (\<lambda>n h. InsertAfter h n a) ns h) H (Q(a := rev ns @ Q a))"
proof (induction ns arbitrary: h Q)
  case Nil
  then show ?case by simp
next
  case (Cons n ns)
  let ?Q = "Q(a := n # Q a)"
  have f: "forest (InsertAfter h n a) H ?Q"
    using Cons.prems by (intro forest_InsertAfter) auto
  have "ring ?Q b \<subseteq> insert n (ring Q b)" for b by (auto simp: ring_def)
  then have "\<forall>m \<in> set ns. \<forall>b \<in> H. m \<notin> ring ?Q b"
    using Cons.prems(3,4) by (metis distinct.simps(2) insertE list.set_intros(2) subsetD)
  moreover have "?Q(a := rev ns @ ?Q a) = Q(a := rev (n # ns) @ Q a)" by (rule ext) simp
  moreover have "distinct ns" using Cons.prems(3) by simp
  ultimately have "forest (fold (\<lambda>n h. InsertAfter h n a) ns (InsertAfter h n a)) H (Q(a := rev (n # ns) @ Q a))"
    using Cons.IH [OF f Cons.prems(2)] by metis
  then show ?case unfolding fold_simps(2) .
qed

end
