(* ===== verification/Multiboot.thy ===== *)
theory Multiboot
  imports Kernel_Prelude
begin

text \<open>
  The part of the Multiboot 2 information (\<^verbatim>\<open>kern/multiboot2.h\<close>) the memory system reads: the memory
  map tag and its entries.
\<close>

definition MULTIBOOT_MEMORY_AVAILABLE :: u32 where "MULTIBOOT_MEMORY_AVAILABLE = 1"
definition MULTIBOOT_MEMORY_RESERVED :: u32 where "MULTIBOOT_MEMORY_RESERVED = 2"
definition MULTIBOOT_MEMORY_ACPI_RECLAIMABLE :: u32 where "MULTIBOOT_MEMORY_ACPI_RECLAIMABLE = 3"

record multiboot_mmap_entry =
  entry_addr :: u64
  entry_len :: u64
  entry_type :: u32

text \<open>The entries are a C array of unknown bound behind the tag: a function of the index.\<close>

record multiboot_tag_mmap =
  mmap_size :: u32
  mmap_entry_size :: u32
  mmap_entries :: "nat \<Rightarrow> multiboot_mmap_entry"

text \<open>
  \<^verbatim>\<open>int nr_entries = (mm->size - sizeof(multiboot_tag_mmap)) / mm->entry_size\<close>: the subtraction
  and the division are 64-bit unsigned (\<^verbatim>\<open>sizeof\<close> is 16), the result is narrowed to \<^verbatim>\<open>int\<close>.
\<close>

definition nr_mmap_entries :: "multiboot_tag_mmap \<Rightarrow> int result" where
  "nr_mmap_entries mm =
     (if mmap_entry_size mm = 0 then Inl DivideError
      else Inr (i32 (uint ((ucast (mmap_size mm) - 16 :: u64) div ucast (mmap_entry_size mm)))))"

definition mmap_entry_list :: "multiboot_tag_mmap \<Rightarrow> int \<Rightarrow> multiboot_mmap_entry list" where
  "mmap_entry_list mm n = map (mmap_entries mm) [0..<nat n]"

end
