(* ===== verification/Mem_Pages.thy ===== *)
theory Mem_Pages
  imports List_Node Multiboot
begin

text \<open>
  The physical page allocator, \<^verbatim>\<open>MemPages\<close> of \<^verbatim>\<open>kern/mm/allocator.h\<close> and \<^verbatim>\<open>allocator.cc\<close>: an array
  of \<^verbatim>\<open>Page\<close> structures, one per 4 KiB frame, the free ones on a circular list through \<^verbatim>\<open>page_head\<close>.
\<close>

section \<open>Data\<close>

text \<open>A \<^verbatim>\<open>Page *\<close> is null, \<^verbatim>\<open>&page_head\<close> or \<^verbatim>\<open>&page_structs[i]\<close>.\<close>

datatype page_ptr = NullPage | PageHead | PageAt nat

record page =
  phyaddr :: paddr
  alloc_next :: page_ptr
  alloc_prev :: page_ptr
  is_free :: bool
  is_in_list :: bool
  slab_ptr :: u64
  slab_obj_size :: int

record mem_pages =
  avail_size :: u64
  reserved_size :: u64
  acpi_size :: u64
  tot_size :: u64
  avail_low :: u64
  max_phy :: u64
  page_head :: page
  page_structs :: "nat \<Rightarrow> page"
  nr_page_structs :: u64

text \<open>A \<^verbatim>\<open>Page\<close> after \<^verbatim>\<open>memset(.., 0, ..)\<close>; static storage starts like this too.\<close>

definition zero_page :: page where
  "zero_page = \<lparr>phyaddr = 0, alloc_next = NullPage, alloc_prev = NullPage,
     is_free = False, is_in_list = False, slab_ptr = 0, slab_obj_size = 0\<rparr>"

definition sizeof_Page :: u64 where "sizeof_Page = 48"

definition kBootLoaderSkipPages :: u64 where "kBootLoaderSkipPages = 128"

text \<open>The addresses the linker gives to \<^verbatim>\<open>_load_start\<close> and \<^verbatim>\<open>_bss_end\<close> (\<^verbatim>\<open>linker.ld\<close>).\<close>

record link_symbols =
  load_start :: u64
  bss_end :: u64

section \<open>Access through a page pointer\<close>

fun rd_page :: "mem_pages \<Rightarrow> page_ptr \<Rightarrow> page result" where
  "rd_page mp NullPage = Inl NullDeref"
| "rd_page mp PageHead = Inr (page_head mp)"
| "rd_page mp (PageAt i) = Inr (page_structs mp i)"

definition set_page :: "mem_pages \<Rightarrow> nat \<Rightarrow> (page \<Rightarrow> page) \<Rightarrow> mem_pages" where
  "set_page mp i f = mp\<lparr>page_structs := (page_structs mp)(i := f (page_structs mp i))\<rparr>"

fun wr_page :: "mem_pages \<Rightarrow> page_ptr \<Rightarrow> (page \<Rightarrow> page) \<Rightarrow> mem_pages result" where
  "wr_page mp NullPage f = Inl NullDeref"
| "wr_page mp PageHead f = Inr (mp\<lparr>page_head := f (page_head mp)\<rparr>)"
| "wr_page mp (PageAt i) f = Inr (set_page mp i f)"

text \<open>\<^verbatim>\<open>&pg[i]\<close>\<close>

fun page_index :: "page_ptr \<Rightarrow> nat \<Rightarrow> page_ptr result" where
  "page_index NullPage i = Inl NullDeref"
| "page_index PageHead i = (if i = 0 then Inr PageHead else Inl WildPointer)"
| "page_index (PageAt j) i = Inr (PageAt (j + i))"

definition page_at :: "paddr \<Rightarrow> page_ptr" where
  "page_at addr = PageAt (unat (PGNUM addr))"

section \<open>Single pages\<close>

definition AllocPage :: "mem_pages \<Rightarrow> (page_ptr \<times> mem_pages) result" where
  "AllocPage mp =
     (if alloc_next (page_head mp) = alloc_prev (page_head mp) then Inr (NullPage, mp)
      else
        let allocated_page = alloc_next (page_head mp) in
        ebind (rd_page mp allocated_page) (\<lambda>ap.
        let mp1 = mp\<lparr>page_head := (page_head mp)\<lparr>alloc_next := alloc_next ap\<rparr>\<rparr> in
        ebind (wr_page mp1 (alloc_next (page_head mp1)) (\<lambda>p. p\<lparr>alloc_prev := PageHead\<rparr>)) (\<lambda>mp2.
        ebind (wr_page mp2 allocated_page (\<lambda>p. p\<lparr>is_free := False, is_in_list := False\<rparr>)) (\<lambda>mp3.
        Inr (allocated_page, mp3)))))"

definition FreePage :: "mem_pages \<Rightarrow> page_ptr \<Rightarrow> mem_pages result" where
  "FreePage mp pg =
     ebind (wr_page mp pg (\<lambda>p. p\<lparr>alloc_next := alloc_next (page_head mp)\<rparr>)) (\<lambda>mp1.
     ebind (wr_page mp1 (alloc_next (page_head mp1)) (\<lambda>p. p\<lparr>alloc_prev := pg\<rparr>)) (\<lambda>mp2.
     let mp3 = mp2\<lparr>page_head := (page_head mp2)\<lparr>alloc_next := pg\<rparr>\<rparr> in
     wr_page mp3 pg (\<lambda>p. p\<lparr>alloc_prev := PageHead, is_free := True, is_in_list := True\<rparr>)))"

section \<open>Runs of pages\<close>

text \<open>
  The first-fit scan of \<^verbatim>\<open>AllocPages\<close>. \<^verbatim>\<open>i > nr_page_structs - n\<close> compares as unsigned 64-bit, so
  the subtraction wraps when \<open>n\<close> is larger than the array.
\<close>

function scan_free :: "mem_pages \<Rightarrow> int \<Rightarrow> nat \<Rightarrow> int \<Rightarrow> int" where
  "scan_free mp n i start =
     (if i < unat (nr_page_structs mp) then
        if \<not> is_free (page_structs mp i) then scan_free mp n (Suc i) (- 1)
        else if start = - 1 \<and> nr_page_structs mp - of_int n < of_nat i then start
        else
          let start' = (if start = - 1 then int i else start) in
          if int i = start' + n - 1 then start' else scan_free mp n (Suc i) start'
      else start)"
  by pat_completeness auto
termination
  by (relation "measure (\<lambda>(mp, n, i, start). unat (nr_page_structs mp) - i)") auto

declare scan_free.simps [simp del]

definition unlink_page :: "mem_pages \<Rightarrow> nat \<Rightarrow> mem_pages result" where
  "unlink_page mp i =
     ebind (wr_page mp (alloc_prev (page_structs mp i))
        (\<lambda>p. p\<lparr>alloc_next := alloc_next (page_structs mp i)\<rparr>)) (\<lambda>mp1.
     ebind (wr_page mp1 (alloc_next (page_structs mp1 i))
        (\<lambda>p. p\<lparr>alloc_prev := alloc_prev (page_structs mp1 i)\<rparr>)) (\<lambda>mp2.
     Inr (set_page mp2 i (\<lambda>p. p\<lparr>is_free := False, is_in_list := False\<rparr>))))"

fun unlink_run :: "mem_pages \<Rightarrow> nat \<Rightarrow> nat \<Rightarrow> mem_pages result" where
  "unlink_run mp i 0 = Inr mp"
| "unlink_run mp i (Suc k) = ebind (unlink_page mp i) (\<lambda>mp'. unlink_run mp' (Suc i) k)"

definition AllocPages :: "mem_pages \<Rightarrow> int \<Rightarrow> (page_ptr \<times> mem_pages) result" where
  "AllocPages mp n =
     (if n = 1 then AllocPage mp
      else
        let start = scan_free mp n 0 (- 1) in
        if start = - 1 then Inr (NullPage, mp)
        else ebind (unlink_run mp (nat start) (nat n)) (\<lambda>mp'. Inr (PageAt (nat start), mp')))"

text \<open>The body of the loop of \<^verbatim>\<open>FreePages\<close> repeats the statements of \<^verbatim>\<open>FreePage\<close> on \<^verbatim>\<open>&pg[i]\<close>.\<close>

fun free_run :: "mem_pages \<Rightarrow> page_ptr \<Rightarrow> nat \<Rightarrow> nat \<Rightarrow> mem_pages result" where
  "free_run mp pg i 0 = Inr mp"
| "free_run mp pg i (Suc k) =
     ebind (page_index pg i) (\<lambda>p. ebind (FreePage mp p) (\<lambda>mp'. free_run mp' pg (Suc i) k))"

definition FreePages :: "mem_pages \<Rightarrow> page_ptr \<Rightarrow> int \<Rightarrow> mem_pages result" where
  "FreePages mp pg n = (if n = 1 then FreePage mp pg else free_run mp pg 0 (nat n))"

section \<open>Start-up\<close>

text \<open>The constructor writes three of the fields of the static object.\<close>

definition MemPages :: "mem_pages \<Rightarrow> mem_pages" where
  "MemPages mp = mp\<lparr>avail_size := 0, reserved_size := 0, tot_size := 0\<rparr>"

text \<open>Linking one available page behind \<^verbatim>\<open>last_page\<close>.\<close>

definition append_page :: "mem_pages \<Rightarrow> nat \<Rightarrow> page_ptr \<Rightarrow> mem_pages result" where
  "append_page mp i last_page =
     (let mp1 = set_page mp i (\<lambda>p. p\<lparr>is_free := True, is_in_list := True,
                                  alloc_next := PageHead, alloc_prev := last_page\<rparr>);
          mp2 = mp1\<lparr>page_head := (page_head mp1)\<lparr>alloc_prev := PageAt i\<rparr>\<rparr>
      in wr_page mp2 last_page (\<lambda>p. p\<lparr>alloc_next := PageAt i\<rparr>))"

text \<open>
  The loop over the pages of one memory map entry, from \<open>paddr\<close> up to \<open>stop\<close>; \<open>klo\<close> and \<open>khi\<close>
  bound the kernel image, the boot loader's pages and the page structures. The addresses are
  64-bit and wrap, so nothing in the loop itself says that it ends.
\<close>

partial_function (option) collect_range ::
  "mem_pages \<Rightarrow> u64 \<Rightarrow> u64 \<Rightarrow> u64 \<Rightarrow> u64 \<Rightarrow> page_ptr \<Rightarrow> (mem_pages \<times> page_ptr) result option" where
  "collect_range mp paddr stop klo khi last_page =
     (if paddr < stop then
        if PGNUM paddr < nr_page_structs mp then
          let i = unat (PGNUM paddr);
              mp1 = set_page mp i (\<lambda>p. p\<lparr>phyaddr := PG paddr\<rparr>) in
          if klo \<le> paddr \<and> paddr < khi then
            collect_range (set_page mp1 i (\<lambda>p. p\<lparr>is_free := False, is_in_list := False\<rparr>))
              (paddr + PAGESIZE) stop klo khi last_page
          else
            (case append_page mp1 i last_page of
               Inl e \<Rightarrow> Some (Inl e)
             | Inr mp2 \<Rightarrow> collect_range mp2 (paddr + PAGESIZE) stop klo khi (PageAt i))
        else Some (Inl (Panic ''PGNUM(paddr) < nr_page_structs''))
      else Some (Inr (mp, last_page)))"

fun collect_entries ::
  "mem_pages \<Rightarrow> multiboot_mmap_entry list \<Rightarrow> u64 \<Rightarrow> u64 \<Rightarrow> page_ptr \<Rightarrow> mem_pages result option" where
  "collect_entries mp [] klo khi last_page = Some (Inr mp)"
| "collect_entries mp (ent # ents) klo khi last_page =
     (if entry_type ent \<noteq> MULTIBOOT_MEMORY_AVAILABLE \<or> entry_addr ent = 0
      then collect_entries mp ents klo khi last_page
      else
        (case collect_range mp (entry_addr ent) (entry_addr ent + entry_len ent) klo khi last_page of
           None \<Rightarrow> None
         | Some (Inl e) \<Rightarrow> Some (Inl e)
         | Some (Inr (mp', last_page')) \<Rightarrow> collect_entries mp' ents klo khi last_page'))"

definition CollectAvailable ::
  "link_symbols \<Rightarrow> mem_pages \<Rightarrow> multiboot_mmap_entry list \<Rightarrow> mem_pages result option" where
  "CollectAvailable ls mp entries =
     (let kstart_pg = PG (load_start ls);
          kend_pg = PGALIGN (bss_end ls) + kBootLoaderSkipPages * PAGESIZE;
          struct_tot_sz = sizeof_Page * nr_page_structs mp;
          mp1 = mp\<lparr>page_structs :=
                  (\<lambda>i. if i < unat (nr_page_structs mp) then zero_page else page_structs mp i)\<rparr>
      in collect_entries mp1 entries kstart_pg (kend_pg + struct_tot_sz) PageHead)"

text \<open>One turn of the loop of \<^verbatim>\<open>Init\<close> over the memory map; the pair carries \<^verbatim>\<open>max_kern_mem\<close>.\<close>

definition MemPages_Init_entry :: "multiboot_mmap_entry \<Rightarrow> mem_pages \<times> u64 \<Rightarrow> mem_pages \<times> u64" where
  "MemPages_Init_entry e = (\<lambda>(mp, max_kern_mem).
     let (mp1, mkm) =
           (if entry_type e = MULTIBOOT_MEMORY_AVAILABLE then
              if entry_addr e = 0 then (mp\<lparr>avail_low := entry_len e\<rparr>, max_kern_mem)
              else
                let kern_mem = entry_addr e + entry_len e in
                (mp\<lparr>avail_size := avail_size mp + entry_len e\<rparr>,
                 if kern_mem < max_kern_mem then max_kern_mem else kern_mem)
            else if entry_type e = MULTIBOOT_MEMORY_RESERVED then
              (mp\<lparr>reserved_size := reserved_size mp + entry_len e\<rparr>, max_kern_mem)
            else if entry_type e = MULTIBOOT_MEMORY_ACPI_RECLAIMABLE then
              (mp\<lparr>acpi_size := acpi_size mp + entry_len e\<rparr>, max_kern_mem)
            else (mp, max_kern_mem));
         top = entry_addr e + entry_len e
     in (mp1\<lparr>tot_size := tot_size mp1 + entry_len e,
            max_phy := (if top < max_phy mp1 then max_phy mp1 else top),
            nr_page_structs := mkm div PAGESIZE\<rparr>, mkm))"

definition MemPages_Init :: "link_symbols \<Rightarrow> mem_pages \<Rightarrow> multiboot_tag_mmap \<Rightarrow> mem_pages result option" where
  "MemPages_Init ls mp mm =
     (case nr_mmap_entries mm of
        Inl e \<Rightarrow> Some (Inl e)
      | Inr n \<Rightarrow>
          let entries = mmap_entry_list mm n;
              mp1 = fst (fold MemPages_Init_entry entries (mp, 0))
          in CollectAvailable ls mp1 entries)"

section \<open>The free list and its invariant\<close>

fun pg_of :: "mem_pages \<Rightarrow> page_ptr \<Rightarrow> page" where
  "pg_of mp NullPage = zero_page"
| "pg_of mp PageHead = page_head mp"
| "pg_of mp (PageAt i) = page_structs mp i"

text \<open>The \<^verbatim>\<open>alloc_prev\<close>/\<^verbatim>\<open>alloc_next\<close> fields seen as a store of list nodes.\<close>

definition links :: "mem_pages \<Rightarrow> page_ptr node_heap" where
  "links mp p = \<lparr>node_prev = alloc_prev (pg_of mp p), node_next = alloc_next (pg_of mp p)\<rparr>"

definition page_list :: "mem_pages \<Rightarrow> nat list \<Rightarrow> bool" where
  "page_list mp fl \<longleftrightarrow> dlist (links mp) PageHead (map PageAt fl)"

text \<open>
  The invariant: the list holds exactly the pages whose \<^verbatim>\<open>is_free\<close> is set, each once, all of them
  inside the array.
\<close>

definition mp_inv :: "mem_pages \<Rightarrow> nat list \<Rightarrow> bool" where
  "mp_inv mp fl \<longleftrightarrow> page_list mp fl \<and> set fl \<subseteq> {..<unat (nr_page_structs mp)} \<and>
     (\<forall>i < unat (nr_page_structs mp).
        is_free (page_structs mp i) = (i \<in> set fl) \<and> is_in_list (page_structs mp i) = (i \<in> set fl))"

text \<open>What the list operations never touch.\<close>

definition same_meta :: "mem_pages \<Rightarrow> mem_pages \<Rightarrow> bool" where
  "same_meta mp mp' \<longleftrightarrow>
     mp' = mp\<lparr>page_head := page_head mp', page_structs := page_structs mp'\<rparr> \<and>
     (\<forall>i. phyaddr (page_structs mp' i) = phyaddr (page_structs mp i) \<and>
          slab_ptr (page_structs mp' i) = slab_ptr (page_structs mp i) \<and>
          slab_obj_size (page_structs mp' i) = slab_obj_size (page_structs mp i))"

lemma links_prev [simp]: "node_prev (links mp p) = alloc_prev (pg_of mp p)"
  by (simp add: links_def)

lemma links_next [simp]: "node_next (links mp p) = alloc_next (pg_of mp p)"
  by (simp add: links_def)

lemma pg_of_set_page [simp]:
  "pg_of (set_page mp i f) p = (if p = PageAt i then f (page_structs mp i) else pg_of mp p)"
  by (cases p) (auto simp: set_page_def)

lemma pg_of_set_head [simp]:
  "pg_of (mp\<lparr>page_head := h\<rparr>) p = (if p = PageHead then h else pg_of mp p)"
  by (cases p) auto

lemma page_structs_set_page [simp]:
  "page_structs (set_page mp i f) = (page_structs mp)(i := f (page_structs mp i))"
  by (simp add: set_page_def)

lemma page_head_set_page [simp]: "page_head (set_page mp i f) = page_head mp"
  by (simp add: set_page_def)

lemma nr_page_structs_set_page [simp]: "nr_page_structs (set_page mp i f) = nr_page_structs mp"
  by (simp add: set_page_def)

text \<open>Through a pointer that is not null an access succeeds.\<close>

definition put_page :: "mem_pages \<Rightarrow> page_ptr \<Rightarrow> (page \<Rightarrow> page) \<Rightarrow> mem_pages" where
  "put_page mp p f = (case p of NullPage \<Rightarrow> mp | PageHead \<Rightarrow> mp\<lparr>page_head := f (page_head mp)\<rparr>
     | PageAt i \<Rightarrow> set_page mp i f)"

lemma rd_page_ok: "p \<noteq> NullPage \<Longrightarrow> rd_page mp p = Inr (pg_of mp p)"
  by (cases p) auto

lemma wr_page_ok: "p \<noteq> NullPage \<Longrightarrow> wr_page mp p f = Inr (put_page mp p f)"
  by (cases p) (auto simp: put_page_def)

lemma pg_of_put_page [simp]:
  "pg_of (put_page mp p f) q = (if p = q \<and> q \<noteq> NullPage then f (pg_of mp q) else pg_of mp q)"
  by (cases p) (auto simp: put_page_def)

lemma page_head_put_page:
  "page_head (put_page mp p f) = (if p = PageHead then f (page_head mp) else page_head mp)"
  by (cases p) (auto simp: put_page_def)

lemma page_structs_put_page:
  "page_structs (put_page mp p f) i = (if p = PageAt i then f (page_structs mp i) else page_structs mp i)"
  by (cases p) (auto simp: put_page_def)

lemma nr_page_structs_put_page [simp]: "nr_page_structs (put_page mp p f) = nr_page_structs mp"
  by (cases p) (auto simp: put_page_def)

lemma page_list_not_null:
  assumes "page_list mp fl"
  shows "p \<in> insert PageHead (PageAt ` set fl) \<Longrightarrow> alloc_next (pg_of mp p) \<noteq> NullPage"
    and "p \<in> insert PageHead (PageAt ` set fl) \<Longrightarrow> alloc_prev (pg_of mp p) \<noteq> NullPage"
  using dlist_next_mem [of "links mp" PageHead "map PageAt fl" p]
    dlist_prev_mem [of "links mp" PageHead "map PageAt fl" p] assms
  by (auto simp: page_list_def)

section \<open>Single pages refine list operations\<close>

lemma mp_inv_list: "mp_inv mp fl \<Longrightarrow> page_list mp fl"
  by (simp add: mp_inv_def)

lemma mp_inv_distinct: "mp_inv mp fl \<Longrightarrow> distinct fl"
  using dlist_distinct [of "links mp" PageHead "map PageAt fl"]
  by (auto simp: mp_inv_def page_list_def distinct_map)

lemma mp_inv_less: "mp_inv mp fl \<Longrightarrow> i \<in> set fl \<Longrightarrow> i < unat (nr_page_structs mp)"
  by (auto simp: mp_inv_def)

text \<open>The test that opens \<^verbatim>\<open>AllocPage\<close> holds with one page on the list as well as with none.\<close>

lemma page_list_short:
  assumes "page_list mp fl"
  shows "alloc_next (page_head mp) = alloc_prev (page_head mp) \<longleftrightarrow> length fl \<le> 1"
proof -
  have d: "dlist (links mp) PageHead (map PageAt fl)"
    using assms by (simp add: page_list_def)
  show ?thesis
    using dlist_next [OF d] dlist_prev [OF d] dlist_distinct [OF d]
    by (cases fl; cases "tl fl") (auto simp: last_map distinct_map split: if_splits)
qed

lemma AllocPage_step:
  assumes "page_list mp (x # y # r)"
  obtains mp' where "AllocPage mp = Inr (PageAt x, mp')"
    and "links mp' = Delete (links mp) (PageAt x)"
    and "same_meta mp mp'"
    and "page_structs mp' x = (page_structs mp x)\<lparr>is_free := False, is_in_list := False\<rparr>"
    and "\<And>i. i \<noteq> x \<Longrightarrow> is_free (page_structs mp' i) = is_free (page_structs mp i)"
    and "\<And>i. i \<noteq> x \<Longrightarrow> is_in_list (page_structs mp' i) = is_in_list (page_structs mp i)"
proof -
  have d: "dlist (links mp) PageHead (PageAt x # PageAt y # map PageAt r)"
    using assms by (simp add: page_list_def)
  have n: "alloc_next (page_head mp) = PageAt x" and xn: "alloc_next (page_structs mp x) = PageAt y"
    and xp: "alloc_prev (page_structs mp x) = PageHead" and xy: "x \<noteq> y"
    using d by (auto simp: dlist_def)
  have ne: "alloc_next (page_head mp) \<noteq> alloc_prev (page_head mp)"
    using page_list_short [OF assms] by simp
  let ?mp1 = "mp\<lparr>page_head := (page_head mp)\<lparr>alloc_next := PageAt y\<rparr>\<rparr>"
  let ?mp2 = "set_page ?mp1 y (\<lambda>p. p\<lparr>alloc_prev := PageHead\<rparr>)"
  let ?mp3 = "set_page ?mp2 x (\<lambda>p. p\<lparr>is_free := False, is_in_list := False\<rparr>)"
  have "AllocPage mp = Inr (PageAt x, ?mp3)"
    using n ne xn by (simp add: AllocPage_def)
  moreover have "links ?mp3 = Delete (links mp) (PageAt x)"
    by (rule ext, rule node_eqI)
      (use n xn xp xy in \<open>auto simp: Delete_next Delete_prev\<close>)
  moreover have "same_meta mp ?mp3"
    by (simp add: same_meta_def set_page_def)
  ultimately show thesis
    using that xy by simp
qed

lemma FreePage_step:
  assumes "page_list mp fl" and "x \<notin> set fl"
  obtains mp' where "FreePage mp (PageAt x) = Inr mp'"
    and "links mp' = InsertAfter (links mp) (PageAt x) PageHead"
    and "same_meta mp mp'"
    and "is_free (page_structs mp' x)" and "is_in_list (page_structs mp' x)"
    and "\<And>i. i \<noteq> x \<Longrightarrow> is_free (page_structs mp' i) = is_free (page_structs mp i)"
    and "\<And>i. i \<noteq> x \<Longrightarrow> is_in_list (page_structs mp' i) = is_in_list (page_structs mp i)"
proof -
  have d: "dlist (links mp) PageHead (map PageAt fl)"
    using assms by (simp add: page_list_def)
  define q where "q = alloc_next (page_head mp)"
  have q: "q \<in> insert PageHead (PageAt ` set fl)"
    using dlist_next_mem [OF d, of PageHead] by (simp add: q_def)
  then have qn: "q \<noteq> NullPage" "q \<noteq> PageAt x"
    using assms(2) by auto
  let ?mp1 = "set_page mp x (\<lambda>p. p\<lparr>alloc_next := q\<rparr>)"
  let ?mp2 = "put_page ?mp1 q (\<lambda>p. p\<lparr>alloc_prev := PageAt x\<rparr>)"
  let ?mp3 = "?mp2\<lparr>page_head := (page_head ?mp2)\<lparr>alloc_next := PageAt x\<rparr>\<rparr>"
  let ?mp4 = "set_page ?mp3 x (\<lambda>p. p\<lparr>alloc_prev := PageHead, is_free := True, is_in_list := True\<rparr>)"
  have "FreePage mp (PageAt x) = Inr ?mp4"
    using qn by (simp add: FreePage_def wr_page_ok Let_def flip: q_def)
  moreover have "links ?mp4 = InsertAfter (links mp) (PageAt x) PageHead"
    by (rule ext, rule node_eqI)
      (use qn in \<open>auto simp: InsertAfter_next InsertAfter_prev page_head_put_page page_structs_put_page
         simp flip: q_def\<close>)
  moreover have "same_meta mp ?mp4"
    by (cases q) (auto simp: same_meta_def put_page_def set_page_def)
  ultimately show thesis
    using that qn by (simp add: page_structs_put_page)
qed

lemma same_metaD:
  assumes "same_meta mp mp'"
  shows "nr_page_structs mp' = nr_page_structs mp"
    and "phyaddr (page_structs mp' i) = phyaddr (page_structs mp i)"
    and "slab_ptr (page_structs mp' i) = slab_ptr (page_structs mp i)"
    and "slab_obj_size (page_structs mp' i) = slab_obj_size (page_structs mp i)"
  using assms unfolding same_meta_def by (metis mem_pages.select_convs(9) mem_pages.surjective
      mem_pages.update_convs(7,8), blast+)

lemma same_meta_refl [simp]: "same_meta mp mp"
  by (simp add: same_meta_def)

lemma same_meta_trans: "same_meta a b \<Longrightarrow> same_meta b c \<Longrightarrow> same_meta a c"
  unfolding same_meta_def by (metis (no_types, lifting) mem_pages.surjective mem_pages.update_convs(7,8))

text \<open>
  With at least two free pages \<^verbatim>\<open>AllocPage\<close> takes the first of the list; with one or none it
  returns null and changes nothing.
\<close>

lemma AllocPage_inv:
  assumes "mp_inv mp (x # y # r)"
  obtains mp' where "AllocPage mp = Inr (PageAt x, mp')" and "mp_inv mp' (y # r)"
    and "same_meta mp mp'"
proof -
  from AllocPage_step [OF mp_inv_list [OF assms]] obtain mp' where mp':
    "AllocPage mp = Inr (PageAt x, mp')" "links mp' = Delete (links mp) (PageAt x)"
    "same_meta mp mp'"
    "page_structs mp' x = (page_structs mp x)\<lparr>is_free := False, is_in_list := False\<rparr>"
    "\<And>i. i \<noteq> x \<Longrightarrow> is_free (page_structs mp' i) = is_free (page_structs mp i)"
    "\<And>i. i \<noteq> x \<Longrightarrow> is_in_list (page_structs mp' i) = is_in_list (page_structs mp i)"
    by blast
  have "page_list mp' (y # r)"
    using ln.contents_unlink [of "links mp" PageHead "[]" "PageAt x" "map PageAt (y # r)"]
      mp_inv_list [OF assms] mp'(2) by (simp add: page_list_def)
  moreover have "i < unat (nr_page_structs mp) \<Longrightarrow>
      is_free (page_structs mp' i) = (i \<in> set (y # r)) \<and> is_in_list (page_structs mp' i) = (i \<in> set (y # r))" for i
    using assms mp_inv_distinct [OF assms] mp'(4-6) by (cases "i = x") (auto simp: mp_inv_def)
  ultimately have "mp_inv mp' (y # r)"
    using assms same_metaD(1) [OF mp'(3)] by (auto simp: mp_inv_def)
  with mp'(1,3) show thesis using that by blast
qed

lemma AllocPage_short:
  "mp_inv mp fl \<Longrightarrow> length fl \<le> 1 \<Longrightarrow> AllocPage mp = Inr (NullPage, mp)"
  using page_list_short [OF mp_inv_list, of mp fl] by (simp add: AllocPage_def)

lemma FreePage_inv:
  assumes "mp_inv mp fl" and "x < unat (nr_page_structs mp)" and "x \<notin> set fl"
  obtains mp' where "FreePage mp (PageAt x) = Inr mp'" and "mp_inv mp' (x # fl)" and "same_meta mp mp'"
proof -
  from FreePage_step [OF mp_inv_list [OF assms(1)] assms(3)] obtain mp' where mp':
    "FreePage mp (PageAt x) = Inr mp'" "links mp' = InsertAfter (links mp) (PageAt x) PageHead"
    "same_meta mp mp'" "is_free (page_structs mp' x)" "is_in_list (page_structs mp' x)"
    "\<And>i. i \<noteq> x \<Longrightarrow> is_free (page_structs mp' i) = is_free (page_structs mp i)"
    "\<And>i. i \<noteq> x \<Longrightarrow> is_in_list (page_structs mp' i) = is_in_list (page_structs mp i)"
    by blast
  have "page_list mp' (x # fl)"
    using ln.contents_push_front [of "links mp" PageHead "map PageAt fl" "PageAt x"]
      mp_inv_list [OF assms(1)] assms(3) mp'(2) by (auto simp: page_list_def)
  moreover have "i < unat (nr_page_structs mp) \<Longrightarrow>
      is_free (page_structs mp' i) = (i \<in> set (x # fl)) \<and> is_in_list (page_structs mp' i) = (i \<in> set (x # fl))" for i
    using assms mp'(4-7) by (cases "i = x") (auto simp: mp_inv_def)
  ultimately have "mp_inv mp' (x # fl)"
    using assms same_metaD(1) [OF mp'(3)] by (auto simp: mp_inv_def)
  with mp'(1,3) show thesis using that by blast
qed

section \<open>Runs of pages\<close>

text \<open>\<open>n\<close> consecutive free pages from page \<open>s\<close>, inside the array.\<close>

definition free_pages_at :: "mem_pages \<Rightarrow> nat \<Rightarrow> nat \<Rightarrow> bool" where
  "free_pages_at mp n s \<longleftrightarrow> s + n \<le> unat (nr_page_structs mp) \<and> (\<forall>k < n. is_free (page_structs mp (s + k)))"

lemma scan_bound:
  assumes "n \<le> unat nr" and "i < unat nr"
  shows "(nr :: u64) - of_int (int n) < of_nat i \<longleftrightarrow> unat nr - n < i"
proof -
  have n: "unat (of_nat n :: u64) = n"
    using assms(1) unat_u64_less [of nr] by (intro of_nat_inverse [OF refl]) auto
  have i: "unat (of_nat i :: u64) = i"
    using assms(2) unat_u64_less [of nr] by (intro of_nat_inverse [OF refl]) auto
  have "unat (nr - of_nat n) = unat nr - n"
    using assms(1) n unat_sub [of "of_nat n" nr] by (simp add: word_le_nat_alt)
  then show ?thesis
    by (simp add: word_less_nat_alt i)
qed

lemma scan_free_invariant:
  fixes n :: nat
  assumes "1 \<le> n" and "n \<le> unat (nr_page_structs mp)" and "i \<le> unat (nr_page_structs mp)"
    and "start = - 1 \<and> (\<forall>s. free_pages_at mp n s \<longrightarrow> i \<le> s) \<or>
      (\<exists>s0. start = int s0 \<and> s0 < i \<and> i < s0 + n \<and> s0 + n \<le> unat (nr_page_structs mp) \<and>
        (\<forall>k. s0 \<le> k \<longrightarrow> k < i \<longrightarrow> is_free (page_structs mp k)) \<and>
        (\<forall>s. free_pages_at mp n s \<longrightarrow> s0 \<le> s))"
  shows "scan_free mp (int n) i start = - 1 \<and> (\<forall>s. \<not> free_pages_at mp n s) \<or>
    (\<exists>s0. scan_free mp (int n) i start = int s0 \<and> free_pages_at mp n s0 \<and>
       (\<forall>s. free_pages_at mp n s \<longrightarrow> s0 \<le> s))"
  using assms
proof (induction mp "int n" i start rule: scan_free.induct)
  case (1 mp i start)
  let ?nr = "unat (nr_page_structs mp)"
  show ?case
  proof (cases "i < ?nr")
    case False
    then have "scan_free mp (int n) i start = start"
      by (simp add: scan_free.simps [of mp "int n" i start])
    with False "1.prems" show ?thesis
      by (auto simp: free_pages_at_def)
  next
    case inside: True
    show ?thesis
    proof (cases "is_free (page_structs mp i)")
      case busy: False
      have "Suc i \<le> s" if run: "free_pages_at mp n s" for s
      proof (rule ccontr)
        assume "\<not> Suc i \<le> s"
        then have "s \<le> i" by simp
        moreover have "i < s + n"
        proof (cases "start = - 1")
          case True
          with "1.prems"(4) run have "i \<le> s" by auto
          with "1.prems"(1) show ?thesis by simp
        next
          case False
          with "1.prems"(4) run obtain s0 where "i < s0 + n" and "s0 \<le> s" by auto
          then show ?thesis by simp
        qed
        ultimately have "i - s < n" by simp
        with run have "is_free (page_structs mp (s + (i - s)))"
          by (simp only: free_pages_at_def)
        with busy \<open>s \<le> i\<close> show False by simp
      qed
      with "1.hyps"(1) [OF inside busy] "1.prems" inside busy show ?thesis
        by (simp add: scan_free.simps [of mp "int n" i start])
    next
      case free: True
      show ?thesis
      proof (cases "start = - 1 \<and> nr_page_structs mp - of_int (int n) < of_nat i")
        case True
        then have "?nr - n < i"
          using scan_bound [of n "nr_page_structs mp" i] "1.prems"(2) inside by simp
        moreover have "\<forall>s. free_pages_at mp n s \<longrightarrow> i \<le> s"
          using True "1.prems"(4) by auto
        ultimately have "\<forall>s. \<not> free_pages_at mp n s"
          by (fastforce simp: free_pages_at_def)
        moreover have "scan_free mp (int n) i start = - 1"
          using True inside free by (subst scan_free.simps) simp
        ultimately show ?thesis by simp
      next
        case go: False
        define s0 where "s0 = (if start = - 1 then i else nat start)"
        have st: "(if start = - 1 then int i else start) = int s0"
          using "1.prems"(4) by (auto simp: s0_def)
        have s0: "s0 \<le> i \<and> i < s0 + n \<and> s0 + n \<le> ?nr \<and>
          (\<forall>k. s0 \<le> k \<longrightarrow> k < i \<longrightarrow> is_free (page_structs mp k)) \<and>
          (\<forall>s. free_pages_at mp n s \<longrightarrow> s0 \<le> s)"
        proof (cases "start = - 1")
          case True
          then have "i \<le> ?nr - n"
            using go scan_bound [of n "nr_page_structs mp" i] "1.prems"(2) inside by simp
          with True "1.prems"(1,2,4) show ?thesis by (auto simp: s0_def)
        next
          case False
          with "1.prems"(4) show ?thesis by (auto simp: s0_def)
        qed
        then have run: "\<forall>k. s0 \<le> k \<longrightarrow> k < Suc i \<longrightarrow> is_free (page_structs mp k)"
          using free by (auto simp: less_Suc_eq)
        show ?thesis
        proof (cases "int i = int s0 + int n - 1")
          case True
          with s0 run have "free_pages_at mp n s0"
            by (auto simp: free_pages_at_def)
          with True s0 st go inside free show ?thesis
            by (auto simp: scan_free.simps [of mp "int n" i start] Let_def)
        next
          case False
          have "scan_free mp (int n) i start = scan_free mp (int n) (Suc i) (int s0)"
            using False st go inside free by (auto simp: scan_free.simps [of mp "int n" i start] Let_def)
          moreover have "Suc i < s0 + n" using False s0 by linarith
          ultimately show ?thesis
            using "1.hyps"(2) [OF inside _ go st [symmetric]] False s0 run free "1.prems"(1,2) inside
            by auto
        qed
      qed
    qed
  qed
qed

text \<open>First fit: the scan finds the lowest run of free pages, if there is one.\<close>

lemma scan_free_first_fit:
  assumes "1 \<le> n" and "n \<le> unat (nr_page_structs mp)"
  shows "scan_free mp (int n) 0 (- 1) = - 1 \<and> (\<forall>s. \<not> free_pages_at mp n s) \<or>
    (\<exists>s0. scan_free mp (int n) 0 (- 1) = int s0 \<and> free_pages_at mp n s0 \<and>
       (\<forall>s. free_pages_at mp n s \<longrightarrow> s0 \<le> s))"
  by (rule scan_free_invariant) (use assms in auto)

lemma unlink_page_step:
  assumes "page_list mp fl" and "x \<in> set fl"
  obtains mp' where "unlink_page mp x = Inr mp'"
    and "links mp' = Delete (links mp) (PageAt x)"
    and "same_meta mp mp'"
    and "\<not> is_free (page_structs mp' x)" and "\<not> is_in_list (page_structs mp' x)"
    and "\<And>i. i \<noteq> x \<Longrightarrow> is_free (page_structs mp' i) = is_free (page_structs mp i)"
    and "\<And>i. i \<noteq> x \<Longrightarrow> is_in_list (page_structs mp' i) = is_in_list (page_structs mp i)"
proof -
  define q where "q = alloc_next (page_structs mp x)"
  define p where "p = alloc_prev (page_structs mp x)"
  have nn: "p \<noteq> NullPage" "q \<noteq> NullPage"
    using page_list_not_null [OF assms(1), of "PageAt x"] assms(2) by (auto simp: p_def q_def)
  obtain as bs where fl: "map PageAt fl = as @ PageAt x # bs"
    using assms(2) by (metis imageI list.set_map split_list)
  have d: "dlist (links mp) PageHead (as @ PageAt x # bs)"
    using assms(1) fl by (simp add: page_list_def)
  have px: "p \<noteq> PageAt x"
    using dlist_neighbours(1) [OF d] dlist_distinct [OF d]
    by (cases as rule: rev_cases) (auto simp: p_def)
  let ?mp1 = "put_page mp p (\<lambda>r. r\<lparr>alloc_next := q\<rparr>)"
  let ?mp2 = "put_page ?mp1 q (\<lambda>r. r\<lparr>alloc_prev := p\<rparr>)"
  let ?mp3 = "set_page ?mp2 x (\<lambda>r. r\<lparr>is_free := False, is_in_list := False\<rparr>)"
  have "unlink_page mp x = Inr ?mp3"
    using nn px by (simp add: unlink_page_def wr_page_ok page_structs_put_page flip: p_def q_def)
  moreover have "links ?mp3 = Delete (links mp) (PageAt x)"
    by (rule ext, rule node_eqI)
      (use nn px in \<open>auto simp: Delete_next Delete_prev page_structs_put_page simp flip: p_def q_def\<close>)
  moreover have "same_meta mp ?mp3"
    by (cases p; cases q) (auto simp: same_meta_def put_page_def set_page_def)
  ultimately show thesis
    using that by (simp add: page_structs_put_page)
qed

lemma unlink_page_inv:
  assumes "mp_inv mp fl" and "x \<in> set fl"
  obtains mp' where "unlink_page mp x = Inr mp'" and "mp_inv mp' (remove1 x fl)" and "same_meta mp mp'"
proof -
  from unlink_page_step [OF mp_inv_list [OF assms(1)] assms(2)] obtain mp' where mp':
    "unlink_page mp x = Inr mp'" "links mp' = Delete (links mp) (PageAt x)" "same_meta mp mp'"
    "\<not> is_free (page_structs mp' x)" "\<not> is_in_list (page_structs mp' x)"
    "\<And>i. i \<noteq> x \<Longrightarrow> is_free (page_structs mp' i) = is_free (page_structs mp i)"
    "\<And>i. i \<noteq> x \<Longrightarrow> is_in_list (page_structs mp' i) = is_in_list (page_structs mp i)"
    by blast
  have "map PageAt (remove1 x fl) = remove1 (PageAt x) (map PageAt fl)"
    by (induction fl) auto
  then have "page_list mp' (remove1 x fl)"
    using dlist_Delete_remove1 [of "links mp" PageHead "map PageAt fl" "PageAt x"]
      mp_inv_list [OF assms(1)] assms(2) mp'(2) by (auto simp: page_list_def)
  moreover have "i < unat (nr_page_structs mp) \<Longrightarrow>
      is_free (page_structs mp' i) = (i \<in> set (remove1 x fl)) \<and>
      is_in_list (page_structs mp' i) = (i \<in> set (remove1 x fl))" for i
    using assms mp_inv_distinct [OF assms(1)] mp'(4-7) by (cases "i = x") (auto simp: mp_inv_def)
  ultimately have "mp_inv mp' (remove1 x fl)"
    using assms mp_inv_distinct [OF assms(1)] same_metaD(1) [OF mp'(3)] by (auto simp: mp_inv_def)
  with mp'(1,3) show thesis using that by blast
qed

lemma unlink_run_inv:
  assumes "mp_inv mp fl" and "{x..<x + k} \<subseteq> set fl"
  obtains mp' where "unlink_run mp x k = Inr mp'"
    and "mp_inv mp' (filter (\<lambda>i. i \<notin> {x..<x + k}) fl)" and "same_meta mp mp'"
  using assms
proof (induction k arbitrary: mp fl x thesis)
  case 0
  then show ?case by simp
next
  case (Suc k)
  have "x \<in> set fl" using Suc.prems(3) by auto
  then obtain mp1 where mp1: "unlink_page mp x = Inr mp1" "mp_inv mp1 (remove1 x fl)" "same_meta mp mp1"
    using unlink_page_inv [OF Suc.prems(2)] by blast
  have d: "distinct fl" using mp_inv_distinct [OF Suc.prems(2)] .
  have "{Suc x..<Suc x + k} \<subseteq> set (remove1 x fl)"
    using Suc.prems(3) d by (auto simp: subset_iff)
  then obtain mp' where mp': "unlink_run mp1 (Suc x) k = Inr mp'"
    "mp_inv mp' (filter (\<lambda>i. i \<notin> {Suc x..<Suc x + k}) (remove1 x fl))" "same_meta mp1 mp'"
    using Suc.IH [OF _ mp1(2)] by blast
  have "filter (\<lambda>i. i \<notin> {Suc x..<Suc x + k}) (remove1 x fl) = filter (\<lambda>i. i \<notin> {x..<x + Suc k}) fl"
    using d by (auto simp: distinct_remove1_removeAll removeAll_filter_not_eq intro!: filter_cong)
  with mp1 mp' show ?case
    using Suc.prems(1) same_meta_trans by (auto simp del: remove1.simps)
qed

lemma mp_inv_free_iff:
  "mp_inv mp fl \<Longrightarrow> free_pages_at mp n s \<longleftrightarrow> {s..<s + n} \<subseteq> set fl \<and> s + n \<le> unat (nr_page_structs mp)"
proof -
  assume inv: "mp_inv mp fl"
  have "(\<forall>k<n. is_free (page_structs mp (s + k))) \<longleftrightarrow> {s..<s + n} \<subseteq> set fl"
    if "s + n \<le> unat (nr_page_structs mp)"
  proof -
    have "(\<forall>k<n. is_free (page_structs mp (s + k))) \<longleftrightarrow> (\<forall>k<n. s + k \<in> set fl)"
      using inv that by (auto simp: mp_inv_def)
    also have "\<dots> \<longleftrightarrow> {s..<s + n} \<subseteq> set fl"
      by (simp only: all_offsets_iff [where P = "\<lambda>i. i \<in> set fl"] subset_iff Ball_def)
    finally show ?thesis .
  qed
  then show ?thesis by (auto simp: free_pages_at_def)
qed

lemma AllocPages_inv:
  assumes "mp_inv mp fl" and "2 \<le> n" and "n \<le> unat (nr_page_structs mp)" and "free_pages_at mp n s"
  obtains x mp' where "AllocPages mp (int n) = Inr (PageAt x, mp')" and "free_pages_at mp n x"
    and "x \<le> s" and "mp_inv mp' (filter (\<lambda>i. i \<notin> {x..<x + n}) fl)" and "same_meta mp mp'"
proof -
  obtain x where x: "scan_free mp (int n) 0 (- 1) = int x" "free_pages_at mp n x" "x \<le> s"
    using scan_free_first_fit [of n mp] assms by auto
  have "{x..<x + n} \<subseteq> set fl"
    using x(2) mp_inv_free_iff [OF assms(1)] by blast
  then obtain mp' where "unlink_run mp x n = Inr mp'"
    "mp_inv mp' (filter (\<lambda>i. i \<notin> {x..<x + n}) fl)" "same_meta mp mp'"
    using unlink_run_inv [OF assms(1)] by blast
  with x assms(2) show thesis
    using that by (simp add: AllocPages_def Let_def)
qed

lemma AllocPages_none:
  assumes "2 \<le> n" and "n \<le> unat (nr_page_structs mp)" and "\<And>s. \<not> free_pages_at mp n s"
  shows "AllocPages mp (int n) = Inr (NullPage, mp)"
  using scan_free_first_fit [of n mp] assms by (auto simp: AllocPages_def Let_def)

lemma free_run_inv:
  assumes "mp_inv mp fl" and "x + i + k \<le> unat (nr_page_structs mp)" and "{x + i..<x + i + k} \<inter> set fl = {}"
  obtains mp' where "free_run mp (PageAt x) i k = Inr mp'"
    and "mp_inv mp' (rev [x + i..<x + i + k] @ fl)" and "same_meta mp mp'"
  using assms
proof (induction k arbitrary: mp fl i thesis)
  case 0
  then show ?case by simp
next
  case (Suc k)
  have "x + i < unat (nr_page_structs mp)" and "x + i \<notin> set fl"
    using Suc.prems(3,4) by (auto simp: disjoint_iff)
  then obtain mp1 where mp1: "FreePage mp (PageAt (x + i)) = Inr mp1" "mp_inv mp1 ((x + i) # fl)"
    "same_meta mp mp1"
    using FreePage_inv [OF Suc.prems(2)] by blast
  have "x + Suc i + k \<le> unat (nr_page_structs mp1)"
    using Suc.prems(3) same_metaD(1) [OF mp1(3)] by simp
  moreover have "{x + Suc i..<x + Suc i + k} \<inter> set ((x + i) # fl) = {}"
    using Suc.prems(4) by (auto simp: disjoint_iff)
  ultimately obtain mp' where mp': "free_run mp1 (PageAt x) (Suc i) k = Inr mp'"
    "mp_inv mp' (rev [x + Suc i..<x + Suc i + k] @ (x + i) # fl)" "same_meta mp1 mp'"
    using Suc.IH [OF _ mp1(2)] by blast
  have "rev [x + Suc i..<x + Suc i + k] @ (x + i) # fl = rev [x + i..<x + i + Suc k] @ fl"
    by (simp add: upt_rec [of "x + i" "Suc (x + (i + k))"] add.assoc del: upt_Suc)
  with mp'(2) have inv: "mp_inv mp' (rev [x + i..<x + i + Suc k] @ fl)" by metis
  have run: "free_run mp (PageAt x) i (Suc k) = Inr mp'"
    using mp1(1) mp'(1) by simp
  show ?case
    by (rule Suc.prems(1) [OF run inv same_meta_trans [OF mp1(3) mp'(3)]])
qed

lemma FreePages_inv:
  assumes "mp_inv mp fl" and "x + n \<le> unat (nr_page_structs mp)" and "{x..<x + n} \<inter> set fl = {}"
    and "1 \<le> n"
  obtains mp' where "FreePages mp (PageAt x) (int n) = Inr mp'"
    and "mp_inv mp' (rev [x..<x + n] @ fl)" and "same_meta mp mp'"
proof (cases "n = 1")
  case True
  with assms obtain mp' where "FreePage mp (PageAt x) = Inr mp'" "mp_inv mp' (x # fl)" "same_meta mp mp'"
    using FreePage_inv [of mp fl x] by auto
  with True show thesis using that by (simp add: FreePages_def)
next
  case False
  obtain mp' where "free_run mp (PageAt x) 0 n = Inr mp'" "mp_inv mp' (rev [x..<x + n] @ fl)" "same_meta mp mp'"
    using free_run_inv [of mp fl x 0 n] assms by auto
  with False show thesis
    using that by (simp add: FreePages_def)
qed

section \<open>Start-up builds the free list\<close>

text \<open>
  The state between two turns of the collecting loops: \<open>fl\<close> has been linked so far and
  \<open>last_page\<close> is its end. Before the first page the head's pointers are still unset.
\<close>

definition collected :: "mem_pages \<Rightarrow> nat list \<Rightarrow> page_ptr \<Rightarrow> bool" where
  "collected mp fl last_page \<longleftrightarrow> distinct fl \<and> set fl \<subseteq> {..<unat (nr_page_structs mp)} \<and>
     (\<forall>i < unat (nr_page_structs mp).
        is_free (page_structs mp i) = (i \<in> set fl) \<and> is_in_list (page_structs mp i) = (i \<in> set fl)) \<and>
     (if fl = [] then last_page = PageHead else page_list mp fl \<and> last_page = PageAt (last fl))"

lemma collected_inv: "collected mp fl last_page \<Longrightarrow> fl \<noteq> [] \<Longrightarrow> mp_inv mp fl"
  by (simp add: collected_def mp_inv_def)

lemma collected_set_page:
  assumes "collected mp fl last_page"
    and "alloc_next (f (page_structs mp i)) = alloc_next (page_structs mp i)"
    and "alloc_prev (f (page_structs mp i)) = alloc_prev (page_structs mp i)"
    and "is_free (f (page_structs mp i)) = is_free (page_structs mp i)"
    and "is_in_list (f (page_structs mp i)) = is_in_list (page_structs mp i)"
  shows "collected (set_page mp i f) fl last_page"
proof -
  have "links (set_page mp i f) = links mp"
    by (rule ext, rule node_eqI) (use assms(2,3) in auto)
  then show ?thesis
    using assms by (auto simp: collected_def page_list_def)
qed

lemma append_page_collected:
  assumes "collected mp fl last_page" and "i < unat (nr_page_structs mp)" and "i \<notin> set fl"
  obtains mp' where "append_page mp i last_page = Inr mp'" and "collected mp' (fl @ [i]) (PageAt i)"
    and "same_meta mp mp'"
proof -
  let ?f = "\<lambda>p. p\<lparr>is_free := True, is_in_list := True, alloc_next := PageHead, alloc_prev := last_page\<rparr>"
  let ?mp1 = "set_page mp i ?f"
  let ?mp2 = "?mp1\<lparr>page_head := (page_head ?mp1)\<lparr>alloc_prev := PageAt i\<rparr>\<rparr>"
  let ?mp3 = "put_page ?mp2 last_page (\<lambda>p. p\<lparr>alloc_next := PageAt i\<rparr>)"
  have l: "last_page \<noteq> NullPage" "last_page \<noteq> PageAt i"
    using assms(1,3) by (auto simp: collected_def split: if_splits)
  then have "append_page mp i last_page = Inr ?mp3"
    by (simp add: append_page_def wr_page_ok Let_def)
  moreover have "same_meta mp ?mp3"
    by (cases last_page) (auto simp: same_meta_def put_page_def set_page_def)
  moreover have "page_list ?mp3 (fl @ [i])"
  proof (cases "fl = []")
    case True
    then have "last_page = PageHead" using assms(1) by (simp add: collected_def)
    with True show ?thesis
      by (simp add: page_list_def dlist_def page_head_put_page page_structs_put_page)
  next
    case False
    then have pl: "page_list mp fl" and lp: "last_page = PageAt (last fl)"
      using assms(1) by (auto simp: collected_def)
    have pr: "alloc_prev (page_head mp) = last_page"
      using dlist_prev [of "links mp" PageHead "map PageAt fl"] pl False
      by (simp add: page_list_def last_map lp)
    have "links ?mp3 = InsertBefore (links mp) (PageAt i) PageHead"
      by (rule ext, rule node_eqI)
        (use l lp pr in \<open>auto simp: InsertBefore_next InsertBefore_prev page_head_put_page page_structs_put_page\<close>)
    then show ?thesis
      using ln.contents_push_back [of "links mp" PageHead "map PageAt fl" "PageAt i"] pl assms(3)
      by (auto simp: page_list_def)
  qed
  then have "collected ?mp3 (fl @ [i]) (PageAt i)"
    using assms l by (auto simp: collected_def page_structs_put_page)
  ultimately show thesis using that by blast
qed

text \<open>The page numbers of an address range, and those outside \<open>klo\<close> to \<open>khi\<close>.\<close>

definition range_pages :: "u64 \<Rightarrow> u64 \<Rightarrow> nat list" where
  "range_pages lo hi = [unat lo div 4096..<(unat hi + 4095) div 4096]"

definition outside :: "u64 \<Rightarrow> u64 \<Rightarrow> nat \<Rightarrow> bool" where
  "outside klo khi i \<longleftrightarrow> \<not> (klo \<le> of_nat (4096 * i) \<and> of_nat (4096 * i) < khi)"

definition phys_ok :: "mem_pages \<Rightarrow> nat set \<Rightarrow> bool" where
  "phys_ok mp A \<longleftrightarrow> (\<forall>i \<in> A. phyaddr (page_structs mp i) = of_nat (4096 * i))"

lemma collect_range_collected:
  assumes "collected mp fl last_page" and "unat paddr mod 4096 = 0"
    and "unat stop \<le> 4096 * unat (nr_page_structs mp)" and "unat (nr_page_structs mp) < 2 ^ 52"
    and "set (range_pages paddr stop) \<inter> set fl = {}" and "phys_ok mp A"
  shows "\<exists>mp' last_page'. collect_range mp paddr stop klo khi last_page = Some (Inr (mp', last_page')) \<and>
    collected mp' (fl @ filter (outside klo khi) (range_pages paddr stop)) last_page' \<and>
    nr_page_structs mp' = nr_page_structs mp \<and> phys_ok mp' (A \<union> set (range_pages paddr stop))"
  using assms
proof (induction "unat stop - unat paddr" arbitrary: mp fl last_page paddr A rule: less_induct)
  case less
  show ?case
  proof (cases "paddr < stop")
    case False
    then have "range_pages paddr stop = []"
      using less.prems(2) by (auto simp: range_pages_def word_less_nat_alt)
    with False less.prems show ?thesis
      by (subst collect_range.simps) auto
  next
    case True
    define i where "i = unat paddr div 4096"
    have P: "unat paddr = 4096 * i"
      using less.prems(2) by (auto simp: i_def)
    then have pd: "paddr = of_nat (4096 * i)"
      by (metis of_nat_unat word_unat_eq_iff ucast_id)
    have lt: "4096 * i < unat stop"
      using True P by (simp add: word_less_nat_alt)
    then have inr: "i < unat (nr_page_structs mp)"
      using less.prems(3) by simp
    have pn: "unat (PGNUM paddr) = i"
      by (simp add: unat_PGNUM i_def)
    have pg: "PG paddr = of_nat (4096 * i)"
      using less.prems(2) pd by simp
    have "4096 * Suc i \<le> 4096 * unat (nr_page_structs mp)"
      using inr by simp
    then have "4096 * i + 4096 < 2 ^ 64"
      using less.prems(4) by simp
    then have P': "unat (paddr + 4096) = 4096 * Suc i"
      using unat_add_lem [of paddr 4096] P by simp
    have rp: "range_pages paddr stop = i # range_pages (paddr + 4096) stop"
      using lt P P' by (simp add: range_pages_def upt_rec)
    let ?mp1 = "set_page mp i (\<lambda>p. p\<lparr>phyaddr := PG paddr\<rparr>)"
    have c1: "collected ?mp1 fl last_page"
      using less.prems(1) by (rule collected_set_page) auto
    have i1: "i \<notin> set fl" and r1: "set (range_pages (paddr + 4096) stop) \<inter> set (fl @ [i]) = {}"
      using less.prems(5) P' by (auto simp: rp) (auto simp: range_pages_def)
    have k: "klo \<le> paddr \<and> paddr < khi \<longleftrightarrow> \<not> outside klo khi i"
      by (simp add: outside_def pd)
    have m: "unat (paddr + 4096) mod 4096 = 0" by (simp add: P')
    have dec: "unat stop - unat (paddr + 4096) < unat stop - unat paddr"
      using P P' lt by (intro diff_less_mono2) simp_all
    note unfold = collect_range.simps [of mp paddr]
    show ?thesis
    proof (cases "klo \<le> paddr \<and> paddr < khi")
      case kern: True
      let ?mp2 = "set_page ?mp1 i (\<lambda>p. p\<lparr>is_free := False, is_in_list := False\<rparr>)"
      have "collected ?mp2 fl last_page"
        using c1 by (rule collected_set_page) (use less.prems(1) inr i1 in \<open>auto simp: collected_def\<close>)
      moreover have "phys_ok ?mp2 (insert i A)"
        using less.prems(6) pg by (auto simp: phys_ok_def)
      ultimately obtain mp' last' where IH:
        "collect_range ?mp2 (paddr + 4096) stop klo khi last_page = Some (Inr (mp', last'))"
        "collected mp' (fl @ filter (outside klo khi) (range_pages (paddr + 4096) stop)) last'"
        "nr_page_structs mp' = nr_page_structs ?mp2"
        "phys_ok mp' (insert i A \<union> set (range_pages (paddr + 4096) stop))"
        using less.hyps [OF dec _ m, of ?mp2 fl last_page "insert i A"] less.prems(3,4) r1
        by auto
      have "collect_range mp paddr stop klo khi last_page = Some (Inr (mp', last'))"
        using IH(1) True kern inr pn by (simp add: unfold word_less_nat_alt [of "PGNUM paddr"])
      with IH kern k show ?thesis by (auto simp: rp)
    next
      case free: False
      obtain mp2 where mp2: "append_page ?mp1 i last_page = Inr mp2" "collected mp2 (fl @ [i]) (PageAt i)"
        "same_meta ?mp1 mp2"
        using append_page_collected [OF c1 _ i1] inr by auto
      moreover have "phys_ok mp2 (insert i A)"
        using less.prems(6) pg same_metaD(2) [OF mp2(3)] by (auto simp: phys_ok_def)
      ultimately obtain mp' last' where IH:
        "collect_range mp2 (paddr + 4096) stop klo khi (PageAt i) = Some (Inr (mp', last'))"
        "collected mp' ((fl @ [i]) @ filter (outside klo khi) (range_pages (paddr + 4096) stop)) last'"
        "nr_page_structs mp' = nr_page_structs mp2"
        "phys_ok mp' (insert i A \<union> set (range_pages (paddr + 4096) stop))"
        using less.hyps [OF dec _ m, of mp2 "fl @ [i]" "PageAt i" "insert i A"]
          less.prems(3,4) r1 same_metaD(1) [OF mp2(3)] by auto
      have "collect_range mp paddr stop klo khi last_page = Some (Inr (mp', last'))"
        using IH(1) mp2(1) True free inr pn
        by (auto simp: unfold Let_def word_less_nat_alt [of "PGNUM paddr"])
      with IH free k same_metaD(1) [OF mp2(3)] show ?thesis by (auto simp: rp)
    qed
  qed
qed

text \<open>The memory map entries the allocator manages.\<close>

definition managed :: "multiboot_mmap_entry \<Rightarrow> bool" where
  "managed e \<longleftrightarrow> entry_type e = MULTIBOOT_MEMORY_AVAILABLE \<and> entry_addr e \<noteq> 0"

definition entry_pages :: "multiboot_mmap_entry \<Rightarrow> nat list" where
  "entry_pages e = range_pages (entry_addr e) (entry_addr e + entry_len e)"

definition managed_pages :: "multiboot_mmap_entry list \<Rightarrow> nat list" where
  "managed_pages es = concat (map entry_pages (filter managed es))"

text \<open>An entry starts on a page boundary and ends inside the page array.\<close>

definition entry_ok :: "nat \<Rightarrow> multiboot_mmap_entry \<Rightarrow> bool" where
  "entry_ok nr e \<longleftrightarrow> unat (entry_addr e) mod 4096 = 0 \<and> unat (entry_addr e + entry_len e) \<le> 4096 * nr"

lemma managed_pages_simps [simp]:
  "managed_pages [] = []"
  "managed_pages (e # es) = (if managed e then entry_pages e @ managed_pages es else managed_pages es)"
  by (simp_all add: managed_pages_def)

lemma collect_entries_collected:
  assumes "collected mp fl last_page" and "unat (nr_page_structs mp) < 2 ^ 52"
    and "\<forall>e \<in> set es. managed e \<longrightarrow> entry_ok (unat (nr_page_structs mp)) e"
    and "distinct (managed_pages es)" and "set (managed_pages es) \<inter> set fl = {}" and "phys_ok mp A"
  shows "\<exists>mp' last_page'. collect_entries mp es klo khi last_page = Some (Inr mp') \<and>
    collected mp' (fl @ filter (outside klo khi) (managed_pages es)) last_page' \<and>
    nr_page_structs mp' = nr_page_structs mp \<and> phys_ok mp' (A \<union> set (managed_pages es))"
  using assms
proof (induction es arbitrary: mp fl last_page A)
  case Nil
  then show ?case by auto
next
  case (Cons e es)
  show ?case
  proof (cases "managed e")
    case False
    with Cons.prems Cons.IH [of mp fl last_page A] show ?thesis
      by (auto simp: managed_def)
  next
    case True
    then have ok: "entry_ok (unat (nr_page_structs mp)) e" using Cons.prems(3) by simp
    obtain mp1 last1 where 1:
      "collect_range mp (entry_addr e) (entry_addr e + entry_len e) klo khi last_page = Some (Inr (mp1, last1))"
      "collected mp1 (fl @ filter (outside klo khi) (entry_pages e)) last1"
      "nr_page_structs mp1 = nr_page_structs mp" "phys_ok mp1 (A \<union> set (entry_pages e))"
      using collect_range_collected [OF Cons.prems(1), of "entry_addr e" "entry_addr e + entry_len e" A klo khi]
        ok Cons.prems(2,5,6) True by (auto simp: entry_ok_def entry_pages_def)
    have "set (managed_pages es) \<inter> set (fl @ filter (outside klo khi) (entry_pages e)) = {}"
      using Cons.prems(4,5) True by auto
    then obtain mp' last' where 2: "collect_entries mp1 es klo khi last1 = Some (Inr mp')"
      "collected mp' ((fl @ filter (outside klo khi) (entry_pages e)) @ filter (outside klo khi) (managed_pages es)) last'"
      "nr_page_structs mp' = nr_page_structs mp1"
      "phys_ok mp' ((A \<union> set (entry_pages e)) \<union> set (managed_pages es))"
      using Cons.IH [OF 1(2) _ _ _ _ 1(4)] Cons.prems(2,3,4) 1(3) True by auto
    with 1 True show ?thesis by (auto simp: managed_def Un_assoc)
  qed
qed

text \<open>The first and the last address of the memory the start-up code keeps for itself.\<close>

definition kernel_lo :: "link_symbols \<Rightarrow> u64" where
  "kernel_lo ls = PG (load_start ls)"

definition kernel_hi :: "link_symbols \<Rightarrow> u64 \<Rightarrow> u64" where
  "kernel_hi ls nr = PGALIGN (bss_end ls) + kBootLoaderSkipPages * PAGESIZE + sizeof_Page * nr"

lemma CollectAvailable_collected:
  assumes "unat (nr_page_structs mp) < 2 ^ 52"
    and "\<forall>e \<in> set es. managed e \<longrightarrow> entry_ok (unat (nr_page_structs mp)) e"
    and "distinct (managed_pages es)"
  shows "\<exists>mp' last_page'. CollectAvailable ls mp es = Some (Inr mp') \<and>
    collected mp' (filter (outside (kernel_lo ls) (kernel_hi ls (nr_page_structs mp))) (managed_pages es)) last_page' \<and>
    nr_page_structs mp' = nr_page_structs mp \<and> phys_ok mp' (set (managed_pages es))"
proof -
  let ?mp1 = "mp\<lparr>page_structs := (\<lambda>i. if i < unat (nr_page_structs mp) then zero_page else page_structs mp i)\<rparr>"
  have "collected ?mp1 [] PageHead" and "phys_ok ?mp1 {}"
    by (auto simp: collected_def zero_page_def phys_ok_def)
  then show ?thesis
    using collect_entries_collected [of ?mp1 "[]" PageHead es "{}"] assms
    by (auto simp: CollectAvailable_def kernel_lo_def kernel_hi_def Let_def)
qed

text \<open>\<^verbatim>\<open>max_kern_mem\<close> ends as the largest end of a managed entry, and sizes the page array.\<close>

lemma MemPages_Init_entry_mkm:
  "snd (MemPages_Init_entry e (mp, m)) = (if managed e then max m (entry_addr e + entry_len e) else m)"
  by (auto simp: MemPages_Init_entry_def managed_def Let_def max_def)

lemma MemPages_Init_entry_nr:
  "nr_page_structs (fst (MemPages_Init_entry e s)) = snd (MemPages_Init_entry e s) div 4096"
  by (auto simp: MemPages_Init_entry_def Let_def split: prod.splits)

lemma MemPages_Init_fold_mkm:
  "snd (fold MemPages_Init_entry es s) =
     fold max (map (\<lambda>e. entry_addr e + entry_len e) (filter managed es)) (snd s)"
  by (induction es arbitrary: s) (auto simp: MemPages_Init_entry_mkm max.commute split: prod.splits)

lemma MemPages_Init_fold_nr:
  "es \<noteq> [] \<Longrightarrow> nr_page_structs (fst (fold MemPages_Init_entry es s)) = snd (fold MemPages_Init_entry es s) div 4096"
  by (cases es rule: rev_cases) (auto simp: MemPages_Init_entry_nr)

lemma fold_max_ge: "x \<in> set (m # xs) \<Longrightarrow> x \<le> fold max xs m" for x m :: "'a :: linorder"
proof -
  have mono: "m \<le> fold max xs m" for m :: 'a and xs
    by (induction xs arbitrary: m) (auto intro: order_trans [OF max.cobounded2])
  show "x \<in> set (m # xs) \<Longrightarrow> x \<le> fold max xs m"
  proof (induction xs arbitrary: m)
    case (Cons a xs)
    show ?case
    proof (cases "x \<in> set xs")
      case True
      then show ?thesis using Cons.IH [of "max a m"] by simp
    next
      case False
      with Cons.prems have "x \<le> max a m" by auto
      then have "x \<le> fold max xs (max a m)" by (rule order_trans [OF _ mono])
      then show ?thesis by simp
    qed
  qed simp
qed

text \<open>The accounting of the memory map.\<close>

lemma MemPages_Init_fold_tot:
  "tot_size (fst (fold MemPages_Init_entry es s)) = tot_size (fst s) + sum_list (map entry_len es)"
  by (induction es arbitrary: s)
    (auto simp: MemPages_Init_entry_def Let_def add.assoc split: prod.splits)

lemma MemPages_Init_fold_avail:
  "avail_size (fst (fold MemPages_Init_entry es s)) =
     avail_size (fst s) + sum_list (map entry_len (filter managed es))"
  by (induction es arbitrary: s)
    (auto simp: MemPages_Init_entry_def managed_def Let_def add.assoc split: prod.splits)

text \<open>The number of page structures \<^verbatim>\<open>Init\<close> makes room for.\<close>

definition nr_structs :: "multiboot_mmap_entry list \<Rightarrow> u64" where
  "nr_structs es = fold max (map (\<lambda>e. entry_addr e + entry_len e) (filter managed es)) 0 div 4096"

lemma MemPages_Init_nr_structs:
  "es \<noteq> [] \<Longrightarrow> nr_page_structs (fst (fold MemPages_Init_entry es (mp, 0))) = nr_structs es"
  by (simp add: MemPages_Init_fold_nr MemPages_Init_fold_mkm nr_structs_def)

text \<open>A memory map whose managed entries lie on page boundaries.\<close>

definition page_aligned :: "multiboot_mmap_entry \<Rightarrow> bool" where
  "page_aligned e \<longleftrightarrow> unat (entry_addr e) mod 4096 = 0 \<and> unat (entry_addr e + entry_len e) mod 4096 = 0"

lemma aligned_entry_ok:
  assumes "managed e" and "e \<in> set es" and "page_aligned e"
  shows "entry_ok (unat (nr_page_structs (fst (fold MemPages_Init_entry es (mp, 0))))) e"
proof -
  let ?m = "snd (fold MemPages_Init_entry es (mp, 0))"
  have "entry_addr e + entry_len e \<le> ?m"
    using assms(1,2) by (auto simp: MemPages_Init_fold_mkm intro!: fold_max_ge)
  then have "unat (entry_addr e + entry_len e) div 4096 \<le> unat ?m div 4096"
    by (intro div_le_mono) (simp add: word_le_nat_alt)
  moreover have "unat (nr_page_structs (fst (fold MemPages_Init_entry es (mp, 0)))) = unat ?m div 4096"
    using assms(2) by (subst MemPages_Init_fold_nr) (auto simp: unat_div_distrib)
  ultimately show ?thesis
    using assms(3) by (auto simp: entry_ok_def page_aligned_def)
qed

lemma Init_nr_bound:
  assumes "es \<noteq> []"
  shows "unat (nr_page_structs (fst (fold MemPages_Init_entry es (mp, 0)))) < 2 ^ 52"
  using assms unat_u64_less [of "snd (fold MemPages_Init_entry es (mp, 0))"]
  by (simp add: MemPages_Init_fold_nr unat_div_distrib)

text \<open>The pages a memory map leaves to the allocator.\<close>

definition usable_pages :: "link_symbols \<Rightarrow> multiboot_mmap_entry list \<Rightarrow> nat list" where
  "usable_pages ls es = filter (outside (kernel_lo ls) (kernel_hi ls (nr_structs es))) (managed_pages es)"

lemma MemPages_Init_collected:
  assumes "nr_mmap_entries mm = Inr n" and "es = mmap_entry_list mm n" and "es \<noteq> []"
    and "\<forall>e \<in> set es. managed e \<longrightarrow> page_aligned e" and "distinct (managed_pages es)"
  obtains mp' last_page' where "MemPages_Init ls mp mm = Some (Inr mp')"
    and "collected mp' (usable_pages ls es) last_page'"
    and "nr_page_structs mp' = nr_structs es" and "phys_ok mp' (set (managed_pages es))"
proof -
  define mp1 where "mp1 = fst (fold MemPages_Init_entry es (mp, 0))"
  have nr: "nr_page_structs mp1 = nr_structs es"
    using assms(3) by (simp add: mp1_def MemPages_Init_nr_structs)
  have b: "unat (nr_page_structs mp1) < 2 ^ 52"
    using Init_nr_bound [OF assms(3)] by (simp add: mp1_def)
  have ok: "\<forall>e \<in> set es. managed e \<longrightarrow> entry_ok (unat (nr_page_structs mp1)) e"
    using aligned_entry_ok [of _ es mp] assms(4) by (auto simp: mp1_def)
  have "MemPages_Init ls mp mm = CollectAvailable ls mp1 es"
    using assms(1,2) by (simp add: MemPages_Init_def mp1_def Let_def)
  then show thesis
    using CollectAvailable_collected [OF b ok assms(5), of ls] that
    by (auto simp: nr usable_pages_def)
qed

text \<open>
  Whatever the list holds, the collecting loop ends: it stops with a panic exactly when the range
  reaches past the last whole page of the array.
\<close>

abbreviation collect_panic :: "'a result option" where
  "collect_panic \<equiv> Some (Inl (Panic ''PGNUM(paddr) < nr_page_structs''))"

lemma append_page_ok:
  assumes "last_page \<noteq> NullPage"
  obtains mp' where "append_page mp i last_page = Inr mp'" and "nr_page_structs mp' = nr_page_structs mp"
  using assms that by (simp add: append_page_def wr_page_ok Let_def)

lemma collect_range_outcome:
  assumes "unat paddr mod 4096 = 0" and "unat (nr_page_structs mp) < 2 ^ 52" and "last_page \<noteq> NullPage"
  shows "if paddr < stop \<and> 4096 * unat (nr_page_structs mp) < unat stop
    then collect_range mp paddr stop klo khi last_page = collect_panic
    else \<exists>mp' last_page'. collect_range mp paddr stop klo khi last_page = Some (Inr (mp', last_page')) \<and>
      nr_page_structs mp' = nr_page_structs mp \<and> last_page' \<noteq> NullPage"
  using assms
proof (induction "2 ^ 52 - unat paddr div 4096" arbitrary: mp last_page paddr rule: less_induct)
  case less
  define i where "i = unat paddr div 4096"
  have P: "unat paddr = 4096 * i"
    using less.prems(1) by (auto simp: i_def)
  have pn: "unat (PGNUM paddr) = i"
    by (simp add: unat_PGNUM i_def)
  show ?case
  proof (cases "paddr < stop \<and> i < unat (nr_page_structs mp)")
    case False
    then show ?thesis
      using less.prems(3) P pn 
      by (auto simp: collect_range.simps [of mp paddr] word_less_nat_alt)
  next
    case True
    then have "4096 * Suc i \<le> 4096 * unat (nr_page_structs mp)"
      by simp
    then have "4096 * i + 4096 < 2 ^ 64"
      using less.prems(2) by simp
    then have P': "unat (paddr + 4096) = 4096 * Suc i"
      using unat_add_lem [of paddr 4096] P by simp
    have m: "unat (paddr + 4096) mod 4096 = 0" by (simp add: P')
    have dec: "2 ^ 52 - unat (paddr + 4096) div 4096 < 2 ^ 52 - unat paddr div 4096"
      using True less.prems(2) by (intro diff_less_mono2) (simp_all add: P P')
    have next_iff: "paddr + 4096 < stop \<and> 4096 * unat (nr_page_structs mp) < unat stop \<longleftrightarrow>
        4096 * unat (nr_page_structs mp) < unat stop"
      using True P' by (auto simp: word_less_nat_alt)
    obtain mp1 last1 where 1: "collect_range mp paddr stop klo khi last_page =
        collect_range mp1 (paddr + 4096) stop klo khi last1"
      "nr_page_structs mp1 = nr_page_structs mp" "last1 \<noteq> NullPage"
    proof (cases "klo \<le> paddr \<and> paddr < khi")
      case kern: True
      let ?mp1 = "set_page mp i (\<lambda>p. p\<lparr>phyaddr := PG paddr\<rparr>)"
      let ?mp2 = "set_page ?mp1 i (\<lambda>p. p\<lparr>is_free := False, is_in_list := False\<rparr>)"
      have "collect_range mp paddr stop klo khi last_page =
          collect_range ?mp2 (paddr + 4096) stop klo khi last_page"
        using True kern pn by (simp add: collect_range.simps [of mp paddr] word_less_nat_alt [of "PGNUM paddr"])
      then show thesis using that less.prems(3) by simp
    next
      case free: False
      let ?mp1 = "set_page mp i (\<lambda>p. p\<lparr>phyaddr := PG paddr\<rparr>)"
      obtain mp2 where mp2: "append_page ?mp1 i last_page = Inr mp2" "nr_page_structs mp2 = nr_page_structs ?mp1"
        using append_page_ok [OF less.prems(3)] by blast
      have "collect_range mp paddr stop klo khi last_page =
          collect_range mp2 (paddr + 4096) stop klo khi (PageAt i)"
        using True free pn mp2(1)
        by (auto simp: collect_range.simps [of mp paddr] Let_def word_less_nat_alt [of "PGNUM paddr"])
      then show thesis using that mp2(2) by simp
    qed
    show ?thesis
      using less.hyps [OF dec m, of mp1 last1] 1 less.prems(2) next_iff True
      by (simp split: if_splits)
  qed
qed

text \<open>An entry whose pages run past the array.\<close>

definition overruns :: "nat \<Rightarrow> multiboot_mmap_entry \<Rightarrow> bool" where
  "overruns nr e \<longleftrightarrow> entry_addr e < entry_addr e + entry_len e \<and> 4096 * nr < unat (entry_addr e + entry_len e)"

lemma collect_entries_outcome:
  assumes "\<forall>e \<in> set es. managed e \<longrightarrow> unat (entry_addr e) mod 4096 = 0"
    and "unat (nr_page_structs mp) < 2 ^ 52" and "last_page \<noteq> NullPage"
    and "e \<in> set es" and "managed e" and "overruns (unat (nr_page_structs mp)) e"
  shows "collect_entries mp es klo khi last_page = collect_panic"
  using assms
proof (induction es arbitrary: mp last_page)
  case Nil
  then show ?case by simp
next
  case (Cons a es)
  show ?case
  proof (cases "managed a")
    case False
    with Cons show ?thesis by (auto simp: managed_def)
  next
    case True
    then show ?thesis
      using collect_range_outcome [of "entry_addr a" mp last_page "entry_addr a + entry_len a" klo khi]
        Cons.prems Cons.IH
      by (auto simp: managed_def overruns_def split: if_splits)
  qed
qed

lemma fold_max_attained: "fold max xs m \<in> set (m # xs)" for m :: "'a :: linorder"
proof (induction xs arbitrary: m)
  case (Cons a xs)
  have "max a m \<in> {a, m}" by (simp add: max_def)
  with Cons [of "max a m"] show ?case by auto
qed simp

lemma MemPages_Init_overrun:
  assumes "nr_mmap_entries mm = Inr n" and "es = mmap_entry_list mm n"
    and "\<forall>e \<in> set es. managed e \<longrightarrow> unat (entry_addr e) mod 4096 = 0 \<and>
           unat (entry_addr e) + unat (entry_len e) < 2 ^ 64"
    and "unat (fold max (map (\<lambda>e. entry_addr e + entry_len e) (filter managed es)) 0) mod 4096 \<noteq> 0"
  shows "MemPages_Init ls mp mm = collect_panic"
proof -
  define m where "m = fold max (map (\<lambda>e. entry_addr e + entry_len e) (filter managed es)) 0"
  define mp1 where "mp1 = fst (fold MemPages_Init_entry es (mp, 0))"
  have unaligned: "unat m mod 4096 \<noteq> 0" using assms(4) by (simp add: m_def)
  then have "m \<noteq> 0" by auto
  then obtain e where e: "e \<in> set es" "managed e" "entry_addr e + entry_len e = m"
    using fold_max_attained [of "map (\<lambda>e. entry_addr e + entry_len e) (filter managed es)" 0]
    by (auto simp: m_def)
  have ne: "es \<noteq> []" using e(1) by auto
  have nr: "unat (nr_page_structs mp1) = unat m div 4096"
    using ne by (simp add: MemPages_Init_fold_nr MemPages_Init_fold_mkm unat_div_distrib m_def mp1_def)
  have "unat m = unat (entry_addr e) + unat (entry_len e)"
    using assms(3) e unat_add_lem [of "entry_addr e" "entry_len e"] by auto
  then have "entry_addr e < m"
    using assms(3) unaligned e by (cases "unat (entry_len e)") (auto simp: word_less_nat_alt)
  moreover have "4096 * (unat m div 4096) + unat m mod 4096 = unat m" by simp
  then have "4096 * (unat m div 4096) < unat m" using unaligned by linarith
  ultimately have "overruns (unat (nr_page_structs mp1)) e"
    by (simp add: overruns_def e(3) nr)
  then have "CollectAvailable ls mp1 es = collect_panic"
    unfolding CollectAvailable_def Let_def
    using assms(3) Init_nr_bound [OF ne, of mp] e
    by (intro collect_entries_outcome [where e = e]) (simp_all add: mp1_def)
  then show ?thesis
    using assms(1,2) by (simp add: MemPages_Init_def Let_def mp1_def)
qed

lemma scan_free_oversized:
  assumes "\<forall>i < unat (nr_page_structs mp). is_free (page_structs mp i)" and "unat (nr_page_structs mp) < n"
    and "start = 0 \<or> i = 0 \<and> start = - 1 \<and> 0 < unat (nr_page_structs mp)"
  shows "scan_free mp (int n) i start = 0"
  using assms
proof (induction mp "int n" i start rule: scan_free.induct)
  case (1 mp i start)
  show ?case
  proof (cases "i < unat (nr_page_structs mp)")
    case False
    then show ?thesis using "1.prems" by (auto simp: scan_free.simps [of mp "int n" i start])
  next
    case True
    have go: "\<not> (start = - 1 \<and> nr_page_structs mp - of_int (int n) < of_nat i)"
      using "1.prems"(3) by auto
    have st: "(if start = - 1 then int i else start) = 0"
      using "1.prems"(3) by auto
    have "int i \<noteq> int n - 1"
      using True "1.prems"(2) by linarith
    then have "scan_free mp (int n) i start = scan_free mp (int n) (Suc i) 0"
      using True "1.prems"(1) go st by (auto simp: scan_free.simps [of mp "int n" i start] Let_def)
    with "1.hyps"(2) [OF True _ go st [symmetric]] True "1.prems"(1,2) show ?thesis by auto
  qed
qed

section \<open>A small allocator for the witnesses\<close>

definition demo_page :: "page_ptr \<Rightarrow> page_ptr \<Rightarrow> bool \<Rightarrow> page" where
  "demo_page p n fr = zero_page\<lparr>alloc_prev := p, alloc_next := n, is_free := fr, is_in_list := fr\<rparr>"

definition demo_pages :: mem_pages where
  "demo_pages = \<lparr>avail_size = 0x4000, reserved_size = 0, acpi_size = 0, tot_size = 0x4000, avail_low = 0,
     max_phy = 0x4000, page_head = demo_page (PageAt 3) (PageAt 1) False,
     page_structs = (\<lambda>_. zero_page)(1 := demo_page PageHead (PageAt 2) True,
       2 := demo_page (PageAt 1) (PageAt 3) True, 3 := demo_page (PageAt 2) PageHead True),
     nr_page_structs = 4\<rparr>"

text \<open>A memory map with one entry of \<open>len\<close> bytes at 2 MiB, and a kernel image at 1 MiB.\<close>

definition demo_mmap :: "u64 \<Rightarrow> multiboot_tag_mmap" where
  "demo_mmap len = \<lparr>mmap_size = 40, mmap_entry_size = 24,
     mmap_entries = (\<lambda>_. \<lparr>entry_addr = 0x200000, entry_len = len, entry_type = 1\<rparr>)\<rparr>"

definition demo_link :: link_symbols where
  "demo_link = \<lparr>load_start = 0x100050, bss_end = 0x120000\<rparr>"

lemma demo_mmap_entries:
  "nr_mmap_entries (demo_mmap len) = Inr 1"
  "mmap_entry_list (demo_mmap len) 1 = [\<lparr>entry_addr = 0x200000, entry_len = len, entry_type = 1\<rparr>]"
  by (simp_all add: nr_mmap_entries_def mmap_entry_list_def demo_mmap_def i32_def)

lemma less_4_cases: "(i::nat) < 4 \<longleftrightarrow> i = 0 \<or> i = 1 \<or> i = 2 \<or> i = 3"
  by auto

lemma demo_pages_inv: "mp_inv demo_pages [1, 2, 3]"
  by (auto simp: mp_inv_def page_list_def dlist_def demo_pages_def demo_page_def less_4_cases zero_page_def)

lemma demo_pages_nr: "nr_page_structs demo_pages = 4"
  by (simp add: demo_pages_def)

lemma demo_pages_runs: "free_pages_at demo_pages 2 s \<longleftrightarrow> s = 1 \<or> s = 2"
  by (auto simp: free_pages_at_def demo_pages_def demo_page_def zero_page_def less_2_cases_iff
      all_conj_distrib)

section \<open>Properties\<close>



text \<open>
  \<^verbatim>\<open>AllocPage\<close> takes the first page of the free list when at least two are free and leaves the
  others and every page's address and slab fields alone. With one free page it reports exhaustion,
  as with none: the last page is never handed out.
\<close>

lemma AllocPage_spec:
  assumes "mp_inv mp fl"
  shows "case fl of
      x # y # r \<Rightarrow> (\<exists>mp'. AllocPage mp = Inr (PageAt x, mp') \<and> mp_inv mp' (y # r) \<and> same_meta mp mp')
    | _ \<Rightarrow> AllocPage mp = Inr (NullPage, mp)"
  using AllocPage_short [OF assms] AllocPage_inv [of mp] assms
  by (auto split: list.splits) metis

lemma AllocPage_spec_example:
  "mp_inv demo_pages [1, 2, 3] \<and> (\<exists>mp'. AllocPage demo_pages = Inr (PageAt 1, mp') \<and> mp_inv mp' [2, 3])"
  using AllocPage_spec [OF demo_pages_inv] demo_pages_inv by auto

text \<open>
  C6. \<^verbatim>\<open>AllocPages(n)\<close> for two pages or more, up to the number of page structures, is first fit: it returns null exactly when no \<open>n\<close>
  consecutive pages are free, and otherwise the lowest such run, which it takes off the free list, keeping the order of
  the rest. For one page it is \<^verbatim>\<open>AllocPage\<close>: the first page of the free list, wherever it lies, and null when at most one page is free.
  (For more pages than there are structures see \<open>AllocPages_oversized\<close>.)
\<close>

theorem AllocPages_first_fit:
  assumes "mp_inv mp fl" and "1 \<le> n" and "n \<le> unat (nr_page_structs mp)"
  shows "if n = 1 then
      (case fl of
        x # y # r \<Rightarrow> (\<exists>mp'. AllocPages mp (int n) = Inr (PageAt x, mp') \<and> mp_inv mp' (y # r) \<and> same_meta mp mp')
      | _ \<Rightarrow> AllocPages mp (int n) = Inr (NullPage, mp))
    else (\<forall>s. \<not> free_pages_at mp n s) \<and> AllocPages mp (int n) = Inr (NullPage, mp) \<or>
    (\<exists>x mp'. AllocPages mp (int n) = Inr (PageAt x, mp') \<and> free_pages_at mp n x \<and>
       (\<forall>s. free_pages_at mp n s \<longrightarrow> x \<le> s) \<and>
       mp_inv mp' (filter (\<lambda>i. i \<notin> {x..<x + n}) fl) \<and> same_meta mp mp')"
proof (cases "n = 1")
  case True
  then have "AllocPages mp (int n) = AllocPage mp" by (simp add: AllocPages_def)
  then show ?thesis using AllocPage_spec [OF assms(1)] True by (simp only: simp_thms if_True)
next
  case False
  then have n: "2 \<le> n" using assms(2) by simp
  show ?thesis
  proof (cases "\<exists>s. free_pages_at mp n s")
    case True
    define s where "s = (LEAST s. free_pages_at mp n s)"
    have s: "free_pages_at mp n s" "\<forall>t. free_pages_at mp n t \<longrightarrow> s \<le> t"
      using True by (auto simp: s_def intro: LeastI Least_le)
    obtain x mp' where "AllocPages mp (int n) = Inr (PageAt x, mp')" "free_pages_at mp n x" "x \<le> s"
      "mp_inv mp' (filter (\<lambda>i. i \<notin> {x..<x + n}) fl)" "same_meta mp mp'"
      using AllocPages_inv [OF assms(1) n assms(3) s(1)] by blast
    then have "(\<forall>t. free_pages_at mp n t \<longrightarrow> x \<le> t)" using s(2) order_trans by blast
    with \<open>AllocPages mp (int n) = _\<close> \<open>free_pages_at mp n x\<close> \<open>mp_inv mp' _\<close> \<open>same_meta mp mp'\<close> False show ?thesis by auto
  next
    case none: False
    then show ?thesis using AllocPages_none [OF n assms(3)] False by simp
  qed
qed

theorem AllocPages_first_fit_witness:
  "mp_inv demo_pages [1, 2, 3] \<and>
   (\<exists>mp'. AllocPages demo_pages (int 2) = Inr (PageAt 1, mp') \<and> mp_inv mp' [3])"
proof -
  obtain x mp' where x: "AllocPages demo_pages (int 2) = Inr (PageAt x, mp')" "x = 1 \<or> x = 2" "x \<le> 1"
    "mp_inv mp' (filter (\<lambda>i. i \<notin> {x..<x + 2}) [1, 2, 3])"
    using AllocPages_first_fit [OF demo_pages_inv, of 2] by (auto simp: demo_pages_nr demo_pages_runs)
  then have "x = 1" by simp
  with x demo_pages_inv show ?thesis by simp
qed

text \<open>
  C21. \<^verbatim>\<open>FreePages\<close> undoes \<^verbatim>\<open>AllocPages\<close>: giving back the run just taken succeeds, the same pages
  are free as before, and addresses and slab fields are untouched.
\<close>

theorem AllocPages_FreePages:
  assumes "mp_inv mp fl" and "2 \<le> n" and "n \<le> unat (nr_page_structs mp)"
    and "AllocPages mp (int n) = Inr (PageAt x, mp1)"
  shows "\<exists>mp2 fl2. FreePages mp1 (PageAt x) (int n) = Inr mp2 \<and> mp_inv mp2 fl2 \<and>
    set fl2 = set fl \<and> length fl2 = length fl \<and> same_meta mp mp2"
proof -
  have "\<exists>s. free_pages_at mp n s"
    using AllocPages_none [OF assms(2,3)] assms(4) by fastforce
  then obtain s where "free_pages_at mp n s" ..
  from AllocPages_inv [OF assms(1-3) this] obtain y mp' where
    "AllocPages mp (int n) = Inr (PageAt y, mp')" "free_pages_at mp n y"
    "mp_inv mp' (filter (\<lambda>i. i \<notin> {y..<y + n}) fl)" "same_meta mp mp'" by blast
  with assms(4) have a: "free_pages_at mp n x" "mp_inv mp1 (filter (\<lambda>i. i \<notin> {x..<x + n}) fl)"
    "same_meta mp mp1" by auto
  let ?fl = "rev [x..<x + n] @ filter (\<lambda>i. i \<notin> {x..<x + n}) fl"
  have run: "{x..<x + n} \<subseteq> set fl" and b: "x + n \<le> unat (nr_page_structs mp1)"
    using mp_inv_free_iff [OF assms(1)] a(1) same_metaD(1) [OF a(3)] by auto
  obtain mp2 where mp2: "FreePages mp1 (PageAt x) (int n) = Inr mp2" "mp_inv mp2 ?fl" "same_meta mp1 mp2"
  proof (rule FreePages_inv [OF a(2) b])
    show "{x..<x + n} \<inter> set (filter (\<lambda>i. i \<notin> {x..<x + n}) fl) = {}" by auto
  qed (use assms(2) in auto)
  have s: "set ?fl = set fl" using run by auto
  then have "length ?fl = length fl"
    using mp_inv_distinct [OF mp2(2)] mp_inv_distinct [OF assms(1)] by (metis distinct_card)
  with mp2 s same_meta_trans [OF a(3) mp2(3)] show ?thesis by blast
qed

theorem AllocPages_FreePages_witness:
  "\<exists>mp1 mp2 fl2. AllocPages demo_pages (int 2) = Inr (PageAt 1, mp1) \<and>
     FreePages mp1 (PageAt 1) (int 2) = Inr mp2 \<and> mp_inv mp2 fl2 \<and> set fl2 = {1, 2, 3}"
proof -
  have "2 \<le> (2::nat)" "2 \<le> unat (nr_page_structs demo_pages)" "free_pages_at demo_pages 2 1"
    by (simp_all only: demo_pages_runs demo_pages_nr) simp_all
  from AllocPages_inv [OF demo_pages_inv this] obtain x mp1 where x: "AllocPages demo_pages (int 2) = Inr (PageAt x, mp1)"
    "free_pages_at demo_pages 2 x" "x \<le> 1"
    by (metis of_nat_numeral)
  then have a: "AllocPages demo_pages (int 2) = Inr (PageAt 1, mp1)"
    by (auto simp only: demo_pages_runs)
  show ?thesis
    using AllocPages_FreePages [OF demo_pages_inv _ _ a] a by (auto simp: demo_pages_nr)
qed

text \<open>
  A request larger than the page array is not refused: with every page free the scan settles on
  page 0, because the bound \<^verbatim>\<open>nr_page_structs - n\<close> wraps around, and \<^verbatim>\<open>AllocPages\<close> goes on to unlink
  \<open>n\<close> structures from there, past the end of the array, although no run of \<open>n\<close> pages exists.
\<close>

lemma AllocPages_oversized:
  assumes "\<forall>i < unat (nr_page_structs mp). is_free (page_structs mp i)"
    and "0 < unat (nr_page_structs mp)" and "unat (nr_page_structs mp) < n" and "2 \<le> n"
  shows "(\<forall>s. \<not> free_pages_at mp n s) \<and>
    AllocPages mp (int n) = ebind (unlink_run mp 0 n) (\<lambda>mp'. Inr (PageAt 0, mp'))"
proof -
  have "scan_free mp (int n) 0 (- 1) = 0"
    using assms by (intro scan_free_oversized) auto
  then show ?thesis
    using assms(3,4) by (auto simp: AllocPages_def Let_def free_pages_at_def)
qed

lemma AllocPages_oversized_example:
  "AllocPages (demo_pages\<lparr>nr_page_structs := 1, page_structs := (\<lambda>_. demo_page PageHead PageHead True)\<rparr>) (int 2) =
   ebind (unlink_run (demo_pages\<lparr>nr_page_structs := 1, page_structs := (\<lambda>_. demo_page PageHead PageHead True)\<rparr>) 0 2)
     (\<lambda>mp'. Inr (PageAt 0, mp'))"
  using AllocPages_oversized [of "demo_pages\<lparr>nr_page_structs := 1, page_structs := (\<lambda>_. demo_page PageHead PageHead True)\<rparr>" 2]
  by (simp add: demo_page_def)

text \<open>
  When the available memory does not end on a page boundary, start-up panics: the page array is
  sized by rounding the top address down, and the assertion in the collecting loop fails on the
  last, partial page.
\<close>

lemma MemPages_Init_partial_page_panics:
  assumes "nr_mmap_entries mm = Inr n" and "es = mmap_entry_list mm n"
    and "\<forall>e \<in> set es. managed e \<longrightarrow> unat (entry_addr e) mod 4096 = 0 \<and>
           unat (entry_addr e) + unat (entry_len e) < 2 ^ 64"
    and "unat (fold max (map (\<lambda>e. entry_addr e + entry_len e) (filter managed es)) 0) mod 4096 \<noteq> 0"
  shows "MemPages_Init ls mp mm = Some (Inl (Panic ''PGNUM(paddr) < nr_page_structs''))"
  using assms by (rule MemPages_Init_overrun)

lemma MemPages_Init_partial_page_panics_example:
  "MemPages_Init demo_link (MemPages demo_pages) (demo_mmap 0x3400) =
     Some (Inl (Panic ''PGNUM(paddr) < nr_page_structs''))"
  by (rule MemPages_Init_partial_page_panics [OF demo_mmap_entries(1) demo_mmap_entries(2) [symmetric]])
    (simp_all add: managed_def MULTIBOOT_MEMORY_AVAILABLE_def)

end
