(* ===== verification/Slab_Bodies.thy ===== *)
theory Slab_Bodies
  imports Kernel_Prelude
begin

text \<open>
  The bookkeeping inside one slab, \<^verbatim>\<open>BitmapSlab\<close> and \<^verbatim>\<open>FreeListSlab\<close> of \<^verbatim>\<open>kern/mm/uslab.cc\<close>: which of
  the objects of a page are free. Both are shown to implement one contract, the locale
  \<open>slab_body\<close>, over the set of free object indices.

  Object indices are C \<^verbatim>\<open>int\<close>s that are never negative where the code makes them; they are
  natural numbers here.
\<close>

section \<open>Bitmap slabs\<close>

text \<open>
  \<^verbatim>\<open>__builtin_ctzl\<close>: the number of trailing zero bits. Its value at 0 is undefined by the compiler's
  documentation and is the parameter \<open>ctz0\<close>. (The instruction \<^verbatim>\<open>tzcnt\<close> gives 64 there; \<^verbatim>\<open>bsf\<close> leaves whatever its
  destination held.) The code calls it on a row without free objects, so its value matters: what the slabs do for
  each value is shown at the end of this theory.
\<close>

definition ctzl :: "nat \<Rightarrow> u64 \<Rightarrow> nat" where
  "ctzl ctz0 w = (if w = 0 then ctz0 else length (takeWhile (\<lambda>k. \<not> bit w k) [0..<64]))"

text \<open>
  \<^verbatim>\<open>(1 << idx)\<close> as an operand of a 64-bit \<^verbatim>\<open>^=\<close>: the shift is one of a 32-bit \<^verbatim>\<open>int\<close>, whose count the
  machine takes modulo 32, and the result is sign-extended.
\<close>

definition shl_one :: "nat \<Rightarrow> u64" where
  "shl_one idx = signed (push_bit (idx mod 32) (1 :: u32))"

text \<open>The array \<^verbatim>\<open>bitmap_array[n]\<close> is a list of length \<open>n\<close>.\<close>

fun bitmap_scan :: "nat \<Rightarrow> u64 list \<Rightarrow> nat \<Rightarrow> nat \<Rightarrow> nat \<Rightarrow> nat \<times> nat" where
  "bitmap_scan ctz0 [] i idx row = (idx, row)"
| "bitmap_scan ctz0 (w # ws) i idx row =
     (let temp_idx = ctzl ctz0 w in
      if temp_idx < idx then bitmap_scan ctz0 ws (Suc i) temp_idx i
      else bitmap_scan ctz0 ws (Suc i) idx row)"

definition AllocFromBitmapArray :: "nat \<Rightarrow> nat \<Rightarrow> u64 list \<Rightarrow> nat \<times> u64 list" where
  "AllocFromBitmapArray ctz0 n bitmap_array =
     (let (idx, row) = bitmap_scan ctz0 bitmap_array 0 64 0 in
      (idx * n + row, bitmap_array[row := bitmap_array ! row XOR shl_one idx]))"

definition FreeToBitmapArray :: "nat \<Rightarrow> u64 list \<Rightarrow> nat \<Rightarrow> u64 list" where
  "FreeToBitmapArray n bitmap_array obj_idx =
     (let row = obj_idx mod n; idx = obj_idx div n in
      bitmap_array[row := bitmap_array ! row XOR shl_one idx])"

definition BitmapSlab_Init :: "nat \<Rightarrow> u64 list" where
  "BitmapSlab_Init NBitLine = replicate NBitLine (- 1)"

definition BitmapSlab_Alloc :: "nat \<Rightarrow> nat \<Rightarrow> u64 list \<Rightarrow> nat \<times> u64 list" where
  "BitmapSlab_Alloc ctz0 NBitLine bitmap = AllocFromBitmapArray ctz0 NBitLine bitmap"

definition BitmapSlab_Free :: "nat \<Rightarrow> u64 list \<Rightarrow> nat \<Rightarrow> u64 list" where
  "BitmapSlab_Free NBitLine bitmap obj_idx = FreeToBitmapArray NBitLine bitmap obj_idx"

definition BitmapSlab_is_empty :: "u64 list \<Rightarrow> bool" where
  "BitmapSlab_is_empty bitmap \<longleftrightarrow> foldl (AND) (hd bitmap) (tl bitmap) = - 1"

definition BitmapSlab_is_full :: "u64 list \<Rightarrow> bool" where
  "BitmapSlab_is_full bitmap \<longleftrightarrow> foldl (OR) (hd bitmap) (tl bitmap) = 0"

section \<open>Free-list slabs\<close>

text \<open>An access outside \<^verbatim>\<open>free_stack[38]\<close> is an error value.\<close>

record free_list_slab =
  nr_free :: u8
  nr_total :: u8
  free_stack :: "nat \<Rightarrow> u8"

definition kFreeStack :: nat where "kFreeStack = 38"

function fill_stack :: "nat \<Rightarrow> nat \<Rightarrow> (nat \<Rightarrow> u8) \<Rightarrow> (nat \<Rightarrow> u8) result" where
  "fill_stack i tot st =
     (if i < tot then
        if i < kFreeStack then fill_stack (Suc i) tot (st(i := of_nat i)) else Inl WildPointer
      else Inr st)"
  by pat_completeness auto
termination
  by (relation "measure (\<lambda>(i, tot, st). tot - i)") auto

declare fill_stack.simps [simp del]

definition FreeListSlab_Init :: "nat \<Rightarrow> free_list_slab \<Rightarrow> free_list_slab result" where
  "FreeListSlab_Init tot s =
     ebind (fill_stack 0 tot (free_stack s)) (\<lambda>st.
     Inr \<lparr>nr_free = of_nat tot, nr_total = of_nat tot, free_stack = st\<rparr>)"

definition FreeListSlab_Alloc :: "free_list_slab \<Rightarrow> (nat \<times> free_list_slab) result" where
  "FreeListSlab_Alloc s =
     (let s' = s\<lparr>nr_free := nr_free s - 1\<rparr> in
      if unat (nr_free s') < kFreeStack
      then Inr (unat (free_stack s' (unat (nr_free s'))), s') else Inl WildPointer)"

definition FreeListSlab_Free :: "free_list_slab \<Rightarrow> nat \<Rightarrow> free_list_slab result" where
  "FreeListSlab_Free s obj_idx =
     (if unat (nr_free s) < kFreeStack
      then Inr (s\<lparr>free_stack := (free_stack s)(unat (nr_free s) := of_nat obj_idx),
                 nr_free := nr_free s + 1\<rparr>)
      else Inl WildPointer)"

definition FreeListSlab_is_empty :: "free_list_slab \<Rightarrow> bool" where
  "FreeListSlab_is_empty s \<longleftrightarrow> nr_free s = nr_total s"

definition FreeListSlab_is_full :: "free_list_slab \<Rightarrow> bool" where
  "FreeListSlab_is_full s \<longleftrightarrow> nr_free s = 0"

section \<open>The contract of a slab body\<close>

text \<open>
  \<open>free_set s\<close> is the set of free object indices below the capacity \<open>cap\<close>. Allocation takes one
  out of it, freeing puts one back, and the two predicates tell whether it is everything or nothing.
\<close>

fun alloc_many :: "('s \<Rightarrow> (nat \<times> 's) result) \<Rightarrow> nat \<Rightarrow> 's \<Rightarrow> (nat list \<times> 's) result" where
  "alloc_many alloc 0 s = Inr ([], s)"
| "alloc_many alloc (Suc k) s =
     ebind (alloc s) (\<lambda>(i, s'). ebind (alloc_many alloc k s') (\<lambda>(is, s''). Inr (i # is, s'')))"

locale slab_body =
  fixes inv :: "'s \<Rightarrow> bool" and cap :: nat and free_set :: "'s \<Rightarrow> nat set"
    and alloc :: "'s \<Rightarrow> (nat \<times> 's) result" and free :: "'s \<Rightarrow> nat \<Rightarrow> 's result"
    and empty :: "'s \<Rightarrow> bool" and full :: "'s \<Rightarrow> bool"
  assumes free_set_bound: "inv s \<Longrightarrow> free_set s \<subseteq> {..<cap}"
    and alloc_law: "inv s \<Longrightarrow> free_set s \<noteq> {} \<Longrightarrow>
      \<exists>i s'. alloc s = Inr (i, s') \<and> inv s' \<and> i \<in> free_set s \<and> free_set s' = free_set s - {i}"
    and free_law: "inv s \<Longrightarrow> i < cap \<Longrightarrow> i \<notin> free_set s \<Longrightarrow>
      \<exists>s'. free s i = Inr s' \<and> inv s' \<and> free_set s' = insert i (free_set s)"
    and empty_law: "inv s \<Longrightarrow> empty s \<longleftrightarrow> free_set s = {..<cap}"
    and full_law: "inv s \<Longrightarrow> full s \<longleftrightarrow> free_set s = {}"
begin

lemma finite_free_set: "inv s \<Longrightarrow> finite (free_set s)"
  using free_set_bound finite_subset by blast

lemma alloc_then_free:
  assumes "inv s" and "alloc s = Inr (i, s')" and "\<not> full s"
  shows "\<exists>s''. free s' i = Inr s'' \<and> inv s'' \<and> free_set s'' = free_set s"
proof -
  have "free_set s \<noteq> {}" using assms(1,3) full_law by blast
  then have a: "inv s'" "i \<in> free_set s" "free_set s' = free_set s - {i}"
    using alloc_law [OF assms(1)] assms(2) by auto
  then have "i < cap" using free_set_bound [OF assms(1)] by auto
  then obtain s'' where "free s' i = Inr s''" "inv s''" "free_set s'' = insert i (free_set s')"
    using free_law [OF a(1)] a(3) by blast
  then show ?thesis using a by (auto simp: insert_absorb)
qed

text \<open>As many allocations as there are free objects succeed and return every one of them once.\<close>

lemma alloc_many_distinct:
  "inv s \<Longrightarrow> k \<le> card (free_set s) \<Longrightarrow>
   \<exists>is s'. alloc_many alloc k s = Inr (is, s') \<and> inv s' \<and> distinct is \<and> length is = k \<and>
     set is \<subseteq> free_set s \<and> free_set s' = free_set s - set is"
proof (induction k arbitrary: s)
  case 0
  then show ?case by simp
next
  case (Suc k)
  then have "free_set s \<noteq> {}" by auto
  then obtain i s1 where a: "alloc s = Inr (i, s1)" "inv s1" "i \<in> free_set s" "free_set s1 = free_set s - {i}"
    using alloc_law [OF Suc.prems(1)] by blast
  have "k \<le> card (free_set s1)"
    using Suc.prems a finite_free_set [of s] by simp
  then obtain "is" s' where b: "alloc_many alloc k s1 = Inr (is, s')" "inv s'" "distinct is" "length is = k"
      "set is \<subseteq> free_set s1" "free_set s' = free_set s1 - set is"
    using Suc.IH [OF a(2)] by blast
  then show ?case
    using a by (intro exI [of _ "i # is"] exI [of _ s']) auto
qed

lemma alloc_many_fill:
  assumes "inv s" and "empty s"
  shows "\<exists>is s'. alloc_many alloc cap s = Inr (is, s') \<and> distinct is \<and> set is = {..<cap} \<and> full s'"
proof -
  have f: "free_set s = {..<cap}" using assms empty_law by blast
  then obtain "is" s' where a: "alloc_many alloc cap s = Inr (is, s')" "inv s'" "distinct is" "length is = cap"
      "set is \<subseteq> {..<cap}" "free_set s' = {..<cap} - set is"
    using alloc_many_distinct [OF assms(1), of cap] by auto
  then have "set is = {..<cap}"
    by (metis card_lessThan card_subset_eq distinct_card finite_lessThan)
  then show ?thesis
    using a full_law by auto
qed

end

section \<open>Bitmaps meet the contract\<close>

text \<open>
  A row is a sign-extended 32-bit value: the upper 33 bits agree, since \<open>shl_one 31\<close> flips all of
  them. So a row tracks 32 objects.
\<close>

definition row_ok :: "u64 \<Rightarrow> bool" where
  "row_ok w \<longleftrightarrow> (\<forall>k. 31 \<le> k \<longrightarrow> k < 64 \<longrightarrow> bit w k = bit w 31)"

definition bitmap_inv :: "nat \<Rightarrow> u64 list \<Rightarrow> bool" where
  "bitmap_inv n rows \<longleftrightarrow> 0 < n \<and> length rows = n \<and> (\<forall>w \<in> set rows. row_ok w)"

definition bitmap_free :: "nat \<Rightarrow> u64 list \<Rightarrow> nat set" where
  "bitmap_free n rows = {i. i < 32 * n \<and> bit (rows ! (i mod n)) (i div n)}"

lemma bit_shl_one:
  "idx < 32 \<Longrightarrow> bit (shl_one idx) k \<longleftrightarrow> k < 64 \<and> (k = idx \<or> idx = 31 \<and> 31 \<le> k)"
  by (auto simp: shl_one_def bit_simps min_def)

lemma bit_flip: "idx < 32 \<Longrightarrow> k < 32 \<Longrightarrow> bit (w XOR shl_one idx) k \<longleftrightarrow> (if k = idx then \<not> bit w k else bit w k)"
  by (auto simp: bit_xor_iff bit_shl_one)

lemma row_okD: "row_ok w \<Longrightarrow> 31 \<le> k \<Longrightarrow> k < 64 \<Longrightarrow> bit w k = bit w 31"
  unfolding row_ok_def by blast

lemma row_ok_flip:
  assumes "row_ok w" and "idx < 32"
  shows "row_ok (w XOR shl_one idx)"
  unfolding row_ok_def
proof (intro allI impI)
  fix k :: nat assume "31 \<le> k" and "k < 64"
  then show "bit (w XOR shl_one idx) k = bit (w XOR shl_one idx) 31"
    using row_okD [OF assms(1), of k] assms(2) by (auto simp: bit_xor_iff bit_shl_one)
qed

lemma row_ok_bit: "row_ok w \<Longrightarrow> k < 64 \<Longrightarrow> bit w k = bit w (min k 31)"
  by (cases "k < 31") (simp_all add: min_def row_okD [of w k])

lemma row_ok_eqI:
  assumes "row_ok v" and "row_ok w" and "\<And>k. k < 32 \<Longrightarrow> bit v k = bit w k"
  shows "v = w"
proof (rule bit_word_eqI)
  fix k :: nat assume "k < LENGTH(64)"
  then have k: "k < 64" by simp
  show "bit v k = bit w k"
    unfolding row_ok_bit [OF assms(1) k] row_ok_bit [OF assms(2) k] by (rule assms(3)) simp
qed

lemma row_ok_const: "row_ok 0" "row_ok (- 1)"
  by (simp_all add: row_ok_def)

lemma row_ok_zero: "row_ok w \<Longrightarrow> w = 0 \<longleftrightarrow> (\<forall>k<32. \<not> bit w k)"
  using row_ok_eqI [OF _ row_ok_const(1), of w] by auto

lemma row_ok_ones: "row_ok w \<Longrightarrow> w = - 1 \<longleftrightarrow> (\<forall>k<32. bit w k)"
  using row_ok_eqI [OF _ row_ok_const(2), of w] by auto

text \<open>Trailing zeros of a non-zero row: the least set bit, and below 32.\<close>

lemma ctzl_least:
  assumes "row_ok w" and "w \<noteq> 0"
  shows "ctzl ctz0 w < 32" and "bit w (ctzl ctz0 w)" and "j < ctzl ctz0 w \<Longrightarrow> \<not> bit w j"
proof -
  let ?t = "length (takeWhile (\<lambda>k. \<not> bit w k) [0..<64])"
  have t: "ctzl ctz0 w = ?t" using assms by (simp add: ctzl_def)
  have below: "\<not> bit w j" if "j < ?t" for j
  proof -
    have "takeWhile (\<lambda>k. \<not> bit w k) [0..<64] ! j \<in> set (takeWhile (\<lambda>k. \<not> bit w k) [0..<64])"
      using that by simp
    moreover have "takeWhile (\<lambda>k. \<not> bit w k) [0..<64] ! j = j"
      using that length_takeWhile_le [of "\<lambda>k. \<not> bit w k" "[0..<64]"] by (simp add: takeWhile_nth)
    ultimately show ?thesis by (auto dest: set_takeWhileD)
  qed
  obtain k where k: "k < 32" "bit w k" using assms row_ok_zero by blast
  then show lt: "ctzl ctz0 w < 32"
    using below [of k] t by (cases "k < ?t") auto
  then show "bit w (ctzl ctz0 w)"
    using t nth_length_takeWhile [of "\<lambda>k. \<not> bit w k" "[0..<64]"] by simp
  show "j < ctzl ctz0 w \<Longrightarrow> \<not> bit w j" using below t by simp
qed

text \<open>The scan finds the row whose least free bit is lowest, the first such row.\<close>

lemma bitmap_scan_least:
  assumes "bitmap_scan c ws i idx row = (idx', row')"
  shows "idx' = idx \<and> row' = row \<and> (\<forall>w \<in> set ws. idx \<le> ctzl c w) \<or>
    (\<exists>k < length ws. row' = i + k \<and> idx' = ctzl c (ws ! k) \<and> idx' < idx \<and>
       (\<forall>j < length ws. idx' \<le> ctzl c (ws ! j)) \<and> (\<forall>j < k. idx' < ctzl c (ws ! j)))"
  using assms
proof (induction ws arbitrary: i idx row)
  case Nil
  then show ?case by simp
next
  case (Cons w ws)
  show ?case
  proof (cases "ctzl c w < idx")
    case True
    then have "bitmap_scan c ws (Suc i) (ctzl c w) i = (idx', row')"
      using Cons.prems by simp
    from Cons.IH [OF this] show ?thesis
    proof (elim disjE exE conjE)
      assume "idx' = ctzl c w" "row' = i" "\<forall>w'\<in>set ws. ctzl c w \<le> ctzl c w'"
      then show ?thesis
        using True by (intro disjI2 exI [of _ 0]) (auto simp: less_Suc_eq_0_disj)
    next
      fix k assume "k < length ws" "row' = Suc i + k" "idx' = ctzl c (ws ! k)" "idx' < ctzl c w"
        "\<forall>j<length ws. idx' \<le> ctzl c (ws ! j)" "\<forall>j<k. idx' < ctzl c (ws ! j)"
      then show ?thesis
        using True by (intro disjI2 exI [of _ "Suc k"]) (auto simp: less_Suc_eq_0_disj)
    qed
  next
    case False
    then have "bitmap_scan c ws (Suc i) idx row = (idx', row')"
      using Cons.prems by simp
    from Cons.IH [OF this] show ?thesis
    proof (elim disjE exE conjE)
      assume "idx' = idx" "row' = row" "\<forall>w'\<in>set ws. idx \<le> ctzl c w'"
      then show ?thesis using False by auto
    next
      fix k assume "k < length ws" "row' = Suc i + k" "idx' = ctzl c (ws ! k)" "idx' < idx"
        "\<forall>j<length ws. idx' \<le> ctzl c (ws ! j)" "\<forall>j<k. idx' < ctzl c (ws ! j)"
      then show ?thesis
        using False by (intro disjI2 exI [of _ "Suc k"]) (auto simp: less_Suc_eq_0_disj)
    qed
  qed
qed

lemma mem_bitmap_free:
  assumes "row < n" and "idx < 32"
  shows "idx * n + row \<in> bitmap_free n rows \<longleftrightarrow> bit (rows ! row) idx"
proof -
  have "idx * n + row < 32 * n"
  proof -
    have "idx * n + row < Suc idx * n" using assms by simp
    also have "\<dots> \<le> 32 * n" using assms by (intro mult_right_mono) auto
    finally show ?thesis .
  qed
  then show ?thesis using assms by (simp add: bitmap_free_def)
qed

lemma flip_free_set:
  assumes "bitmap_inv n rows" and "row < n" and "idx < 32"
  shows "bitmap_free n (rows[row := rows ! row XOR shl_one idx]) =
    (if bit (rows ! row) idx then bitmap_free n rows - {idx * n + row}
     else insert (idx * n + row) (bitmap_free n rows))"
    (is "bitmap_free n ?rows' = ?R")
proof (rule set_eqI)
  fix i
  have n: "0 < n" "length rows = n" using assms by (auto simp: bitmap_inv_def)
  have split: "i = idx * n + row \<longleftrightarrow> i div n = idx \<and> i mod n = row"
    using assms(2) n by (metis div_mult_self3 mod_mult_self3 div_less mod_less add_cancel_right_right
        mult.commute mult_div_mod_eq n(1) not_less_zero)
  have mem: "idx * n + row < 32 * n"
    using mem_bitmap_free [OF assms(2,3), of "replicate n (- 1)"] assms(2,3)
    by (auto simp: bitmap_free_def)
  show "i \<in> bitmap_free n ?rows' \<longleftrightarrow> i \<in> ?R"
  proof (cases "i < 32 * n")
    case True
    then have "i div n < 32" and m: "i mod n < n"
      using n by (auto simp: less_mult_imp_div_less)
    then have "bit (?rows' ! (i mod n)) (i div n) \<longleftrightarrow>
        (if i = idx * n + row then \<not> bit (rows ! row) idx else bit (rows ! (i mod n)) (i div n))"
      using split assms n by (auto simp: nth_list_update bit_flip)
    then show ?thesis
      using True split by (auto simp: bitmap_free_def)
  next
    case False
    then show ?thesis using mem by (auto simp: bitmap_free_def)
  qed
qed

lemma flip_inv:
  "bitmap_inv n rows \<Longrightarrow> row < n \<Longrightarrow> idx < 32 \<Longrightarrow> bitmap_inv n (rows[row := rows ! row XOR shl_one idx])"
  by (auto simp: bitmap_inv_def row_ok_flip dest!: set_update_subset_insert [THEN subsetD])

lemma bitmap_free_empty_iff:
  assumes "bitmap_inv n rows"
  shows "bitmap_free n rows = {} \<longleftrightarrow> (\<forall>w \<in> set rows. w = 0)"
proof
  assume e: "bitmap_free n rows = {}"
  show "\<forall>w \<in> set rows. w = 0"
  proof
    fix w assume "w \<in> set rows"
    then obtain r where r: "r < n" "w = rows ! r" using assms by (auto simp: bitmap_inv_def in_set_conv_nth)
    then have "\<forall>k<32. \<not> bit w k" using e mem_bitmap_free [of r n _ rows] by blast
    then show "w = 0" using assms \<open>w \<in> set rows\<close> row_ok_zero by (auto simp: bitmap_inv_def)
  qed
next
  assume "\<forall>w \<in> set rows. w = 0"
  then have "rows ! (i mod n) = 0" for i
    using assms nth_mem [of "i mod n" rows] by (auto simp: bitmap_inv_def)
  then show "bitmap_free n rows = {}"
    by (simp add: bitmap_free_def)
qed

lemma bitmap_free_all_iff:
  assumes "bitmap_inv n rows"
  shows "bitmap_free n rows = {..<32 * n} \<longleftrightarrow> (\<forall>w \<in> set rows. w = - 1)"
proof
  assume e: "bitmap_free n rows = {..<32 * n}"
  show "\<forall>w \<in> set rows. w = - 1"
  proof
    fix w assume w: "w \<in> set rows"
    then obtain r where r: "r < n" "w = rows ! r" using assms by (auto simp: bitmap_inv_def in_set_conv_nth)
    have "bit w k" if "k < 32" for k
    proof -
      have "k * n + r \<in> bitmap_free n (replicate n (- 1))"
        using mem_bitmap_free [OF r(1) that, of "replicate n (- 1)"] r that by simp
      then have "k * n + r \<in> bitmap_free n rows" unfolding e by (simp add: bitmap_free_def)
      then show ?thesis using mem_bitmap_free [OF r(1) that, of rows] r by simp
    qed
    then show "w = - 1" using assms w row_ok_ones by (auto simp: bitmap_inv_def)
  qed
next
  assume a: "\<forall>w \<in> set rows. w = - 1"
  have "bit (rows ! (i mod n)) (i div n)" if "i < 32 * n" for i
  proof -
    have "i div n < 32" "i mod n < n" using that assms by (auto simp: less_mult_imp_div_less bitmap_inv_def)
    moreover have "rows ! (i mod n) = - 1" using a assms \<open>i mod n < n\<close> by (auto simp: bitmap_inv_def)
    ultimately show ?thesis by simp
  qed
  then show "bitmap_free n rows = {..<32 * n}"
    by (auto simp: bitmap_free_def)
qed

lemma foldl_or_zero: "foldl (OR) a ws = 0 \<longleftrightarrow> a = 0 \<and> (\<forall>w \<in> set ws. w = 0)" for a :: "'a :: len word"
  by (induction ws arbitrary: a) (auto simp: or_eq_0_iff)

lemma foldl_and_ones: "foldl (AND) a ws = - 1 \<longleftrightarrow> a = - 1 \<and> (\<forall>w \<in> set ws. w = - 1)" for a :: "'a :: len word"
  by (induction ws arbitrary: a) (auto simp: and_eq_minus_1_iff)

lemma BitmapSlab_is_full_iff:
  "bitmap_inv n rows \<Longrightarrow> BitmapSlab_is_full rows \<longleftrightarrow> bitmap_free n rows = {}"
  by (cases rows) (auto simp: BitmapSlab_is_full_def foldl_or_zero bitmap_free_empty_iff bitmap_inv_def [of n "[]"])

lemma BitmapSlab_is_empty_iff:
  "bitmap_inv n rows \<Longrightarrow> BitmapSlab_is_empty rows \<longleftrightarrow> bitmap_free n rows = {..<32 * n}"
  by (cases rows) (auto simp: BitmapSlab_is_empty_def foldl_and_ones bitmap_free_all_iff bitmap_inv_def [of n "[]"])

lemma BitmapSlab_Init_inv:
  "0 < n \<Longrightarrow> bitmap_inv n (BitmapSlab_Init n) \<and> bitmap_free n (BitmapSlab_Init n) = {..<32 * n}"
  using bitmap_free_all_iff [of n "BitmapSlab_Init n"]
  by (auto simp: BitmapSlab_Init_def bitmap_inv_def row_ok_def)

text \<open>
  Allocation hands out the lowest free index, unless some row has none left and \<^verbatim>\<open>ctzl(0)\<close> is a bit number below 32: a row
  that is not zero has its lowest bit below 32.
\<close>

lemma BitmapSlab_Alloc_least:
  assumes "bitmap_inv n rows" and "bitmap_free n rows \<noteq> {}" and "0 \<notin> set rows \<or> 32 \<le> ctz0"
  shows "\<exists>i rows'. BitmapSlab_Alloc ctz0 n rows = (i, rows') \<and> bitmap_inv n rows' \<and> i \<in> bitmap_free n rows \<and>
    (\<forall>j \<in> bitmap_free n rows. i \<le> j) \<and> bitmap_free n rows' = bitmap_free n rows - {i}"
proof -
  obtain idx row where sc: "bitmap_scan ctz0 rows 0 64 0 = (idx, row)" by fastforce
  have ok: "\<forall>w \<in> set rows. row_ok w" and len: "length rows = n" "0 < n" using assms(1) by (auto simp: bitmap_inv_def)
  obtain w where "w \<in> set rows" "w \<noteq> 0" using bitmap_free_empty_iff [OF assms(1)] assms(2) by blast
  then have nz: "w \<in> set rows" "ctzl ctz0 w < 32" using ctzl_least(1) ok by auto
  then have "row < n" and idx: "idx = ctzl ctz0 (rows ! row)" "idx < 64"
      and least: "\<And>j. j < n \<Longrightarrow> idx \<le> ctzl ctz0 (rows ! j)" "\<And>j. j < row \<Longrightarrow> idx < ctzl ctz0 (rows ! j)"
    using bitmap_scan_least [OF sc] len by fastforce+
  have r0: "rows ! row \<noteq> 0"
  proof
    assume z: "rows ! row = 0"
    then have "0 \<in> set rows" using \<open>row < n\<close> len nth_mem by metis
    moreover have "idx \<le> ctzl ctz0 w" using nz(1) least(1) len by (metis in_set_conv_nth)
    ultimately show False using z idx(1) nz(2) assms(3) by (simp add: ctzl_def)
  qed
  have rok: "row_ok (rows ! row)" using ok len \<open>row < n\<close> by simp
  have "idx < 32" and b: "bit (rows ! row) idx" using ctzl_least [OF rok r0] idx by auto
  have "idx * n + row \<le> j" if j: "j \<in> bitmap_free n rows" for j
  proof -
    let ?r = "j mod n" and ?k = "j div n"
    have r: "?r < n" and k: "?k < 32" and bk: "bit (rows ! ?r) ?k"
      using j len by (auto simp: bitmap_free_def less_mult_imp_div_less)
    then have nz': "rows ! ?r \<noteq> 0" by auto
    have rok': "row_ok (rows ! ?r)" using ok len r by simp
    then have t: "ctzl ctz0 (rows ! ?r) \<le> ?k" using ctzl_least(3) [OF rok' nz', of ?k ctz0] bk by linarith
    then have "idx \<le> ?k" using least(1) [OF r] by linarith
    moreover have "row \<le> ?r" if "idx = ?k" using least(2) [of ?r] t that by linarith
    ultimately have "idx < ?k \<or> idx = ?k \<and> row \<le> ?r" by linarith
    moreover have "j = ?k * n + ?r" by simp
    moreover have "idx * n + row \<le> ?k * n + ?r" if "idx < ?k"
    proof -
      have "idx * n + row < Suc idx * n" using \<open>row < n\<close> by simp
      also have "\<dots> \<le> ?k * n" using that by (intro mult_right_mono) auto
      finally show ?thesis by (rule less_imp_le [OF less_le_trans]) simp
    qed
    ultimately show ?thesis by (metis add_le_cancel_left)
  qed
  moreover have "idx * n + row \<in> bitmap_free n rows"
    using mem_bitmap_free [OF \<open>row < n\<close> \<open>idx < 32\<close>] b by simp
  moreover have "BitmapSlab_Alloc ctz0 n rows = (idx * n + row, rows[row := rows ! row XOR shl_one idx])"
    by (simp add: BitmapSlab_Alloc_def AllocFromBitmapArray_def sc)
  ultimately show ?thesis
    using flip_inv [OF assms(1) \<open>row < n\<close> \<open>idx < 32\<close>] flip_free_set [OF assms(1) \<open>row < n\<close> \<open>idx < 32\<close>] b by auto
qed

lemma single_row_zero: "bitmap_inv n rows \<Longrightarrow> bitmap_free n rows \<noteq> {} \<Longrightarrow> n = 1 \<Longrightarrow> 0 \<notin> set rows"
  using bitmap_free_empty_iff [of n rows] by (cases rows) (auto simp: bitmap_inv_def)

lemma BitmapSlab_Free_inv:
  assumes "bitmap_inv n rows" and "i < 32 * n" and "i \<notin> bitmap_free n rows"
  shows "bitmap_inv n (BitmapSlab_Free n rows i) \<and>
    bitmap_free n (BitmapSlab_Free n rows i) = insert i (bitmap_free n rows)"
proof -
  have "i mod n < n" "i div n < 32" using assms by (auto simp: bitmap_inv_def less_mult_imp_div_less)
  moreover have "\<not> bit (rows ! (i mod n)) (i div n)" using assms by (simp add: bitmap_free_def)
  ultimately show ?thesis
    using flip_inv [OF assms(1)] flip_free_set [OF assms(1)]
    by (simp add: BitmapSlab_Free_def FreeToBitmapArray_def Let_def)
qed

text \<open>The contract for a bitmap of \<open>n\<close> rows: with a single row \<^verbatim>\<open>ctzl(0)\<close> is not reached before the slab is full, with several it has to be at least 32.\<close>

locale bitmap_body =
  fixes ctz0 n :: nat
  assumes ctz0_past: "32 \<le> ctz0 \<or> n = 1" and rows_pos: "0 < n"

sublocale bitmap_body \<subseteq> slab_body "bitmap_inv n" "32 * n" "bitmap_free n"
  "\<lambda>s. Inr (BitmapSlab_Alloc ctz0 n s)" "\<lambda>s i. Inr (BitmapSlab_Free n s i)"
  BitmapSlab_is_empty BitmapSlab_is_full
proof
  fix s i
  assume s: "bitmap_inv n s"
  show "bitmap_free n s \<subseteq> {..<32 * n}" by (auto simp: bitmap_free_def)
  show "\<exists>i s'. Inr (BitmapSlab_Alloc ctz0 n s) = Inr (i, s') \<and> bitmap_inv n s' \<and>
      i \<in> bitmap_free n s \<and> bitmap_free n s' = bitmap_free n s - {i}" if "bitmap_free n s \<noteq> {}"
    using BitmapSlab_Alloc_least [OF s that, of ctz0] single_row_zero [OF s that] ctz0_past by auto
  show "\<exists>s'. Inr (BitmapSlab_Free n s i) = Inr s' \<and> bitmap_inv n s' \<and>
      bitmap_free n s' = insert i (bitmap_free n s)" if "i < 32 * n" "i \<notin> bitmap_free n s"
    using BitmapSlab_Free_inv [OF s that] by simp
  show "BitmapSlab_is_empty s \<longleftrightarrow> bitmap_free n s = {..<32 * n}" by (rule BitmapSlab_is_empty_iff [OF s])
  show "BitmapSlab_is_full s \<longleftrightarrow> bitmap_free n s = {}" by (rule BitmapSlab_is_full_iff [OF s])
qed

context bitmap_body
begin

lemma fill_from_init:
  "\<exists>is rows. alloc_many (\<lambda>s. Inr (BitmapSlab_Alloc ctz0 n s)) (32 * n) (BitmapSlab_Init n) = Inr (is, rows) \<and>
    distinct is \<and> set is = {..<32 * n} \<and> BitmapSlab_is_full rows"
proof (rule alloc_many_fill)
  show "bitmap_inv n (BitmapSlab_Init n)" and "BitmapSlab_is_empty (BitmapSlab_Init n)"
    using BitmapSlab_Init_inv [OF rows_pos] BitmapSlab_is_empty_iff by blast+
qed

lemmas body_alloc = alloc_law
lemmas body_free = free_law

end

text \<open>The three instances of the template on a machine whose \<^verbatim>\<open>tzcnt\<close> gives 64 at zero.\<close>

interpretation bm16: bitmap_body 64 4 by unfold_locales simp_all
interpretation bm32: bitmap_body 64 2 by unfold_locales simp_all
interpretation bm64: bitmap_body 64 1 by unfold_locales simp_all

text \<open>
  What happens in a fresh slab whatever \<open>ctz0\<close> is: the indices come in order until the first row has no free object left; if
  \<open>ctz0\<close> is below 32 then, the scan takes bit \<open>ctz0\<close> of that row for free.
\<close>

lemma alloc_many_add:
  "alloc_many a (j + k) s = ebind (alloc_many a j s) (\<lambda>(is, s'). ebind (alloc_many a k s') (\<lambda>(js, s''). Inr (is @ js, s'')))"
  by (induction j arbitrary: s) (auto simp: ebind_def split: sum.splits)

lemma row_free_zero:
  assumes "bitmap_inv n rows" and "row < n"
  shows "rows ! row = 0 \<longleftrightarrow> (\<forall>k < 32. k * n + row \<notin> bitmap_free n rows)"
proof -
  have "row_ok (rows ! row)" using assms by (simp add: bitmap_inv_def)
  then show ?thesis using row_ok_zero mem_bitmap_free [OF assms(2), of _ rows] by blast
qed

lemma alloc_in_order:
  assumes "0 < n" and "k \<le> 31 * n + 1"
  shows "\<exists>rows. alloc_many (\<lambda>s. Inr (BitmapSlab_Alloc c n s)) k (BitmapSlab_Init n) = Inr ([0..<k], rows) \<and>
    bitmap_inv n rows \<and> bitmap_free n rows = {k..<32 * n}"
  using assms(2)
proof (induction k)
  case 0
  then show ?case using BitmapSlab_Init_inv [OF assms(1)] by (simp add: lessThan_atLeast0)
next
  case (Suc k)
  then obtain rows where r: "alloc_many (\<lambda>s. Inr (BitmapSlab_Alloc c n s)) k (BitmapSlab_Init n) = Inr ([0..<k], rows)"
      "bitmap_inv n rows" "bitmap_free n rows = {k..<32 * n}" by auto
  have "rows ! row \<noteq> 0" if "row < n" for row
  proof -
    have "31 * n + row \<in> bitmap_free n rows" using r(3) Suc.prems that by simp
    moreover have "(31 :: nat) < 32" by simp
    ultimately show ?thesis using row_free_zero [OF r(2) that] by blast
  qed
  then have "0 \<notin> set rows" using r(2) by (auto simp: bitmap_inv_def in_set_conv_nth)
  moreover have "bitmap_free n rows \<noteq> {}" using r(3) Suc.prems assms(1) by simp
  ultimately obtain i rows' where a: "BitmapSlab_Alloc c n rows = (i, rows')" "bitmap_inv n rows'" "i \<in> {k..<32 * n}"
      "\<forall>j \<in> {k..<32 * n}. i \<le> j" "bitmap_free n rows' = {k..<32 * n} - {i}"
    using BitmapSlab_Alloc_least [OF r(2)] r(3) by metis
  have "k < 32 * n" using Suc.prems assms(1) by linarith
  then have ik: "i = k" using a(3,4) by (auto intro!: antisym)
  let ?a = "\<lambda>s. Inr (BitmapSlab_Alloc c n s) :: (nat \<times> u64 list) result"
  have "alloc_many ?a (k + 1) (BitmapSlab_Init n) = Inr ([0..<k] @ [k], rows')" by (subst alloc_many_add) (simp add: r(1) a(1) ik)
  moreover have "{k..<32 * n} - {i} = {Suc k..<32 * n}" using ik by auto
  ultimately show ?case using a(2,5) by simp
qed

lemma alloc_repeats:
  assumes "1 < n" and "c < 32"
  shows "\<exists>is rows. alloc_many (\<lambda>s. Inr (BitmapSlab_Alloc c n s)) (31 * n + 2) (BitmapSlab_Init n) = Inr (is, rows) \<and> \<not> distinct is"
proof -
  let ?alloc = "\<lambda>s. Inr (BitmapSlab_Alloc c n s) :: (nat \<times> u64 list) result"
  obtain rows where r: "alloc_many ?alloc (31 * n + 1) (BitmapSlab_Init n) = Inr ([0..<31 * n + 1], rows)"
      "bitmap_inv n rows" "bitmap_free n rows = {31 * n + 1..<32 * n}"
    using alloc_in_order [of n "31 * n + 1" c] assms(1) by auto
  obtain idx row where sc: "bitmap_scan c rows 0 64 0 = (idx, row)" by fastforce
  have len: "length rows = n" using r(2) by (simp add: bitmap_inv_def)
  have z: "k * n \<notin> bitmap_free n rows" if "k < 32" for k
  proof -
    have "k * n \<le> 31 * n" using that by (intro mult_right_mono) auto
    then have "\<not> 31 * n + 1 \<le> k * n" by linarith
    then show ?thesis unfolding r(3) atLeastLessThan_iff by blast
  qed
  then have "rows ! 0 = 0" using row_free_zero [OF r(2), of 0] assms(1) by simp
  then have c0: "ctzl c (rows ! 0) = c" by (simp add: ctzl_def)
  have ge: "31 \<le> ctzl c (rows ! j)" if j: "j < n" "rows ! j \<noteq> 0" for j
  proof -
    have ok: "row_ok (rows ! j)" using r(2) j(1) by (simp add: bitmap_inv_def)
    let ?t = "ctzl c (rows ! j)"
    have "?t * n + j \<in> bitmap_free n rows" using mem_bitmap_free [OF j(1), of ?t rows] ctzl_least [OF ok j(2)] by blast
    then have "31 * n + 1 \<le> ?t * n + j" unfolding r(3) atLeastLessThan_iff by blast
    then have t: "31 * n < Suc ?t * n" using j(1) unfolding mult_Suc by linarith
    show ?thesis
    proof (rule ccontr)
      assume "\<not> 31 \<le> ?t"
      then have "Suc ?t * n \<le> 31 * n" by (intro mult_right_mono) auto
      with t show False by linarith
    qed
  qed
  have le: "c \<le> ctzl c (rows ! j)" if "j < n" for j
    using ge [OF that] assms(2) by (cases "rows ! j = 0") (auto simp: ctzl_def)
  have "idx = c \<and> row = 0" using bitmap_scan_least [OF sc]
  proof (elim disjE exE conjE)
    assume "\<forall>w \<in> set rows. 64 \<le> ctzl c w"
    moreover have "rows ! 0 \<in> set rows" using len assms(1) by simp
    ultimately show ?thesis using c0 assms(2) by fastforce
  next
    fix k assume k: "k < length rows" "row = 0 + k" "idx = ctzl c (rows ! k)" "\<forall>j<length rows. idx \<le> ctzl c (rows ! j)" "\<forall>j<k. idx < ctzl c (rows ! j)"
    have "idx = c" using k(1,3,4) le [of k] c0 len assms(1) by (metis antisym less_trans zero_less_one)
    moreover have "k = 0"
    proof (rule ccontr)
      assume "k \<noteq> 0"
      then show False using k(5) c0 \<open>idx = c\<close> by auto
    qed
    ultimately show ?thesis using k(2) by simp
  qed
  then obtain rows' where "BitmapSlab_Alloc c n rows = (c * n, rows')"
    using sc by (simp add: BitmapSlab_Alloc_def AllocFromBitmapArray_def)
  then have "alloc_many ?alloc (31 * n + 1 + 1) (BitmapSlab_Init n) = Inr ([0..<31 * n + 1] @ [c * n], rows')"
    using r(1) by (subst alloc_many_add) simp
  moreover have "c * n < 31 * n + 1" using assms(2) by (simp add: less_Suc_eq_le)
  ultimately show ?thesis by (auto simp del: upt_Suc)
qed

section \<open>Free lists meet the contract\<close>

definition fl_inv :: "nat \<Rightarrow> free_list_slab \<Rightarrow> bool" where
  "fl_inv cap s \<longleftrightarrow> cap \<le> kFreeStack \<and> unat (nr_total s) = cap \<and> unat (nr_free s) \<le> cap \<and>
     inj_on (free_stack s) {..<unat (nr_free s)} \<and> (\<forall>i < unat (nr_free s). unat (free_stack s i) < cap)"

definition fl_free :: "free_list_slab \<Rightarrow> nat set" where
  "fl_free s = (\<lambda>i. unat (free_stack s i)) ` {..<unat (nr_free s)}"

lemma fl_card: "fl_inv cap s \<Longrightarrow> card (fl_free s) = unat (nr_free s)"
  unfolding fl_free_def fl_inv_def by (subst card_image) (auto simp: inj_on_def word_unat_eq_iff)

lemma fl_free_bound: "fl_inv cap s \<Longrightarrow> fl_free s \<subseteq> {..<cap}"
  by (auto simp: fl_free_def fl_inv_def)

lemma fl_empty_iff: "fl_inv cap s \<Longrightarrow> FreeListSlab_is_empty s \<longleftrightarrow> fl_free s = {..<cap}"
proof -
  assume i: "fl_inv cap s"
  have "unat (nr_total s) = cap" using i by (simp add: fl_inv_def)
  then have "FreeListSlab_is_empty s \<longleftrightarrow> card (fl_free s) = cap"
    unfolding FreeListSlab_is_empty_def fl_card [OF i] word_unat_eq_iff by simp
  then show ?thesis
    by (metis card_lessThan card_subset_eq finite_lessThan fl_free_bound [OF i])
qed

lemma fl_full_iff: "fl_inv cap s \<Longrightarrow> FreeListSlab_is_full s \<longleftrightarrow> fl_free s = {}"
  by (simp add: FreeListSlab_is_full_def fl_free_def unat_eq_0 lessThan_empty_iff)

lemma unat_dec: "unat (a :: 'a :: len word) = Suc k \<Longrightarrow> unat (a - 1) = k"
  by (metis diff_Suc_1 nat.distinct(1) unat_0 unat_minus_one)

lemma unat_inc: "unat (a :: u8) < 255 \<Longrightarrow> unat (a + 1) = Suc (unat a)"
  using unat_add_lem [of a 1] by simp

lemma FreeListSlab_Alloc_inv:
  assumes "fl_inv cap s" and "fl_free s \<noteq> {}"
  shows "\<exists>i s'. FreeListSlab_Alloc s = Inr (i, s') \<and> fl_inv cap s' \<and> i \<in> fl_free s \<and> fl_free s' = fl_free s - {i}"
proof -
  obtain k where k: "unat (nr_free s) = Suc k"
    using assms(2) by (cases "unat (nr_free s)") (auto simp: fl_free_def)
  let ?s' = "s\<lparr>nr_free := nr_free s - 1\<rparr>"
  have k': "unat (nr_free ?s') = k" using unat_dec [OF k] by simp
  have inj: "inj_on (free_stack s) {..<Suc k}" and b: "\<forall>i < Suc k. unat (free_stack s i) < cap"
    and c: "Suc k \<le> cap" "cap \<le> kFreeStack" "unat (nr_total s) = cap"
    using assms(1) k by (auto simp: fl_inv_def)
  have "fl_inv cap ?s'"
    using inj b c k' unfolding fl_inv_def by (auto intro: inj_on_subset)
  moreover have "fl_free ?s' = fl_free s - {unat (free_stack s k)}"
  proof -
    have "unat (free_stack s j) \<noteq> unat (free_stack s k)" if "j < k" for j
      using inj_onD [OF inj, of j k] that by (auto simp: word_unat_eq_iff)
    then show ?thesis by (auto simp: fl_free_def k k' [simplified] less_Suc_eq)
  qed
  moreover have "FreeListSlab_Alloc s = Inr (unat (free_stack s k), ?s')"
    using k' c by (simp add: FreeListSlab_Alloc_def)
  moreover have "unat (free_stack s k) \<in> fl_free s" by (auto simp: fl_free_def k)
  ultimately show ?thesis by blast
qed

lemma FreeListSlab_Free_inv:
  assumes "fl_inv cap s" and "i < cap" and "i \<notin> fl_free s"
  shows "\<exists>s'. FreeListSlab_Free s i = Inr s' \<and> fl_inv cap s' \<and> fl_free s' = insert i (fl_free s)"
proof -
  let ?k = "unat (nr_free s)"
  let ?s' = "s\<lparr>free_stack := (free_stack s)(?k := of_nat i), nr_free := nr_free s + 1\<rparr>"
  have c: "cap \<le> 38" "?k \<le> cap" using assms(1) by (auto simp: fl_inv_def kFreeStack_def)
  have "card (insert i (fl_free s)) \<le> card {..<cap}"
    using fl_free_bound [OF assms(1)] assms(2) by (intro card_mono) auto
  then have "?k < cap"
    using assms(3) fl_card [OF assms(1)] by (simp add: fl_free_def)
  then have k': "unat (nr_free s + 1) = Suc ?k" using c unat_inc [of "nr_free s"] by simp
  have i8: "unat (of_nat i :: u8) = i" using assms(2) c by (simp add: unat_of_nat)
  have ne: "free_stack s j \<noteq> of_nat i" if "j < ?k" for j
  proof
    assume "free_stack s j = of_nat i"
    then have "unat (free_stack s j) = i" using i8 by simp
    then show False using assms(3) that by (auto simp: fl_free_def image_iff)
  qed
  have "inj_on (free_stack s) {..<?k}" using assms(1) by (simp add: fl_inv_def)
  then have "inj_on ((free_stack s)(?k := of_nat i)) {..<Suc ?k}"
    using ne by (force simp: lessThan_Suc intro!: inj_on_fun_updI)
  then have "fl_inv cap ?s'"
    using assms(1,2) \<open>?k < cap\<close> i8 unfolding fl_inv_def by (auto simp: k' less_Suc_eq)
  moreover have "fl_free ?s' = insert i (fl_free s)"
  proof -
    have "(\<lambda>j. unat (((free_stack s)(?k := of_nat i)) j)) ` {..<?k} = fl_free s"
      unfolding fl_free_def by (rule image_cong) auto
    then show ?thesis by (simp add: fl_free_def k' i8 lessThan_Suc)
  qed
  moreover have "FreeListSlab_Free s i = Inr ?s'"
    using \<open>?k < cap\<close> c by (simp add: FreeListSlab_Free_def kFreeStack_def)
  ultimately show ?thesis by blast
qed

lemma fill_stack_ok:
  "i \<le> tot \<Longrightarrow> tot \<le> kFreeStack \<Longrightarrow>
   fill_stack i tot st = Inr (\<lambda>j. if i \<le> j \<and> j < tot then of_nat j else st j)"
proof (induction i tot st rule: fill_stack.induct)
  case (1 i tot st)
  show ?case
  proof (cases "i < tot")
    case True
    then have "fill_stack i tot st = fill_stack (Suc i) tot (st(i := of_nat i))"
      using 1 by (subst fill_stack.simps) simp
    then show ?thesis using 1 True by (auto simp: fun_eq_iff)
  next
    case False
    then show ?thesis using 1 by (subst fill_stack.simps) (auto simp: fun_eq_iff)
  qed
qed

lemma FreeListSlab_Init_inv:
  assumes "tot \<le> kFreeStack"
  shows "\<exists>s'. FreeListSlab_Init tot s = Inr s' \<and> fl_inv tot s' \<and> fl_free s' = {..<tot}"
proof -
  let ?st = "\<lambda>j. if j < tot then of_nat j else free_stack s j"
  let ?s' = "\<lparr>nr_free = of_nat tot, nr_total = of_nat tot, free_stack = ?st\<rparr>"
  have u: "unat (of_nat j :: u8) = j" if "j \<le> tot" for j
    using assms that by (simp add: unat_of_nat kFreeStack_def)
  have "inj_on ?st {..<tot}"
    by (rule inj_onI) (metis lessThan_iff less_imp_le u)
  then have "fl_inv tot ?s'"
    using assms u by (auto simp: fl_inv_def)
  moreover have "fl_free ?s' = {..<tot}"
    using u by (auto simp: fl_free_def image_iff)
  moreover have "FreeListSlab_Init tot s = Inr ?s'"
    using fill_stack_ok [OF _ assms, of 0 "free_stack s"] by (simp add: FreeListSlab_Init_def)
  ultimately show ?thesis by blast
qed

interpretation fls: slab_body "fl_inv cap" cap fl_free FreeListSlab_Alloc FreeListSlab_Free
  FreeListSlab_is_empty FreeListSlab_is_full for cap
  by unfold_locales
    (simp_all add: fl_free_bound FreeListSlab_Alloc_inv FreeListSlab_Free_inv fl_empty_iff fl_full_iff)

section \<open>Properties\<close>

text \<open>
  C27. A bitmap slab with \<open>n\<close> rows hands out the lowest free index, marks exactly it as used, and
  giving it back restores the bitmap exactly; provided every row has a free object, or \<^verbatim>\<open>ctzl(0)\<close>, which the compiler
  leaves undefined and the scan calls on a row without one, is at least 32.
\<close>

theorem BitmapSlab_Alloc_Free:
  assumes "bitmap_inv n rows" and "\<not> BitmapSlab_is_full rows" and "0 \<notin> set rows \<or> 32 \<le> ctz0"
  shows "\<exists>i rows'. BitmapSlab_Alloc ctz0 n rows = (i, rows') \<and> i \<in> bitmap_free n rows \<and>
    (\<forall>j \<in> bitmap_free n rows. i \<le> j) \<and> bitmap_inv n rows' \<and> bitmap_free n rows' = bitmap_free n rows - {i} \<and>
    BitmapSlab_Free n rows' i = rows"
proof -
  have "bitmap_free n rows \<noteq> {}" using assms BitmapSlab_is_full_iff by blast
  from BitmapSlab_Alloc_least [OF assms(1) this assms(3)] obtain i rows' where
    a: "BitmapSlab_Alloc ctz0 n rows = (i, rows')" "bitmap_inv n rows'" "i \<in> bitmap_free n rows"
      "\<forall>j \<in> bitmap_free n rows. i \<le> j" "bitmap_free n rows' = bitmap_free n rows - {i}" by blast
  have "BitmapSlab_Free n rows' i = rows"
  proof -
    obtain idx row where sc: "bitmap_scan ctz0 rows 0 64 0 = (idx, row)" by fastforce
    have "row < n"
      using bitmap_scan_least [OF sc] assms(1) by (auto simp: bitmap_inv_def)
    then show ?thesis
      using a(1) assms(1) sc
      by (auto simp: BitmapSlab_Alloc_def AllocFromBitmapArray_def BitmapSlab_Free_def FreeToBitmapArray_def
          bitmap_inv_def xor.assoc div_add1_eq)
  qed
  with a show ?thesis by blast
qed

theorem BitmapSlab_Alloc_Free_witness:
  "\<exists>rows'. BitmapSlab_Alloc 0 4 (BitmapSlab_Init 4) = (0, rows') \<and>
     bitmap_free 4 rows' = {..<128} - {0} \<and> BitmapSlab_Free 4 rows' 0 = BitmapSlab_Init 4"
proof -
  have i: "bitmap_inv 4 (BitmapSlab_Init 4)" "bitmap_free 4 (BitmapSlab_Init 4) = {..<128}"
    using BitmapSlab_Init_inv [of 4] by simp_all
  then have nf: "\<not> BitmapSlab_is_full (BitmapSlab_Init 4)"
    using BitmapSlab_is_full_iff [OF i(1)] by (simp add: lessThan_empty_iff)
  have z: "0 \<notin> set (BitmapSlab_Init 4)" by (simp add: BitmapSlab_Init_def)
  obtain i rows' where a: "BitmapSlab_Alloc 0 4 (BitmapSlab_Init 4) = (i, rows')"
      "\<forall>j \<in> {..<128}. i \<le> j" "bitmap_free 4 rows' = {..<128} - {i}"
      "BitmapSlab_Free 4 rows' i = BitmapSlab_Init 4"
    using BitmapSlab_Alloc_Free [OF i(1) nf, of 0] i(2) z by auto
  have "i = 0" using bspec [OF a(2), of 0] by simp
  with a show ?thesis by blast
qed

text \<open>
  C36. What a fresh bitmap slab of \<open>n\<close> rows serves, for every value of \<^verbatim>\<open>ctzl(0)\<close>. If there is one row, or the value is at least 32
  (as with \<^verbatim>\<open>tzcnt\<close>), exactly \<open>32 * n\<close> allocations, all distinct, after which it is full: each row has 64 bits, but \<^verbatim>\<open>1 << 31\<close> is
  sign-extended and takes the upper half of the row with it, so that half of the objects of the page are never handed out. If
  there are several rows and the value is below 32, it hands out an object that is in use at allocation \<open>31 * n + 2\<close> at the latest.
\<close>

theorem BitmapSlab_capacity:
  assumes "0 < n"
  shows "if n = 1 \<or> 32 \<le> ctz0
    then \<exists>is rows. alloc_many (\<lambda>s. Inr (BitmapSlab_Alloc ctz0 n s)) (32 * n) (BitmapSlab_Init n) = Inr (is, rows) \<and>
      distinct is \<and> set is = {..<32 * n} \<and> BitmapSlab_is_full rows
    else \<exists>is rows. alloc_many (\<lambda>s. Inr (BitmapSlab_Alloc ctz0 n s)) (31 * n + 2) (BitmapSlab_Init n) = Inr (is, rows) \<and> \<not> distinct is"
proof (cases "n = 1 \<or> 32 \<le> ctz0")
  case True
  then have "bitmap_body ctz0 n" by unfold_locales (use assms in auto)
  from bitmap_body.fill_from_init [OF this] True show ?thesis by simp
next
  case False
  then have "1 < n" "ctz0 < 32" using assms by auto
  from alloc_repeats [OF this] False show ?thesis by simp
qed

theorem BitmapSlab_capacity_witness:
  "(\<exists>is rows. alloc_many (\<lambda>s. Inr (BitmapSlab_Alloc 0 1 s)) 32 (BitmapSlab_Init 1) = Inr (is, rows) \<and>
      set is = {..<32} \<and> BitmapSlab_is_full rows) \<and>
   (\<exists>is rows. alloc_many (\<lambda>s. Inr (BitmapSlab_Alloc 0 2 s)) 64 (BitmapSlab_Init 2) = Inr (is, rows) \<and> \<not> distinct is)"
  using BitmapSlab_capacity [of 1 0] BitmapSlab_capacity [of 2 0] by auto

text \<open>
  A free-list slab set up for \<open>tot\<close> objects, at most the 38 its stack has room for, serves exactly
  \<open>tot\<close> allocations, all distinct, and is then full; no access leaves the stack.
\<close>

lemma FreeListSlab_capacity:
  assumes "tot \<le> kFreeStack"
  shows "\<exists>s1 is s2. FreeListSlab_Init tot s = Inr s1 \<and> FreeListSlab_is_empty s1 \<and>
    alloc_many FreeListSlab_Alloc tot s1 = Inr (is, s2) \<and> distinct is \<and> set is = {..<tot} \<and>
    FreeListSlab_is_full s2"
proof -
  obtain s1 where s1: "FreeListSlab_Init tot s = Inr s1" "fl_inv tot s1" "fl_free s1 = {..<tot}"
    using FreeListSlab_Init_inv [OF assms] by blast
  then have e: "FreeListSlab_is_empty s1" using fl_empty_iff by blast
  show ?thesis using fls.alloc_many_fill [OF s1(2) e] s1(1) e by blast
qed

lemma FreeListSlab_capacity_example:
  "\<exists>s1 is s2. FreeListSlab_Init 32 \<lparr>nr_free = 7, nr_total = 0, free_stack = (\<lambda>_. 9)\<rparr> = Inr s1 \<and>
     alloc_many FreeListSlab_Alloc 32 s1 = Inr (is, s2) \<and> set is = {..<32} \<and> FreeListSlab_is_full s2"
  using FreeListSlab_capacity [of 32 "\<lparr>nr_free = 7, nr_total = 0, free_stack = (\<lambda>_. 9)\<rparr>"]
  by (auto simp: kFreeStack_def)

end
