(* ===== verification/Mem_Cache.thy ===== *)
theory Mem_Cache
  imports Mem_Pages Slab_Bodies "HOL-Library.Signed_Division"
begin

text \<open>
  The slab allocator of \<^verbatim>\<open>kern/mm/uslab.h\<close> and \<^verbatim>\<open>uslab.cc\<close> as the code has it: the meta slabs that
  hold slab headers, the cache template \<^verbatim>\<open>MemCache<Slab, ObjSize>\<close> over an interface of slab
  operations, the nine global caches and the entry points \<^verbatim>\<open>Alloc\<close> and \<^verbatim>\<open>Free\<close>.

  The objects the code reaches through pointers live in one record \<open>kmem\<close>: the page allocator, the
  list nodes (queue heads and the nodes inside slab headers), and for each slab header, by address,
  its fields. The fields of the different slab classes share the bytes of a header; a header is
  used as one class only between its \<^verbatim>\<open>Init\<close> and its release, and \<^verbatim>\<open>Init\<close> writes every field that is
  read later.
\<close>

section \<open>Caches, pointers and state\<close>

text \<open>One constructor for each instance of the template.\<close>

datatype chunk = meta_slab | chunk16 | chunk32 | chunk64 | chunk128 | chunk256 | chunk512
  | chunk1024 | chunk2048

text \<open>A \<^verbatim>\<open>MemCacheBase *\<close>: one of the static objects, or one made by \<^verbatim>\<open>CreateNew\<close> at an address.\<close>

datatype cache = Global chunk | Created chunk u64

fun cache_chunk :: "cache \<Rightarrow> chunk" where
  "cache_chunk (Global k) = k"
| "cache_chunk (Created k a) = k"

fun ObjSize :: "chunk \<Rightarrow> nat" where
  "ObjSize meta_slab = 64" | "ObjSize chunk16 = 16" | "ObjSize chunk32 = 32" | "ObjSize chunk64 = 64"
| "ObjSize chunk128 = 128" | "ObjSize chunk256 = 256" | "ObjSize chunk512 = 512"
| "ObjSize chunk1024 = 1024" | "ObjSize chunk2048 = 2048"

datatype node_ptr = QFull cache | QHalf cache | QEmpty cache | NodeAt u64

record cache_stat =
  allocated :: u64
  slab_pg :: u64
  max_pg :: u64

record kmem =
  km_pages :: mem_pages
  km_nodes :: "node_ptr node_heap"
  data_page :: "u64 \<Rightarrow> page_ptr"
  slab_bitmap :: "u64 \<Rightarrow> u64 list"
  slab_free_list :: "u64 \<Rightarrow> free_list_slab"
  nr_free_slab :: "u64 \<Rightarrow> u8"
  cache_stats :: "cache \<Rightarrow> cache_stat"

definition upd_nodes :: "(node_ptr node_heap \<Rightarrow> node_ptr node_heap) \<Rightarrow> kmem \<Rightarrow> kmem" where
  "upd_nodes f km = km\<lparr>km_nodes := f (km_nodes km)\<rparr>"

definition upd_stat :: "cache \<Rightarrow> (cache_stat \<Rightarrow> cache_stat) \<Rightarrow> kmem \<Rightarrow> kmem" where
  "upd_stat c f km = km\<lparr>cache_stats := (cache_stats km)(c := f (cache_stats km c))\<rparr>"

section \<open>The operations of a slab class\<close>

record slab_ops =
  op_Init :: "nat \<Rightarrow> u64 \<Rightarrow> kmem \<Rightarrow> kmem result"
  op_Alloc :: "u64 \<Rightarrow> kmem \<Rightarrow> (nat \<times> kmem) result"
  op_Free :: "u64 \<Rightarrow> nat \<Rightarrow> kmem \<Rightarrow> kmem result"
  op_is_empty :: "u64 \<Rightarrow> kmem \<Rightarrow> bool"
  op_is_full :: "u64 \<Rightarrow> kmem \<Rightarrow> bool"
  op_mem :: "u64 \<Rightarrow> kmem \<Rightarrow> u64 result"
  op_AllocSlab :: "nat \<Rightarrow> kmem \<Rightarrow> (u64 \<times> kmem) result"
  op_FreeSlab :: "u64 \<Rightarrow> kmem \<Rightarrow> kmem result"

section \<open>Meta slabs\<close>

text \<open>
  A \<^verbatim>\<open>MetaSlab\<close> sits at the start of its page: its own node at offset 0, the head \<^verbatim>\<open>free_slab\<close> at
  offset 16, and 63 headers of 64 bytes from offset 64 on.
\<close>

definition free_slab :: "u64 \<Rightarrow> node_ptr" where
  "free_slab slab = NodeAt (slab + 16)"

fun meta_link :: "nat \<Rightarrow> u64 \<Rightarrow> node_ptr \<Rightarrow> node_ptr node_heap \<Rightarrow> node_ptr node_heap" where
  "meta_link 0 ptr head h = h"
| "meta_link (Suc k) ptr head h = meta_link k (ptr + 64) head (InsertAfter h (NodeAt ptr) head)"

definition MetaSlab_Init :: "nat \<Rightarrow> u64 \<Rightarrow> kmem \<Rightarrow> kmem result" where
  "MetaSlab_Init tot slab km =
     (let km1 = upd_nodes (\<lambda>h. InitHead h (free_slab slab)) km;
          km2 = km1\<lparr>nr_free_slab := (nr_free_slab km1)(slab := 63)\<rparr> in
      kassert ''total == 64'' (tot = 64)
        (Inr (upd_nodes (meta_link 63 (slab + 64) (free_slab slab)) km2)))"

definition MetaSlab_Alloc :: "u64 \<Rightarrow> kmem \<Rightarrow> (nat \<times> kmem) result" where
  "MetaSlab_Alloc slab km =
     (let node = node_next (km_nodes km (free_slab slab));
          km1 = upd_nodes (\<lambda>h. Delete h node) km in
      kassert ''nr_free_slab > 0'' (0 < nr_free_slab km1 slab)
        (let km2 = km1\<lparr>nr_free_slab := (nr_free_slab km1)(slab := nr_free_slab km1 slab - 1)\<rparr> in
         case node of
           NodeAt a \<Rightarrow>
             (let idx = i32 (sint (a - slab) sdiv 64) in
              kassert ''idx > 0 && idx < 64'' (0 < idx \<and> idx < 64) (Inr (nat idx, km2)))
         | _ \<Rightarrow> Inl WildPointer))"

definition MetaSlab_Free :: "u64 \<Rightarrow> nat \<Rightarrow> kmem \<Rightarrow> kmem result" where
  "MetaSlab_Free slab obj_idx km =
     kassert ''obj_idx > 0 && obj_idx < 64'' (0 < obj_idx \<and> obj_idx < 64)
       (let node = NodeAt (slab + of_nat obj_idx * 64);
            km1 = upd_nodes (\<lambda>h. InsertAfter h node (free_slab slab)) km in
        Inr (km1\<lparr>nr_free_slab := (nr_free_slab km1)(slab := nr_free_slab km1 slab + 1)\<rparr>))"

definition MetaSlab_is_empty :: "u64 \<Rightarrow> kmem \<Rightarrow> bool" where
  "MetaSlab_is_empty slab km \<longleftrightarrow> nr_free_slab km slab = 63"

definition MetaSlab_is_full :: "u64 \<Rightarrow> kmem \<Rightarrow> bool" where
  "MetaSlab_is_full slab km \<longleftrightarrow> nr_free_slab km slab = 0"

definition MetaSlab_AllocSlab :: "nat \<Rightarrow> kmem \<Rightarrow> (u64 \<times> kmem) result" where
  "MetaSlab_AllocSlab obj_size km =
     ebind (AllocPage (km_pages km)) (\<lambda>(pg, mp).
     ebind (rd_page mp pg) (\<lambda>p.
     let slab = PADDR_TO_KPTR (phyaddr p) in
     ebind (wr_page mp pg (\<lambda>p. p\<lparr>slab_ptr := slab, slab_obj_size := int obj_size\<rparr>)) (\<lambda>mp'.
     Inr (slab, km\<lparr>km_pages := mp'\<rparr>))))"

definition MetaSlab_FreeSlab :: "u64 \<Rightarrow> kmem \<Rightarrow> kmem result" where
  "MetaSlab_FreeSlab slab km =
     ebind (FreePage (km_pages km) (page_at (KPTR_TO_PADDR slab))) (\<lambda>mp. Inr (km\<lparr>km_pages := mp\<rparr>))"

definition MetaSlab_ops :: slab_ops where
  "MetaSlab_ops = \<lparr>op_Init = MetaSlab_Init, op_Alloc = MetaSlab_Alloc, op_Free = MetaSlab_Free,
     op_is_empty = MetaSlab_is_empty, op_is_full = MetaSlab_is_full, op_mem = (\<lambda>slab km. Inr slab),
     op_AllocSlab = MetaSlab_AllocSlab, op_FreeSlab = MetaSlab_FreeSlab\<rparr>"

section \<open>The cache template\<close>

definition ReclaimEmptySlab :: "slab_ops \<Rightarrow> cache \<Rightarrow> u64 \<Rightarrow> kmem \<Rightarrow> (bool \<times> kmem) result" where
  "ReclaimEmptySlab ops c slab km =
     (if slab_pg (cache_stats km c) \<le> max_pg (cache_stats km c) then Inr (False, km)
      else
        ebind (op_FreeSlab ops slab (upd_stat c (\<lambda>st. st\<lparr>slab_pg := slab_pg st - 1\<rparr>) km)) (\<lambda>km1.
        Inr (True, km1)))"

definition AdjustSlab :: "slab_ops \<Rightarrow> cache \<Rightarrow> u64 \<Rightarrow> kmem \<Rightarrow> kmem result" where
  "AdjustSlab ops c slab km =
     (if op_is_full ops slab km then Inr (upd_nodes (\<lambda>h. InsertAfter h (NodeAt slab) (QFull c)) km)
      else if op_is_empty ops slab km then
        ebind (ReclaimEmptySlab ops c slab km) (\<lambda>(reclaimed, km1).
        Inr (if reclaimed then km1
             else upd_nodes (\<lambda>h. InsertAfter h (NodeAt slab) (QEmpty c)) km1))
      else Inr (upd_nodes (\<lambda>h. InsertAfter h (NodeAt slab) (QHalf c)) km))"

text \<open>The pointer cast \<^verbatim>\<open>(Slab *) node\<close> of a queue member: the header starts with its node.\<close>

fun slab_of_node :: "node_ptr \<Rightarrow> u64 result" where
  "slab_of_node (NodeAt a) = Inr a"
| "slab_of_node _ = Inl WildPointer"

definition PickSlab :: "slab_ops \<Rightarrow> cache \<Rightarrow> nat \<Rightarrow> kmem \<Rightarrow> (u64 \<times> kmem) result" where
  "PickSlab ops c objsize km =
     (if is_empty (km_nodes km) (QHalf c) then
        if is_empty (km_nodes km) (QEmpty c) then
          ebind (op_AllocSlab ops objsize km) (\<lambda>(slab, km1).
          ebind (op_Init ops (4096 div objsize) slab km1) (\<lambda>km2.
          Inr (slab, upd_stat c (\<lambda>st. st\<lparr>slab_pg := slab_pg st + 1\<rparr>) km2)))
        else
          let node = node_next (km_nodes km (QEmpty c));
              km1 = upd_nodes (\<lambda>h. Delete h node) km
          in ebind (slab_of_node node) (\<lambda>slab. Inr (slab, km1))
      else
        let node = node_next (km_nodes km (QHalf c)) in
        ebind (slab_of_node node) (\<lambda>slab. Inr (slab, upd_nodes (\<lambda>h. Delete h (NodeAt slab)) km)))"

definition MemCache_Allocate :: "slab_ops \<Rightarrow> cache \<Rightarrow> nat \<Rightarrow> kmem \<Rightarrow> (u64 \<times> kmem) result" where
  "MemCache_Allocate ops c objsize km =
     ebind (PickSlab ops c objsize km) (\<lambda>(slab, km1).
     ebind (op_Alloc ops slab km1) (\<lambda>(idx, km2).
     ebind (op_mem ops slab km2) (\<lambda>mem.
     ebind (AdjustSlab ops c slab (upd_stat c (\<lambda>st. st\<lparr>allocated := allocated st + 1\<rparr>) km2)) (\<lambda>km3.
     Inr (mem + of_nat (idx * objsize), km3)))))"

definition MemCache_Free :: "slab_ops \<Rightarrow> cache \<Rightarrow> nat \<Rightarrow> u64 \<Rightarrow> kmem \<Rightarrow> kmem result" where
  "MemCache_Free ops c objsize ptr km =
     (let addr = KPTR_TO_PADDR ptr in
      ebind (rd_page (km_pages km) (page_at addr)) (\<lambda>pg.
      let slab = slab_ptr pg;
          km1 = upd_nodes (\<lambda>h. Delete h (NodeAt slab)) km;
          idx = unat ((addr - PG addr) div of_nat objsize) in
      ebind (op_Free ops slab idx km1) (\<lambda>km2.
      AdjustSlab ops c slab (upd_stat c (\<lambda>st. st\<lparr>allocated := allocated st - 1\<rparr>) km2))))"

section \<open>Slabs whose objects are in a page of their own\<close>

definition BaseSlab_mem :: "u64 \<Rightarrow> kmem \<Rightarrow> u64 result" where
  "BaseSlab_mem slab km =
     ebind (rd_page (km_pages km) (data_page km slab)) (\<lambda>p. Inr (PADDR_TO_KPTR (phyaddr p)))"

definition BaseSlab_AllocSlab :: "nat \<Rightarrow> kmem \<Rightarrow> (u64 \<times> kmem) result" where
  "BaseSlab_AllocSlab obj_size km =
     ebind (MemCache_Allocate MetaSlab_ops (Global meta_slab) 64 km) (\<lambda>(slab, km1).
     ebind (AllocPage (km_pages km1)) (\<lambda>(pg, mp).
     let km2 = km1\<lparr>km_pages := mp, data_page := (data_page km1)(slab := pg)\<rparr> in
     ebind (wr_page mp pg (\<lambda>p. p\<lparr>slab_ptr := slab, slab_obj_size := int obj_size\<rparr>)) (\<lambda>mp'.
     Inr (slab, km2\<lparr>km_pages := mp'\<rparr>))))"

definition BaseSlab_FreeSlab :: "u64 \<Rightarrow> kmem \<Rightarrow> kmem result" where
  "BaseSlab_FreeSlab slab km = MemCache_Free MetaSlab_ops (Global meta_slab) 64 slab km"

definition BitmapSlab_ops :: "nat \<Rightarrow> nat \<Rightarrow> slab_ops" where
  "BitmapSlab_ops ctz0 NBitLine = \<lparr>
     op_Init = (\<lambda>tot slab km. Inr (km\<lparr>slab_bitmap := (slab_bitmap km)(slab := BitmapSlab_Init NBitLine)\<rparr>)),
     op_Alloc = (\<lambda>slab km. case BitmapSlab_Alloc ctz0 NBitLine (slab_bitmap km slab) of
       (idx, b) \<Rightarrow> Inr (idx, km\<lparr>slab_bitmap := (slab_bitmap km)(slab := b)\<rparr>)),
     op_Free = (\<lambda>slab i km.
       Inr (km\<lparr>slab_bitmap := (slab_bitmap km)(slab := BitmapSlab_Free NBitLine (slab_bitmap km slab) i)\<rparr>)),
     op_is_empty = (\<lambda>slab km. BitmapSlab_is_empty (slab_bitmap km slab)),
     op_is_full = (\<lambda>slab km. BitmapSlab_is_full (slab_bitmap km slab)),
     op_mem = BaseSlab_mem, op_AllocSlab = BaseSlab_AllocSlab, op_FreeSlab = BaseSlab_FreeSlab\<rparr>"

definition FreeListSlab_ops :: slab_ops where
  "FreeListSlab_ops = \<lparr>
     op_Init = (\<lambda>tot slab km. ebind (FreeListSlab_Init tot (slab_free_list km slab)) (\<lambda>s.
       Inr (km\<lparr>slab_free_list := (slab_free_list km)(slab := s)\<rparr>))),
     op_Alloc = (\<lambda>slab km. ebind (FreeListSlab_Alloc (slab_free_list km slab)) (\<lambda>(idx, s).
       Inr (idx, km\<lparr>slab_free_list := (slab_free_list km)(slab := s)\<rparr>))),
     op_Free = (\<lambda>slab i km. ebind (FreeListSlab_Free (slab_free_list km slab) i) (\<lambda>s.
       Inr (km\<lparr>slab_free_list := (slab_free_list km)(slab := s)\<rparr>))),
     op_is_empty = (\<lambda>slab km. FreeListSlab_is_empty (slab_free_list km slab)),
     op_is_full = (\<lambda>slab km. FreeListSlab_is_full (slab_free_list km slab)),
     op_mem = BaseSlab_mem, op_AllocSlab = BaseSlab_AllocSlab, op_FreeSlab = BaseSlab_FreeSlab\<rparr>"

fun chunk_ops :: "nat \<Rightarrow> chunk \<Rightarrow> slab_ops" where
  "chunk_ops ctz0 meta_slab = MetaSlab_ops"
| "chunk_ops ctz0 chunk16 = BitmapSlab_ops ctz0 4"
| "chunk_ops ctz0 chunk32 = BitmapSlab_ops ctz0 2"
| "chunk_ops ctz0 chunk64 = BitmapSlab_ops ctz0 1"
| "chunk_ops ctz0 _ = FreeListSlab_ops"

text \<open>The virtual members: the class of the object picks the instance of the template.\<close>

definition Cache_Allocate :: "nat \<Rightarrow> cache \<Rightarrow> kmem \<Rightarrow> (u64 \<times> kmem) result" where
  "Cache_Allocate ctz0 c km =
     MemCache_Allocate (chunk_ops ctz0 (cache_chunk c)) c (ObjSize (cache_chunk c)) km"

definition Cache_Free :: "nat \<Rightarrow> cache \<Rightarrow> u64 \<Rightarrow> kmem \<Rightarrow> kmem result" where
  "Cache_Free ctz0 c ptr km =
     MemCache_Free (chunk_ops ctz0 (cache_chunk c)) c (ObjSize (cache_chunk c)) ptr km"

section \<open>Set-up\<close>

text \<open>The constructor writes \<^verbatim>\<open>allocated\<close> and the three heads; \<^verbatim>\<open>slab_pg\<close> and \<^verbatim>\<open>max_pg\<close> stay as they were.\<close>

definition MemCacheBase :: "cache \<Rightarrow> kmem \<Rightarrow> kmem" where
  "MemCacheBase c km =
     upd_nodes (\<lambda>h. InitHead h (QEmpty c))
       (upd_nodes (\<lambda>h. InitHead h (QHalf c))
         (upd_nodes (\<lambda>h. InitHead h (QFull c))
           (upd_stat c (\<lambda>st. st\<lparr>allocated := 0\<rparr>) km)))"

definition InitSlab :: "kmem \<Rightarrow> kmem" where
  "InitSlab km = fold (\<lambda>k. MemCacheBase (Global k))
     [meta_slab, chunk16, chunk32, chunk64, chunk128, chunk256, chunk512, chunk1024, chunk2048] km"

definition set_max_page :: "cache \<Rightarrow> u64 \<Rightarrow> kmem \<Rightarrow> kmem" where
  "set_max_page c n km = upd_stat c (\<lambda>st. st\<lparr>max_pg := n\<rparr>) km"

section \<open>Size classes and the entry points\<close>

text \<open>
  \<^verbatim>\<open>__builtin_clz\<close>: leading zero bits of a 32-bit operand; undefined at 0, where its value is the
  parameter \<open>clz0\<close>.
\<close>

definition clz :: "int \<Rightarrow> u32 \<Rightarrow> int" where
  "clz clz0 w = (if w = 0 then clz0 else int (length (takeWhile (\<lambda>k. \<not> bit w k) (rev [0..<32]))))"

definition kGlobalMemCache :: "chunk list" where
  "kGlobalMemCache = [chunk16, chunk32, chunk64, chunk128, chunk256, chunk512, chunk1024, chunk2048]"

definition FitGlobalMemCache :: "int \<Rightarrow> int \<Rightarrow> cache result" where
  "FitGlobalMemCache clz0 obj_size =
     (let idx = 32 - clz clz0 (of_int (obj_size - 1)) - 4;
          idx' = (if idx < 0 then 0 else idx) in
      kassert ''idx < 8'' (idx' < 8) (Inr (Global (kGlobalMemCache ! nat idx'))))"

definition sizeof_MemCache :: int where "sizeof_MemCache = 80"

text \<open>\<^verbatim>\<open>new (new_ins) MemCache()\<close> on memory that held \<open>old\<close> where the statistics are.\<close>

definition CreateNew :: "nat \<Rightarrow> int \<Rightarrow> cache_stat \<Rightarrow> cache \<Rightarrow> kmem \<Rightarrow> (cache \<times> kmem) result" where
  "CreateNew ctz0 clz0 old c km =
     ebind (FitGlobalMemCache clz0 sizeof_MemCache) (\<lambda>global_cache.
     ebind (Cache_Allocate ctz0 global_cache km) (\<lambda>(new_ins, km1).
     let c' = Created (cache_chunk c) new_ins in
     Inr (c', MemCacheBase c' (upd_stat c' (\<lambda>_. old) km1))))"

definition Alloc :: "nat \<Rightarrow> int \<Rightarrow> int \<Rightarrow> kmem \<Rightarrow> (u64 \<times> kmem) result" where
  "Alloc ctz0 clz0 obj_size km =
     (if 2048 < obj_size then
        let nr_page = (obj_size - 1) div 4096 + 1 in
        ebind (AllocPages (km_pages km) nr_page) (\<lambda>(pg, mp).
        ebind (wr_page mp pg (\<lambda>p. p\<lparr>slab_obj_size := i32 (nr_page * 4096)\<rparr>)) (\<lambda>mp1.
        ebind (rd_page mp1 pg) (\<lambda>p. Inr (PADDR_TO_KPTR (phyaddr p), km\<lparr>km_pages := mp1\<rparr>))))
      else
        ebind (FitGlobalMemCache clz0 obj_size) (\<lambda>base. Cache_Allocate ctz0 base km))"

definition Free :: "nat \<Rightarrow> int \<Rightarrow> u64 \<Rightarrow> kmem \<Rightarrow> kmem result" where
  "Free ctz0 clz0 ptr km =
     (if ptr = 0 then Inr km
      else
        let addr = KPTR_TO_PADDR ptr; pgp = page_at addr in
        ebind (rd_page (km_pages km) pgp) (\<lambda>pg.
        if 2048 < slab_obj_size pg then
          ebind (FreePages (km_pages km) pgp (slab_obj_size pg sdiv 4096)) (\<lambda>mp. Inr (km\<lparr>km_pages := mp\<rparr>))
        else
          ebind (FitGlobalMemCache clz0 (slab_obj_size pg)) (\<lambda>base. Cache_Free ctz0 base ptr km)))"

text \<open>
  \<^verbatim>\<open>operator new(size_t)\<close> passes its 64-bit size through an \<^verbatim>\<open>int\<close> parameter; \<^verbatim>\<open>operator delete\<close> is \<^verbatim>\<open>Free\<close>.
\<close>

definition operator_new :: "nat \<Rightarrow> int \<Rightarrow> u64 \<Rightarrow> kmem \<Rightarrow> (u64 \<times> kmem) result" where
  "operator_new ctz0 clz0 sz km = Alloc ctz0 clz0 (i32 (uint sz)) km"

definition operator_delete :: "nat \<Rightarrow> int \<Rightarrow> u64 \<Rightarrow> kmem \<Rightarrow> kmem result" where
  "operator_delete ctz0 clz0 p km = Free ctz0 clz0 p km"

end
