(* ===== verification/Slab_Invariant.thy ===== *)
theory Slab_Invariant
  imports Mem_Cache
begin

text \<open>
  What the slab allocator keeps true of its state. Addresses are read as a frame number and an
  offset (\<open>kaddr\<close>); the invariant \<open>kinv\<close> ties the free pages, the queues of the caches, the free
  headers of the meta slabs and the fields of the page structures together; \<open>slab_view\<close> is the
  abstract state, a map from slabs to their memory and their free objects.
\<close>

section \<open>Kernel addresses\<close>

definition kaddr :: "nat \<Rightarrow> nat \<Rightarrow> u64" where
  "kaddr p off = PADDR_TO_KPTR (of_nat (4096 * p + off))"

lemma unat_frame: "p < 2 ^ 52 \<Longrightarrow> off < 4096 \<Longrightarrow> unat (of_nat (4096 * p + off) :: u64) = 4096 * p + off"
  by (simp add: unat_of_nat del: of_nat_add of_nat_mult)

lemma KPTR_kaddr [simp]: "KPTR_TO_PADDR (kaddr p off) = of_nat (4096 * p + off)"
  by (simp add: kaddr_def PADDR_TO_KPTR_def KPTR_TO_PADDR_def)

lemma kaddr_inj:
  assumes "p < 2 ^ 52" "off < 4096" "q < 2 ^ 52" "off' < 4096"
  shows "kaddr p off = kaddr q off' \<longleftrightarrow> p = q \<and> off = off'"
proof
  assume "kaddr p off = kaddr q off'"
  then have "KPTR_TO_PADDR (kaddr p off) = KPTR_TO_PADDR (kaddr q off')" by simp
  then have e: "4096 * p + off = 4096 * q + off'"
    using unat_frame assms unfolding KPTR_kaddr by metis
  then have "(4096 * p + off) div 4096 = (4096 * q + off') div 4096" by simp
  then have "p = q" using assms by simp
  with e show "p = q \<and> off = off'" by simp
qed simp

lemma kaddr_add: "kaddr p off + of_nat k = kaddr p (off + k)"
  by (simp add: kaddr_def PADDR_TO_KPTR_def)

lemma page_at_kaddr [simp]:
  "p < 2 ^ 52 \<Longrightarrow> off < 4096 \<Longrightarrow> page_at (of_nat (4096 * p + off)) = PageAt p"
  by (simp add: page_at_def unat_PGNUM unat_frame del: of_nat_add of_nat_mult)

lemma offset_kaddr:
  assumes "p < 2 ^ 52" "off < 4096"
  shows "of_nat (4096 * p + off) - PG (of_nat (4096 * p + off)) = (of_nat off :: u64)"
proof -
  have "PG (of_nat (4096 * p + off)) = of_nat (4096 * p)"
    by (rule word_unat_eq_iff [THEN iffD2])
      (use assms(2) unat_frame [OF assms] unat_frame [OF assms(1), of 0] in \<open>simp add: unat_PG del: of_nat_add of_nat_mult\<close>)
  then show ?thesis by simp
qed

lemma PADDR_frame: "PADDR_TO_KPTR (of_nat (4096 * p)) = kaddr p 0"
  by (simp add: kaddr_def)

section \<open>Capacity and free objects of a slab\<close>

fun slab_cap :: "chunk \<Rightarrow> nat set" where
  "slab_cap meta_slab = {1..<64}"
| "slab_cap chunk16 = {..<128}"
| "slab_cap chunk32 = {..<64}"
| "slab_cap chunk64 = {..<32}"
| "slab_cap k = {..<4096 div ObjSize k}"

definition slot :: "u64 \<Rightarrow> nat \<Rightarrow> node_ptr" where
  "slot a i = NodeAt (a + of_nat (64 * i))"

fun slab_free :: "kmem \<Rightarrow> (node_ptr \<Rightarrow> node_ptr list) \<Rightarrow> chunk \<Rightarrow> u64 \<Rightarrow> nat set" where
  "slab_free km Q meta_slab s = {i \<in> {1..<64}. slot s i \<in> set (Q (free_slab s))}"
| "slab_free km Q chunk16 s = bitmap_free 4 (slab_bitmap km s)"
| "slab_free km Q chunk32 s = bitmap_free 2 (slab_bitmap km s)"
| "slab_free km Q chunk64 s = bitmap_free 1 (slab_bitmap km s)"
| "slab_free km Q _ s = fl_free (slab_free_list km s)"

fun body_ok :: "kmem \<Rightarrow> chunk \<Rightarrow> u64 \<Rightarrow> bool" where
  "body_ok km meta_slab s \<longleftrightarrow> True"
| "body_ok km chunk16 s \<longleftrightarrow> bitmap_inv 4 (slab_bitmap km s)"
| "body_ok km chunk32 s \<longleftrightarrow> bitmap_inv 2 (slab_bitmap km s)"
| "body_ok km chunk64 s \<longleftrightarrow> bitmap_inv 1 (slab_bitmap km s)"
| "body_ok km k s \<longleftrightarrow> fl_inv (4096 div ObjSize k) (slab_free_list km s)"

text \<open>Where the objects of a slab lie.\<close>

definition pgs :: "kmem \<Rightarrow> nat \<Rightarrow> page" where
  "pgs km p = page_structs (km_pages km) p"

definition slab_mem :: "kmem \<Rightarrow> chunk \<Rightarrow> u64 \<Rightarrow> u64" where
  "slab_mem km k s =
     (if k = meta_slab then s
      else case data_page km s of PageAt p \<Rightarrow> PADDR_TO_KPTR (phyaddr (pgs km p)) | _ \<Rightarrow> 0)"

section \<open>The invariant\<close>

text \<open>
  \<open>X\<close> records pages in use outside the slabs and the size field they must keep; \<open>fl\<close> is the page
  free list, \<open>Q\<close> the contents of the node lists, \<open>L k\<close> the slabs of cache \<open>k\<close> and \<open>D\<close> the slabs taken
  off the queues while an operation works on them. The page array covers at most the 512 GiB of
  \<^verbatim>\<open>KERN_MAX_MEMORY\<close>.
\<close>

definition nr_pgs :: "kmem \<Rightarrow> nat" where
  "nr_pgs km = unat (nr_page_structs (km_pages km))"

definition pages_ok :: "kmem \<Rightarrow> (nat \<rightharpoonup> int) \<Rightarrow> nat list \<Rightarrow> bool" where
  "pages_ok km X fl \<longleftrightarrow> mp_inv (km_pages km) fl \<and> nr_pgs km \<le> 2 ^ 27 \<and>
     (\<forall>p \<in> set fl. phyaddr (pgs km p) = of_nat (4096 * p) \<and> X p = None) \<and>
     (\<forall>p z. X p = Some z \<longrightarrow> p < nr_pgs km \<and> phyaddr (pgs km p) = of_nat (4096 * p) \<and> slab_obj_size (pgs km p) = z)"

definition page_used :: "kmem \<Rightarrow> (nat \<rightharpoonup> int) \<Rightarrow> nat list \<Rightarrow> nat \<Rightarrow> bool" where
  "page_used km X fl p \<longleftrightarrow> p < nr_pgs km \<and> p \<notin> set fl \<and> X p = None \<and> phyaddr (pgs km p) = of_nat (4096 * p)"

definition meta_ok :: "kmem \<Rightarrow> (nat \<rightharpoonup> int) \<Rightarrow> nat list \<Rightarrow> (node_ptr \<Rightarrow> node_ptr list) \<Rightarrow> u64 \<Rightarrow> bool" where
  "meta_ok km X fl Q a \<longleftrightarrow>
     (\<exists>p. a = kaddr p 0 \<and> page_used km X fl p \<and> slab_ptr (pgs km p) = a) \<and>
     set (Q (free_slab a)) \<subseteq> slot a ` {1..<64} \<and> unat (nr_free_slab km a) = length (Q (free_slab a))"

definition header_ok :: "(node_ptr \<Rightarrow> node_ptr list) \<Rightarrow> u64 set \<Rightarrow> u64 \<Rightarrow> bool" where
  "header_ok Q M s \<longleftrightarrow> (\<exists>a \<in> M. \<exists>i \<in> {1..<64}. NodeAt s = slot a i \<and> slot a i \<notin> set (Q (free_slab a)))"

definition data_ok :: "kmem \<Rightarrow> (nat \<rightharpoonup> int) \<Rightarrow> nat list \<Rightarrow> chunk \<Rightarrow> u64 \<Rightarrow> bool" where
  "data_ok km X fl k s \<longleftrightarrow>
     (\<exists>p. data_page km s = PageAt p \<and> page_used km X fl p \<and> slab_ptr (pgs km p) = s \<and>
        slab_obj_size (pgs km p) = int (ObjSize k))"

definition slab_ok ::
  "kmem \<Rightarrow> (nat \<rightharpoonup> int) \<Rightarrow> nat list \<Rightarrow> (node_ptr \<Rightarrow> node_ptr list) \<Rightarrow> u64 set \<Rightarrow> chunk \<Rightarrow> u64 \<Rightarrow> bool" where
  "slab_ok km X fl Q M k s \<longleftrightarrow>
     (if k = meta_slab then meta_ok km X fl Q s
      else header_ok Q M s \<and> data_ok km X fl k s \<and> body_ok km k s)"

definition heads :: "u64 set \<Rightarrow> node_ptr set" where
  "heads M = range (QFull \<circ> Global) \<union> range (QHalf \<circ> Global) \<union> range (QEmpty \<circ> Global) \<union> free_slab ` M"

definition cache_queues :: "chunk \<Rightarrow> node_ptr set" where
  "cache_queues k = {QFull (Global k), QHalf (Global k), QEmpty (Global k)}"

text \<open>Which free sets belong in which queue.\<close>

fun fits :: "chunk \<Rightarrow> node_ptr \<Rightarrow> nat set \<Rightarrow> bool" where
  "fits k (QFull c) F \<longleftrightarrow> F = {}"
| "fits k (QHalf c) F \<longleftrightarrow> F \<noteq> {} \<and> F \<noteq> slab_cap k"
| "fits k (QEmpty c) F \<longleftrightarrow> F = slab_cap k"
| "fits k (NodeAt a) F \<longleftrightarrow> False"

definition queues_ok ::
  "kmem \<Rightarrow> (node_ptr \<Rightarrow> node_ptr list) \<Rightarrow> (chunk \<Rightarrow> u64 set) \<Rightarrow> (chunk \<times> u64) set \<Rightarrow> bool" where
  "queues_ok km Q L D \<longleftrightarrow>
     (\<forall>k. \<forall>h \<in> cache_queues k. \<forall>n \<in> set (Q h). \<exists>s \<in> L k. n = NodeAt s \<and> fits k h (slab_free km Q k s)) \<and>
     (\<forall>k. \<forall>s \<in> L k. (k, s) \<in> D \<or> (\<exists>h \<in> cache_queues k. NodeAt s \<in> set (Q h))) \<and>
     (\<forall>(k, s) \<in> D. s \<in> L k \<and> (\<forall>h \<in> heads (L meta_slab). NodeAt s \<notin> set (Q h)))"

definition kinv ::
  "kmem \<Rightarrow> (nat \<rightharpoonup> int) \<Rightarrow> nat list \<Rightarrow> (node_ptr \<Rightarrow> node_ptr list) \<Rightarrow> (chunk \<Rightarrow> u64 set) \<Rightarrow> (chunk \<times> u64) set \<Rightarrow> bool" where
  "kinv km X fl Q L D \<longleftrightarrow> pages_ok km X fl \<and> forest (km_nodes km) (heads (L meta_slab)) Q \<and>
     (\<forall>k. \<forall>s \<in> L k. slab_ok km X fl Q (L meta_slab) k s) \<and> queues_ok km Q L D"

definition slab_view ::
  "kmem \<Rightarrow> (node_ptr \<Rightarrow> node_ptr list) \<Rightarrow> (chunk \<Rightarrow> u64 set) \<Rightarrow> chunk \<Rightarrow> u64 \<rightharpoonup> u64 \<times> nat set" where
  "slab_view km Q L k s = (if s \<in> L k then Some (slab_mem km k s, slab_free km Q k s) else None)"

section \<open>Addresses of headers\<close>

definition meta_addr :: "u64 \<Rightarrow> bool" where
  "meta_addr a \<longleftrightarrow> (\<exists>p < 2 ^ 52. a = kaddr p 0)"

lemma slot_kaddr: "slot (kaddr p 0) i = NodeAt (kaddr p (64 * i))"
  unfolding slot_def kaddr_add by simp

lemma free_slab_kaddr: "free_slab (kaddr p 0) = NodeAt (kaddr p 16)"
  using kaddr_add [of p 0 16] by (simp add: free_slab_def)

lemma slot_0: "slot a 0 = NodeAt a"
  by (simp add: slot_def)

lemma slot_inj:
  "meta_addr a \<Longrightarrow> meta_addr b \<Longrightarrow> i < 64 \<Longrightarrow> j < 64 \<Longrightarrow> slot a i = slot b j \<longleftrightarrow> a = b \<and> i = j"
  unfolding meta_addr_def by (auto simp: slot_kaddr kaddr_inj)

lemma slot_not_free_slab: "meta_addr a \<Longrightarrow> meta_addr b \<Longrightarrow> i < 64 \<Longrightarrow> slot a i \<noteq> free_slab b"
  unfolding meta_addr_def by (auto simp: slot_kaddr free_slab_kaddr kaddr_inj)

lemma slot_not_header: "meta_addr a \<Longrightarrow> meta_addr b \<Longrightarrow> i \<in> {1..<64} \<Longrightarrow> slot a i \<noteq> NodeAt b"
  using slot_inj [of a b i 0] by (auto simp: slot_0)

lemma free_slab_inj: "free_slab a = free_slab b \<longleftrightarrow> a = b"
  by (simp add: free_slab_def)

section \<open>What the state components depend on\<close>

lemma upd_simps [simp]:
  "km_pages (upd_nodes f km) = km_pages km" "km_pages (upd_stat c g km) = km_pages km"
  "km_nodes (upd_nodes f km) = f (km_nodes km)" "km_nodes (upd_stat c g km) = km_nodes km"
  "data_page (upd_nodes f km) = data_page km" "data_page (upd_stat c g km) = data_page km"
  "slab_bitmap (upd_nodes f km) = slab_bitmap km" "slab_bitmap (upd_stat c g km) = slab_bitmap km"
  "slab_free_list (upd_nodes f km) = slab_free_list km" "slab_free_list (upd_stat c g km) = slab_free_list km"
  "nr_free_slab (upd_nodes f km) = nr_free_slab km" "nr_free_slab (upd_stat c g km) = nr_free_slab km"
  "cache_stats (upd_nodes f km) = cache_stats km"
  "cache_stats (upd_stat c g km) = (cache_stats km)(c := g (cache_stats km c))"
  by (simp_all add: upd_nodes_def upd_stat_def)

definition same_slabs :: "kmem \<Rightarrow> kmem \<Rightarrow> bool" where
  "same_slabs km km' \<longleftrightarrow> km_pages km' = km_pages km \<and> data_page km' = data_page km \<and>
     slab_bitmap km' = slab_bitmap km \<and> slab_free_list km' = slab_free_list km \<and>
     nr_free_slab km' = nr_free_slab km"

lemma same_slabs_upd [simp]: "same_slabs km (upd_nodes f km)" "same_slabs km (upd_stat c g km)"
  by (simp_all add: same_slabs_def)

lemma slab_free_cong:
  assumes "slab_bitmap km' s = slab_bitmap km s" and "slab_free_list km' s = slab_free_list km s"
    and "k = meta_slab \<Longrightarrow> Q' (free_slab s) = Q (free_slab s)"
  shows "slab_free km' Q' k s = slab_free km Q k s"
  using assms by (cases k) auto

lemma body_ok_cong:
  "slab_bitmap km' s = slab_bitmap km s \<Longrightarrow> slab_free_list km' s = slab_free_list km s \<Longrightarrow>
   body_ok km' k s = body_ok km k s"
  by (cases k) auto

lemma slab_ok_cong:
  assumes "same_slabs km km'" and "\<And>a. a \<in> insert s M \<Longrightarrow> Q' (free_slab a) = Q (free_slab a)"
  shows "slab_ok km' X fl Q' M k s = slab_ok km X fl Q M k s"
proof -
  have "header_ok Q' M s = header_ok Q M s" using assms(2) by (auto simp: header_ok_def)
  moreover have "meta_ok km' X fl Q' s = meta_ok km X fl Q s"
    using assms by (simp add: meta_ok_def same_slabs_def page_used_def pgs_def nr_pgs_def)
  moreover have "data_ok km' X fl k s = data_ok km X fl k s"
    using assms(1) by (simp add: data_ok_def same_slabs_def page_used_def pgs_def nr_pgs_def)
  moreover have "body_ok km' k s = body_ok km k s"
    using assms(1) by (intro body_ok_cong) (simp_all add: same_slabs_def)
  ultimately show ?thesis by (simp add: slab_ok_def)
qed

lemma pages_ok_cong: "same_slabs km km' \<Longrightarrow> pages_ok km' X fl = pages_ok km X fl"
  by (simp add: pages_ok_def same_slabs_def pgs_def nr_pgs_def)

lemma slab_mem_cong: "same_slabs km km' \<Longrightarrow> slab_mem km' k s = slab_mem km k s"
  by (simp add: slab_mem_def same_slabs_def pgs_def split: page_ptr.splits)

lemma slab_view_cong:
  assumes "same_slabs km km'" and "\<And>a. a \<in> L meta_slab \<Longrightarrow> Q' (free_slab a) = Q (free_slab a)"
  shows "slab_view km' Q' L = slab_view km Q L"
proof (intro ext)
  fix k s
  show "slab_view km' Q' L k s = slab_view km Q L k s"
    using assms slab_free_cong [of km' s km k Q' Q] slab_mem_cong [OF assms(1), of k s]
    by (auto simp: slab_view_def same_slabs_def)
qed

lemma slab_view_change:
  assumes "\<And>j t. (j, t) \<noteq> (k, s) \<Longrightarrow> t \<in> L j \<Longrightarrow>
      slab_mem km' j t = slab_mem km j t \<and> slab_free km' Q' j t = slab_free km Q j t"
  shows "slab_view km' Q' (L(k := insert s (L k))) =
    (slab_view km Q L)(k := (slab_view km Q L k)(s \<mapsto> (slab_mem km' k s, slab_free km' Q' k s)))"
  using assms by (intro ext) (auto simp: slab_view_def)

section \<open>Reading the invariant\<close>

lemma kinvD:
  assumes "kinv km X fl Q L D"
  shows "pages_ok km X fl" and "forest (km_nodes km) (heads (L meta_slab)) Q"
    and "s \<in> L k \<Longrightarrow> slab_ok km X fl Q (L meta_slab) k s" and "queues_ok km Q L D"
  using assms by (auto simp: kinv_def)

lemma kinv_page_bound: "kinv km X fl Q L D \<Longrightarrow> page_used km X fl p \<Longrightarrow> p < 2 ^ 52"
  by (auto simp: kinv_def pages_ok_def page_used_def)

lemma kinv_meta:
  assumes "kinv km X fl Q L D" and "a \<in> L meta_slab"
  obtains p where "a = kaddr p 0" and "p < 2 ^ 52" and "page_used km X fl p" and "slab_ptr (pgs km p) = a"
  using kinvD(3) [OF assms] kinv_page_bound [OF assms(1)] by (auto simp: slab_ok_def meta_ok_def)

lemma kinv_meta_addr: "kinv km X fl Q L D \<Longrightarrow> a \<in> L meta_slab \<Longrightarrow> meta_addr a"
  using kinv_meta meta_addr_def by metis

lemma kinv_free_list:
  assumes "kinv km X fl Q L D" and "a \<in> L meta_slab"
  shows "set (Q (free_slab a)) \<subseteq> slot a ` {1..<64}" and "unat (nr_free_slab km a) = length (Q (free_slab a))"
    and "distinct (Q (free_slab a))" and "free_slab a \<in> heads (L meta_slab)"
proof -
  show h: "free_slab a \<in> heads (L meta_slab)" using assms(2) by (simp add: heads_def)
  show "distinct (Q (free_slab a))" using forest_distinct [OF kinvD(2) [OF assms(1)] h] by simp
qed (use kinvD(3) [OF assms] in \<open>auto simp: slab_ok_def meta_ok_def\<close>)

lemma kinv_base:
  assumes "kinv km X fl Q L D" and "s \<in> L k" and "k \<noteq> meta_slab"
  shows "header_ok Q (L meta_slab) s" and "data_ok km X fl k s" and "body_ok km k s"
  using kinvD(3) [OF assms(1,2)] assms(3) by (auto simp: slab_ok_def)

lemma ObjSize_inj: "k \<noteq> meta_slab \<Longrightarrow> k' \<noteq> meta_slab \<Longrightarrow> ObjSize k = ObjSize k' \<longleftrightarrow> k = k'"
  by (cases k; cases k') simp_all

text \<open>A header is at most one cache's slab.\<close>

lemma kinv_chunk_unique:
  assumes "kinv km X fl Q L D" and "s \<in> L k" and "s \<in> L k'"
  shows "k = k'"
proof -
  have mb: False if "s \<in> L meta_slab" "s \<in> L j" "j \<noteq> meta_slab" for j
    using kinv_base(1) [OF assms(1) that(2,3)] kinv_meta_addr [OF assms(1)] that(1) slot_not_header
    by (metis header_ok_def)
  show ?thesis
  proof (cases "k = meta_slab \<or> k' = meta_slab")
    case True
    then show ?thesis using mb assms(2,3) by blast
  next
    case False
    then have "data_ok km X fl k s" "data_ok km X fl k' s"
      using kinv_base(2) [OF assms(1)] assms(2,3) by blast+
    then show ?thesis using False ObjSize_inj by (auto simp: data_ok_def)
  qed
qed

lemma cache_queues_heads: "h \<in> cache_queues k \<Longrightarrow> h \<in> heads M"
  by (auto simp: cache_queues_def heads_def)

lemma heads_cases:
  assumes "h \<in> heads M"
  obtains k where "h \<in> cache_queues k" | a where "a \<in> M" and "h = free_slab a"
  using assms by (auto simp: heads_def cache_queues_def)

lemma cache_queues_not_free_slab: "h \<in> cache_queues k \<Longrightarrow> free_slab a \<noteq> h \<and> h \<noteq> free_slab a"
  by (auto simp: cache_queues_def free_slab_def)

lemma cache_queues_unique: "h \<in> cache_queues k \<Longrightarrow> h \<in> cache_queues k' \<Longrightarrow> k = k'"
  by (auto simp: cache_queues_def)

lemma queued_slab:
  assumes "kinv km X fl Q L D" and "h \<in> cache_queues k" and "n \<in> set (Q h)"
  obtains s where "s \<in> L k" and "n = NodeAt s" and "fits k h (slab_free km Q k s)"
  using kinvD(4) [OF assms(1)] assms(2,3) unfolding queues_ok_def by blast

section \<open>Taking a slab off a queue and putting it back\<close>

lemma kinv_detach:
  assumes "kinv km X fl Q L D" and "h \<in> cache_queues k" and "NodeAt s \<in> set (Q h)"
  defines "Q' \<equiv> Q(h := remove1 (NodeAt s) (Q h))"
  shows "kinv (upd_nodes (\<lambda>H. Delete H (NodeAt s)) km) X fl Q' L (insert (k, s) D)"
    and "slab_view (upd_nodes (\<lambda>H. Delete H (NodeAt s)) km) Q' L = slab_view km Q L"
    and "s \<in> L k" and "slab_free (upd_nodes (\<lambda>H. Delete H (NodeAt s)) km) Q' k' s' = slab_free km Q k' s'"
proof -
  let ?km = "upd_nodes (\<lambda>H. Delete H (NodeAt s)) km" and ?H = "heads (L meta_slab)"
  have hH: "h \<in> ?H" using assms(2) cache_queues_heads by blast
  have fs: "Q' (free_slab a) = Q (free_slab a)" for a
    using cache_queues_not_free_slab [OF assms(2)] by (simp add: Q'_def)
  have sf: "slab_free ?km Q' j t = slab_free km Q j t" for j t
    by (rule slab_free_cong) (simp_all add: fs)
  have sub: "set (Q' g) \<subseteq> set (Q g)" for g
    using set_remove1_subset [of "NodeAt s" "Q h"] by (auto simp: Q'_def)
  note fo = kinvD(2) [OF assms(1)]
  show sL: "s \<in> L k" using queued_slab [OF assms(1-3)] by blast
  have gone: "NodeAt s \<notin> set (Q' g)" if "g \<in> ?H" for g
  proof (cases "g = h")
    case True
    then show ?thesis using forest_distinct [OF fo hH] by (simp add: Q'_def)
  next
    case False
    then show ?thesis
      using forest_disjoint [OF fo that hH, of "NodeAt s"] assms(3) by (auto simp: Q'_def ring_def)
  qed
  have mem: "\<exists>g \<in> cache_queues j. NodeAt t \<in> set (Q' g)" if "g \<in> cache_queues j" "NodeAt t \<in> set (Q g)" "t \<noteq> s" for g j t
    using that by (intro bexI [of _ g]) (auto simp: Q'_def)
  have q: "queues_ok km Q L D" using kinvD(4) [OF assms(1)] .
  have "queues_ok ?km Q' L (insert (k, s) D)"
    unfolding queues_ok_def sf
  proof (intro conjI allI ballI)
    fix j g n assume "g \<in> cache_queues j" "n \<in> set (Q' g)"
    then show "\<exists>t\<in>L j. n = NodeAt t \<and> fits j g (slab_free km Q j t)"
      using q sub unfolding queues_ok_def by blast
  next
    fix j t assume t: "t \<in> L j"
    show "(j, t) \<in> insert (k, s) D \<or> (\<exists>g \<in> cache_queues j. NodeAt t \<in> set (Q' g))"
    proof (cases "t = s")
      case True
      then show ?thesis using kinv_chunk_unique [OF assms(1) sL] t by blast
    next
      case False
      then show ?thesis using q t mem unfolding queues_ok_def by blast
    qed
  next
    fix x assume x: "x \<in> insert (k, s) D"
    show "case x of (k, s) \<Rightarrow> s \<in> L k \<and> (\<forall>h \<in> ?H. NodeAt s \<notin> set (Q' h))"
    proof (cases "x = (k, s)")
      case False
      then have "case x of (k, s) \<Rightarrow> s \<in> L k \<and> (\<forall>h \<in> ?H. NodeAt s \<notin> set (Q h))"
        using x q unfolding queues_ok_def by blast
      then show ?thesis using sub by fastforce
    qed (use gone sL in auto)
  qed
  moreover have "forest (km_nodes ?km) ?H Q'"
    using forest_Delete [OF fo hH assms(3)] by (simp add: Q'_def)
  moreover have "pages_ok ?km X fl" using pages_ok_cong [of km ?km] kinvD(1) [OF assms(1)] by simp
  moreover have "slab_ok ?km X fl Q' (L meta_slab) j t" if "t \<in> L j" for j t
    using slab_ok_cong [of km ?km t "L meta_slab" Q' Q X fl j] fs kinvD(3) [OF assms(1) that] by simp
  ultimately show "kinv ?km X fl Q' L (insert (k, s) D)" unfolding kinv_def by blast
  show "slab_view ?km Q' L = slab_view km Q L" by (rule slab_view_cong) (simp_all add: fs)
  show "slab_free ?km Q' k' s' = slab_free km Q k' s'" by (rule sf)
qed

lemma kinv_node_not_head:
  assumes "kinv km X fl Q L D" and "s \<in> L k" and "h \<in> heads (L meta_slab)"
  shows "NodeAt s \<noteq> h"
  using assms(3)
proof (cases rule: heads_cases)
  case (1 j)
  then show ?thesis by (auto simp: cache_queues_def)
next
  case (2 a)
  then have a: "meta_addr a" using kinv_meta_addr [OF assms(1)] by blast
  show ?thesis
  proof (cases "k = meta_slab")
    case True
    then show ?thesis
      using 2 a slot_not_free_slab [of s a 0] kinv_meta_addr [OF assms(1)] assms(2) by (simp add: slot_0)
  next
    case False
    then obtain b i where "b \<in> L meta_slab" "i \<in> {1..<64}" "NodeAt s = slot b i"
      using kinv_base(1) [OF assms(1,2)] by (auto simp: header_ok_def)
    then show ?thesis using 2 a slot_not_free_slab [of b a i] kinv_meta_addr [OF assms(1)] by simp
  qed
qed

lemma kinv_attach:
  assumes "kinv km X fl Q L (insert (k, s) D)" and "(k, s) \<notin> D" and "h \<in> cache_queues k"
    and "fits k h (slab_free km Q k s)"
  defines "Q' \<equiv> Q(h := NodeAt s # Q h)"
  shows "kinv (upd_nodes (\<lambda>H. InsertAfter H (NodeAt s) h) km) X fl Q' L D"
    and "slab_view (upd_nodes (\<lambda>H. InsertAfter H (NodeAt s) h) km) Q' L = slab_view km Q L"
proof -
  let ?km = "upd_nodes (\<lambda>H. InsertAfter H (NodeAt s) h) km" and ?H = "heads (L meta_slab)"
  have hH: "h \<in> ?H" using assms(3) cache_queues_heads by blast
  have fs: "Q' (free_slab a) = Q (free_slab a)" for a
    using cache_queues_not_free_slab [OF assms(3)] by (simp add: Q'_def)
  have sf: "slab_free ?km Q' j t = slab_free km Q j t" for j t
    by (rule slab_free_cong) (simp_all add: fs)
  have q: "queues_ok km Q L (insert (k, s) D)" using kinvD(4) [OF assms(1)] .
  then have sL: "s \<in> L k" and new: "\<forall>g \<in> ?H. NodeAt s \<notin> set (Q g)"
    unfolding queues_ok_def by auto
  have sub: "set (Q g) \<subseteq> set (Q' g)" for g by (auto simp: Q'_def)
  have "queues_ok ?km Q' L D"
    unfolding queues_ok_def sf
  proof (intro conjI allI ballI)
    fix j g n assume g: "g \<in> cache_queues j" and n: "n \<in> set (Q' g)"
    show "\<exists>t\<in>L j. n = NodeAt t \<and> fits j g (slab_free km Q j t)"
    proof (cases "n \<in> set (Q g)")
      case True
      then show ?thesis using q g unfolding queues_ok_def by blast
    next
      case False
      then have "g = h" "n = NodeAt s" using n by (auto simp: Q'_def split: if_splits)
      moreover have "j = k" using g \<open>g = h\<close> assms(3) cache_queues_unique by blast
      ultimately show ?thesis using sL assms(4) by blast
    qed
  next
    fix j t assume t: "t \<in> L j"
    show "(j, t) \<in> D \<or> (\<exists>g \<in> cache_queues j. NodeAt t \<in> set (Q' g))"
    proof (cases "(j, t) = (k, s)")
      case True
      then show ?thesis using assms(3) by (auto simp: Q'_def intro!: bexI [of _ h])
    next
      case False
      then show ?thesis using q t sub unfolding queues_ok_def by blast
    qed
  next
    fix x assume x: "x \<in> D"
    obtain j t where jt: "x = (j, t)" by fastforce
    then have t: "t \<in> L j" "\<forall>g \<in> ?H. NodeAt t \<notin> set (Q g)" using q x unfolding queues_ok_def by auto
    then have "t \<noteq> s" using kinv_chunk_unique [OF assms(1) sL] jt x assms(2) by blast
    with t jt show "case x of (k, s) \<Rightarrow> s \<in> L k \<and> (\<forall>h \<in> ?H. NodeAt s \<notin> set (Q' h))"
      by (auto simp: Q'_def)
  qed
  moreover have "\<forall>b \<in> ?H. NodeAt s \<notin> ring Q b"
    using new kinv_node_not_head [OF assms(1) sL] by (auto simp: ring_def)
  then have "forest (km_nodes ?km) ?H Q'"
    using forest_InsertAfter [OF kinvD(2) [OF assms(1)] hH] by (simp add: Q'_def)
  moreover have "pages_ok ?km X fl" using pages_ok_cong [of km ?km] kinvD(1) [OF assms(1)] by simp
  moreover have "slab_ok ?km X fl Q' (L meta_slab) j t" if "t \<in> L j" for j t
    using slab_ok_cong [of km ?km t "L meta_slab" Q' Q X fl j] fs kinvD(3) [OF assms(1) that] by simp
  ultimately show "kinv ?km X fl Q' L D" unfolding kinv_def by blast
  show "slab_view ?km Q' L = slab_view km Q L" by (rule slab_view_cong) (simp_all add: fs)
qed

lemma kinv_upd_stat [simp]: "kinv (upd_stat c f km) X fl Q L D = kinv km X fl Q L D"
proof -
  let ?km = "upd_stat c f km"
  have sf: "slab_free ?km Q k s = slab_free km Q k s" for k s by (rule slab_free_cong) simp_all
  have "slab_ok ?km X fl Q M k s = slab_ok km X fl Q M k s" for M k s by (rule slab_ok_cong) simp_all
  moreover have "pages_ok ?km X fl = pages_ok km X fl" by (rule pages_ok_cong) simp
  moreover have "queues_ok ?km Q L D = queues_ok km Q L D" by (simp add: queues_ok_def sf)
  ultimately show ?thesis by (simp add: kinv_def)
qed

lemma slab_free_upd_stat [simp]: "slab_free (upd_stat c f km) Q k s = slab_free km Q k s"
  by (rule slab_free_cong) simp_all

lemma slab_view_upd_stat [simp]: "slab_view (upd_stat c f km) Q L = slab_view km Q L"
  by (rule slab_view_cong) simp_all

section \<open>Changing the body of one slab\<close>

lemma slab_free_bound: "k \<noteq> meta_slab \<Longrightarrow> body_ok km k s \<Longrightarrow> slab_free km Q k s \<subseteq> slab_cap k"
  using fls.free_set_bound bm16.free_set_bound bm32.free_set_bound bm64.free_set_bound
  by (cases k) auto

text \<open>While a slab is off the queues, its own bitmap or free list may change.\<close>

lemma kinv_body:
  assumes "kinv km X fl Q L D" and "(k, s) \<in> D" and "k \<noteq> meta_slab"
    and "km_pages km' = km_pages km" "km_nodes km' = km_nodes km" "data_page km' = data_page km"
    and "nr_free_slab km' = nr_free_slab km"
    and "\<And>t. t \<noteq> s \<Longrightarrow> slab_bitmap km' t = slab_bitmap km t \<and> slab_free_list km' t = slab_free_list km t"
    and "body_ok km' k s"
  shows "kinv km' X fl Q L D"
    and "slab_view km' Q L = (slab_view km Q L)(k := (slab_view km Q L k)(s \<mapsto> (slab_mem km k s, slab_free km' Q k s)))"
proof -
  have q: "queues_ok km Q L D" using kinvD(4) [OF assms(1)] .
  then have sL: "s \<in> L k" and out: "\<forall>h \<in> heads (L meta_slab). NodeAt s \<notin> set (Q h)"
    using assms(2) unfolding queues_ok_def by auto
  have other: "t \<noteq> s" if "t \<in> L j" "j \<noteq> k" for t j
    using that kinv_chunk_unique [OF assms(1) sL] by blast
  have sf: "slab_free km' Q j t = slab_free km Q j t" if "t \<in> L j" "(j, t) \<noteq> (k, s)" for j t
    using that other assms(8) [of t] by (intro slab_free_cong) auto
  have "slab_ok km' X fl Q (L meta_slab) j t" if t: "t \<in> L j" for j t
  proof -
    have "body_ok km' j t"
    proof (cases "(j, t) = (k, s)")
      case True
      then show ?thesis using assms(9) by simp
    next
      case False
      then have "body_ok km' j t = body_ok km j t"
        using other [OF t] assms(8) [of t] by (intro body_ok_cong) auto
      then show ?thesis using kinv_base(3) [OF assms(1) t] by (cases "j = meta_slab") auto
    qed
    then show ?thesis
      using kinvD(3) [OF assms(1) t] assms(4-7)
      by (auto simp: slab_ok_def meta_ok_def data_ok_def page_used_def pgs_def nr_pgs_def)
  qed
  moreover have "queues_ok km' Q L D"
    unfolding queues_ok_def
  proof (intro conjI allI ballI)
    fix j h n assume h: "h \<in> cache_queues j" and n: "n \<in> set (Q h)"
    then obtain t where t: "t \<in> L j" "n = NodeAt t" "fits j h (slab_free km Q j t)"
      using q unfolding queues_ok_def by blast
    have "t \<noteq> s" using out n t(2) cache_queues_heads [OF h] by blast
    then show "\<exists>t\<in>L j. n = NodeAt t \<and> fits j h (slab_free km' Q j t)" using t sf by auto
  qed (use q in \<open>unfold queues_ok_def, blast+\<close>)
  moreover have "pages_ok km' X fl"
    using kinvD(1) [OF assms(1)] assms(4) by (simp add: pages_ok_def pgs_def nr_pgs_def)
  ultimately show "kinv km' X fl Q L D"
    using kinvD(2) [OF assms(1)] assms(5) unfolding kinv_def by simp
  have "slab_mem km' j t = slab_mem km j t" for j t
    using assms(4,6) by (simp add: slab_mem_def pgs_def split: page_ptr.splits)
  then show "slab_view km' Q L = (slab_view km Q L)(k := (slab_view km Q L k)(s \<mapsto> (slab_mem km k s, slab_free km' Q k s)))"
    using sf sL by (intro ext) (auto simp: slab_view_def)
qed

section \<open>Changing the free headers of one meta slab\<close>

lemma kinv_meta_list:
  assumes "kinv km X fl Q L D" and "(meta_slab, a) \<in> D"
    and "km_pages km' = km_pages km" "data_page km' = data_page km"
    and "slab_bitmap km' = slab_bitmap km" "slab_free_list km' = slab_free_list km"
    and "nr_free_slab km' = (nr_free_slab km)(a := m)" "unat m = length ns"
    and "forest (km_nodes km') (heads (L meta_slab)) (Q(free_slab a := ns))"
    and "set ns \<subseteq> slot a ` {1..<64}"
    and "\<And>k s. k \<noteq> meta_slab \<Longrightarrow> s \<in> L k \<Longrightarrow> NodeAt s \<notin> set ns"
  defines "Q' \<equiv> Q(free_slab a := ns)"
  shows "kinv km' X fl Q' L D"
    and "slab_view km' Q' L = (slab_view km Q L)(meta_slab := (slab_view km Q L meta_slab)
           (a \<mapsto> (a, {i \<in> {1..<64}. slot a i \<in> set ns})))"
proof -
  have q: "queues_ok km Q L D" using kinvD(4) [OF assms(1)] .
  then have aL: "a \<in> L meta_slab" and out: "\<forall>h \<in> heads (L meta_slab). NodeAt a \<notin> set (Q h)"
    using assms(2) unfolding queues_ok_def by auto
  have ma: "meta_addr a" using kinv_meta_addr [OF assms(1) aL] .
  have sf: "slab_free km' Q' j t = slab_free km Q j t" if "(j, t) \<noteq> (meta_slab, a)" for j t
    using that assms(5,6) by (intro slab_free_cong) (auto simp: Q'_def free_slab_inj)
  have slots: "NodeAt t \<notin> set ns" if "t \<in> L j" for j t
  proof (cases "j = meta_slab")
    case True
    then have "meta_addr t" using kinv_meta_addr [OF assms(1)] that by blast
    then show ?thesis using assms(10) slot_not_header [OF ma] by (metis (no_types, lifting) imageE subsetD)
  qed (use assms(11) that in blast)
  have "slab_ok km' X fl Q' (L meta_slab) j t" if t: "t \<in> L j" for j t
  proof -
    have "header_ok Q' (L meta_slab) t" if "header_ok Q (L meta_slab) t" "j \<noteq> meta_slab"
    proof -
      from that(1) obtain b i where b: "b \<in> L meta_slab" "i \<in> {1..<64}" "NodeAt t = slot b i"
        "slot b i \<notin> set (Q (free_slab b))" unfolding header_ok_def by blast
      then have "slot b i \<notin> set (Q' (free_slab b))" using slots [OF t] by (simp add: Q'_def)
      with b show ?thesis unfolding header_ok_def by blast
    qed
    moreover have "meta_ok km' X fl Q' t" if "meta_ok km X fl Q t" "j = meta_slab"
      using that(1) assms(3,7,8,10)
      by (auto simp: meta_ok_def page_used_def pgs_def nr_pgs_def Q'_def free_slab_inj)
    moreover have "body_ok km' j t = body_ok km j t" using assms(5,6) by (intro body_ok_cong) simp_all
    ultimately show ?thesis
      using kinvD(3) [OF assms(1) t] assms(3,4)
      by (auto simp: slab_ok_def data_ok_def page_used_def pgs_def nr_pgs_def)
  qed
  moreover have Qh: "Q' h = Q h" if "h \<in> cache_queues j" for h j
    using cache_queues_not_free_slab [OF that] by (simp add: Q'_def)
  moreover have "queues_ok km' Q' L D"
    unfolding queues_ok_def
  proof (intro conjI allI ballI)
    fix j h n assume h: "h \<in> cache_queues j" and n: "n \<in> set (Q' h)"
    then obtain t where t: "t \<in> L j" "n = NodeAt t" "fits j h (slab_free km Q j t)"
      using queued_slab [OF assms(1) h] Qh [OF h] by metis
    have "t \<noteq> a" using out n t(2) cache_queues_heads [OF h] Qh [OF h] by auto
    then show "\<exists>t\<in>L j. n = NodeAt t \<and> fits j h (slab_free km' Q' j t)" using t sf by auto
  next
    fix j t assume "t \<in> L j"
    then have "(j, t) \<in> D \<or> (\<exists>h\<in>cache_queues j. NodeAt t \<in> set (Q h))"
      using q unfolding queues_ok_def by blast
    then show "(j, t) \<in> D \<or> (\<exists>h\<in>cache_queues j. NodeAt t \<in> set (Q' h))" using Qh by metis
  next
    fix x assume "x \<in> D"
    then have "case x of (k, s) \<Rightarrow> s \<in> L k \<and> (\<forall>h\<in>heads (L meta_slab). NodeAt s \<notin> set (Q h))"
      using q unfolding queues_ok_def by blast
    then show "case x of (k, s) \<Rightarrow> s \<in> L k \<and> (\<forall>h\<in>heads (L meta_slab). NodeAt s \<notin> set (Q' h))"
      using slots by (auto simp: Q'_def)
  qed
  moreover have "pages_ok km' X fl"
    using kinvD(1) [OF assms(1)] assms(3) by (simp add: pages_ok_def pgs_def nr_pgs_def)
  ultimately show "kinv km' X fl Q' L D" using assms(9) unfolding kinv_def Q'_def by blast
  have "slab_mem km' j t = slab_mem km j t" for j t
    using assms(3,4) by (simp add: slab_mem_def pgs_def split: page_ptr.splits)
  moreover have "slab_mem km meta_slab a = a" by (simp add: slab_mem_def)
  ultimately show "slab_view km' Q' L = (slab_view km Q L)(meta_slab := (slab_view km Q L meta_slab)
           (a \<mapsto> (a, {i \<in> {1..<64}. slot a i \<in> set ns})))"
    using sf aL by (intro ext) (auto simp: slab_view_def Q'_def free_slab_inj)
qed

lemma card_slots: "meta_addr a \<Longrightarrow> card (slot a ` {1..<64}) = 63"
  by (subst card_image) (auto simp: inj_on_def slot_inj)

lemma free_headers_le:
  assumes "kinv km X fl Q L D" and "a \<in> L meta_slab"
  shows "length (Q (free_slab a)) \<le> 63"
  using card_mono [OF _ kinv_free_list(1) [OF assms]] card_slots [OF kinv_meta_addr [OF assms]]
    distinct_card [OF kinv_free_list(3) [OF assms]] by simp

lemma MetaSlab_is_full_iff:
  assumes "kinv km X fl Q L D" and "a \<in> L meta_slab"
  shows "MetaSlab_is_full a km \<longleftrightarrow> slab_free km Q meta_slab a = {}"
proof -
  have "MetaSlab_is_full a km \<longleftrightarrow> Q (free_slab a) = []"
    using kinv_free_list(2) [OF assms] by (auto simp: MetaSlab_is_full_def unat_eq_0 [symmetric])
  also have "\<dots> \<longleftrightarrow> slab_free km Q meta_slab a = {}"
    using kinv_free_list(1) [OF assms] by (cases "Q (free_slab a)") auto
  finally show ?thesis .
qed

lemma MetaSlab_is_empty_iff:
  assumes "kinv km X fl Q L D" and "a \<in> L meta_slab"
  shows "MetaSlab_is_empty a km \<longleftrightarrow> slab_free km Q meta_slab a = slab_cap meta_slab"
proof -
  let ?S = "slot a ` {1..<64}" and ?l = "Q (free_slab a)"
  have ma: "meta_addr a" using kinv_meta_addr [OF assms] .
  have "MetaSlab_is_empty a km \<longleftrightarrow> card (set ?l) = card ?S"
    using kinv_free_list(2) [OF assms] distinct_card [OF kinv_free_list(3) [OF assms]] card_slots [OF ma]
    by (auto simp: MetaSlab_is_empty_def word_unat_eq_iff)
  also have "\<dots> \<longleftrightarrow> set ?l = ?S"
    using card_subset_eq [OF _ kinv_free_list(1) [OF assms]] by auto
  also have "\<dots> \<longleftrightarrow> slab_free km Q meta_slab a = slab_cap meta_slab"
    using kinv_free_list(1) [OF assms] by auto
  finally show ?thesis .
qed

text \<open>A header that may be given back: no cache uses it for a slab.\<close>

definition header_unused :: "(chunk \<Rightarrow> u64 set) \<Rightarrow> u64 \<Rightarrow> nat \<Rightarrow> bool" where
  "header_unused L a i \<longleftrightarrow> (\<forall>k. k \<noteq> meta_slab \<longrightarrow> (\<forall>s \<in> L k. NodeAt s \<noteq> slot a i))"

lemma free_header_unused:
  assumes "kinv km X fl Q L D" and "a \<in> L meta_slab" and "i \<in> slab_free km Q meta_slab a"
  shows "header_unused L a i"
  unfolding header_unused_def
proof (intro allI impI ballI notI)
  fix k s assume k: "k \<noteq> meta_slab" "s \<in> L k" and e: "NodeAt s = slot a i"
  obtain b j where b: "b \<in> L meta_slab" "j \<in> {1..<64}" "NodeAt s = slot b j" "slot b j \<notin> set (Q (free_slab b))"
    using kinv_base(1) [OF assms(1) k(2,1)] by (auto simp: header_ok_def)
  then have "a = b \<and> i = j"
    using e assms(3) slot_inj [of a b i j] kinv_meta_addr [OF assms(1)] assms(2) by auto
  then show False using b assms(3) by simp
qed

lemma MetaSlab_idx: "i < 64 \<Longrightarrow> i32 (sint ((a + of_nat (64 * i)) - a :: u64) sdiv 64) = int i"
proof -
  assume i: "i < 64"
  have "sint (of_nat (64 * i) :: u64) = int (64 * i)"
    using i by (simp add: signed_of_nat signed_take_bit_int_eq_self del: of_nat_mult)
  then show ?thesis using i by (cases "i = 0") (simp_all add: signed_divide_int_def i32_def sgn_if)
qed

lemma MetaSlab_Alloc_inv:
  assumes "kinv km X fl Q L D" and "(meta_slab, a) \<in> D" and "slab_free km Q meta_slab a \<noteq> {}"
  shows "\<exists>i km' Q'. MetaSlab_Alloc a km = Inr (i, km') \<and> kinv km' X fl Q' L D \<and>
    i \<in> slab_free km Q meta_slab a \<and> header_unused L a i \<and> cache_stats km' = cache_stats km \<and>
    slab_view km' Q' L = (slab_view km Q L)(meta_slab := (slab_view km Q L meta_slab)
      (a \<mapsto> (slab_mem km meta_slab a, slab_free km Q meta_slab a - {i})))"
proof -
  have aL: "a \<in> L meta_slab" using kinvD(4) [OF assms(1)] assms(2) unfolding queues_ok_def by auto
  note fl = kinv_free_list [OF assms(1) aL] and ma = kinv_meta_addr [OF assms(1) aL]
  obtain n r where nr: "Q (free_slab a) = n # r" using assms(3) by (cases "Q (free_slab a)") auto
  then obtain i where i: "i \<in> {1..<64}" "n = slot a i" using fl(1) by auto
  let ?m = "nr_free_slab km a - 1"
  let ?km = "(upd_nodes (\<lambda>h. Delete h n) km)\<lparr>nr_free_slab := (nr_free_slab km)(a := ?m)\<rparr>"
  let ?Q = "Q(free_slab a := r)"
  have nx: "node_next (km_nodes km (free_slab a)) = n"
    using forest_next [OF kinvD(2) [OF assms(1)] fl(4) nr] .
  have pos: "0 < nr_free_slab km a" using fl(2) nr by (simp add: word_less_nat_alt)
  have alloc: "MetaSlab_Alloc a km = Inr (i, ?km)"
    using nx pos i MetaSlab_idx [of i a] by (simp add: MetaSlab_Alloc_def Let_def slot_def)
  have fo: "forest (km_nodes ?km) (heads (L meta_slab)) ?Q"
    using forest_Delete [OF kinvD(2) [OF assms(1)] fl(4), of n] nr by simp
  have free: "i \<in> slab_free km Q meta_slab a" using i nr by simp
  have sub: "set r \<subseteq> slot a ` {1..<64}" and hdr: "k \<noteq> meta_slab \<Longrightarrow> s \<in> L k \<Longrightarrow> NodeAt s \<notin> set r" for k s
  proof -
    show "set r \<subseteq> slot a ` {1..<64}" using fl(1) nr by auto
    then show "NodeAt s \<notin> set r" if "k \<noteq> meta_slab" "s \<in> L k"
      using free_header_unused [OF assms(1) aL] that nr unfolding header_unused_def by auto
  qed
  note up = kinv_meta_list [OF assms(1,2), of ?km ?m r, OF _ _ _ _ _ _ fo sub hdr]
  have len: "unat ?m = length r" using unat_dec [of "nr_free_slab km a"] fl(2) nr by simp
  have "{j \<in> {1..<64}. slot a j \<in> set r} = slab_free km Q meta_slab a - {i}"
    using fl(3) nr i ma slot_inj [of a a] by auto
  then show ?thesis
    using alloc up len free free_header_unused [OF assms(1) aL free]
    by (intro exI [of _ i] exI [of _ ?km] exI [of _ ?Q]) (simp add: slab_mem_def)
qed

lemma slot_not_in_rings:
  assumes "kinv km X fl Q L D" and "a \<in> L meta_slab" and "i \<in> {1..<64}"
    and "i \<notin> slab_free km Q meta_slab a" and "header_unused L a i" and "h \<in> heads (L meta_slab)"
  shows "slot a i \<notin> ring Q h"
  using assms(6)
proof (cases rule: heads_cases)
  case (1 k)
  have "slot a i \<noteq> h" using 1 by (auto simp: cache_queues_def slot_def)
  moreover have "slot a i \<notin> set (Q h)"
  proof
    assume n: "slot a i \<in> set (Q h)"
    obtain s where s: "s \<in> L k" "slot a i = NodeAt s" using queued_slab [OF assms(1) 1 n] by blast
    show False
    proof (cases "k = meta_slab")
      case True
      then show ?thesis
        using s slot_not_header [of a s i] kinv_meta_addr [OF assms(1)] assms(2,3) by auto
    next
      case False
      then show ?thesis using s assms(5) unfolding header_unused_def by auto
    qed
  qed
  ultimately show ?thesis by (simp add: ring_def)
next
  case (2 b)
  have ma: "meta_addr a" "meta_addr b" using kinv_meta_addr [OF assms(1)] assms(2) 2 by auto
  have "slot a i \<noteq> h" using 2 slot_not_free_slab [OF ma] assms(3) by auto
  moreover have "slot a i \<notin> set (Q h)"
  proof
    assume n: "slot a i \<in> set (Q h)"
    then obtain j where "j \<in> {1..<64}" "slot a i = slot b j" using kinv_free_list(1) [OF assms(1) 2(1)] 2 by auto
    then show False using n assms(3,4) slot_inj [OF ma] 2 by auto
  qed
  ultimately show ?thesis by (simp add: ring_def)
qed

lemma MetaSlab_Free_inv:
  assumes "kinv km X fl Q L D" and "(meta_slab, a) \<in> D" and "i \<in> slab_cap meta_slab"
    and "i \<notin> slab_free km Q meta_slab a" and "header_unused L a i"
  shows "\<exists>km' Q'. MetaSlab_Free a i km = Inr km' \<and> kinv km' X fl Q' L D \<and> cache_stats km' = cache_stats km \<and>
    slab_view km' Q' L = (slab_view km Q L)(meta_slab := (slab_view km Q L meta_slab)
      (a \<mapsto> (slab_mem km meta_slab a, insert i (slab_free km Q meta_slab a))))"
proof -
  have aL: "a \<in> L meta_slab" using kinvD(4) [OF assms(1)] assms(2) unfolding queues_ok_def by auto
  note fl = kinv_free_list [OF assms(1) aL] and ma = kinv_meta_addr [OF assms(1) aL]
  have i: "i \<in> {1..<64}" using assms(3) by simp
  let ?n = "slot a i" and ?m = "nr_free_slab km a + 1"
  let ?km = "(upd_nodes (\<lambda>h. InsertAfter h ?n (free_slab a)) km)\<lparr>nr_free_slab := (nr_free_slab km)(a := ?m)\<rparr>"
  let ?ns = "?n # Q (free_slab a)"
  have "NodeAt (a + of_nat i * 64) = ?n" by (simp add: slot_def)
  then have free: "MetaSlab_Free a i km = Inr ?km" using i by (simp add: MetaSlab_Free_def Let_def)
  have fo: "forest (km_nodes ?km) (heads (L meta_slab)) (Q(free_slab a := ?ns))"
    using forest_InsertAfter [OF kinvD(2) [OF assms(1)] fl(4)] slot_not_in_rings [OF assms(1) aL i assms(4,5)]
    by simp
  have sub: "set ?ns \<subseteq> slot a ` {1..<64}" using fl(1) i by auto
  have hdr: "k \<noteq> meta_slab \<Longrightarrow> s \<in> L k \<Longrightarrow> NodeAt s \<notin> set ?ns" for k s
  proof -
    assume k: "k \<noteq> meta_slab" and s: "s \<in> L k"
    have "NodeAt s \<noteq> slot a j" if "j = i \<or> j \<in> slab_free km Q meta_slab a" for j
      using that free_header_unused [OF assms(1) aL] assms(5) k s unfolding header_unused_def by blast
    moreover have "\<exists>j. (j = i \<or> j \<in> slab_free km Q meta_slab a) \<and> n = slot a j" if "n \<in> set ?ns" for n
      using that subsetD [OF fl(1), of n] by fastforce
    ultimately show "NodeAt s \<notin> set ?ns" by blast
  qed
  note up = kinv_meta_list [OF assms(1,2), of ?km ?m ?ns, OF _ _ _ _ _ _ fo sub hdr]
  have "length (Q (free_slab a)) \<le> 63" using free_headers_le [OF assms(1) aL] .
  then have len: "unat ?m = length ?ns" using unat_inc [of "nr_free_slab km a"] fl(2) by simp
  have "{j \<in> {1..<64}. slot a j \<in> set ?ns} = insert i (slab_free km Q meta_slab a)"
    using ma slot_inj [of a a] i by auto
  then show ?thesis
    using free up len by (intro exI [of _ ?km] exI [of _ "Q(free_slab a := ?ns)"]) (simp add: slab_mem_def)
qed

section \<open>Taking pages and giving them back\<close>

lemma mp_inv_slab_fields:
  "mp_inv (set_page mp i (\<lambda>p. p\<lparr>slab_ptr := a, slab_obj_size := z\<rparr>)) fl = mp_inv mp fl"
proof -
  have "links (set_page mp i (\<lambda>p. p\<lparr>slab_ptr := a, slab_obj_size := z\<rparr>)) = links mp"
    by (rule ext) (auto simp: links_def)
  then show ?thesis by (auto simp: mp_inv_def page_list_def)
qed

definition slab_pages :: "kmem \<Rightarrow> (chunk \<Rightarrow> u64 set) \<Rightarrow> nat set" where
  "slab_pages km L = {p. kaddr p 0 \<in> L meta_slab \<or> (\<exists>k s. k \<noteq> meta_slab \<and> s \<in> L k \<and> data_page km s = PageAt p)}"

lemma kinv_pages:
  assumes "kinv km X fl Q L D" and "pages_ok km' X' fl'"
    and "\<And>p. p \<in> slab_pages km L \<Longrightarrow> page_used km X fl p \<Longrightarrow> page_used km' X' fl' p \<and> slab_ptr (pgs km' p) = slab_ptr (pgs km p) \<and>
           slab_obj_size (pgs km' p) = slab_obj_size (pgs km p)"
    and "km_nodes km' = km_nodes km" "slab_bitmap km' = slab_bitmap km"
    and "slab_free_list km' = slab_free_list km" "nr_free_slab km' = nr_free_slab km"
    and "\<And>k s. k \<noteq> meta_slab \<Longrightarrow> s \<in> L k \<Longrightarrow> data_page km' s = data_page km s"
  shows "kinv km' X' fl' Q L D" and "slab_view km' Q L = slab_view km Q L"
proof -
  have sf: "slab_free km' Q j t = slab_free km Q j t" for j t
    using assms(5,6) by (intro slab_free_cong) simp_all
  have "slab_ok km' X' fl' Q (L meta_slab) j t" if t: "t \<in> L j" for j t
  proof -
    have "body_ok km' j t = body_ok km j t" using assms(5,6) by (intro body_ok_cong) simp_all
    moreover have "meta_ok km' X' fl' Q t" if "meta_ok km X fl Q t" "j = meta_slab"
    proof -
      obtain p where "t = kaddr p 0" "page_used km X fl p" "slab_ptr (pgs km p) = t"
        using \<open>meta_ok km X fl Q t\<close> unfolding meta_ok_def by blast
      moreover have "p \<in> slab_pages km L" using t that(2) \<open>t = kaddr p 0\<close> by (simp add: slab_pages_def)
      ultimately show ?thesis using that assms(3,7) unfolding meta_ok_def by metis
    qed
    moreover have "data_ok km' X' fl' j t" if "data_ok km X fl j t" "j \<noteq> meta_slab"
    proof -
      obtain p where "data_page km t = PageAt p" "page_used km X fl p" "slab_ptr (pgs km p) = t"
          "slab_obj_size (pgs km p) = int (ObjSize j)"
        using \<open>data_ok km X fl j t\<close> unfolding data_ok_def by blast
      moreover have "p \<in> slab_pages km L"
        using t that(2) \<open>data_page km t = PageAt p\<close> unfolding slab_pages_def by blast
      ultimately show ?thesis using assms(3) assms(8) [OF that(2) t] unfolding data_ok_def by metis
    qed
    ultimately show ?thesis using kinvD(3) [OF assms(1) t] by (auto simp: slab_ok_def)
  qed
  moreover have "queues_ok km' Q L D"
    using kinvD(4) [OF assms(1)] by (simp add: queues_ok_def sf)
  ultimately show "kinv km' X' fl' Q L D"
    using assms(2,4) kinvD(2) [OF assms(1)] unfolding kinv_def by simp
  have "slab_mem km' j t = slab_mem km j t" if t: "t \<in> L j" for j t
  proof (cases "j = meta_slab")
    case False
    with t obtain p where "data_page km t = PageAt p" "page_used km X fl p"
      using kinv_base(2) [OF assms(1) \<open>t \<in> L j\<close>] unfolding data_ok_def by blast
    moreover have "p \<in> slab_pages km L"
      using t False \<open>data_page km t = PageAt p\<close> unfolding slab_pages_def by blast
    ultimately show ?thesis
      using assms(3) [of p] assms(8) [OF False t] by (auto simp: slab_mem_def page_used_def)
  qed (simp add: slab_mem_def)
  then show "slab_view km' Q L = slab_view km Q L"
    using sf by (intro ext) (simp add: slab_view_def)
qed

lemma kinv_take_page:
  assumes "kinv km X (x # y # r) Q L D"
  obtains mp where "AllocPage (km_pages km) = Inr (PageAt x, mp)" and "mp_inv mp (y # r)"
    and "same_meta (km_pages km) mp" and "phyaddr (page_structs mp x) = of_nat (4096 * x)"
    and "x < 2 ^ 52" and "kaddr x 0 \<notin> L meta_slab"
proof -
  have po: "pages_ok km X (x # y # r)" using kinvD(1) [OF assms] .
  then have mi: "mp_inv (km_pages km) (x # y # r)" by (simp add: pages_ok_def)
  then obtain mp where mp: "AllocPage (km_pages km) = Inr (PageAt x, mp)" "mp_inv mp (y # r)"
    "same_meta (km_pages km) mp" using AllocPage_inv by blast
  have x52: "x < 2 ^ 52" using mi po by (auto simp: mp_inv_def pages_ok_def nr_pgs_def)
  have ph: "phyaddr (page_structs mp x) = of_nat (4096 * x)"
    using po same_metaD(2) [OF mp(3)] by (simp add: pages_ok_def pgs_def)
  have "kaddr x 0 \<notin> L meta_slab"
  proof
    assume "kaddr x 0 \<in> L meta_slab"
    then obtain p where "kaddr x 0 = kaddr p 0" "p < 2 ^ 52" "page_used km X (x # y # r) p"
      using kinv_meta [OF assms] by metis
    then show False using kaddr_inj [of x 0 p 0] x52 by (auto simp: page_used_def)
  qed
  then show thesis using that mp ph x52 by blast
qed

lemma kinv_write_page:
  assumes "kinv km X (x # y # r) Q L D" and "mp_inv mp (y # r)" and "same_meta (km_pages km) mp"
    and km': "km_pages km' = set_page mp x (\<lambda>p. p\<lparr>slab_ptr := a, slab_obj_size := z\<rparr>)"
      "km_nodes km' = km_nodes km" "slab_bitmap km' = slab_bitmap km"
      "slab_free_list km' = slab_free_list km" "nr_free_slab km' = nr_free_slab km"
      "\<And>k s. k \<noteq> meta_slab \<Longrightarrow> s \<in> L k \<Longrightarrow> data_page km' s = data_page km s"
  shows "kinv km' X (y # r) Q L D" and "slab_view km' Q L = slab_view km Q L"
    and "page_used km' X (y # r) x" and "slab_ptr (pgs km' x) = a" and "slab_obj_size (pgs km' x) = z"
proof -
  note sm = same_metaD [OF assms(3)]
  have po: "pages_ok km X (x # y # r)" using kinvD(1) [OF assms(1)] .
  then have mi: "mp_inv (km_pages km) (x # y # r)" by (simp add: pages_ok_def)
  have xd: "x \<notin> set (y # r)" "x < nr_pgs km"
    using mp_inv_distinct [OF mi] mi by (auto simp: mp_inv_def nr_pgs_def)
  have nr: "nr_pgs km' = nr_pgs km" using km'(1) sm(1) by (simp add: nr_pgs_def)
  have pg: "phyaddr (pgs km' p) = phyaddr (pgs km p)"
    "p \<noteq> x \<Longrightarrow> slab_ptr (pgs km' p) = slab_ptr (pgs km p) \<and> slab_obj_size (pgs km' p) = slab_obj_size (pgs km p)" for p
    using km'(1) sm by (auto simp: pgs_def)
  have po': "pages_ok km' X (y # r)"
    unfolding pages_ok_def nr pg(1)
  proof (intro conjI allI impI ballI)
    show "mp_inv (km_pages km') (y # r)" using assms(2) km'(1) mp_inv_slab_fields by simp
    fix p v assume v: "X p = Some v"
    then have "p \<noteq> x" using po by (auto simp: pages_ok_def)
    then show "slab_obj_size (pgs km' p) = v" using v po pg(2) by (auto simp: pages_ok_def)
  qed (use po in \<open>auto simp: pages_ok_def\<close>)
  have used: "page_used km' X (y # r) p \<and> slab_ptr (pgs km' p) = slab_ptr (pgs km p) \<and>
      slab_obj_size (pgs km' p) = slab_obj_size (pgs km p)"
      if "p \<in> slab_pages km L" "page_used km X (x # y # r) p" for p
    using that pg [of p] nr by (auto simp: page_used_def)
  show "kinv km' X (y # r) Q L D" "slab_view km' Q L = slab_view km Q L"
    by (rule kinv_pages [OF assms(1) po'], (fact used km')+)+
  show "page_used km' X (y # r) x" using xd po nr pg(1) by (auto simp: page_used_def pages_ok_def)
  show "slab_ptr (pgs km' x) = a" "slab_obj_size (pgs km' x) = z" using km'(1) by (simp_all add: pgs_def)
qed

lemma kinv_no_page:
  "kinv km X fl Q L D \<Longrightarrow> length fl \<le> 1 \<Longrightarrow> AllocPage (km_pages km) = Inr (NullPage, km_pages km)"
  using AllocPage_short kinvD(1) pages_ok_def by blast

lemma two_pages: "\<not> length fl \<le> 1 \<Longrightarrow> \<exists>x y r. fl = x # y # r"
  by (cases fl; cases "tl fl") auto

text \<open>Nothing linked lies in a page that holds no meta slab.\<close>

lemma page_not_in_rings:
  assumes "kinv km X fl Q L D" and "x < 2 ^ 52" and "kaddr x 0 \<notin> L meta_slab" and "off < 4096"
    and "h \<in> heads (L meta_slab)"
  shows "NodeAt (kaddr x off) \<notin> ring Q h"
proof
  assume n: "NodeAt (kaddr x off) \<in> ring Q h"
  have key: False if b: "b \<in> L meta_slab" "off' < 4096" "\<And>p. b = kaddr p 0 \<Longrightarrow> kaddr x off = kaddr p off'" for b off'
  proof -
    obtain p where "b = kaddr p 0" "p < 2 ^ 52" using kinv_meta [OF assms(1) b(1)] by blast
    then show False using b kaddr_inj [of x off p off'] assms(2-4) by auto
  qed
  have slot: False if "b \<in> L meta_slab" "i < 64" "NodeAt (kaddr x off) = slot b i" for b i
    by (rule key [OF that(1), of "64 * i"]) (use that(2,3) in \<open>auto simp: slot_kaddr\<close>)
  show False using assms(5)
  proof (cases rule: heads_cases)
    case (1 k)
    then have "NodeAt (kaddr x off) \<in> set (Q h)" using n by (auto simp: ring_def cache_queues_def)
    then obtain s where s: "s \<in> L k" "kaddr x off = s" using queued_slab [OF assms(1) 1] by auto
    show False
    proof (cases "k = meta_slab")
      case True
      then show ?thesis using s slot [of s 0] by (simp add: slot_0)
    next
      case False
      then obtain b i where "b \<in> L meta_slab" "i < 64" "NodeAt s = slot b i"
        using kinv_base(1) [OF assms(1) s(1)] by (auto simp: header_ok_def)
      then show ?thesis using s(2) slot [of b i] by simp
    qed
  next
    case (2 b)
    have "NodeAt (kaddr x off) \<noteq> h"
    proof
      assume "NodeAt (kaddr x off) = h"
      then show False using 2 by (intro key [OF 2(1), of 16]) (auto simp: free_slab_kaddr)
    qed
    then have "NodeAt (kaddr x off) \<in> set (Q (free_slab b))" using n 2 by (auto simp: ring_def)
    then have "NodeAt (kaddr x off) \<in> slot b ` {1..<64}"
      using subsetD [OF kinv_free_list(1) [OF assms(1) 2(1)]] by blast
    then obtain i where "i < 64" "NodeAt (kaddr x off) = slot b i" by auto
    then show False using slot [OF 2(1)] by blast
  qed
qed

section \<open>A new meta slab, and its release\<close>

lemma meta_link_fold:
  "meta_link n ptr hp h = fold (\<lambda>n h. InsertAfter h n hp) (map (\<lambda>i. NodeAt (ptr + of_nat (64 * i))) [0..<n]) h"
proof (induction n arbitrary: ptr h)
  case (Suc n)
  have "map (\<lambda>i. NodeAt (ptr + of_nat (64 * i))) [0..<Suc n] =
      NodeAt ptr # map (\<lambda>i. NodeAt (ptr + 64 + of_nat (64 * i))) [0..<n]"
    by (simp add: upt_conv_Cons map_Suc_upt [symmetric] add.assoc del: upt_Suc)
  then show ?case using Suc by (simp only: meta_link.simps fold_simps)
qed simp

lemma meta_slots: "map (\<lambda>i. NodeAt (a + 64 + of_nat (64 * i))) [0..<63] = map (slot a) [1..<64]"
proof -
  have "[1..<64] = map Suc [0..<63]" by (simp add: map_Suc_upt)
  then show ?thesis by (simp add: slot_def add.assoc)
qed

lemma MetaSlab_Init_inv:
  assumes "kinv km X fl Q L D" and "page_used km X fl x" and "slab_ptr (pgs km x) = kaddr x 0"
    and "kaddr x 0 \<notin> L meta_slab"
  defines "a \<equiv> kaddr x 0"
  shows "\<exists>km' Q'. MetaSlab_Init 64 a km = Inr km' \<and>
    kinv km' X fl Q' (L(meta_slab := insert a (L meta_slab))) (insert (meta_slab, a) D) \<and>
    cache_stats km' = cache_stats km \<and>
    slab_view km' Q' (L(meta_slab := insert a (L meta_slab))) =
      (slab_view km Q L)(meta_slab := (slab_view km Q L meta_slab)(a \<mapsto> (a, slab_cap meta_slab)))"
proof -
  let ?ns = "map (slot a) [1..<64]" and ?L = "L(meta_slab := insert a (L meta_slab))"
  let ?Q = "Q(free_slab a := rev ?ns)"
  let ?km = "km\<lparr>km_nodes := fold (\<lambda>n h. InsertAfter h n (free_slab a)) ?ns (InitHead (km_nodes km) (free_slab a)),
    nr_free_slab := (nr_free_slab km)(a := 63)\<rparr>"
  have x: "x < 2 ^ 52" using kinv_page_bound [OF assms(1,2)] .
  then have ma: "meta_addr a" by (auto simp: meta_addr_def a_def)
  have init: "MetaSlab_Init 64 a km = Inr ?km"
    unfolding MetaSlab_Init_def Let_def upd_nodes_def meta_link_fold meta_slots by simp
  have fresh: "NodeAt (kaddr x off) \<notin> ring Q h" if "off < 4096" "h \<in> heads (L meta_slab)" for off h
    using page_not_in_rings [OF assms(1) x assms(4) that] .
  have hd: "heads (?L meta_slab) = insert (free_slab a) (heads (L meta_slab))" by (auto simp: heads_def)
  have "free_slab a \<notin> ring Q h" if "h \<in> heads (L meta_slab)" for h
    using fresh [of 16 h] that by (simp add: a_def free_slab_kaddr)
  then have f0: "forest (InitHead (km_nodes km) (free_slab a)) (heads (?L meta_slab)) (Q(free_slab a := []))"
    unfolding hd by (intro forest_InitHead [OF kinvD(2) [OF assms(1)]]) blast
  have new: "slot a i \<notin> ring (Q(free_slab a := [])) h" if "i < 64" "h \<in> heads (?L meta_slab)" for i h
  proof (cases "h = free_slab a")
    case True
    then show ?thesis using slot_not_free_slab [OF ma ma that(1)] by (simp add: ring_def)
  next
    case False
    then show ?thesis using fresh [of "64 * i" h] that unfolding hd by (simp add: ring_def a_def slot_kaddr)
  qed
  have dn: "distinct ?ns" using ma by (auto simp: distinct_map inj_on_def slot_inj)
  have fo: "forest (km_nodes ?km) (heads (?L meta_slab)) ?Q"
  proof -
    have "free_slab a \<in> heads (?L meta_slab)" by (simp add: heads_def)
    moreover have "\<forall>n \<in> set ?ns. \<forall>h \<in> heads (?L meta_slab). n \<notin> ring (Q(free_slab a := [])) h"
      using new by auto
    ultimately show ?thesis using forest_push_all [OF f0 _ dn, of "free_slab a"] by simp
  qed
  have sf: "slab_free ?km ?Q j t = slab_free km Q j t" if "(j, t) \<noteq> (meta_slab, a)" for j t
    using that by (intro slab_free_cong) (auto simp: free_slab_inj)
  have sa: "slab_free ?km ?Q meta_slab a = slab_cap meta_slab" by auto
  have Qh: "?Q h = Q h" if "h \<in> heads (L meta_slab)" for h
    using fresh [of 16 h] that by (auto simp: a_def free_slab_kaddr ring_def)
  have Qc: "?Q h = Q h" if "h \<in> cache_queues j" for h j using Qh cache_queues_heads [OF that] by blast
  have notnew: "NodeAt t \<notin> set (rev ?ns)" if t: "t \<in> L j" for j t
  proof
    assume "NodeAt t \<in> set (rev ?ns)"
    then obtain i where i: "i \<in> {1..<64}" "NodeAt t = slot a i" by auto
    show False
    proof (cases "j = meta_slab")
      case True
      then show ?thesis using i slot_not_header [OF ma] kinv_meta_addr [OF assms(1)] t by metis
    next
      case False
      then obtain b k where "b \<in> L meta_slab" "k \<in> {1..<64}" "NodeAt t = slot b k"
        using kinv_base(1) [OF assms(1) t] by (auto simp: header_ok_def)
      then show ?thesis
        using i slot_inj [OF ma, of b i k] kinv_meta_addr [OF assms(1)] assms(4) by (auto simp: a_def)
    qed
  qed
  have "slab_ok ?km X fl ?Q (?L meta_slab) j t" if t: "t \<in> ?L j" for j t
  proof (cases "(j, t) = (meta_slab, a)")
    case True
    have "page_used ?km X fl x \<and> slab_ptr (pgs ?km x) = a"
      using assms(2,3) by (simp add: page_used_def pgs_def nr_pgs_def a_def)
    then show ?thesis using True by (auto simp: slab_ok_def meta_ok_def a_def)
  next
    case False
    then have tj: "t \<in> L j" using t by (auto split: if_splits)
    have "header_ok ?Q (?L meta_slab) t" if "header_ok Q (L meta_slab) t"
    proof -
      from that obtain b i where b: "b \<in> L meta_slab" "i \<in> {1..<64}" "NodeAt t = slot b i"
        "slot b i \<notin> set (Q (free_slab b))" unfolding header_ok_def by blast
      then have "slot b i \<notin> set (?Q (free_slab b))" using notnew [OF tj] by simp
      moreover have "b \<in> ?L meta_slab" using b(1) by simp
      ultimately show ?thesis using b(2,3) unfolding header_ok_def by blast
    qed
    moreover have "meta_ok ?km X fl ?Q t" if "meta_ok km X fl Q t" "j = meta_slab"
      using that False by (simp add: meta_ok_def page_used_def pgs_def nr_pgs_def free_slab_inj)
    moreover have "body_ok ?km j t = body_ok km j t" by (rule body_ok_cong) simp_all
    ultimately show ?thesis
      using kinvD(3) [OF assms(1) tj] by (auto simp: slab_ok_def data_ok_def page_used_def pgs_def nr_pgs_def)
  qed
  moreover have "queues_ok ?km ?Q ?L (insert (meta_slab, a) D)"
    unfolding queues_ok_def
  proof (intro conjI allI ballI)
    fix j h n assume h: "h \<in> cache_queues j" and n: "n \<in> set (?Q h)"
    then obtain t where t: "t \<in> L j" "n = NodeAt t" "fits j h (slab_free km Q j t)"
      using queued_slab [OF assms(1) h] Qc [OF h] by metis
    have "(j, t) \<noteq> (meta_slab, a)" using t(1) assms(4) by (auto simp: a_def)
    then show "\<exists>t\<in>?L j. n = NodeAt t \<and> fits j h (slab_free ?km ?Q j t)" using t sf by auto
  next
    fix j t assume "t \<in> ?L j"
    then have "(j, t) = (meta_slab, a) \<or> t \<in> L j" by (auto split: if_splits)
    then show "(j, t) \<in> insert (meta_slab, a) D \<or> (\<exists>h\<in>cache_queues j. NodeAt t \<in> set (?Q h))"
      using kinvD(4) [OF assms(1)] Qc unfolding queues_ok_def by (metis insert_iff)
  next
    fix z assume z: "z \<in> insert (meta_slab, a) D"
    obtain j t where jt: "z = (j, t)" by fastforce
    have "NodeAt t \<notin> set (?Q h)" "t \<in> ?L j" if "h \<in> heads (?L meta_slab)" for h
    proof -
      have old: "t \<in> L j \<and> (\<forall>h \<in> heads (L meta_slab). NodeAt t \<notin> set (Q h)) \<or> (j, t) = (meta_slab, a)"
        using kinvD(4) [OF assms(1)] z jt unfolding queues_ok_def by auto
      then show "t \<in> ?L j" by auto
      have na: "NodeAt a \<notin> set (rev ?ns)" using slot_not_header [OF ma ma] by (metis imageE set_map set_rev set_upt)
      have "NodeAt t \<notin> set (rev ?ns)" using old na notnew by blast
      moreover have "NodeAt t \<notin> set (Q h)" if "h \<in> heads (L meta_slab)"
        using old fresh [of 0 h] that by (auto simp: ring_def a_def)
      ultimately show "NodeAt t \<notin> set (?Q h)" using that unfolding hd by auto
    qed
    moreover have "free_slab a \<in> heads (?L meta_slab)" by (simp add: heads_def)
    ultimately show "case z of (k, s) \<Rightarrow> s \<in> ?L k \<and> (\<forall>h\<in>heads (?L meta_slab). NodeAt s \<notin> set (?Q h))"
      unfolding jt prod.case by blast
  qed
  moreover have "pages_ok ?km X fl" using kinvD(1) [OF assms(1)] by (simp add: pages_ok_def pgs_def nr_pgs_def)
  ultimately have "kinv ?km X fl ?Q ?L (insert (meta_slab, a) D)" using fo unfolding kinv_def by blast
  moreover have mem: "slab_mem ?km j t = slab_mem km j t" for j t
    by (simp add: slab_mem_def pgs_def split: page_ptr.splits)
  have ma: "slab_mem ?km meta_slab a = a" by (simp add: slab_mem_def)
  have "slab_view ?km ?Q ?L =
      (slab_view km Q L)(meta_slab := (slab_view km Q L meta_slab)(a \<mapsto> (slab_mem ?km meta_slab a, slab_free ?km ?Q meta_slab a)))"
    by (rule slab_view_change) (use mem sf in blast)
  then have "slab_view ?km ?Q ?L =
      (slab_view km Q L)(meta_slab := (slab_view km Q L meta_slab)(a \<mapsto> (a, slab_cap meta_slab)))"
    unfolding sa ma .
  ultimately show ?thesis using init by (intro exI [of _ ?km] exI [of _ ?Q]) simp
qed

text \<open>Forgetting a slab that is off the queues and, if a meta slab, has no header in use.\<close>

lemma kinv_drop:
  assumes "kinv km X fl Q L D" and "(k, s) \<in> D"
    and "k = meta_slab \<Longrightarrow> slab_free km Q meta_slab s = slab_cap meta_slab"
  defines "L' \<equiv> L(k := L k - {s})"
  shows "kinv km X fl Q L' (D - {(k, s)})"
    and "slab_view km Q L' = (slab_view km Q L)(k := (slab_view km Q L k)(s := None))"
proof -
  have q: "queues_ok km Q L D" using kinvD(4) [OF assms(1)] .
  then have sL: "s \<in> L k" and out: "\<forall>h \<in> heads (L meta_slab). NodeAt s \<notin> set (Q h)"
    using assms(2) unfolding queues_ok_def by auto
  have hd: "heads (L' meta_slab) \<subseteq> heads (L meta_slab)" by (auto simp: heads_def L'_def split: if_splits)
  have hdr: "header_ok Q (L' meta_slab) t" if t: "j \<noteq> meta_slab" "t \<in> L j" for j t
  proof -
    obtain b i where b: "b \<in> L meta_slab" "i \<in> {1..<64}" "NodeAt t = slot b i" "slot b i \<notin> set (Q (free_slab b))"
      using kinv_base(1) [OF assms(1) t(2,1)] unfolding header_ok_def by blast
    have "b \<noteq> s" if "k = meta_slab"
    proof
      assume "b = s"
      then have "i \<in> slab_free km Q meta_slab b" using assms(3) [OF that] b(2) by (simp only: slab_cap.simps)
      then show False using b(4) by simp
    qed
    then have "b \<in> L' meta_slab" using b(1) by (auto simp: L'_def)
    then show ?thesis using b unfolding header_ok_def by blast
  qed
  have "slab_ok km X fl Q (L' meta_slab) j t" if "t \<in> L' j" for j t
  proof -
    have "t \<in> L j" using that by (auto simp: L'_def split: if_splits)
    then show ?thesis using kinvD(3) [OF assms(1), of t j] hdr by (auto simp: slab_ok_def)
  qed
  moreover have "queues_ok km Q L' (D - {(k, s)})"
    unfolding queues_ok_def
  proof (intro conjI allI ballI)
    fix j h n assume h: "h \<in> cache_queues j" and n: "n \<in> set (Q h)"
    then obtain t where t: "t \<in> L j" "n = NodeAt t" "fits j h (slab_free km Q j t)"
      using queued_slab [OF assms(1) h] by metis
    have "t \<noteq> s" using out n t(2) cache_queues_heads [OF h] by auto
    then show "\<exists>t\<in>L' j. n = NodeAt t \<and> fits j h (slab_free km Q j t)" using t by (auto simp: L'_def)
  next
    fix j t assume t: "t \<in> L' j"
    then have "t \<in> L j" "(j, t) \<noteq> (k, s)" by (auto simp: L'_def split: if_splits)
    then show "(j, t) \<in> D - {(k, s)} \<or> (\<exists>h\<in>cache_queues j. NodeAt t \<in> set (Q h))"
      using q unfolding queues_ok_def by blast
  next
    fix x assume x: "x \<in> D - {(k, s)}"
    obtain j t where jt: "x = (j, t)" by fastforce
    then have "t \<in> L j" "\<forall>h\<in>heads (L meta_slab). NodeAt t \<notin> set (Q h)"
      using q x unfolding queues_ok_def by auto
    then show "case x of (k, s) \<Rightarrow> s \<in> L' k \<and> (\<forall>h\<in>heads (L' meta_slab). NodeAt s \<notin> set (Q h))"
      using hd x jt by (auto simp: L'_def)
  qed
  ultimately show "kinv km X fl Q L' (D - {(k, s)})"
    using kinvD(1) [OF assms(1)] forest_subset [OF kinvD(2) [OF assms(1)] hd] unfolding kinv_def by blast
  show "slab_view km Q L' = (slab_view km Q L)(k := (slab_view km Q L k)(s := None))"
    by (intro ext) (auto simp: slab_view_def L'_def)
qed

lemma MetaSlab_FreeSlab_inv:
  assumes "kinv km X fl Q L D" and "(meta_slab, a) \<in> D"
    and "slab_free km Q meta_slab a = slab_cap meta_slab"
  defines "L' \<equiv> L(meta_slab := L meta_slab - {a})"
  shows "\<exists>km' p. MetaSlab_FreeSlab a km = Inr km' \<and> kinv km' X (p # fl) Q L' (D - {(meta_slab, a)}) \<and> a = kaddr p 0 \<and>
    cache_stats km' = cache_stats km \<and>
    slab_view km' Q L' = (slab_view km Q L)(meta_slab := (slab_view km Q L meta_slab)(a := None))"
proof -
  have aL: "a \<in> L meta_slab" using kinvD(4) [OF assms(1)] assms(2) unfolding queues_ok_def by auto
  obtain x where x: "a = kaddr x 0" "x < 2 ^ 52" "page_used km X fl x" "slab_ptr (pgs km x) = a"
    using kinv_meta [OF assms(1) aL] by blast
  have kd: "kinv km X fl Q L' (D - {(meta_slab, a)})"
      "slab_view km Q L' = (slab_view km Q L)(meta_slab := (slab_view km Q L meta_slab)(a := None))"
    using kinv_drop [OF assms(1,2)] assms(3) by (simp_all add: L'_def)
  have po: "pages_ok km X fl" using kinvD(1) [OF assms(1)] .
  then obtain mp where mp: "FreePage (km_pages km) (PageAt x) = Inr mp" "mp_inv mp (x # fl)" "same_meta (km_pages km) mp"
    using FreePage_inv [of "km_pages km" fl x] x(3) by (auto simp: pages_ok_def page_used_def nr_pgs_def)
  note sm = same_metaD [OF mp(3)]
  let ?km = "km\<lparr>km_pages := mp\<rparr>"
  have pg: "phyaddr (pgs ?km p) = phyaddr (pgs km p)" "slab_ptr (pgs ?km p) = slab_ptr (pgs km p)"
      "slab_obj_size (pgs ?km p) = slab_obj_size (pgs km p)" "nr_pgs ?km = nr_pgs km" for p
    using sm by (simp_all add: pgs_def nr_pgs_def)
  have po': "pages_ok ?km X (x # fl)"
    using po mp(2) x(3) pg by (auto simp: pages_ok_def page_used_def)
  have "x \<notin> slab_pages km L'"
  proof
    assume "x \<in> slab_pages km L'"
    then obtain k s where ks: "k \<noteq> meta_slab" "s \<in> L k" "data_page km s = PageAt x"
      using x(1) by (auto simp: slab_pages_def L'_def)
    then have "s = a" using kinv_base(2) [OF assms(1) ks(2,1)] x(4) by (auto simp: data_ok_def)
    then show False using kinv_chunk_unique [OF assms(1) ks(2) , of meta_slab] ks(1) aL by simp
  qed
  then have used: "page_used ?km X (x # fl) p \<and> slab_ptr (pgs ?km p) = slab_ptr (pgs km p) \<and>
      slab_obj_size (pgs ?km p) = slab_obj_size (pgs km p)" if "p \<in> slab_pages km L'" "page_used km X fl p" for p
    using that pg by (auto simp: page_used_def)
  have "MetaSlab_FreeSlab a km = Inr ?km"
    using mp(1) x(1,2) page_at_kaddr [of x 0] by (simp add: MetaSlab_FreeSlab_def)
  then show ?thesis
    using kinv_pages [OF kd(1) po' used] kd(2) x(1) by (intro exI [of _ ?km] exI [of _ x]) simp
qed

lemma MetaSlab_new_slab:
  assumes "kinv km X fl Q L D" and "\<not> length fl \<le> 1"
  shows "\<exists>a km' Q' L'. ebind (MetaSlab_AllocSlab 64 km) (\<lambda>(s, km1). ebind (MetaSlab_Init 64 s km1) (\<lambda>km2. Inr (s, km2))) = Inr (a, km') \<and>
    kinv km' X (tl fl) Q' L' (insert (meta_slab, a) D) \<and> a \<notin> L meta_slab \<and> cache_stats km' = cache_stats km \<and>
    slab_view km' Q' L' = (slab_view km Q L)(meta_slab := (slab_view km Q L meta_slab)(a \<mapsto> (a, slab_cap meta_slab)))"
proof -
  obtain x y r where fl: "fl = x # y # r" using two_pages [OF assms(2)] by blast
  obtain mp where mp: "AllocPage (km_pages km) = Inr (PageAt x, mp)" "mp_inv mp (y # r)"
      "same_meta (km_pages km) mp" "phyaddr (page_structs mp x) = of_nat (4096 * x)"
      "kaddr x 0 \<notin> L meta_slab"
    by (rule kinv_take_page [OF assms(1) [unfolded fl]])
  let ?a = "kaddr x 0"
  let ?km = "km\<lparr>km_pages := set_page mp x (\<lambda>p. p\<lparr>slab_ptr := ?a, slab_obj_size := 64\<rparr>)\<rparr>"
  have k1: "kinv ?km X (y # r) Q L D" "slab_view ?km Q L = slab_view km Q L" "page_used ?km X (y # r) x"
      "slab_ptr (pgs ?km x) = ?a"
    using kinv_write_page [OF assms(1) [unfolded fl] mp(2,3), where km' = ?km and a = ?a and z = 64] by simp_all
  have "MetaSlab_AllocSlab 64 km = Inr (?a, ?km)"
    using mp(1,4) PADDR_frame [of x] by (simp add: MetaSlab_AllocSlab_def Let_def)
  moreover obtain km' Q' where "MetaSlab_Init 64 ?a ?km = Inr km'"
      "kinv km' X (y # r) Q' (L(meta_slab := insert ?a (L meta_slab))) (insert (meta_slab, ?a) D)"
      "cache_stats km' = cache_stats ?km"
      "slab_view km' Q' (L(meta_slab := insert ?a (L meta_slab))) =
        (slab_view ?km Q L)(meta_slab := (slab_view ?km Q L meta_slab)(?a \<mapsto> (?a, slab_cap meta_slab)))"
    using MetaSlab_Init_inv [OF k1(1,3,4) mp(5)] by blast
  ultimately show ?thesis
    using mp(5) k1(2) fl by (intro exI [of _ ?a] exI [of _ km'] exI [of _ Q']
        exI [of _ "L(meta_slab := insert ?a (L meta_slab))"]) simp
qed

lemma MetaSlab_no_slab:
  assumes "kinv km X fl Q L D" and "length fl \<le> 1"
  shows "MetaSlab_AllocSlab n km = Inl NullDeref"
  using kinv_no_page [OF assms] by (simp add: MetaSlab_AllocSlab_def)

end
