(* ===== verification/Slab_Provider.thy ===== *)
theory Slab_Provider
  imports Slab_Invariant
begin

text \<open>
  What the cache template relies on and what it promises. The locale \<open>slab_provider\<close> states the laws
  of a slab class as \<^verbatim>\<open>MemCache\<close> uses it; \<^verbatim>\<open>Allocate\<close> and \<^verbatim>\<open>Free\<close> are proved correct once from these
  laws. The meta slabs meet them on top of the page allocator, and the bitmap and free-list
  slabs meet them on top of the cache of meta slabs.
\<close>

section \<open>Finding the slab of an object\<close>

lemma slab_cap_offset: "i \<in> slab_cap k \<Longrightarrow> i * ObjSize k < 4096"
  by (cases k) auto

lemma ObjSize_pos: "0 < ObjSize k" and ObjSize_le: "ObjSize k \<le> 2048"
  by (cases k; simp)+

text \<open>From the address of an object \<^verbatim>\<open>Free\<close> gets back to its slab and its index.\<close>

lemma object_lookup:
  assumes "kinv km X fl Q L D" and "s \<in> L k" and "i \<in> slab_cap k"
  defines "addr \<equiv> KPTR_TO_PADDR (slab_mem km k s + of_nat (i * ObjSize k))"
  obtains p where "page_at addr = PageAt p" and "slab_ptr (pgs km p) = s" and "page_used km X fl p"
    and "k \<noteq> meta_slab \<Longrightarrow> slab_obj_size (pgs km p) = int (ObjSize k)"
    and "unat ((addr - PG addr) div of_nat (ObjSize k)) = i"
    and "slab_mem km k s = kaddr p 0"
proof -
  have o: "i * ObjSize k < 4096" using slab_cap_offset [OF assms(3)] .
  obtain p where p: "slab_mem km k s = kaddr p 0" "slab_ptr (pgs km p) = s" "page_used km X fl p"
      "k \<noteq> meta_slab \<Longrightarrow> slab_obj_size (pgs km p) = int (ObjSize k)"
  proof (cases "k = meta_slab")
    case True
    then show thesis using kinv_meta [OF assms(1), of s] assms(2) that by (auto simp: slab_mem_def)
  next
    case False
    then obtain q where "data_page km s = PageAt q" "page_used km X fl q" "slab_ptr (pgs km q) = s"
        "slab_obj_size (pgs km q) = int (ObjSize k)"
      using kinv_base(2) [OF assms(1,2)] by (auto simp: data_ok_def)
    then show thesis
      using that [of q] False PADDR_frame [of q] by (simp add: slab_mem_def page_used_def)
  qed
  have b: "p < 2 ^ 52" using kinv_page_bound [OF assms(1) p(3)] .
  have a: "addr = of_nat (4096 * p + i * ObjSize k)"
    unfolding addr_def p(1) kaddr_add KPTR_kaddr by simp
  have "addr - PG addr = of_nat (i * ObjSize k)" unfolding a using offset_kaddr [OF b o] .
  moreover have "unat (of_nat (i * ObjSize k) :: u64) = i * ObjSize k"
    using o by (simp add: unat_of_nat del: of_nat_mult)
  moreover have "unat (of_nat (ObjSize k) :: u64) = ObjSize k"
    using ObjSize_le [of k] by (simp add: unat_of_nat)
  ultimately have "unat ((addr - PG addr) div of_nat (ObjSize k)) = i"
    using ObjSize_pos [of k] by (simp add: unat_div_distrib)
  then show thesis
    using that p page_at_kaddr [OF b o] a by metis
qed

section \<open>The contract of a slab class\<close>

definition new_slab :: "slab_ops \<Rightarrow> chunk \<Rightarrow> kmem \<Rightarrow> (u64 \<times> kmem) result" where
  "new_slab ops k km = ebind (op_AllocSlab ops (ObjSize k) km) (\<lambda>(s, km1).
     ebind (op_Init ops (4096 div ObjSize k) s km1) (\<lambda>km2. Inr (s, km2)))"

definition meta_pages :: "(chunk \<Rightarrow> u64 set) \<Rightarrow> nat set" where
  "meta_pages L = {p. kaddr p 0 \<in> L meta_slab}"

text \<open>
  \<open>V\<close> are the caches whose state the operations of the class are exact about (a base slab borrows
  headers from the meta cache, so its operations may change that one), \<open>need\<close> the number of free
  pages that always suffices for a new slab, and \<open>releasable\<close> what must hold of an object for
  it to be freed beyond being allocated.
\<close>

locale slab_provider =
  fixes ops :: slab_ops and k :: chunk and V :: "chunk set" and need :: nat
    and releasable :: "(chunk \<Rightarrow> u64 set) \<Rightarrow> u64 \<Rightarrow> nat \<Rightarrow> bool"
  assumes visible: "k \<in> V"
    and full_law: "kinv km X fl Q L D \<Longrightarrow> s \<in> L k \<Longrightarrow> op_is_full ops s km \<longleftrightarrow> slab_free km Q k s = {}"
    and empty_law: "kinv km X fl Q L D \<Longrightarrow> s \<in> L k \<Longrightarrow> op_is_empty ops s km \<longleftrightarrow> slab_free km Q k s = slab_cap k"
    and mem_law: "kinv km X fl Q L D \<Longrightarrow> s \<in> L k \<Longrightarrow> op_mem ops s km = Inr (slab_mem km k s)"
    and alloc_law: "kinv km X fl Q L {(k, s)} \<Longrightarrow> slab_free km Q k s \<noteq> {} \<Longrightarrow>
      \<exists>i km' Q'. op_Alloc ops s km = Inr (i, km') \<and> kinv km' X fl Q' L {(k, s)} \<and> i \<in> slab_free km Q k s \<and>
        releasable L s i \<and> cache_stats km' = cache_stats km \<and>
        slab_view km' Q' L = (slab_view km Q L)(k := (slab_view km Q L k)
          (s \<mapsto> (slab_mem km k s, slab_free km Q k s - {i})))"
    and free_law: "kinv km X fl Q L {(k, s)} \<Longrightarrow> i \<in> slab_cap k \<Longrightarrow> i \<notin> slab_free km Q k s \<Longrightarrow> releasable L s i \<Longrightarrow>
      \<exists>km' Q'. op_Free ops s i km = Inr km' \<and> kinv km' X fl Q' L {(k, s)} \<and> cache_stats km' = cache_stats km \<and>
        slab_view km' Q' L = (slab_view km Q L)(k := (slab_view km Q L k)
          (s \<mapsto> (slab_mem km k s, insert i (slab_free km Q k s))))"
    and new_slab_law: "kinv km X fl Q L {} \<Longrightarrow>
      new_slab ops k km = Inl NullDeref \<and> length fl \<le> need \<or>
      (\<exists>s m km' fl' Q' L'. new_slab ops k km = Inr (s, km') \<and> kinv km' X fl' Q' L' {(k, s)} \<and> s \<notin> L k \<and>
        length fl \<le> length fl' + need \<and>
        (\<forall>j \<in> V. slab_view km' Q' L' j = ((slab_view km Q L)(k := (slab_view km Q L k)(s \<mapsto> (m, slab_cap k)))) j))"
    and free_slab_law: "kinv km X fl Q L {(k, s)} \<Longrightarrow> slab_free km Q k s = slab_cap k \<Longrightarrow>
      \<exists>km' fl' Q' L'. op_FreeSlab ops s km = Inr km' \<and> kinv km' X fl' Q' L' {} \<and>
        set fl' \<subseteq> set fl \<union> meta_pages L \<and> L' meta_slab \<subseteq> L meta_slab \<and>
        (\<forall>j \<in> V. slab_view km' Q' L' j = ((slab_view km Q L)(k := (slab_view km Q L k)(s := None))) j)"
begin

lemma detached_member: "kinv km X fl Q L {(k, s)} \<Longrightarrow> s \<in> L k"
  using kinvD(4) unfolding queues_ok_def by fastforce

lemma detached_view:
  "kinv km X fl Q L {(k, s)} \<Longrightarrow> slab_view km Q L k s = Some (slab_mem km k s, slab_free km Q k s)"
  using detached_member by (auto simp: slab_view_def)

text \<open>A slab with an object to give: half used if there is one, else empty, else new.\<close>

lemma PickSlab_correct:
  assumes "kinv km X fl Q L {}"
  shows "PickSlab ops (Global k) (ObjSize k) km = Inl NullDeref \<and> length fl \<le> need \<or>
    (\<exists>s m F km' fl' Q' L'. PickSlab ops (Global k) (ObjSize k) km = Inr (s, km') \<and> kinv km' X fl' Q' L' {(k, s)} \<and>
      F \<noteq> {} \<and> length fl \<le> length fl' + need \<and>
      (slab_view km Q L k s = Some (m, F) \<or> slab_view km Q L k s = None \<and> F = slab_cap k) \<and>
      (\<forall>j \<in> V. slab_view km' Q' L' j = ((slab_view km Q L)(k := (slab_view km Q L k)(s \<mapsto> (m, F)))) j))"
proof -
  let ?h = "QHalf (Global k)" and ?e = "QEmpty (Global k)"
  have hq: "?h \<in> cache_queues k" "?e \<in> cache_queues k" by (simp_all add: cache_queues_def)
  note fo = kinvD(2) [OF assms]
  have hh: "?h \<in> heads (L meta_slab)" "?e \<in> heads (L meta_slab)" using hq cache_queues_heads by blast+
  have take: "\<exists>s. n = NodeAt s \<and> kinv (upd_nodes (\<lambda>H. Delete H n) km) X fl (Q(g := r)) L {(k, s)} \<and>
      fits k g (slab_free km Q k s) \<and> s \<in> L k \<and>
      slab_view (upd_nodes (\<lambda>H. Delete H n) km) (Q(g := r)) L = slab_view km Q L"
    if g: "g \<in> cache_queues k" and n: "Q g = n # r" for g n r
  proof -
    have "n \<in> set (Q g)" using n by simp
    then obtain s where s: "s \<in> L k" "n = NodeAt s" "fits k g (slab_free km Q k s)"
      using queued_slab [OF assms g] by blast
    then show ?thesis
      using kinv_detach(1,2) [OF assms g, of s] n by auto
  qed
  have found: ?thesis
    if "PickSlab ops (Global k) (ObjSize k) km = Inr (s, km1)" "kinv km1 X fl Q1 L {(k, s)}" "s \<in> L k"
      "slab_view km1 Q1 L = slab_view km Q L" "slab_free km Q k s \<noteq> {}" for s km1 Q1
  proof -
    have v: "slab_view km Q L k s = Some (slab_mem km k s, slab_free km Q k s)" using that(3) by (simp add: slab_view_def)
    then have "(slab_view km Q L)(k := (slab_view km Q L k)(s \<mapsto> (slab_mem km k s, slab_free km Q k s))) = slab_view km Q L"
      by (simp add: fun_upd_idem)
    with v that show ?thesis by (intro disjI2) (metis le_add1)
  qed
  have capne: "slab_cap k \<noteq> {}" by (cases k) (auto simp: lessThan_empty_iff)
  show ?thesis
  proof (cases "Q ?h")
    case (Cons n r)
    then obtain s where s: "n = NodeAt s" "kinv (upd_nodes (\<lambda>H. Delete H n) km) X fl (Q(?h := r)) L {(k, s)}"
        "slab_free km Q k s \<noteq> {}" "s \<in> L k"
        "slab_view (upd_nodes (\<lambda>H. Delete H n) km) (Q(?h := r)) L = slab_view km Q L"
      using take [OF hq(1)] by force
    have "PickSlab ops (Global k) (ObjSize k) km = Inr (s, upd_nodes (\<lambda>H. Delete H n) km)"
      using forest_is_empty [OF fo hh(1)] forest_next [OF fo hh(1) Cons] Cons s(1) by (simp add: PickSlab_def Let_def)
    then show ?thesis by (rule found [OF _ s(2,4,5,3)])
  next
    case Nil
    note half = forest_is_empty [OF fo hh(1)]
    show ?thesis
    proof (cases "Q ?e")
      case (Cons n r)
      then obtain s where s: "n = NodeAt s" "kinv (upd_nodes (\<lambda>H. Delete H n) km) X fl (Q(?e := r)) L {(k, s)}"
          "slab_free km Q k s = slab_cap k" "s \<in> L k"
          "slab_view (upd_nodes (\<lambda>H. Delete H n) km) (Q(?e := r)) L = slab_view km Q L"
        using take [OF hq(2)] by force
      have "PickSlab ops (Global k) (ObjSize k) km = Inr (s, upd_nodes (\<lambda>H. Delete H n) km)"
        using half Nil forest_is_empty [OF fo hh(2)] forest_next [OF fo hh(2) Cons] Cons s(1)
        by (simp add: PickSlab_def Let_def)
      then show ?thesis by (rule found [OF _ s(2,4,5)]) (simp add: s(3) capne)
    next
      case Nil
      then have pick: "PickSlab ops (Global k) (ObjSize k) km =
          ebind (new_slab ops k km) (\<lambda>(s, km2). Inr (s, upd_stat (Global k) (\<lambda>st. st\<lparr>slab_pg := slab_pg st + 1\<rparr>) km2))"
        using half \<open>Q ?h = []\<close> forest_is_empty [OF fo hh(2)]
        by (simp add: PickSlab_def new_slab_def ebind_assoc case_prod_unfold)
      show ?thesis
        using new_slab_law [OF assms]
      proof (elim disjE exE conjE)
        fix s m km' fl' Q' L'
        assume n: "new_slab ops k km = Inr (s, km')" "kinv km' X fl' Q' L' {(k, s)}" "s \<notin> L k"
          "length fl \<le> length fl' + need"
          "\<forall>j \<in> V. slab_view km' Q' L' j = ((slab_view km Q L)(k := (slab_view km Q L k)(s \<mapsto> (m, slab_cap k)))) j"
        then have "slab_view km Q L k s = None" by (simp add: slab_view_def)
        with n pick capne show ?thesis
          by (intro disjI2 exI [of _ s] exI [of _ m] exI [of _ "slab_cap k"] exI [of _ "upd_stat (Global k) (\<lambda>st. st\<lparr>slab_pg := slab_pg st + 1\<rparr>) km'"]
              exI [of _ fl'] exI [of _ Q'] exI [of _ L']) simp
      qed (simp add: pick)
    qed
  qed
qed

lemma AdjustSlab_used:
  assumes "kinv km X fl Q L {(k, s)}" and "slab_free km Q k s \<noteq> slab_cap k"
  shows "\<exists>km' Q'. AdjustSlab ops (Global k) s km = Inr km' \<and> kinv km' X fl Q' L {} \<and>
    slab_view km' Q' L = slab_view km Q L"
proof -
  have sL: "s \<in> L k" using detached_member [OF assms(1)] .
  let ?h = "if slab_free km Q k s = {} then QFull (Global k) else QHalf (Global k)"
  have "?h \<in> cache_queues k" and "fits k ?h (slab_free km Q k s)"
    using assms(2) by (simp_all add: cache_queues_def)
  note at = kinv_attach [OF assms(1) _ this]
  have "AdjustSlab ops (Global k) s km = Inr (upd_nodes (\<lambda>H. InsertAfter H (NodeAt s) ?h) km)"
    using full_law [OF assms(1) sL] empty_law [OF assms(1) sL] assms(2) by (simp add: AdjustSlab_def)
  then show ?thesis using at by blast
qed

lemma AdjustSlab_empty:
  assumes "kinv km X fl Q L {(k, s)}" and "slab_free km Q k s = slab_cap k"
  defines "keep \<equiv> slab_pg (cache_stats km (Global k)) \<le> max_pg (cache_stats km (Global k))"
  shows "\<exists>km' fl' Q' L'. AdjustSlab ops (Global k) s km = Inr km' \<and> kinv km' X fl' Q' L' {} \<and>
    set fl' \<subseteq> set fl \<union> meta_pages L \<and> L' meta_slab \<subseteq> L meta_slab \<and>
    (\<forall>j \<in> V. slab_view km' Q' L' j =
      (if keep then slab_view km Q L else (slab_view km Q L)(k := (slab_view km Q L k)(s := None))) j)"
proof -
  have sL: "s \<in> L k" using detached_member [OF assms(1)] .
  have "slab_cap k \<noteq> {}" by (cases k) (auto simp: lessThan_empty_iff)
  then have adj: "AdjustSlab ops (Global k) s km =
      ebind (ReclaimEmptySlab ops (Global k) s km) (\<lambda>(reclaimed, km1).
        Inr (if reclaimed then km1 else upd_nodes (\<lambda>h. InsertAfter h (NodeAt s) (QEmpty (Global k))) km1))"
    using full_law [OF assms(1) sL] empty_law [OF assms(1) sL] assms(2) by (simp add: AdjustSlab_def)
  show ?thesis
  proof (cases keep)
    case True
    have "QEmpty (Global k) \<in> cache_queues k" and "fits k (QEmpty (Global k)) (slab_free km Q k s)"
      using assms(2) by (simp_all add: cache_queues_def)
    note at = kinv_attach [OF assms(1) _ this]
    have "AdjustSlab ops (Global k) s km = Inr (upd_nodes (\<lambda>h. InsertAfter h (NodeAt s) (QEmpty (Global k))) km)"
      using adj True by (simp add: ReclaimEmptySlab_def keep_def)
    then show ?thesis using at True by (intro exI conjI) (assumption | simp)+
  next
    case False
    let ?km = "upd_stat (Global k) (\<lambda>st. st\<lparr>slab_pg := slab_pg st - 1\<rparr>) km"
    have "kinv ?km X fl Q L {(k, s)}" "slab_free ?km Q k s = slab_cap k" using assms by simp_all
    from free_slab_law [OF this] obtain km' fl' Q' L' where f: "op_FreeSlab ops s ?km = Inr km'"
        "kinv km' X fl' Q' L' {}" "set fl' \<subseteq> set fl \<union> meta_pages L" "L' meta_slab \<subseteq> L meta_slab"
        "\<forall>j \<in> V. slab_view km' Q' L' j = ((slab_view ?km Q L)(k := (slab_view ?km Q L k)(s := None))) j"
      by blast
    then have "AdjustSlab ops (Global k) s km = Inr km'"
      using adj False by (simp add: ReclaimEmptySlab_def keep_def)
    then show ?thesis using f False by (intro exI [of _ km'] exI [of _ fl'] exI [of _ Q'] exI [of _ L']) simp
  qed
qed

lemma view_member: "slab_view km Q L k s = Some (m, F) \<Longrightarrow> m = slab_mem km k s \<and> F = slab_free km Q k s \<and> s \<in> L k"
  by (simp add: slab_view_def split: if_splits)

text \<open>
  Allocation: a free object of some slab of the cache, which may be a new one; nothing else of the
  visible state changes.
\<close>

lemma Allocate_correct:
  assumes "kinv km X fl Q L {}"
  shows "MemCache_Allocate ops (Global k) (ObjSize k) km = Inl NullDeref \<and> length fl \<le> need \<or>
    (\<exists>s m F i km' fl' Q' L'. MemCache_Allocate ops (Global k) (ObjSize k) km = Inr (m + of_nat (i * ObjSize k), km') \<and>
      kinv km' X fl' Q' L' {} \<and> i \<in> F \<and> releasable L' s i \<and> length fl \<le> length fl' + need \<and>
      (slab_view km Q L k s = Some (m, F) \<or> slab_view km Q L k s = None \<and> F = slab_cap k) \<and>
      (\<forall>j \<in> V. slab_view km' Q' L' j = ((slab_view km Q L)(k := (slab_view km Q L k)(s \<mapsto> (m, F - {i})))) j))"
proof (cases "PickSlab ops (Global k) (ObjSize k) km")
  case (Inl e)
  then show ?thesis using PickSlab_correct [OF assms] by (auto simp: MemCache_Allocate_def)
next
  case (Inr x)
  then have "PickSlab ops (Global k) (ObjSize k) km \<noteq> Inl NullDeref" by simp
  with PickSlab_correct [OF assms] obtain s m F km1 fl1 Q1 L1 where pick: "PickSlab ops (Global k) (ObjSize k) km = Inr (s, km1)"
      "kinv km1 X fl1 Q1 L1 {(k, s)}" "F \<noteq> {}" "length fl \<le> length fl1 + need"
      "slab_view km Q L k s = Some (m, F) \<or> slab_view km Q L k s = None \<and> F = slab_cap k"
      "\<forall>j \<in> V. slab_view km1 Q1 L1 j = ((slab_view km Q L)(k := (slab_view km Q L k)(s \<mapsto> (m, F)))) j"
    by blast
  let ?v = "slab_view km Q L"
  have "slab_view km1 Q1 L1 k s = Some (m, F)" using pick visible by auto
  then have mF: "m = slab_mem km1 k s" "F = slab_free km1 Q1 k s" using view_member by blast+
  from alloc_law [OF pick(2)] mF(2) pick(3) obtain i km2 Q2 where al: "op_Alloc ops s km1 = Inr (i, km2)"
      "kinv km2 X fl1 Q2 L1 {(k, s)}" "i \<in> F" "releasable L1 s i"
      "slab_view km2 Q2 L1 = (slab_view km1 Q1 L1)(k := (slab_view km1 Q1 L1 k)(s \<mapsto> (m, F - {i})))"
    using mF(1) by blast
  have "slab_view km2 Q2 L1 k s = Some (m, F - {i})" using al(5) by simp
  then have mF2: "m = slab_mem km2 k s" "F - {i} = slab_free km2 Q2 k s" using view_member by blast+
  let ?km = "upd_stat (Global k) (\<lambda>st. st\<lparr>allocated := allocated st + 1\<rparr>) km2"
  have "kinv ?km X fl1 Q2 L1 {(k, s)}" using al(2) by simp
  moreover have "slab_free ?km Q2 k s \<noteq> slab_cap k"
  proof -
    have "i \<in> slab_cap k"
      using pick(5) al(3) mF(2) slab_free_bound [of k km1 s Q1] kinv_base(3) [OF pick(2) detached_member [OF pick(2)]]
      by (cases "k = meta_slab") auto
    then show ?thesis using mF2(2) by auto
  qed
  ultimately obtain km3 Q3 where ad: "AdjustSlab ops (Global k) s ?km = Inr km3" "kinv km3 X fl1 Q3 L1 {}"
      "slab_view km3 Q3 L1 = slab_view ?km Q2 L1"
    using AdjustSlab_used by blast
  have "op_mem ops s km2 = Inr m" using mem_law [OF al(2) detached_member [OF al(2)]] mF2(1) by simp
  then have res: "MemCache_Allocate ops (Global k) (ObjSize k) km = Inr (m + of_nat (i * ObjSize k), km3)"
    using pick(1) al(1) ad(1) by (simp add: MemCache_Allocate_def)
  have "\<forall>j \<in> V. slab_view km3 Q3 L1 j = (?v(k := (?v k)(s \<mapsto> (m, F - {i})))) j"
    using ad(3) al(5) pick(6) visible by auto
  then show ?thesis
    using res ad(2) al(3,4) pick(4,5) by blast
qed

lemma Free_correct:
  assumes "kinv km X fl Q L {}" and "slab_view km Q L k s = Some (m, F)" and "i \<in> slab_cap k" and "i \<notin> F"
    and "releasable L s i"
  defines "reclaim \<equiv> insert i F = slab_cap k \<and> max_pg (cache_stats km (Global k)) < slab_pg (cache_stats km (Global k))"
  shows "\<exists>km' fl' Q' L'. MemCache_Free ops (Global k) (ObjSize k) (m + of_nat (i * ObjSize k)) km = Inr km' \<and>
    kinv km' X fl' Q' L' {} \<and> set fl' \<subseteq> set fl \<union> meta_pages L \<and> L' meta_slab \<subseteq> L meta_slab \<and>
    (\<forall>j \<in> V. slab_view km' Q' L' j =
      ((slab_view km Q L)(k := (slab_view km Q L k)(s := (if reclaim then None else Some (m, insert i F))))) j)"
proof -
  have mF: "m = slab_mem km k s" "F = slab_free km Q k s" and sL: "s \<in> L k" using view_member [OF assms(2)] by auto
  obtain p where p: "page_at (KPTR_TO_PADDR (m + of_nat (i * ObjSize k))) = PageAt p" "slab_ptr (pgs km p) = s"
      "unat ((KPTR_TO_PADDR (m + of_nat (i * ObjSize k)) - PG (KPTR_TO_PADDR (m + of_nat (i * ObjSize k)))) div of_nat (ObjSize k)) = i"
    using object_lookup [OF assms(1) sL assms(3)] unfolding mF(1) by blast
  obtain h where h: "h \<in> cache_queues k" "NodeAt s \<in> set (Q h)"
    using kinvD(4) [OF assms(1)] sL unfolding queues_ok_def by blast
  let ?km1 = "upd_nodes (\<lambda>H. Delete H (NodeAt s)) km" and ?Q1 = "Q(h := remove1 (NodeAt s) (Q h))"
  note de = kinv_detach [OF assms(1) h]
  have F1: "slab_free ?km1 ?Q1 k s = F" and m1: "slab_mem ?km1 k s = m"
    using de(4) mF slab_mem_cong [of km ?km1] by simp_all
  from free_law [of ?km1 X fl ?Q1 L s i] de(1) assms(3-5) F1 obtain km2 Q2 where fr:
      "op_Free ops s i ?km1 = Inr km2" "kinv km2 X fl Q2 L {(k, s)}" "cache_stats km2 = cache_stats km"
      "slab_view km2 Q2 L = (slab_view km Q L)(k := (slab_view km Q L k)(s \<mapsto> (m, insert i F)))"
    using de(2) m1 by auto
  have "slab_view km2 Q2 L k s = Some (m, insert i F)" using fr(4) by simp
  then have F2: "slab_free km2 Q2 k s = insert i F" using view_member by blast
  let ?km3 = "upd_stat (Global k) (\<lambda>st. st\<lparr>allocated := allocated st - 1\<rparr>) km2"
  have run: "MemCache_Free ops (Global k) (ObjSize k) (m + of_nat (i * ObjSize k)) km = AdjustSlab ops (Global k) s ?km3"
    using p fr(1) by (simp add: MemCache_Free_def Let_def pgs_def)
  have k3: "kinv ?km3 X fl Q2 L {(k, s)}" using fr(2) by simp
  show ?thesis
  proof (cases "insert i F = slab_cap k")
    case True
    then have "slab_free ?km3 Q2 k s = slab_cap k" using F2 by simp
    from AdjustSlab_empty [OF k3 this] obtain km' fl' Q' L' where ad:
        "AdjustSlab ops (Global k) s ?km3 = Inr km'" "kinv km' X fl' Q' L' {}" "set fl' \<subseteq> set fl \<union> meta_pages L" "L' meta_slab \<subseteq> L meta_slab"
        "\<forall>j \<in> V. slab_view km' Q' L' j =
          (if slab_pg (cache_stats ?km3 (Global k)) \<le> max_pg (cache_stats ?km3 (Global k)) then slab_view ?km3 Q2 L
           else (slab_view ?km3 Q2 L)(k := (slab_view ?km3 Q2 L k)(s := None))) j" by blast
    moreover have "reclaim \<longleftrightarrow> \<not> slab_pg (cache_stats ?km3 (Global k)) \<le> max_pg (cache_stats ?km3 (Global k))"
      using True fr(3) by (simp add: reclaim_def linorder_not_le)
    ultimately have "\<forall>j \<in> V. slab_view km' Q' L' j =
        ((slab_view km Q L)(k := (slab_view km Q L k)(s := (if reclaim then None else Some (m, insert i F))))) j"
      using fr(4) by (cases reclaim) auto
    then show ?thesis using run ad(1-4) by (intro exI [of _ km'] exI [of _ fl'] exI [of _ Q'] exI [of _ L']) simp
  next
    case False
    then have "slab_free ?km3 Q2 k s \<noteq> slab_cap k" using F2 by simp
    from AdjustSlab_used [OF k3 this] obtain km' Q' where
        "AdjustSlab ops (Global k) s ?km3 = Inr km'" "kinv km' X fl Q' L {}" "slab_view km' Q' L = slab_view ?km3 Q2 L"
      by blast
    then show ?thesis
      using run fr(4) False by (intro exI [of _ km'] exI [of _ fl] exI [of _ Q'] exI [of _ L]) (simp add: reclaim_def)
  qed
qed

end

end
