(* ===== verification/Slab_Classes.thy ===== *)
theory Slab_Classes
  imports Slab_Provider
begin

text \<open>
  The slab classes of the kernel meet the contract \<open>slab_provider\<close>: meta slabs on top of the page
  allocator, bitmap and free-list slabs on top of the cache of meta slabs.
\<close>

section \<open>Meta slabs\<close>

lemma MetaSlab_ops_simps [simp]:
  "op_Init MetaSlab_ops = MetaSlab_Init" "op_Alloc MetaSlab_ops = MetaSlab_Alloc"
  "op_Free MetaSlab_ops = MetaSlab_Free" "op_is_empty MetaSlab_ops = MetaSlab_is_empty"
  "op_is_full MetaSlab_ops = MetaSlab_is_full" "op_mem MetaSlab_ops slab km = Inr slab"
  "op_AllocSlab MetaSlab_ops = MetaSlab_AllocSlab" "op_FreeSlab MetaSlab_ops = MetaSlab_FreeSlab"
  by (simp_all add: MetaSlab_ops_def)

lemma MetaSlab_new_slab_law:
  assumes "kinv km X fl Q L {}"
  shows "new_slab MetaSlab_ops meta_slab km = Inl NullDeref \<and> length fl \<le> 1 \<or>
    (\<exists>s m km' fl' Q' L'. new_slab MetaSlab_ops meta_slab km = Inr (s, km') \<and> kinv km' X fl' Q' L' {(meta_slab, s)} \<and>
      s \<notin> L meta_slab \<and> length fl \<le> length fl' + 1 \<and>
      (\<forall>j \<in> UNIV. slab_view km' Q' L' j =
        ((slab_view km Q L)(meta_slab := (slab_view km Q L meta_slab)(s \<mapsto> (m, slab_cap meta_slab)))) j))"
proof (cases "length fl \<le> 1")
  case True
  then show ?thesis using MetaSlab_no_slab [OF assms, of 64] by (simp add: new_slab_def)
next
  case False
  obtain a km' Q' L' where "new_slab MetaSlab_ops meta_slab km = Inr (a, km')"
      "kinv km' X (tl fl) Q' L' {(meta_slab, a)}" "a \<notin> L meta_slab"
      "slab_view km' Q' L' = (slab_view km Q L)(meta_slab := (slab_view km Q L meta_slab)(a \<mapsto> (a, slab_cap meta_slab)))"
    using MetaSlab_new_slab [OF assms False] by (auto simp: new_slab_def)
  then show ?thesis
    by (intro disjI2 exI [of _ a] exI [of _ a] exI [of _ km'] exI [of _ "tl fl"] exI [of _ Q'] exI [of _ L']) simp
qed

interpretation mt: slab_provider MetaSlab_ops meta_slab UNIV 1 header_unused
proof
  fix km X fl Q L D s i
  show "meta_slab \<in> UNIV" by simp
  show "op_is_full MetaSlab_ops s km \<longleftrightarrow> slab_free km Q meta_slab s = {}"
    if "kinv km X fl Q L D" "s \<in> L meta_slab" using MetaSlab_is_full_iff [OF that] by simp
  show "op_is_empty MetaSlab_ops s km \<longleftrightarrow> slab_free km Q meta_slab s = slab_cap meta_slab"
    if "kinv km X fl Q L D" "s \<in> L meta_slab" using MetaSlab_is_empty_iff [OF that] by simp
  show "op_mem MetaSlab_ops s km = Inr (slab_mem km meta_slab s)"
    by (simp add: slab_mem_def)
  show "\<exists>i km' Q'. op_Alloc MetaSlab_ops s km = Inr (i, km') \<and> kinv km' X fl Q' L {(meta_slab, s)} \<and>
      i \<in> slab_free km Q meta_slab s \<and> header_unused L s i \<and> cache_stats km' = cache_stats km \<and>
      slab_view km' Q' L = (slab_view km Q L)(meta_slab := (slab_view km Q L meta_slab)
        (s \<mapsto> (slab_mem km meta_slab s, slab_free km Q meta_slab s - {i})))"
    if "kinv km X fl Q L {(meta_slab, s)}" "slab_free km Q meta_slab s \<noteq> {}"
    using MetaSlab_Alloc_inv [OF that(1) _ that(2)] by simp
  show "\<exists>km' Q'. op_Free MetaSlab_ops s i km = Inr km' \<and> kinv km' X fl Q' L {(meta_slab, s)} \<and>
      cache_stats km' = cache_stats km \<and>
      slab_view km' Q' L = (slab_view km Q L)(meta_slab := (slab_view km Q L meta_slab)
        (s \<mapsto> (slab_mem km meta_slab s, insert i (slab_free km Q meta_slab s))))"
    if "kinv km X fl Q L {(meta_slab, s)}" "i \<in> slab_cap meta_slab" "i \<notin> slab_free km Q meta_slab s" "header_unused L s i"
    using MetaSlab_Free_inv [OF that(1) _ that(2-4)] by simp
  show "\<exists>km' fl' Q' L'. op_FreeSlab MetaSlab_ops s km = Inr km' \<and> kinv km' X fl' Q' L' {} \<and>
      set fl' \<subseteq> set fl \<union> meta_pages L \<and> L' meta_slab \<subseteq> L meta_slab \<and>
      (\<forall>j \<in> UNIV. slab_view km' Q' L' j =
        ((slab_view km Q L)(meta_slab := (slab_view km Q L meta_slab)(s := None))) j)"
    if kn: "kinv km X fl Q L {(meta_slab, s)}" and fr: "slab_free km Q meta_slab s = slab_cap meta_slab"
  proof -
    let ?L = "L(meta_slab := L meta_slab - {s})"
    obtain km' p where f: "MetaSlab_FreeSlab s km = Inr km'" "kinv km' X (p # fl) Q ?L {}" "s = kaddr p 0"
        "slab_view km' Q ?L = (slab_view km Q L)(meta_slab := (slab_view km Q L meta_slab)(s := None))"
      using MetaSlab_FreeSlab_inv [OF kn _ fr] by auto
    moreover have "s \<in> L meta_slab" using kinvD(4) [OF kn] unfolding queues_ok_def by auto
    ultimately show ?thesis
      by (intro exI [of _ km'] exI [of _ "p # fl"] exI [of _ Q] exI [of _ ?L]) (auto simp: meta_pages_def)
  qed
qed (rule MetaSlab_new_slab_law)

section \<open>The bookkeeping of the other classes\<close>

definition body_change :: "kmem \<Rightarrow> kmem \<Rightarrow> u64 \<Rightarrow> bool" where
  "body_change km km' s \<longleftrightarrow> km_pages km' = km_pages km \<and> km_nodes km' = km_nodes km \<and>
     data_page km' = data_page km \<and> nr_free_slab km' = nr_free_slab km \<and> cache_stats km' = cache_stats km \<and>
     (\<forall>t. t \<noteq> s \<longrightarrow> slab_bitmap km' t = slab_bitmap km t \<and> slab_free_list km' t = slab_free_list km t)"

lemma body_change_upd [simp]:
  "body_change km (km\<lparr>slab_bitmap := (slab_bitmap km)(s := b)\<rparr>) s"
  "body_change km (km\<lparr>slab_free_list := (slab_free_list km)(s := f)\<rparr>) s"
  by (simp_all add: body_change_def)

text \<open>
  Where the value of \<^verbatim>\<open>ctzl(0)\<close>, undefined by the compiler, matters: only the slabs of the 16 and the 32-byte class have several bitmap rows,
  so that an exhausted row can meet the scan. There it has to be at least 32, as it is with the instruction \<^verbatim>\<open>tzcnt\<close>, which gives 64; requests
  of more than 32 bytes do not depend on it.
\<close>

definition ctz_safe :: "nat \<Rightarrow> int \<Rightarrow> bool" where
  "ctz_safe ctz0 sz \<longleftrightarrow> 32 < sz \<or> 32 \<le> ctz0"

lemma ctz_safe_mono: "ctz_safe ctz0 sz \<Longrightarrow> sz \<le> sz' \<Longrightarrow> ctz_safe ctz0 sz'"
  by (auto simp: ctz_safe_def)

lemma ctz_safe_all [simp]: "32 \<le> ctz0 \<Longrightarrow> ctz_safe ctz0 sz"
  by (simp add: ctz_safe_def)

text \<open>Each class is one of two kinds.\<close>

lemma chunk_kind:
  assumes "k \<noteq> meta_slab"
  obtains (bitmap) n where "0 < n" and "n = 1 \<or> ObjSize k \<le> 32" and "\<And>ctz0. chunk_ops ctz0 k = BitmapSlab_ops ctz0 n"
      and "\<And>km s. body_ok km k s = bitmap_inv n (slab_bitmap km s)"
      and "\<And>km Q s. slab_free km Q k s = bitmap_free n (slab_bitmap km s)" and "slab_cap k = {..<32 * n}"
    | (free_list) n where "n \<le> kFreeStack" and "n = 4096 div ObjSize k"
      and "\<And>ctz0. chunk_ops ctz0 k = FreeListSlab_ops"
      and "\<And>km s. body_ok km k s = fl_inv n (slab_free_list km s)"
      and "\<And>km Q s. slab_free km Q k s = fl_free (slab_free_list km s)" and "slab_cap k = {..<n}"
proof (cases k)
  case meta_slab
  then show thesis using assms by simp
next
  case chunk16
  then show thesis by (intro bitmap [of 4]) simp_all
next
  case chunk32
  then show thesis by (intro bitmap [of 2]) simp_all
next
  case chunk64
  then show thesis by (intro bitmap [of 1]) simp_all
qed (rule free_list [of "4096 div ObjSize k"]; simp add: kFreeStack_def)+

lemma body_alloc:
  assumes "body_ok km k s" and "slab_free km Q k s \<noteq> {}" and "k \<noteq> meta_slab" and "ctz_safe ctz0 (int (ObjSize k))"
  shows "\<exists>i km'. op_Alloc (chunk_ops ctz0 k) s km = Inr (i, km') \<and> body_change km km' s \<and> body_ok km' k s \<and>
    i \<in> slab_free km Q k s \<and> slab_free km' Q k s = slab_free km Q k s - {i}"
  using assms(3)
proof (cases rule: chunk_kind)
  case (bitmap n)
  have "0 \<notin> set (slab_bitmap km s) \<or> 32 \<le> ctz0"
    using single_row_zero [of n "slab_bitmap km s"] assms bitmap by (auto simp: ctz_safe_def)
  then obtain i rows where "BitmapSlab_Alloc ctz0 n (slab_bitmap km s) = (i, rows)" "bitmap_inv n rows"
    "i \<in> bitmap_free n (slab_bitmap km s)" "bitmap_free n rows = bitmap_free n (slab_bitmap km s) - {i}"
    using BitmapSlab_Alloc_least [of n "slab_bitmap km s" ctz0] assms bitmap by auto
  then show ?thesis
    using bitmap by (intro exI [of _ i] exI [of _ "km\<lparr>slab_bitmap := (slab_bitmap km)(s := rows)\<rparr>"])
      (simp add: BitmapSlab_ops_def)
next
  case (free_list n)
  obtain i f where "FreeListSlab_Alloc (slab_free_list km s) = Inr (i, f)" "fl_inv n f"
    "i \<in> fl_free (slab_free_list km s)" "fl_free f = fl_free (slab_free_list km s) - {i}"
    using FreeListSlab_Alloc_inv [of n "slab_free_list km s"] assms free_list by auto
  then show ?thesis
    using free_list by (intro exI [of _ i] exI [of _ "km\<lparr>slab_free_list := (slab_free_list km)(s := f)\<rparr>"])
      (simp add: FreeListSlab_ops_def)
qed

lemma body_free:
  assumes "body_ok km k s" and "i \<in> slab_cap k" and "i \<notin> slab_free km Q k s" and "k \<noteq> meta_slab"
  shows "\<exists>km'. op_Free (chunk_ops ctz0 k) s i km = Inr km' \<and> body_change km km' s \<and> body_ok km' k s \<and>
    slab_free km' Q k s = insert i (slab_free km Q k s)"
  using assms(4)
proof (cases rule: chunk_kind)
  case (bitmap n)
  let ?b = "BitmapSlab_Free n (slab_bitmap km s) i"
  have "bitmap_inv n ?b \<and> bitmap_free n ?b = insert i (bitmap_free n (slab_bitmap km s))"
    using BitmapSlab_Free_inv [of n "slab_bitmap km s" i] assms bitmap by simp
  then show ?thesis
    using bitmap by (intro exI [of _ "km\<lparr>slab_bitmap := (slab_bitmap km)(s := ?b)\<rparr>"]) (simp add: BitmapSlab_ops_def)
next
  case (free_list n)
  obtain f where "FreeListSlab_Free (slab_free_list km s) i = Inr f" "fl_inv n f"
    "fl_free f = insert i (fl_free (slab_free_list km s))"
    using FreeListSlab_Free_inv [of n "slab_free_list km s" i] assms free_list by auto
  then show ?thesis
    using free_list by (intro exI [of _ "km\<lparr>slab_free_list := (slab_free_list km)(s := f)\<rparr>"])
      (simp add: FreeListSlab_ops_def)
qed

lemma body_init:
  assumes "k \<noteq> meta_slab"
  shows "\<exists>km'. op_Init (chunk_ops ctz0 k) (4096 div ObjSize k) s km = Inr km' \<and> body_change km km' s \<and>
    body_ok km' k s \<and> slab_free km' Q k s = slab_cap k"
  using assms
proof (cases rule: chunk_kind)
  case (bitmap n)
  then show ?thesis
    using BitmapSlab_Init_inv [OF bitmap(1)]
    by (intro exI [of _ "km\<lparr>slab_bitmap := (slab_bitmap km)(s := BitmapSlab_Init n)\<rparr>"]) (simp add: BitmapSlab_ops_def)
next
  case (free_list n)
  obtain f where "FreeListSlab_Init n (slab_free_list km s) = Inr f" "fl_inv n f" "fl_free f = {..<n}"
    using FreeListSlab_Init_inv [OF free_list(1), of "slab_free_list km s"] by blast
  then show ?thesis
    using free_list by (intro exI [of _ "km\<lparr>slab_free_list := (slab_free_list km)(s := f)\<rparr>"])
      (simp add: FreeListSlab_ops_def)
qed

lemma body_full_empty:
  assumes "body_ok km k s" and "k \<noteq> meta_slab"
  shows "(op_is_full (chunk_ops ctz0 k) s km \<longleftrightarrow> slab_free km Q k s = {}) \<and>
    (op_is_empty (chunk_ops ctz0 k) s km \<longleftrightarrow> slab_free km Q k s = slab_cap k)"
  using assms(2)
proof (cases rule: chunk_kind)
  case (bitmap n)
  then show ?thesis using assms BitmapSlab_is_full_iff BitmapSlab_is_empty_iff by (simp add: BitmapSlab_ops_def)
next
  case (free_list n)
  then show ?thesis using assms fl_full_iff fl_empty_iff by (simp add: FreeListSlab_ops_def)
qed

lemma base_ops [simp]:
  assumes "k \<noteq> meta_slab"
  shows "op_mem (chunk_ops ctz0 k) = BaseSlab_mem" "op_AllocSlab (chunk_ops ctz0 k) = BaseSlab_AllocSlab"
    "op_FreeSlab (chunk_ops ctz0 k) = BaseSlab_FreeSlab"
  using assms by (cases k; simp add: BitmapSlab_ops_def FreeListSlab_ops_def)+

section \<open>Giving a new header to a cache\<close>

lemma kinv_add_base:
  assumes "kinv km X fl Q L {}" and "k \<noteq> meta_slab" and "\<And>j. s \<notin> L j"
    and "header_ok Q (L meta_slab) s" and "data_ok km X fl k s"
    and "\<And>h. h \<in> heads (L meta_slab) \<Longrightarrow> NodeAt s \<notin> ring Q h"
    and "body_change km km' s" and "body_ok km' k s"
  defines "L' \<equiv> L(k := insert s (L k))"
  shows "kinv km' X fl Q L' {(k, s)}"
    and "slab_view km' Q L' = (slab_view km Q L)(k := (slab_view km Q L k)(s \<mapsto> (slab_mem km' k s, slab_free km' Q k s)))"
proof -
  note bc = assms(7) [unfolded body_change_def]
  have L0: "L' meta_slab = L meta_slab" using assms(2) by (simp add: L'_def)
  have sf: "slab_free km' Q j t = slab_free km Q j t" "body_ok km' j t = body_ok km j t" if "t \<in> L j" for j t
  proof -
    have "t \<noteq> s" using that assms(3) by blast
    then have b: "slab_bitmap km' t = slab_bitmap km t" "slab_free_list km' t = slab_free_list km t" using bc by simp_all
    show "slab_free km' Q j t = slab_free km Q j t" by (rule slab_free_cong [OF b]) simp
    show "body_ok km' j t = body_ok km j t" by (rule body_ok_cong [OF b])
  qed
  have same: "page_used km' X fl = page_used km X fl" "pgs km' = pgs km" "nr_pgs km' = nr_pgs km"
    using bc by (auto simp: page_used_def pgs_def nr_pgs_def fun_eq_iff)
  have "slab_ok km' X fl Q (L' meta_slab) j t" if t: "t \<in> L' j" for j t
  proof (cases "t = s")
    case True
    then have "j = k" using t assms(3) by (auto simp: L'_def split: if_splits)
    then show ?thesis
      using True assms(2,4,5,8) bc same unfolding L0 by (simp add: slab_ok_def data_ok_def)
  next
    case False
    then have "t \<in> L j" using t by (auto simp: L'_def split: if_splits)
    then show ?thesis
      using kinvD(3) [OF assms(1), of t j] sf(2) [of t j] bc same unfolding L0
      by (simp add: slab_ok_def data_ok_def meta_ok_def split: if_splits)
  qed
  moreover have "queues_ok km' Q L' {(k, s)}"
    unfolding queues_ok_def L0
  proof (intro conjI allI ballI)
    fix j h n assume h: "h \<in> cache_queues j" and n: "n \<in> set (Q h)"
    then obtain t where "t \<in> L j" "n = NodeAt t" "fits j h (slab_free km Q j t)"
      using queued_slab [OF assms(1) h] by metis
    then show "\<exists>t\<in>L' j. n = NodeAt t \<and> fits j h (slab_free km' Q j t)" using sf by (auto simp: L'_def)
  next
    fix j t assume "t \<in> L' j"
    then have "(j, t) = (k, s) \<or> t \<in> L j" by (auto simp: L'_def split: if_splits)
    then show "(j, t) \<in> {(k, s)} \<or> (\<exists>h\<in>cache_queues j. NodeAt t \<in> set (Q h))"
      using kinvD(4) [OF assms(1)] unfolding queues_ok_def by blast
  next
    fix x assume "x \<in> {(k, s)}"
    then show "case x of (k, s) \<Rightarrow> s \<in> L' k \<and> (\<forall>h\<in>heads (L meta_slab). NodeAt s \<notin> set (Q h))"
      using assms(6) by (auto simp: L'_def ring_def)
  qed
  moreover have "pages_ok km' X fl" using kinvD(1) [OF assms(1)] bc same by (simp add: pages_ok_def)
  moreover have "forest (km_nodes km') (heads (L' meta_slab)) Q" using kinvD(2) [OF assms(1)] bc L0 by simp
  ultimately show "kinv km' X fl Q L' {(k, s)}" unfolding kinv_def by blast
  have "slab_mem km' j t = slab_mem km j t" for j t
    using bc same by (simp add: slab_mem_def split: page_ptr.splits)
  then show "slab_view km' Q L' = (slab_view km Q L)(k := (slab_view km Q L k)(s \<mapsto> (slab_mem km' k s, slab_free km' Q k s)))"
    unfolding L'_def by (intro slab_view_change) (simp add: sf)
qed

lemma view_dom: "slab_view km Q L j = slab_view km' Q' L' j \<Longrightarrow> L j = L' j"
proof -
  assume v: "slab_view km Q L j = slab_view km' Q' L' j"
  have "L j = dom (slab_view km Q L j)" "L' j = dom (slab_view km' Q' L' j)"
    by (auto simp: slab_view_def dom_def)
  with v show "L j = L' j" by simp
qed

section \<open>Base slabs meet the contract\<close>

lemma base_mem_law:
  assumes "kinv km X fl Q L D" and "s \<in> L k" and "k \<noteq> meta_slab"
  shows "BaseSlab_mem s km = Inr (slab_mem km k s)"
  using kinv_base(2) [OF assms] assms(3) by (auto simp: BaseSlab_mem_def slab_mem_def data_ok_def pgs_def)

lemma base_new_slab_law:
  assumes "kinv km X fl Q L {}" and "k \<noteq> meta_slab"
  shows "new_slab (chunk_ops ctz0 k) k km = Inl NullDeref \<and> length fl \<le> 2 \<or>
    (\<exists>s m km' fl' Q' L'. new_slab (chunk_ops ctz0 k) k km = Inr (s, km') \<and> kinv km' X fl' Q' L' {(k, s)} \<and> s \<notin> L k \<and>
      length fl \<le> length fl' + 2 \<and>
      (\<forall>j \<in> - {meta_slab}. slab_view km' Q' L' j = ((slab_view km Q L)(k := (slab_view km Q L k)(s \<mapsto> (m, slab_cap k)))) j))"
proof -
  let ?alloc = "MemCache_Allocate MetaSlab_ops (Global meta_slab) 64 km"
  consider (fail) "?alloc = Inl NullDeref" "length fl \<le> 1"
    | (ok) a m F i km1 fl1 Q1 L1 where "?alloc = Inr (m + of_nat (i * 64), km1)"
        "kinv km1 X fl1 Q1 L1 {}" "i \<in> F" "header_unused L1 a i" "length fl \<le> length fl1 + 1"
        "slab_view km Q L meta_slab a = Some (m, F) \<or> slab_view km Q L meta_slab a = None \<and> F = slab_cap meta_slab"
        "\<forall>j. slab_view km1 Q1 L1 j = ((slab_view km Q L)(meta_slab := (slab_view km Q L meta_slab)(a \<mapsto> (m, F - {i})))) j"
    using mt.Allocate_correct [OF assms(1)] unfolding ObjSize.simps by (metis UNIV_I)
  then show ?thesis
  proof cases
    case fail
    then show ?thesis using assms(2) by (simp add: new_slab_def BaseSlab_AllocSlab_def)
  next
    case (ok a m F i km1 fl1 Q1 L1)
    have v1: "slab_view km1 Q1 L1 meta_slab a = Some (m, F - {i})" using ok(7) by simp
    then have aL: "a \<in> L1 meta_slab" and m: "m = a" and iF: "i \<notin> slab_free km1 Q1 meta_slab a"
      using mt.view_member [OF v1] by (auto simp: slab_mem_def)
    have i: "i \<in> {1..<64}" using ok(3,6) by (auto simp: slab_view_def split: if_splits)
    let ?s = "a + of_nat (i * 64)"
    have slot: "NodeAt ?s = slot a i" by (simp add: slot_def mult.commute)
    have rings: "h \<in> heads (L1 meta_slab) \<Longrightarrow> NodeAt ?s \<notin> ring Q1 h" for h
      unfolding slot by (rule slot_not_in_rings [OF ok(2) aL i iF ok(4)])
    have sL: "?s \<notin> L1 j" for j
      using ok(4) slot slot_not_header [of a ?s i] kinv_meta_addr [OF ok(2)] aL i
      unfolding header_unused_def by (cases "j = meta_slab") auto
    have hdr: "header_ok Q1 (L1 meta_slab) ?s"
      unfolding header_ok_def by (rule bexI [OF _ aL], rule bexI [OF _ i]) (use i slot iF in auto)
    have L1: "L1 j = L j" "slab_view km1 Q1 L1 j = slab_view km Q L j" if "j \<noteq> meta_slab" for j
      using ok(7) that view_dom [of km1 Q1 L1 j km Q L] by auto
    show ?thesis
    proof (cases "length fl1 \<le> 1")
      case True
      then show ?thesis
        using ok(1,5) m kinv_no_page [OF ok(2) True] assms(2) by (simp add: new_slab_def BaseSlab_AllocSlab_def)
    next
      case False
      obtain x y r where fl1: "fl1 = x # y # r" using two_pages [OF False] by blast
      note k1 = ok(2) [unfolded fl1]
      obtain mp where mp: "AllocPage (km_pages km1) = Inr (PageAt x, mp)" "mp_inv mp (y # r)" "same_meta (km_pages km1) mp"
        by (rule kinv_take_page [OF k1])
      let ?km2 = "km1\<lparr>data_page := (data_page km1)(?s := PageAt x),
        km_pages := set_page mp x (\<lambda>p. p\<lparr>slab_ptr := ?s, slab_obj_size := int (ObjSize k)\<rparr>)\<rparr>"
      have "data_page ?km2 t = data_page km1 t" if "j \<noteq> meta_slab" "t \<in> L1 j" for j t
        using sL [of j] that by auto
      note w = kinv_write_page [OF k1 mp(2,3), where km' = ?km2 and a = ?s and z = "int (ObjSize k)", OF _ _ _ _ _ this]
      have k2: "kinv ?km2 X (y # r) Q1 L1 {}" "slab_view ?km2 Q1 L1 = slab_view km1 Q1 L1" "data_ok ?km2 X (y # r) k ?s"
        using w by (simp_all add: data_ok_def)
      obtain km3 where b: "op_Init (chunk_ops ctz0 k) (4096 div ObjSize k) ?s ?km2 = Inr km3" "body_change ?km2 km3 ?s"
          "body_ok km3 k ?s" "slab_free km3 Q1 k ?s = slab_cap k"
        using body_init [OF assms(2)] by blast
      note add = kinv_add_base [OF k2(1) assms(2) sL hdr k2(3) rings b(2,3)]
      have "new_slab (chunk_ops ctz0 k) k km = Inr (?s, km3)"
        using ok(1) m mp(1) b(1) assms(2) by (simp add: new_slab_def BaseSlab_AllocSlab_def Let_def)
      moreover have "length fl \<le> length (y # r) + 2" using ok(5) fl1 by simp
      moreover have "?s \<notin> L k" using sL [of k] L1(1) [OF assms(2)] by simp
      moreover have "\<forall>j \<in> - {meta_slab}. slab_view km3 Q1 (L1(k := insert ?s (L1 k))) j =
          ((slab_view km Q L)(k := (slab_view km Q L k)(?s \<mapsto> (slab_mem km3 k ?s, slab_cap k)))) j"
        using add(2) k2(2) b(4) L1(2) assms(2) by simp
      ultimately show ?thesis using add(1) by (intro disjI2) blast
    qed
  qed
qed

lemma base_free_slab_law:
  assumes "kinv km X fl Q L {(k, s)}" and "k \<noteq> meta_slab"
  shows "\<exists>km' fl' Q' L'. BaseSlab_FreeSlab s km = Inr km' \<and> kinv km' X fl' Q' L' {} \<and> set fl' \<subseteq> set fl \<union> meta_pages L \<and> L' meta_slab \<subseteq> L meta_slab \<and>
    (\<forall>j \<in> - {meta_slab}. slab_view km' Q' L' j = ((slab_view km Q L)(k := (slab_view km Q L k)(s := None))) j)"
proof -
  let ?L = "L(k := L k - {s})"
  have sL: "s \<in> L k" using kinvD(4) [OF assms(1)] unfolding queues_ok_def by auto
  have d: "kinv km X fl Q ?L {}" "slab_view km Q ?L = (slab_view km Q L)(k := (slab_view km Q L k)(s := None))"
    using kinv_drop [OF assms(1)] assms(2) by auto
  obtain a i where a: "a \<in> L meta_slab" "i \<in> {1..<64}" "NodeAt s = slot a i" "slot a i \<notin> set (Q (free_slab a))"
    using kinv_base(1) [OF assms(1) sL assms(2)] unfolding header_ok_def by blast
  have unused: "header_unused ?L a i"
    unfolding header_unused_def
  proof (intro allI impI ballI notI)
    fix j t assume "t \<in> ?L j" "NodeAt t = slot a i"
    then have "NodeAt t = NodeAt s" "t \<in> L j" using a(3) by (auto split: if_splits)
    then have "t = s" by simp
    then have "j = k" using kinv_chunk_unique [OF assms(1) sL, of j] \<open>t \<in> L j\<close> by simp
    then show False using \<open>t \<in> ?L j\<close> \<open>t = s\<close> by simp
  qed
  have v: "slab_view km Q ?L meta_slab a = Some (a, slab_free km Q meta_slab a)"
    using a(1) assms(2) by (simp add: slab_view_def slab_mem_def)
  have "i \<in> slab_cap meta_slab" "i \<notin> slab_free km Q meta_slab a" using a by simp_all
  note fr = mt.Free_correct [OF d(1) v this unused]
  have s: "s = a + of_nat (i * 64)" using a(3) by (simp add: slot_def mult.commute)
  then have run: "BaseSlab_FreeSlab s km = MemCache_Free MetaSlab_ops (Global meta_slab) (ObjSize meta_slab) (a + of_nat (i * ObjSize meta_slab)) km"
    by (simp add: BaseSlab_FreeSlab_def)
  obtain km' fl' Q' L' where f: "BaseSlab_FreeSlab s km = Inr km'" "kinv km' X fl' Q' L' {}"
      "set fl' \<subseteq> set fl \<union> meta_pages ?L" "L' meta_slab \<subseteq> ?L meta_slab" "\<forall>j. j \<noteq> meta_slab \<longrightarrow> slab_view km' Q' L' j = slab_view km Q ?L j"
    using fr unfolding run [symmetric] by auto
  moreover have "meta_pages ?L = meta_pages L" using assms(2) by (simp add: meta_pages_def)
  ultimately show ?thesis using d(2) assms(2) by (intro exI [of _ km'] exI [of _ fl'] exI [of _ Q'] exI [of _ L']) auto
qed

lemma base_slab_provider:
  assumes "k \<noteq> meta_slab" and "ctz_safe ctz0 (int (ObjSize k))"
  shows "slab_provider (chunk_ops ctz0 k) k (- {meta_slab}) 2 (\<lambda>L s i. True)"
proof
  fix km X fl Q L D s i
  show "k \<in> - {meta_slab}" using assms by simp
  show "op_is_full (chunk_ops ctz0 k) s km \<longleftrightarrow> slab_free km Q k s = {}" if "kinv km X fl Q L D" "s \<in> L k"
    using body_full_empty kinv_base(3) [OF that assms(1)] assms(1) by blast
  show "op_is_empty (chunk_ops ctz0 k) s km \<longleftrightarrow> slab_free km Q k s = slab_cap k" if "kinv km X fl Q L D" "s \<in> L k"
    using body_full_empty kinv_base(3) [OF that assms(1)] assms(1) by blast
  show "op_mem (chunk_ops ctz0 k) s km = Inr (slab_mem km k s)" if "kinv km X fl Q L D" "s \<in> L k"
    using base_mem_law [OF that assms(1)] assms(1) by simp
  have upd: "kinv km' X fl Q L {(k, s)} \<and> slab_view km' Q L =
      (slab_view km Q L)(k := (slab_view km Q L k)(s \<mapsto> (slab_mem km k s, slab_free km' Q k s)))"
    if "kinv km X fl Q L {(k, s)}" "body_change km km' s" "body_ok km' k s" for km'
    using kinv_body [OF that(1) _ assms(1), of s km'] that(2,3) unfolding body_change_def by simp
  have ok: "body_ok km k s" if "kinv km X fl Q L {(k, s)}"
    using kinv_base(3) [OF that _ assms(1)] kinvD(4) [OF that] unfolding queues_ok_def by simp
  show "\<exists>i km' Q'. op_Alloc (chunk_ops ctz0 k) s km = Inr (i, km') \<and> kinv km' X fl Q' L {(k, s)} \<and>
      i \<in> slab_free km Q k s \<and> True \<and> cache_stats km' = cache_stats km \<and>
      slab_view km' Q' L = (slab_view km Q L)(k := (slab_view km Q L k)(s \<mapsto> (slab_mem km k s, slab_free km Q k s - {i})))"
    if kn: "kinv km X fl Q L {(k, s)}" and ne: "slab_free km Q k s \<noteq> {}"
  proof -
    obtain i km' where "op_Alloc (chunk_ops ctz0 k) s km = Inr (i, km')" "body_change km km' s" "body_ok km' k s"
        "i \<in> slab_free km Q k s" "slab_free km' Q k s = slab_free km Q k s - {i}"
      using body_alloc [OF ok [OF kn] ne assms] by blast
    then show ?thesis using upd [OF kn] unfolding body_change_def by metis
  qed
  show "\<exists>km' Q'. op_Free (chunk_ops ctz0 k) s i km = Inr km' \<and> kinv km' X fl Q' L {(k, s)} \<and>
      cache_stats km' = cache_stats km \<and>
      slab_view km' Q' L = (slab_view km Q L)(k := (slab_view km Q L k)(s \<mapsto> (slab_mem km k s, insert i (slab_free km Q k s))))"
    if kn: "kinv km X fl Q L {(k, s)}" and i: "i \<in> slab_cap k" "i \<notin> slab_free km Q k s"
  proof -
    obtain km' where "op_Free (chunk_ops ctz0 k) s i km = Inr km'" "body_change km km' s" "body_ok km' k s"
        "slab_free km' Q k s = insert i (slab_free km Q k s)"
      using body_free [OF ok [OF kn] i assms(1)] by blast
    then show ?thesis using upd [OF kn] unfolding body_change_def by metis
  qed
qed (use assms base_new_slab_law base_free_slab_law in \<open>simp_all del: fun_upd_apply\<close>)

text \<open>Freeing never counts trailing zeros.\<close>

lemma MemCache_Free_ctz: "MemCache_Free (chunk_ops ctz0 k) c n ptr km = MemCache_Free (chunk_ops ctz1 k) c n ptr km"
proof -
  have "op_Free (chunk_ops ctz0 k) = op_Free (chunk_ops ctz1 k)" "op_is_full (chunk_ops ctz0 k) = op_is_full (chunk_ops ctz1 k)"
    "op_is_empty (chunk_ops ctz0 k) = op_is_empty (chunk_ops ctz1 k)" "op_FreeSlab (chunk_ops ctz0 k) = op_FreeSlab (chunk_ops ctz1 k)"
    by (cases k; simp add: BitmapSlab_ops_def)+
  note e = this
  show ?thesis unfolding MemCache_Free_def AdjustSlab_def ReclaimEmptySlab_def e ..
qed

lemma tzcnt_provider: "k \<noteq> meta_slab \<Longrightarrow> slab_provider (chunk_ops 64 k) k (- {meta_slab}) 2 (\<lambda>L s i. True)"
  by (rule base_slab_provider) simp_all

text \<open>The contract at four of the classes, on a machine whose \<^verbatim>\<open>tzcnt\<close> gives 64 at zero.\<close>

interpretation c16: slab_provider "chunk_ops 64 chunk16" chunk16 "- {meta_slab}" 2 "\<lambda>L s i. True"
  by (rule base_slab_provider) simp_all

interpretation c32: slab_provider "chunk_ops 64 chunk32" chunk32 "- {meta_slab}" 2 "\<lambda>L s i. True"
  by (rule base_slab_provider) simp_all

interpretation c64: slab_provider "chunk_ops 64 chunk64" chunk64 "- {meta_slab}" 2 "\<lambda>L s i. True"
  by (rule base_slab_provider) simp_all

interpretation c128: slab_provider "chunk_ops 64 chunk128" chunk128 "- {meta_slab}" 2 "\<lambda>L s i. True"
  by (rule base_slab_provider) simp_all

end
