(* ===== verification/Slab_Frames.thy ===== *)
theory Slab_Frames
  imports Mem_Cache
begin

text \<open>
  What no operation of the allocators changes: the number of page structures and the physical address in each of them. Every slab class promises it of its operations (the locale
  \<open>slab_frame\<close>), the cache template keeps it, and so do \<^verbatim>\<open>Alloc\<close> and \<^verbatim>\<open>Free\<close>.
\<close>

definition same_phys :: "mem_pages \<Rightarrow> mem_pages \<Rightarrow> bool" where
  "same_phys mp mp' \<longleftrightarrow> nr_page_structs mp' = nr_page_structs mp \<and> (\<forall>p. phyaddr (page_structs mp' p) = phyaddr (page_structs mp p))"

lemma same_phys_refl [simp]: "same_phys mp mp"
  by (simp add: same_phys_def)

lemma same_phys_trans: "same_phys a b \<Longrightarrow> same_phys b c \<Longrightarrow> same_phys a c"
  by (simp add: same_phys_def)

lemma same_phys_head [simp]: "same_phys mp (mp'\<lparr>page_head := h\<rparr>) = same_phys mp mp'" "same_phys (mp\<lparr>page_head := h\<rparr>) mp' = same_phys mp mp'"
  by (simp_all add: same_phys_def)

lemma same_phys_set_page [simp]: "(\<And>p. phyaddr (f p) = phyaddr p) \<Longrightarrow> same_phys mp (set_page mp' i f) = same_phys mp mp'"
  by (auto simp: same_phys_def set_page_def)

lemma same_phys_wr_page: "wr_page mp q f = Inr mp' \<Longrightarrow> (\<And>p. phyaddr (f p) = phyaddr p) \<Longrightarrow> same_phys mp mp'"
  by (cases q) auto

lemma AllocPage_phys: "AllocPage mp = Inr (pg, mp') \<Longrightarrow> same_phys mp mp'"
  by (auto simp: AllocPage_def Let_def ebind_eq_Inr split: if_splits dest!: same_phys_wr_page intro: same_phys_trans)

lemma FreePage_phys: "FreePage mp pg = Inr mp' \<Longrightarrow> same_phys mp mp'"
  by (auto simp: FreePage_def Let_def ebind_eq_Inr dest!: same_phys_wr_page intro: same_phys_trans)

lemma unlink_page_phys: "unlink_page mp i = Inr mp' \<Longrightarrow> same_phys mp mp'"
  by (auto simp: unlink_page_def ebind_eq_Inr dest!: same_phys_wr_page intro: same_phys_trans)

lemma unlink_run_phys: "unlink_run mp i k = Inr mp' \<Longrightarrow> same_phys mp mp'"
  by (induction mp i k rule: unlink_run.induct) (auto simp: ebind_eq_Inr dest!: unlink_page_phys intro: same_phys_trans)

lemma free_run_phys: "free_run mp pg i k = Inr mp' \<Longrightarrow> same_phys mp mp'"
  by (induction mp pg i k rule: free_run.induct) (auto simp: ebind_eq_Inr dest!: FreePage_phys intro: same_phys_trans)

lemma AllocPages_phys: "AllocPages mp n = Inr (pg, mp') \<Longrightarrow> same_phys mp mp'"
  by (auto simp: AllocPages_def Let_def ebind_eq_Inr split: if_splits dest: AllocPage_phys unlink_run_phys)

lemma FreePages_phys: "FreePages mp pg n = Inr mp' \<Longrightarrow> same_phys mp mp'"
  by (auto simp: FreePages_def split: if_splits dest: FreePage_phys free_run_phys)

text \<open>Freeing never takes a page out of the free ones.\<close>

definition more_free :: "mem_pages \<Rightarrow> mem_pages \<Rightarrow> bool" where
  "more_free mp mp' \<longleftrightarrow> (\<forall>p. is_free (page_structs mp p) \<longrightarrow> is_free (page_structs mp' p))"

lemma more_free_refl [simp]: "more_free mp mp"
  by (simp add: more_free_def)

lemma more_free_trans: "more_free a b \<Longrightarrow> more_free b c \<Longrightarrow> more_free a c"
  by (simp add: more_free_def)

lemma more_free_wr_page: "wr_page mp q f = Inr mp' \<Longrightarrow> (\<And>p. is_free p \<Longrightarrow> is_free (f p)) \<Longrightarrow> more_free mp mp'"
  by (cases q) (auto simp: more_free_def set_page_def)

lemma FreePage_free: "FreePage mp pg = Inr mp' \<Longrightarrow> more_free mp mp'"
  by (auto simp: FreePage_def Let_def ebind_eq_Inr more_free_def dest!: more_free_wr_page)

lemma FreePage_keeps: "FreePage mp pg = Inr mp' \<Longrightarrow> same_phys mp mp' \<and> more_free mp mp'"
  using FreePage_phys FreePage_free by blast

lemma FreePages_free: "FreePages mp pg n = Inr mp' \<Longrightarrow> more_free mp mp'"
proof -
  have "free_run mp pg i k = Inr mp' \<Longrightarrow> more_free mp mp'" for i k
    by (induction mp pg i k rule: free_run.induct) (auto simp: ebind_eq_Inr dest!: FreePage_free intro: more_free_trans)
  then show "FreePages mp pg n = Inr mp' \<Longrightarrow> more_free mp mp'" by (auto simp: FreePages_def split: if_splits dest: FreePage_free)
qed

section \<open>The contract of a slab class\<close>

lemma upd_pages [simp]: "km_pages (upd_nodes f km) = km_pages km" "km_pages (upd_stat c g km) = km_pages km"
  by (simp_all add: upd_nodes_def upd_stat_def)

locale slab_frame =
  fixes ops :: slab_ops
  assumes Init_phys: "op_Init ops n s km = Inr km' \<Longrightarrow> same_phys (km_pages km) (km_pages km')"
    and op_Alloc_phys: "op_Alloc ops s km = Inr (i, km') \<Longrightarrow> same_phys (km_pages km) (km_pages km')"
    and op_Free_phys: "op_Free ops s i km = Inr km' \<Longrightarrow> same_phys (km_pages km) (km_pages km')"
    and AllocSlab_phys: "op_AllocSlab ops z km = Inr (s, km') \<Longrightarrow> same_phys (km_pages km) (km_pages km')"
    and FreeSlab_phys: "op_FreeSlab ops s km = Inr km' \<Longrightarrow> same_phys (km_pages km) (km_pages km')"
    and op_Free_free: "op_Free ops s i km = Inr km' \<Longrightarrow> more_free (km_pages km) (km_pages km')"
    and FreeSlab_free: "op_FreeSlab ops s km = Inr km' \<Longrightarrow> more_free (km_pages km) (km_pages km')"
begin

lemma Adjust_phys: "AdjustSlab ops c s km = Inr km' \<Longrightarrow> same_phys (km_pages km) (km_pages km')"
  by (auto simp: AdjustSlab_def ReclaimEmptySlab_def ebind_eq_Inr split: if_splits dest!: FreeSlab_phys)

lemma Adjust_free: "AdjustSlab ops c s km = Inr km' \<Longrightarrow> more_free (km_pages km) (km_pages km')"
  by (auto simp: AdjustSlab_def ReclaimEmptySlab_def ebind_eq_Inr split: if_splits dest!: FreeSlab_free)

lemma Pick_phys: "PickSlab ops c z km = Inr (s, km') \<Longrightarrow> same_phys (km_pages km) (km_pages km')"
  by (auto simp: PickSlab_def Let_def ebind_eq_Inr split: if_splits dest!: AllocSlab_phys Init_phys intro: same_phys_trans)

lemma Allocate_phys: "MemCache_Allocate ops c z km = Inr (p, km') \<Longrightarrow> same_phys (km_pages km) (km_pages km')"
  by (auto simp: MemCache_Allocate_def ebind_eq_Inr dest!: Pick_phys op_Alloc_phys Adjust_phys intro: same_phys_trans)

lemma Cache_Free_phys: "MemCache_Free ops c z p km = Inr km' \<Longrightarrow> same_phys (km_pages km) (km_pages km')"
  by (auto simp: MemCache_Free_def Let_def ebind_eq_Inr dest!: op_Free_phys Adjust_phys intro: same_phys_trans)

lemma Cache_Free_free: "MemCache_Free ops c z p km = Inr km' \<Longrightarrow> more_free (km_pages km) (km_pages km')"
  by (auto simp: MemCache_Free_def Let_def ebind_eq_Inr dest!: op_Free_free Adjust_free intro: more_free_trans)

end

interpretation mf: slab_frame MetaSlab_ops
  by unfold_locales
    (auto simp: MetaSlab_ops_def MetaSlab_Init_def MetaSlab_Alloc_def MetaSlab_Free_def MetaSlab_AllocSlab_def MetaSlab_FreeSlab_def kassert_def Let_def ebind_eq_Inr
      split: if_splits node_ptr.splits dest!: AllocPage_phys FreePage_keeps same_phys_wr_page intro: same_phys_trans)

lemma BaseSlab_phys:
  "BaseSlab_AllocSlab z km = Inr (s, km') \<Longrightarrow> same_phys (km_pages km) (km_pages km')"
  "BaseSlab_FreeSlab s km = Inr km' \<Longrightarrow> same_phys (km_pages km) (km_pages km')"
  by (auto simp: BaseSlab_AllocSlab_def BaseSlab_FreeSlab_def Let_def ebind_eq_Inr
      dest!: mf.Allocate_phys mf.Cache_Free_phys AllocPage_phys same_phys_wr_page intro: same_phys_trans)

lemma BaseSlab_free: "BaseSlab_FreeSlab s km = Inr km' \<Longrightarrow> more_free (km_pages km) (km_pages km')"
  by (auto simp: BaseSlab_FreeSlab_def dest: mf.Cache_Free_free)

interpretation bf: slab_frame "BitmapSlab_ops ctz0 n"
  by unfold_locales (auto simp: BitmapSlab_ops_def split: prod.splits dest: BaseSlab_phys BaseSlab_free)

interpretation ff: slab_frame FreeListSlab_ops
  by unfold_locales (auto simp: FreeListSlab_ops_def ebind_eq_Inr dest: BaseSlab_phys BaseSlab_free)

lemma chunk_frame: "slab_frame (chunk_ops ctz0 k)"
  using mf.slab_frame_axioms bf.slab_frame_axioms ff.slab_frame_axioms by (cases k) simp_all

section \<open>The entry points\<close>

lemma Cache_Allocate_phys: "Cache_Allocate ctz0 c km = Inr (p, km') \<Longrightarrow> same_phys (km_pages km) (km_pages km')"
  unfolding Cache_Allocate_def by (rule slab_frame.Allocate_phys [OF chunk_frame])

lemma Alloc_phys: "Alloc ctz0 clz0 sz km = Inr (p, km') \<Longrightarrow> same_phys (km_pages km) (km_pages km')"
  by (auto simp: Alloc_def Let_def ebind_eq_Inr split: if_splits dest!: AllocPages_phys same_phys_wr_page Cache_Allocate_phys intro: same_phys_trans)

lemma Free_phys: "Free ctz0 clz0 p km = Inr km' \<Longrightarrow> same_phys (km_pages km) (km_pages km')"
  by (auto simp: Free_def Cache_Free_def Let_def ebind_eq_Inr split: if_splits dest!: FreePages_phys slab_frame.Cache_Free_phys [OF chunk_frame])

lemma Free_free: "Free ctz0 clz0 p km = Inr km' \<Longrightarrow> more_free (km_pages km) (km_pages km')"
  by (auto simp: Free_def Cache_Free_def Let_def ebind_eq_Inr split: if_splits dest!: FreePages_free slab_frame.Cache_Free_free [OF chunk_frame])

end
