(* ===== verification/Kmalloc.thy ===== *)
theory Kmalloc
  imports Slab_Classes Slab_Frames
begin

text \<open>
  The entry points \<^verbatim>\<open>Alloc\<close> and \<^verbatim>\<open>Free\<close> as a heap: the abstract state is the set of blocks handed
  out, and the theorems say that allocation adds a fresh block, freeing removes the block, and
  blocks never overlap.
\<close>

section \<open>Size classes\<close>

lemma bit_word_odd: "bit (w :: 'a :: len word) k \<longleftrightarrow> odd (unat w div 2 ^ k)"
proof -
  have "bit w k = bit (unat w) k" by (simp add: bit_unsigned_iff)
  then show ?thesis by (simp only: bit_iff_odd)
qed

lemma clz_eq:
  assumes "2 ^ j \<le> unat w" and "unat w < 2 ^ Suc j" and "j < 32"
  shows "clz c w = 31 - int j"
proof -
  have "unat w div 2 ^ j = 1" using assms(1,2) by (simp add: div_nat_eqI)
  then have bj: "bit w j" by (simp add: bit_word_odd)
  have above: "\<not> bit w k" if "j < k" for k
  proof -
    have "unat w < 2 ^ k" using assms(2) power_increasing [of "Suc j" k "2::nat"] that by simp
    then show ?thesis by (simp add: bit_word_odd)
  qed
  have "[0..<32] = [0..<j] @ j # [Suc j..<32]"
    using assms(3) by (metis le0 less_imp_le_nat upt_add_eq_append upt_conv_Cons le_add_diff_inverse)
  then have "takeWhile (\<lambda>k. \<not> bit w k) (rev [0..<32]) = rev [Suc j..<32]"
    using above bj by (simp add: takeWhile_append takeWhile_eq_all_conv)
  then show ?thesis using bj assms(3) by (auto simp: clz_def)
qed

lemma FitGlobalMemCache_class:
  assumes "2 ^ j < n" and "n \<le> 2 ^ Suc j" and "j < 11"
  shows "FitGlobalMemCache clz0 n = Inr (Global (kGlobalMemCache ! (j - 3)))"
proof -
  have p: "(2::int) ^ Suc j \<le> 2 ^ 11" using assms(3) by (intro power_increasing) auto
  have q: "1 \<le> (2::int) ^ j" by simp
  have b: "0 < n - 1" "n - 1 < 2 ^ 32" using assms(1,2) p q by simp_all
  have u: "unat (of_int (n - 1) :: u32) = nat (n - 1)"
    using b by (simp only: nat_uint_eq [symmetric] uint_word_of_int_eq take_bit_int_eq_self) (simp add: take_bit_int_eq_self)
  have "2 ^ j \<le> nat (n - 1)" "nat (n - 1) < 2 ^ Suc j"
    using assms(1,2) b by (simp_all add: nat_less_iff le_nat_iff)
  then have c: "clz clz0 (of_int (n - 1)) = 31 - int j"
    unfolding u [symmetric] by (rule clz_eq) (use assms(3) in simp)
  have i: "32 - (31 - int j) - 4 = int j - 3" by simp
  have "(if int j - 3 < 0 then 0 else int j - 3) = int (j - 3)" by auto
  then show ?thesis
    unfolding FitGlobalMemCache_def c i Let_def using assms(3) by (simp add: kassert_def)
qed

text \<open>The least power of two at or above a size in range.\<close>

lemma size_log:
  assumes "2 \<le> n" and "n \<le> 2 ^ 11"
  obtains j where "2 ^ j < n" and "n \<le> (2::int) ^ Suc j" and "j < 11"
proof -
  define j where "j = (LEAST j. n \<le> 2 ^ Suc j)"
  have le: "n \<le> 2 ^ Suc j" unfolding j_def by (rule LeastI [of _ 10]) (use assms in simp)
  have "j \<le> 10" unfolding j_def by (rule Least_le) (use assms in simp)
  moreover have "2 ^ j < n"
  proof (cases j)
    case 0
    then show ?thesis using assms by simp
  next
    case (Suc i)
    then have "\<not> n \<le> 2 ^ Suc i" using not_less_Least [of i "\<lambda>j. n \<le> 2 ^ Suc j"] by (simp add: j_def)
    then show ?thesis using Suc by simp
  qed
  ultimately show thesis using that le by simp
qed

lemma small_sizes: "(j::nat) < 11 \<longleftrightarrow> j = 0 \<or> j = 1 \<or> j = 2 \<or> j = 3 \<or> j = 4 \<or> j = 5 \<or> j = 6 \<or> j = 7 \<or> j = 8 \<or> j = 9 \<or> j = 10"
  by presburger

lemma FitGlobalMemCache_fits:
  assumes "2 \<le> n" and "n \<le> 2048"
  shows "\<exists>k. FitGlobalMemCache clz0 n = Inr (Global k) \<and> k \<noteq> meta_slab \<and> n \<le> int (ObjSize k) \<and>
    (\<forall>j. j \<noteq> meta_slab \<longrightarrow> n \<le> int (ObjSize j) \<longrightarrow> ObjSize k \<le> ObjSize j)"
proof -
  obtain j where j: "2 ^ j < n" "n \<le> 2 ^ Suc j" "j < 11" using size_log [of n] assms by auto
  have "kGlobalMemCache ! (j - 3) \<noteq> meta_slab \<and> n \<le> int (ObjSize (kGlobalMemCache ! (j - 3))) \<and>
    (\<forall>i. i \<noteq> meta_slab \<longrightarrow> n \<le> int (ObjSize i) \<longrightarrow> ObjSize (kGlobalMemCache ! (j - 3)) \<le> ObjSize i)"
    using j unfolding small_sizes
    by (elim disjE; simp add: kGlobalMemCache_def; intro conjI allI impI; (case_tac i; simp)?)
  then show ?thesis using FitGlobalMemCache_class [OF j] by blast
qed

lemma FitGlobalMemCache_ObjSize:
  "k \<noteq> meta_slab \<Longrightarrow> FitGlobalMemCache clz0 (int (ObjSize k)) = Inr (Global k)"
  using FitGlobalMemCache_class [of 3 16] FitGlobalMemCache_class [of 4 32] FitGlobalMemCache_class [of 5 64]
    FitGlobalMemCache_class [of 6 128] FitGlobalMemCache_class [of 7 256] FitGlobalMemCache_class [of 8 512]
    FitGlobalMemCache_class [of 9 1024] FitGlobalMemCache_class [of 10 2048]
  by (cases k) (simp_all add: kGlobalMemCache_def)

lemma word_log: "w \<noteq> 0 \<Longrightarrow> \<exists>j < 32. 2 ^ j \<le> unat w \<and> unat w < 2 ^ Suc j" for w :: u32
proof -
  assume "w \<noteq> 0"
  then have "0 < unat w" by (simp add: unat_gt_0)
  then obtain j where j: "2 ^ j \<le> unat w" "unat w < 2 ^ Suc j" using ex_power_ivl1 [of 2 "unat w"] by auto
  have "unat w < 2 ^ 32" using unsigned_less [of w, where ?'a = nat] by simp
  then have "j < 32" using j(1) by (meson le_less_trans power_less_imp_less_exp one_less_numeral_iff semiring_norm(76))
  then show ?thesis using j by blast
qed

lemma FitGlobalMemCache_refused:
  assumes "- (2 ^ 31) \<le> n" and "n < 2 ^ 31" and "n \<le> 0 \<or> 2048 < n"
  shows "FitGlobalMemCache clz0 n = Inl (Panic ''idx < 8'')"
proof -
  let ?w = "of_int (n - 1) :: u32"
  have u: "uint ?w = (n - 1) mod 2 ^ 32" by (simp only: uint_word_of_int_eq take_bit_eq_mod) simp
  have "2048 \<le> (n - 1) mod 2 ^ 32"
  proof (cases "n \<le> 0")
    case True
    have "(n - 1) mod 2 ^ 32 = (n - 1 + 2 ^ 32) mod 2 ^ 32" by (rule mod_add_self2 [symmetric])
    also have "\<dots> = n - 1 + 2 ^ 32" using True assms(1) by (intro mod_pos_pos_trivial) auto
    finally have "(n - 1) mod 2 ^ 32 = n - 1 + 2 ^ 32" .
    then show ?thesis using assms(1) by simp
  next
    case False
    then show ?thesis using assms by simp
  qed
  then have "2 ^ 11 \<le> unat ?w" unfolding unat_eq_nat_uint u by (simp add: le_nat_iff)
  moreover obtain j where j: "j < 32" "2 ^ j \<le> unat ?w" "unat ?w < 2 ^ Suc j"
    using word_log [of ?w] calculation by (metis not_numeral_le_zero unat_0 power_eq_0_iff le_zero_eq zero_neq_numeral)
  ultimately have "(2::nat) ^ 11 < 2 ^ Suc j" by linarith
  then have "11 \<le> j" by (simp only: power_strict_increasing_iff)
  moreover have "clz clz0 ?w = 31 - int j" using clz_eq [OF j(2,3,1)] .
  ultimately show ?thesis by (simp add: FitGlobalMemCache_def Let_def)
qed

section \<open>Live objects\<close>

type_synonym view = "chunk \<Rightarrow> u64 \<rightharpoonup> u64 \<times> nat set"

text \<open>The objects in use, as cache, slab and index, and the block each one is.\<close>

definition used_objs :: "view \<Rightarrow> (chunk \<times> u64 \<times> nat) set" where
  "used_objs v = {(k, s, i). k \<noteq> meta_slab \<and> (\<exists>m F. v k s = Some (m, F) \<and> i \<in> slab_cap k - F)}"

fun obj_block :: "view \<Rightarrow> chunk \<times> u64 \<times> nat \<Rightarrow> u64 \<times> nat" where
  "obj_block v (k, s, i) = (fst (the (v k s)) + of_nat (i * ObjSize k), ObjSize k)"

definition live :: "view \<Rightarrow> (u64 \<times> nat) set" where
  "live v = obj_block v ` used_objs v"

text \<open>The addresses of a block.\<close>

definition block :: "u64 \<times> nat \<Rightarrow> u64 set" where
  "block b = (\<lambda>j. fst b + of_nat j) ` {..<snd b}"

lemma slab_cap_end: "i \<in> slab_cap k \<Longrightarrow> i * ObjSize k + ObjSize k \<le> 4096"
  by (cases k) auto

lemma used_obj_page:
  assumes "kinv km X fl Q L D" and "(k, s, i) \<in> used_objs (slab_view km Q L)"
  obtains p where "s \<in> L k" and "slab_ptr (pgs km p) = s" and "page_used km X fl p" and "p < 2 ^ 52"
    and "obj_block (slab_view km Q L) (k, s, i) = (kaddr p (i * ObjSize k), ObjSize k)" and "i \<in> slab_cap k"
    and "slab_obj_size (pgs km p) = int (ObjSize k)" and "p \<in> slab_pages km L"
proof -
  have k: "k \<noteq> meta_slab" and sL: "s \<in> L k" and i: "i \<in> slab_cap k"
    and v: "slab_view km Q L k s = Some (slab_mem km k s, slab_free km Q k s)"
    using assms(2) by (auto simp: used_objs_def slab_view_def split: if_splits)
  obtain p where p: "data_page km s = PageAt p" "page_used km X fl p" "slab_ptr (pgs km p) = s"
      "slab_obj_size (pgs km p) = int (ObjSize k)"
    using kinv_base(2) [OF assms(1) sL k] by (auto simp: data_ok_def)
  then have "slab_mem km k s = kaddr p 0"
    using k PADDR_frame [of p] by (simp add: slab_mem_def page_used_def)
  then have "obj_block (slab_view km Q L) (k, s, i) = (kaddr p (i * ObjSize k), ObjSize k)"
    using v kaddr_add [of p 0 "i * ObjSize k"] by simp
  moreover have "p \<in> slab_pages km L" using k sL p(1) unfolding slab_pages_def by blast
  ultimately show thesis
    using that sL p kinv_page_bound [OF assms(1) p(2)] i by blast
qed

lemma block_kaddr:
  "off + n \<le> 4096 \<Longrightarrow> block (kaddr p off, n) \<subseteq> kaddr p ` {off..<off + n}"
  by (auto simp: block_def kaddr_add)

lemma used_objs_disjoint:
  assumes "kinv km X fl Q L D" and "x \<in> used_objs (slab_view km Q L)" and "y \<in> used_objs (slab_view km Q L)" and "x \<noteq> y"
  shows "block (obj_block (slab_view km Q L) x) \<inter> block (obj_block (slab_view km Q L) y) = {}"
proof -
  obtain k s i k' s' i' where xy: "x = (k, s, i)" "y = (k', s', i')" by (metis prod_cases3)
  obtain p where p: "s \<in> L k" "slab_ptr (pgs km p) = s" "p < 2 ^ 52" "i \<in> slab_cap k"
      "obj_block (slab_view km Q L) x = (kaddr p (i * ObjSize k), ObjSize k)"
    using used_obj_page [OF assms(1) assms(2) [unfolded xy]] xy by metis
  obtain q where q: "s' \<in> L k'" "slab_ptr (pgs km q) = s'" "q < 2 ^ 52" "i' \<in> slab_cap k'"
      "obj_block (slab_view km Q L) y = (kaddr q (i' * ObjSize k'), ObjSize k')"
    using used_obj_page [OF assms(1) assms(3) [unfolded xy]] xy by metis
  note e = slab_cap_end [OF p(4)] slab_cap_end [OF q(4)]
  have "a \<noteq> b" if ab: "a \<in> block (obj_block (slab_view km Q L) x)" "b \<in> block (obj_block (slab_view km Q L) y)" for a b
  proof
    assume "a = b"
    obtain o1 where o1: "a = kaddr p o1" "o1 \<in> {i * ObjSize k..<i * ObjSize k + ObjSize k}"
      using block_kaddr [OF e(1), of p] ab(1) p(5) by auto
    obtain o2 where o2: "b = kaddr q o2" "o2 \<in> {i' * ObjSize k'..<i' * ObjSize k' + ObjSize k'}"
      using block_kaddr [OF e(2), of q] ab(2) q(5) by auto
    have "p = q \<and> o1 = o2" using kaddr_inj [of p o1 q o2] \<open>a = b\<close> o1 o2 p(3) q(3) e by auto
    then have "s = s'" using p(2) q(2) by simp
    then have "k = k'" using kinv_chunk_unique [OF assms(1) p(1)] q(1) by simp
    then have "i = i'"
      using o1(2) o2(2) \<open>p = q \<and> o1 = o2\<close> ObjSize_pos [of k] by (metis atLeastLessThan_iff div_nat_eqI add.commute mult.commute mult_Suc)
    then show False using assms(4) xy \<open>s = s'\<close> \<open>k = k'\<close> by simp
  qed
  then show ?thesis by blast
qed

lemma obj_block_self: "fst (obj_block v x) \<in> block (obj_block v x)"
  using ObjSize_pos by (cases x) (auto simp: block_def image_iff intro!: bexI [of _ 0])

lemma obj_block_inj:
  assumes "kinv km X fl Q L D"
  shows "inj_on (obj_block (slab_view km Q L)) (used_objs (slab_view km Q L))"
  using used_objs_disjoint [OF assms] obj_block_self by (metis disjoint_iff inj_onI)

lemma live_cong: "(\<And>j. j \<noteq> meta_slab \<Longrightarrow> v' j = v j) \<Longrightarrow> live v' = live v"
proof -
  assume e: "\<And>j. j \<noteq> meta_slab \<Longrightarrow> v' j = v j"
  then have u: "used_objs v' = used_objs v" by (auto simp: used_objs_def)
  have "obj_block v' x = obj_block v x" if "x \<in> used_objs v" for x
    using that e by (cases x) (auto simp: used_objs_def)
  then show ?thesis unfolding live_def u by simp
qed

text \<open>Marking one more object of a slab as used, or one less.\<close>

lemma live_alloc:
  assumes "k \<noteq> meta_slab" and "v k s = Some (m, F) \<or> v k s = None \<and> F = slab_cap k" and "i \<in> F" and "F \<subseteq> slab_cap k"
  defines "v' \<equiv> v(k := (v k)(s \<mapsto> (m, F - {i})))"
  shows "used_objs v' = insert (k, s, i) (used_objs v)" and "(k, s, i) \<notin> used_objs v"
    and "live v' = insert (m + of_nat (i * ObjSize k), ObjSize k) (live v)"
proof -
  show u: "used_objs v' = insert (k, s, i) (used_objs v)" and n: "(k, s, i) \<notin> used_objs v"
    using assms by (auto simp: used_objs_def v'_def split: if_splits)
  have "obj_block v' x = obj_block v x" if "x \<in> used_objs v" for x
    using that assms(2) by (cases x) (auto simp: used_objs_def v'_def)
  moreover have "obj_block v' (k, s, i) = (m + of_nat (i * ObjSize k), ObjSize k)" by (simp add: v'_def)
  ultimately show "live v' = insert (m + of_nat (i * ObjSize k), ObjSize k) (live v)"
    unfolding live_def u by (simp cong: image_cong)
qed

lemma live_free:
  assumes "k \<noteq> meta_slab" and "v k s = Some (m, F)" and "i \<in> slab_cap k - F"
    and "r \<Longrightarrow> insert i F = slab_cap k" and "inj_on (obj_block v) (used_objs v)"
  defines "v' \<equiv> v(k := (v k)(s := (if r then None else Some (m, insert i F))))"
  shows "live v' = live v - {(m + of_nat (i * ObjSize k), ObjSize k)}"
proof -
  have u: "used_objs v' = used_objs v - {(k, s, i)}"
  proof (cases r)
    case True
    then have "slab_cap k - F = {i}" using assms(3,4) by auto
    then show ?thesis using True assms(1,2) by (auto simp: used_objs_def v'_def split: if_splits)
  next
    case False
    then show ?thesis using assms(1,2,3) by (auto simp: used_objs_def v'_def split: if_splits)
  qed
  have e: "obj_block v' x = obj_block v x" if "x \<in> used_objs v'" for x
    using that assms(2) by (cases x) (auto simp: used_objs_def v'_def split: if_splits)
  have m: "(k, s, i) \<in> used_objs v" using assms(1-3) by (auto simp: used_objs_def)
  have "live v' = obj_block v ` (used_objs v - {(k, s, i)})"
    unfolding live_def u using e u by (intro image_cong) auto
  also have "\<dots> = obj_block v ` used_objs v - {obj_block v (k, s, i)}"
    using inj_on_image_set_diff [OF assms(5), of "used_objs v" "{(k, s, i)}"] m by simp
  finally show ?thesis using assms(2) by (simp add: live_def)
qed

section \<open>The heap\<close>

text \<open>
  \<open>G\<close> are the page runs handed out by \<^verbatim>\<open>Alloc\<close> for sizes above 2048, as first page and length; \<open>X\<close> is
  the map of reserved pages of the invariant.
\<close>

definition big_ok :: "(nat \<rightharpoonup> int) \<Rightarrow> (nat \<times> nat) set \<Rightarrow> bool" where
  "big_ok X G \<longleftrightarrow>
     (\<forall>(p, n) \<in> G. 1 \<le> n \<and> X p = Some (int (4096 * n)) \<and> {p..<p + n} \<subseteq> dom X) \<and>
     (\<forall>(p, n) \<in> G. \<forall>(q, m) \<in> G. (p, n) \<noteq> (q, m) \<longrightarrow> {p..<p + n} \<inter> {q..<q + m} = {})"

definition run_block :: "nat \<times> nat \<Rightarrow> u64 \<times> nat" where
  "run_block = (\<lambda>(p, n). (kaddr p 0, 4096 * n))"

text \<open>
  \<open>R\<close> are pages the heap stays away from: those that have a page structure of their own are recorded as in use outside the slabs and outside the runs.
  \<open>heap_res R km B\<close> says that the heap is intact, that \<open>B\<close> are the blocks handed out, and that the pages \<open>R\<close> are not part of it.
\<close>

definition reserved :: "kmem \<Rightarrow> (nat \<rightharpoonup> int) \<Rightarrow> (nat \<times> nat) set \<Rightarrow> nat set \<Rightarrow> bool" where
  "reserved km X G R \<longleftrightarrow> (\<forall>p \<in> R. p < nr_pgs km \<and> phyaddr (pgs km p) = of_nat (4096 * p) \<longrightarrow>
     p \<in> dom X \<and> (\<forall>(q, n) \<in> G. p \<notin> {q..<q + n}))"

definition heap_res :: "nat set \<Rightarrow> kmem \<Rightarrow> (u64 \<times> nat) set \<Rightarrow> bool" where
  "heap_res R km B \<longleftrightarrow>
     (\<exists>X fl Q L G. kinv km X fl Q L {} \<and> big_ok X G \<and> B = live (slab_view km Q L) \<union> run_block ` G \<and> reserved km X G R)"

abbreviation heap_ok :: "kmem \<Rightarrow> (u64 \<times> nat) set \<Rightarrow> bool" where
  "heap_ok \<equiv> heap_res {}"

lemma reserved_same_phys: "reserved km X G R \<Longrightarrow> same_phys (km_pages km) (km_pages km') \<Longrightarrow> reserved km' X G R"
  by (simp add: reserved_def same_phys_def nr_pgs_def pgs_def)

lemma nr_pgs_same_phys: "same_phys (km_pages km) (km_pages km') \<Longrightarrow> nr_pgs km' = nr_pgs km"
  by (simp add: same_phys_def nr_pgs_def)

text \<open>The number of free pages.\<close>

definition free_pages :: "kmem \<Rightarrow> nat" where
  "free_pages km = card {p. p < nr_pgs km \<and> is_free (pgs km p)}"

lemma free_pages_mp_inv: "mp_inv (km_pages km) fl \<Longrightarrow> free_pages km = length fl"
proof -
  assume m: "mp_inv (km_pages km) fl"
  then have "{p. p < nr_pgs km \<and> is_free (pgs km p)} = set fl" by (auto simp: mp_inv_def nr_pgs_def pgs_def)
  then show ?thesis using mp_inv_distinct [OF m] by (simp add: free_pages_def distinct_card)
qed

lemma free_pages_length: "kinv km X fl Q L D \<Longrightarrow> free_pages km = length fl"
  using free_pages_mp_inv kinvD(1) unfolding pages_ok_def by blast

lemma kaddr_nonzero: "p < 2 ^ 27 \<Longrightarrow> off < 4096 \<Longrightarrow> kaddr p off \<noteq> 0"
proof
  assume b: "p < 2 ^ 27" "off < 4096" and z: "kaddr p off = 0"
  have "KPTR_TO_PADDR (kaddr p off) = of_nat (4096 * p + off)" by simp
  moreover have "unat (KPTR_TO_PADDR 0) = 2 ^ 40" by (simp add: KPTR_TO_PADDR_def KERN_OFFSET_def)
  ultimately have "4096 * p + off = 2 ^ 40"
    using unat_frame [of p off] b z by simp
  then show False using b by simp
qed

lemma run_pages_used:
  assumes "kinv km X fl Q L D" and "big_ok X G" and "(p, n) \<in> G" and "j < n"
  shows "p + j < nr_pgs km" and "p + j \<notin> set fl" and "p + j \<in> dom X" and "p + j < 2 ^ 52"
proof -
  have "p + j \<in> {p..<p + n}" using assms(4) by simp
  then show d: "p + j \<in> dom X" using assms(2,3) unfolding big_ok_def by blast
  have po: "pages_ok km X fl" using kinvD(1) [OF assms(1)] .
  then show b: "p + j < nr_pgs km" using d by (auto simp: pages_ok_def)
  show "p + j \<notin> set fl" using po d by (auto simp: pages_ok_def)
  show "p + j < 2 ^ 52" using b po by (simp add: pages_ok_def)
qed

lemma run_block_addr:
  assumes "a \<in> block (run_block (p, n))"
  obtains j off where "j < n" and "off < 4096" and "a = kaddr (p + j) off"
proof -
  obtain o1 where o1: "o1 < 4096 * n" "a = kaddr p o1"
    using assms by (auto simp: block_def run_block_def kaddr_add)
  have "kaddr p o1 = kaddr (p + o1 div 4096) (o1 mod 4096)"
    by (simp add: kaddr_def algebra_simps flip: of_nat_add of_nat_mult)
  moreover have "o1 div 4096 < n" using o1(1) by (simp add: less_mult_imp_div_less mult.commute)
  ultimately show thesis using that [of "o1 div 4096" "o1 mod 4096"] o1(2) by simp
qed

lemma live_page:
  assumes "kinv km X fl Q L {}" and "x \<in> live (slab_view km Q L)" and "a \<in> block x"
  shows "\<exists>p off. a = kaddr p off \<and> p < 2 ^ 52 \<and> off < 4096 \<and> page_used km X fl p"
proof -
  obtain k s i where x: "(k, s, i) \<in> used_objs (slab_view km Q L)" "x = obj_block (slab_view km Q L) (k, s, i)"
    using assms(2) by (auto simp: live_def simp del: obj_block.simps)
  obtain p where p: "page_used km X fl p" "p < 2 ^ 52" "i \<in> slab_cap k" "x = (kaddr p (i * ObjSize k), ObjSize k)"
    using used_obj_page [OF assms(1) x(1)] x(2) by metis
  have "a \<in> kaddr p ` {i * ObjSize k..<i * ObjSize k + ObjSize k}"
    using block_kaddr [OF slab_cap_end [OF p(3)], of p] assms(3) p(4) by blast
  then show ?thesis using p slab_cap_end [OF p(3)] by fastforce
qed

text \<open>Blocks never overlap.\<close>

lemma heap_blocks_disjoint:
  assumes "heap_res R km B" and "b \<in> B" and "c \<in> B" and "b \<noteq> c"
  shows "block b \<inter> block c = {}"
proof -
  obtain X fl Q L G where h: "kinv km X fl Q L {}" "big_ok X G" "B = live (slab_view km Q L) \<union> run_block ` G" "reserved km X G R"
    using assms(1) by (auto simp: heap_res_def)
  have small_page: "\<exists>p off. a = kaddr p off \<and> p < 2 ^ 52 \<and> off < 4096 \<and> X p = None"
    if a: "a \<in> block x" "x \<in> live (slab_view km Q L)" for a x
    using live_page [OF h(1) a(2,1)] by (auto simp: page_used_def)
  have mixed: False if ax: "a \<in> block x" "x \<in> live (slab_view km Q L)" "a \<in> block (run_block (p, n))" "(p, n) \<in> G" for a x p n
  proof -
    obtain q off where q: "a = kaddr q off" "q < 2 ^ 52" "off < 4096" "X q = None" using small_page ax by blast
    obtain j off' where j: "j < n" "off' < 4096" "a = kaddr (p + j) off'" using run_block_addr ax by blast
    have "q = p + j" using kaddr_inj [of q off "p + j" off'] q j run_pages_used(4) [OF h(1,2) ax(4) j(1)] by auto
    then show False using q(4) run_pages_used(3) [OF h(1,2) ax(4) j(1)] by auto
  qed
  have both: False if ab: "a \<in> block (run_block g)" "a \<in> block (run_block g')" "g \<in> G" "g' \<in> G" "g \<noteq> g'" for a g g'
  proof -
    obtain p n q m where g: "g = (p, n)" "g' = (q, m)" by (metis surj_pair)
    obtain i off where i: "i < n" "off < 4096" "a = kaddr (p + i) off" using run_block_addr ab(1) g by blast
    obtain j off' where j: "j < m" "off' < 4096" "a = kaddr (q + j) off'" using run_block_addr ab(2) g by blast
    have "p + i = q + j"
      using kaddr_inj [of "p + i" off "q + j" off'] i j ab(3,4) g run_pages_used(4) [OF h(1,2)] by auto
    moreover have "{p..<p + n} \<inter> {q..<q + m} = {}"
      using h(2) ab(3-5) unfolding g big_ok_def by blast
    ultimately show False using i(1) j(1) by (metis IntI atLeastLessThan_iff empty_iff le_add1 nat_add_left_cancel_less)
  qed
  show ?thesis
  proof (rule ccontr)
    assume "block b \<inter> block c \<noteq> {}"
    then obtain a where a: "a \<in> block b" "a \<in> block c" by blast
    consider "b \<in> live (slab_view km Q L)" "c \<in> live (slab_view km Q L)"
      | g where "b \<in> live (slab_view km Q L)" "g \<in> G" "c = run_block g"
      | g where "c \<in> live (slab_view km Q L)" "g \<in> G" "b = run_block g"
      | g g' where "g \<in> G" "b = run_block g" "g' \<in> G" "c = run_block g'"
      using assms(2,3) h(3) by blast
    then show False
    proof cases
      case 1
      then obtain x y where "x \<in> used_objs (slab_view km Q L)" "y \<in> used_objs (slab_view km Q L)"
          "b = obj_block (slab_view km Q L) x" "c = obj_block (slab_view km Q L) y"
        unfolding live_def by blast
      then show False using used_objs_disjoint [OF h(1), of x y] a assms(4) by blast
    next
      case (2 g)
      then show False using mixed a by (cases g) blast
    next
      case (3 g)
      then show False using mixed a by (cases g) blast
    next
      case (4 g g')
      then show False using both a assms(4) by blast
    qed
  qed
qed

section \<open>Small objects\<close>

lemma live_size: "b \<in> live v \<Longrightarrow> snd b \<le> 2048"
  using ObjSize_le by (auto simp: live_def)

lemma run_size: "big_ok X G \<Longrightarrow> b \<in> run_block ` G \<Longrightarrow> 4096 \<le> snd b"
  by (auto simp: big_ok_def run_block_def)

lemma Cache_Allocate_heap:
  assumes "heap_res R km B" and "ctz_safe ctz0 (int (ObjSize k))" and "k \<noteq> meta_slab"
  shows "Cache_Allocate ctz0 (Global k) km = Inl NullDeref \<and> free_pages km \<le> 2 \<or>
    (\<exists>ptr km'. Cache_Allocate ctz0 (Global k) km = Inr (ptr, km') \<and> (ptr, ObjSize k) \<notin> B \<and>
      heap_res R km' (insert (ptr, ObjSize k) B))"
proof -
  let ?alloc = "Cache_Allocate ctz0 (Global k) km"
  have run: "?alloc = MemCache_Allocate (chunk_ops ctz0 k) (Global k) (ObjSize k) km" by (simp add: Cache_Allocate_def)
  obtain X fl Q L G where h: "kinv km X fl Q L {}" "big_ok X G" "B = live (slab_view km Q L) \<union> run_block ` G" "reserved km X G R"
    using assms(1) by (auto simp: heap_res_def)
  let ?v = "slab_view km Q L"
  consider (fail) "?alloc = Inl NullDeref" "length fl \<le> 2"
    | (ok) s m F i km' fl' Q' L' where "?alloc = Inr (m + of_nat (i * ObjSize k), km')"
        "kinv km' X fl' Q' L' {}" "i \<in> F" "?v k s = Some (m, F) \<or> ?v k s = None \<and> F = slab_cap k"
        "\<forall>j \<in> - {meta_slab}. slab_view km' Q' L' j = (?v(k := (?v k)(s \<mapsto> (m, F - {i})))) j"
    using slab_provider.Allocate_correct [OF base_slab_provider [OF assms(3,2)] h(1)] unfolding run by blast
  then show ?thesis
  proof cases
    case fail
    then show ?thesis using free_pages_length [OF h(1)] by simp
  next
    case (ok s m F i km' fl' Q' L')
    let ?b = "(m + of_nat (i * ObjSize k), ObjSize k)" and ?v' = "?v(k := (?v k)(s \<mapsto> (m, F - {i})))"
    have F: "F \<subseteq> slab_cap k"
      using ok(4) slab_free_bound [OF assms(3) kinv_base(3) [OF h(1) _ assms(3)], of s Q]
      by (auto simp: slab_view_def split: if_splits)
    note la = live_alloc [where v = ?v and s = s and m = m, OF assms(3) ok(4,3) F]
    have lv: "live (slab_view km' Q' L') = live ?v'" "used_objs (slab_view km' Q' L') = used_objs ?v'"
      using ok(5) by (auto intro!: live_cong simp: used_objs_def)
    have "?b \<notin> live ?v"
    proof
      assume "?b \<in> live ?v"
      then obtain x where x: "x \<in> used_objs ?v" "obj_block ?v x = ?b" by (auto simp: live_def simp del: obj_block.simps)
      have "obj_block (slab_view km' Q' L') x = ?b"
        using x ok(4,5) assms(3) by (cases x) (auto simp: used_objs_def)
      moreover have "obj_block (slab_view km' Q' L') (k, s, i) = ?b" using ok(5) assms(3) by simp
      moreover have "x \<in> used_objs ?v'" "(k, s, i) \<in> used_objs ?v'" using x(1) la(1) by simp_all
      ultimately have "x = (k, s, i)" using obj_block_inj [OF ok(2)] unfolding lv(2) inj_on_def by metis
      then show False using x(1) la(2) by simp
    qed
    moreover have "?b \<notin> run_block ` G" using run_size [OF h(2), of ?b] ObjSize_le [of k] by auto
    moreover have "heap_res R km' (insert ?b B)"
      unfolding heap_res_def using ok(2) h(2,3) lv(1) la(3) reserved_same_phys [OF h(4) Cache_Allocate_phys [OF ok(1)]]
      by (intro exI [of _ X] exI [of _ fl'] exI [of _ Q'] exI [of _ L'] exI [of _ G]) simp
    ultimately show ?thesis using ok(1) h(3) by blast
  qed
qed

lemma Free_small_heap:
  assumes "heap_res R km B" and "b \<in> B" and "snd b \<le> 2048"
  shows "\<exists>km'. Free ctz0 clz0 (fst b) km = Inr km' \<and> heap_res R km' (B - {b})"
proof -
  obtain X fl Q L G where h: "kinv km X fl Q L {}" "big_ok X G" "B = live (slab_view km Q L) \<union> run_block ` G" "reserved km X G R"
    using assms(1) by (auto simp: heap_res_def)
  let ?v = "slab_view km Q L"
  have nb: "b \<notin> run_block ` G" using run_size [OF h(2), of b] assms(3) by auto
  then obtain k s i where x: "(k, s, i) \<in> used_objs ?v" "b = obj_block ?v (k, s, i)"
    using assms(2) h(3) by (auto simp: live_def simp del: obj_block.simps)
  obtain p where p: "s \<in> L k" "page_used km X fl p" "p < 2 ^ 52" "i \<in> slab_cap k"
      "b = (kaddr p (i * ObjSize k), ObjSize k)" "slab_obj_size (pgs km p) = int (ObjSize k)"
    using used_obj_page [OF h(1) x(1)] x(2) by metis
  have k: "k \<noteq> meta_slab" and v: "?v k s = Some (slab_mem km k s, slab_free km Q k s)" and i: "i \<notin> slab_free km Q k s"
    using x(1) p(1) by (auto simp: used_objs_def slab_view_def)
  then have ptr: "fst b = slab_mem km k s + of_nat (i * ObjSize k)" using x(2) by simp
  have off: "i * ObjSize k < 4096" using slab_cap_offset [OF p(4)] .
  have "p < 2 ^ 27" using p(2) kinvD(1) [OF h(1)] by (simp add: page_used_def pages_ok_def)
  then have "fst b \<noteq> 0" using kaddr_nonzero off p(5) by simp
  then have run: "Free ctz0 clz0 (fst b) km = MemCache_Free (chunk_ops 64 k) (Global k) (ObjSize k) (fst b) km"
    using p page_at_kaddr [OF p(3) off] FitGlobalMemCache_ObjSize [OF k] ObjSize_le [of k]
    by (simp add: Free_def Let_def Cache_Free_def pgs_def MemCache_Free_ctz [of ctz0 _ _ _ _ _ 64] del: of_nat_add of_nat_mult)
  let ?r = "insert i (slab_free km Q k s) = slab_cap k \<and>
    max_pg (cache_stats km (Global k)) < slab_pg (cache_stats km (Global k))"
  let ?v' = "?v(k := (?v k)(s := (if ?r then None else Some (slab_mem km k s, insert i (slab_free km Q k s)))))"
  obtain km' fl' Q' L' where f: "Free ctz0 clz0 (fst b) km = Inr km'" "kinv km' X fl' Q' L' {}"
      "\<forall>j \<in> - {meta_slab}. slab_view km' Q' L' j = ?v' j"
    using slab_provider.Free_correct [OF tzcnt_provider [OF k] h(1) v p(4) i TrueI]
    unfolding run [unfolded ptr] ptr by blast
  have "live (slab_view km' Q' L') = live ?v'" using f(3) by (intro live_cong) blast
  also have "\<dots> = live ?v - {(slab_mem km k s + of_nat (i * ObjSize k), ObjSize k)}"
    by (rule live_free [where v = ?v and s = s, OF k v]) (use i p(4) obj_block_inj [OF h(1)] in auto)
  finally have "live (slab_view km' Q' L') = live ?v - {b}" using ptr p(5) by (cases b) simp
  then have "heap_res R km' (B - {b})"
    unfolding heap_res_def using f(2) h(2,3) nb reserved_same_phys [OF h(4) Free_phys [OF f(1)]]
    by (intro exI [of _ X] exI [of _ fl'] exI [of _ Q'] exI [of _ L'] exI [of _ G]) auto
  then show ?thesis using f(1) by blast
qed

section \<open>Runs of pages\<close>

lemma mp_inv_obj_size: "mp_inv (set_page mp i (\<lambda>p. p\<lparr>slab_obj_size := z\<rparr>)) fl = mp_inv mp fl"
proof -
  have "links (set_page mp i (\<lambda>p. p\<lparr>slab_obj_size := z\<rparr>)) = links mp" by (rule ext) (auto simp: links_def)
  then show ?thesis by (auto simp: mp_inv_def page_list_def)
qed

lemma kinv_take_run:
  fixes z :: int
  assumes "kinv km X fl Q L D" and "R \<subseteq> set fl" and "mp_inv mp fl'" and "set fl' = set fl - R"
    and "same_meta (km_pages km) mp" and "x \<in> R"
  defines "km' \<equiv> km\<lparr>km_pages := set_page mp x (\<lambda>p. p\<lparr>slab_obj_size := z\<rparr>)\<rparr>"
  defines "X' \<equiv> (\<lambda>q. if q \<in> R then Some (slab_obj_size (pgs km' q)) else X q)"
  shows "kinv km' X' fl' Q L D" and "slab_view km' Q L = slab_view km Q L"
proof -
  note sm = same_metaD [OF assms(5)]
  have po: "pages_ok km X fl" using kinvD(1) [OF assms(1)] .
  have nr: "nr_pgs km' = nr_pgs km" using sm(1) by (simp add: nr_pgs_def km'_def)
  have pg: "phyaddr (pgs km' p) = phyaddr (pgs km p)" "slab_ptr (pgs km' p) = slab_ptr (pgs km p)"
      "p \<noteq> x \<Longrightarrow> slab_obj_size (pgs km' p) = slab_obj_size (pgs km p)" for p
    using sm by (auto simp: pgs_def km'_def)
  have R: "p < nr_pgs km \<and> phyaddr (pgs km p) = of_nat (4096 * p) \<and> X p = None" if "p \<in> R" for p
    using that assms(2) po by (auto simp: pages_ok_def mp_inv_def nr_pgs_def)
  have X: "p < nr_pgs km \<and> phyaddr (pgs km p) = of_nat (4096 * p) \<and> slab_obj_size (pgs km p) = v \<and> p \<notin> R"
    if "X p = Some v" for p v using that R po by (force simp: pages_ok_def)
  have "pages_ok km' X' fl'"
    unfolding pages_ok_def nr pg(1)
  proof (intro conjI ballI allI impI)
    show "mp_inv (km_pages km') fl'" using assms(3) mp_inv_obj_size by (simp add: km'_def)
    show "nr_pgs km \<le> 2 ^ 27" using po by (simp add: pages_ok_def)
  next
    fix p assume "p \<in> set fl'"
    then show "phyaddr (pgs km p) = of_nat (4096 * p)" "X' p = None"
      using assms(4) po by (auto simp: pages_ok_def X'_def)
  next
    fix p v assume v: "X' p = Some v"
    then show "p < nr_pgs km" "phyaddr (pgs km p) = of_nat (4096 * p)"
      using R X by (auto simp: X'_def split: if_splits)
    show "slab_obj_size (pgs km' p) = v"
    proof (cases "p \<in> R")
      case True
      then show ?thesis using v by (simp add: X'_def)
    next
      case False
      then have "X p = Some v" using v by (simp add: X'_def)
      then show ?thesis using X [of p v] pg(3) [of p] assms(6) by auto
    qed
  qed
  moreover have "page_used km' X' fl' p \<and> slab_ptr (pgs km' p) = slab_ptr (pgs km p) \<and>
      slab_obj_size (pgs km' p) = slab_obj_size (pgs km p)" if "page_used km X fl p" for p
    using that pg [of p] nr assms(2,4,6) by (auto simp: page_used_def X'_def)
  ultimately show "kinv km' X' fl' Q L D" "slab_view km' Q L = slab_view km Q L"
    using kinv_pages [OF assms(1), of km' X' fl'] by (simp_all add: km'_def)
qed

lemma kinv_give_run:
  assumes "kinv km X fl Q L D" and "R \<subseteq> dom X" and "mp_inv mp fl'" and "set fl' = R \<union> set fl"
    and "same_meta (km_pages km) mp"
  shows "kinv (km\<lparr>km_pages := mp\<rparr>) (X |` (- R)) fl' Q L D" and "slab_view (km\<lparr>km_pages := mp\<rparr>) Q L = slab_view km Q L"
proof -
  let ?km = "km\<lparr>km_pages := mp\<rparr>" and ?X = "X |` (- R)"
  note sm = same_metaD [OF assms(5)]
  have po: "pages_ok km X fl" using kinvD(1) [OF assms(1)] .
  have nr: "nr_pgs ?km = nr_pgs km" using sm(1) by (simp add: nr_pgs_def)
  have pg: "phyaddr (pgs ?km p) = phyaddr (pgs km p)" "slab_ptr (pgs ?km p) = slab_ptr (pgs km p)"
      "slab_obj_size (pgs ?km p) = slab_obj_size (pgs km p)" for p
    using sm by (auto simp: pgs_def)
  have "pages_ok ?km ?X fl'"
    using po assms(2-4) unfolding pages_ok_def nr pg by (force simp: restrict_map_def)
  moreover have "page_used ?km ?X fl' p \<and> slab_ptr (pgs ?km p) = slab_ptr (pgs km p) \<and>
      slab_obj_size (pgs ?km p) = slab_obj_size (pgs km p)" if "page_used km X fl p" for p
    using that assms(2,4) unfolding page_used_def nr pg by (auto simp: restrict_map_def)
  ultimately show "kinv ?km ?X fl' Q L D" "slab_view ?km Q L = slab_view km Q L"
    using kinv_pages [OF assms(1), of ?km ?X fl'] by simp_all
qed

lemma AllocPages_outcome:
  assumes "mp_inv mp fl" and "1 \<le> n" and "n \<le> unat (nr_page_structs mp)"
  shows "AllocPages mp (int n) = Inr (NullPage, mp) \<and>
      (if n = 1 then length fl \<le> 1 else \<forall>s. \<not> free_pages_at mp n s) \<or>
    (\<exists>x mp' fl'. AllocPages mp (int n) = Inr (PageAt x, mp') \<and> {x..<x + n} \<subseteq> set fl \<and> mp_inv mp' fl' \<and>
       set fl' = set fl - {x..<x + n} \<and> same_meta mp mp')"
proof (cases "n = 1")
  case True
  then have a: "AllocPages mp (int n) = AllocPage mp" by (simp add: AllocPages_def)
  show ?thesis
  proof (cases "length fl \<le> 1")
    case True
    then show ?thesis using AllocPage_short [OF assms(1)] a \<open>n = 1\<close> by simp
  next
    case False
    then obtain x y r where fl: "fl = x # y # r" using two_pages by blast
    then obtain mp' where "AllocPage mp = Inr (PageAt x, mp')" "mp_inv mp' (y # r)" "same_meta mp mp'"
      using AllocPage_inv assms(1) by metis
    moreover have "set (y # r) = set fl - {x..<x + n}" using fl mp_inv_distinct [OF assms(1)] True by auto
    ultimately show ?thesis using a fl True by (intro disjI2 exI [of _ x] exI [of _ mp'] exI [of _ "y # r"]) simp
  qed
next
  case False
  then have n: "2 \<le> n" using assms(2) by simp
  show ?thesis
  proof (cases "\<exists>s. free_pages_at mp n s")
    case True
    then obtain x mp' where "AllocPages mp (int n) = Inr (PageAt x, mp')" "free_pages_at mp n x"
        "mp_inv mp' (filter (\<lambda>i. i \<notin> {x..<x + n}) fl)" "same_meta mp mp'"
      using AllocPages_inv [OF assms(1) n assms(3)] by metis
    moreover have "{x..<x + n} \<subseteq> set fl" using \<open>free_pages_at mp n x\<close> mp_inv_free_iff [OF assms(1)] by blast
    ultimately show ?thesis
      by (intro disjI2 exI [of _ x] exI [of _ mp'] exI [of _ "filter (\<lambda>i. i \<notin> {x..<x + n}) fl"]) auto
  next
    case False
    then show ?thesis using AllocPages_none [OF n assms(3)] \<open>n \<noteq> 1\<close> by simp
  qed
qed

definition nr_page_of :: "int \<Rightarrow> nat" where
  "nr_page_of sz = nat ((sz - 1) div 4096 + 1)"

lemma Alloc_large_heap:
  assumes "heap_res R km B" and "2048 < sz" and "sz \<le> 2 ^ 31 - 4096" and "nr_page_of sz \<le> nr_pgs km"
  defines "n \<equiv> nr_page_of sz"
  shows "Alloc ctz0 clz0 sz km = Inl NullDeref \<and>
      (if n = 1 then free_pages km \<le> 1 else \<forall>s. \<not> free_pages_at (km_pages km) n s) \<or>
    (\<exists>ptr km'. Alloc ctz0 clz0 sz km = Inr (ptr, km') \<and> (ptr, 4096 * n) \<notin> B \<and> heap_res R km' (insert (ptr, 4096 * n) B))"
proof -
  obtain X fl Q L G where h: "kinv km X fl Q L {}" "big_ok X G" "B = live (slab_view km Q L) \<union> run_block ` G" "reserved km X G R"
    using assms(1) by (auto simp: heap_res_def)
  have po: "pages_ok km X fl" using kinvD(1) [OF h(1)] .
  then have mi: "mp_inv (km_pages km) fl" by (simp add: pages_ok_def)
  have np: "(sz - 1) div 4096 + 1 = int n" "1 \<le> n" using assms(2) by (auto simp: n_def nr_page_of_def)
  have "int n * 4096 < 2 ^ 31" using assms(3) np(1) by linarith
  then have i: "i32 (int n * 4096) = int (4096 * n)" by (simp add: i32_def)
  let ?wr = "\<lambda>p. p\<lparr>slab_obj_size := int (4096 * n)\<rparr>"
  have al: "Alloc ctz0 clz0 sz km = ebind (AllocPages (km_pages km) (int n)) (\<lambda>(pg, mp).
      ebind (wr_page mp pg ?wr) (\<lambda>mp1. ebind (rd_page mp1 pg) (\<lambda>p. Inr (PADDR_TO_KPTR (phyaddr p), km\<lparr>km_pages := mp1\<rparr>))))"
    using assms(2) by (simp add: Alloc_def np(1) i Let_def)
  consider (fail) "AllocPages (km_pages km) (int n) = Inr (NullPage, km_pages km)"
        "if n = 1 then length fl \<le> 1 else \<forall>s. \<not> free_pages_at (km_pages km) n s"
    | (ok) x mp fl' where "AllocPages (km_pages km) (int n) = Inr (PageAt x, mp)" "{x..<x + n} \<subseteq> set fl" "mp_inv mp fl'"
        "set fl' = set fl - {x..<x + n}" "same_meta (km_pages km) mp"
    using AllocPages_outcome [OF mi np(2)] assms(4) unfolding n_def nr_pgs_def by blast
  then show ?thesis
  proof cases
    case fail
    then show ?thesis using al free_pages_length [OF h(1)] by (simp split: if_splits)
  next
    case (ok x mp fl')
    let ?R = "{x..<x + n}" and ?km = "km\<lparr>km_pages := set_page mp x ?wr\<rparr>"
    let ?X = "\<lambda>q. if q \<in> ?R then Some (slab_obj_size (pgs ?km q)) else X q"
    have xR: "x \<in> ?R" using np(2) by simp
    then have xfl: "x \<in> set fl" using ok(2) by blast
    note tr = kinv_take_run [OF h(1) ok(2-5) xR, of "int (4096 * n)"]
    have "phyaddr (pgs km x) = of_nat (4096 * x)" using po xfl by (auto simp: pages_ok_def)
    then have ph: "phyaddr (page_structs mp x) = of_nat (4096 * x)" using same_metaD(2) [OF ok(5)] by (simp add: pgs_def)
    have res: "Alloc ctz0 clz0 sz km = Inr (kaddr x 0, ?km)"
      using al ok(1) ph PADDR_frame [of x] by simp
    have dis: "{p..<p + m} \<inter> ?R = {}" if "(p, m) \<in> G" for p m
    proof -
      have "q \<notin> set fl" if "q \<in> {p..<p + m}" for q
      proof -
        have "q - p < m" "p + (q - p) = q" using that by auto
        then show ?thesis using run_pages_used(2) [OF h(1,2) \<open>(p, m) \<in> G\<close>, of "q - p"] by simp
      qed
      then show ?thesis using ok(2) by blast
    qed
    have bo: "big_ok ?X (insert (x, n) G)"
      unfolding big_ok_def
    proof (intro conjI ballI)
      fix g assume g: "g \<in> insert (x, n) G"
      show "case g of (p, m) \<Rightarrow> 1 \<le> m \<and> ?X p = Some (int (4096 * m)) \<and> {p..<p + m} \<subseteq> dom ?X"
      proof (cases "g = (x, n)")
        case True
        then show ?thesis using np(2) by (auto simp: pgs_def)
      next
        case False
        then obtain p m where pm: "g = (p, m)" "(p, m) \<in> G" using g by (cases g) auto
        then have "1 \<le> m" "X p = Some (int (4096 * m))" "{p..<p + m} \<subseteq> dom X" "p \<notin> ?R"
          using h(2) dis [OF pm(2)] unfolding big_ok_def by auto
        then show ?thesis unfolding pm(1) by auto
      qed
    next
      fix g assume g: "g \<in> insert (x, n) G"
      have "{p..<p + a} \<inter> {q..<q + m} = {}"
        if "(p, a) \<in> insert (x, n) G" "(q, m) \<in> insert (x, n) G" "(p, a) \<noteq> (q, m)" for p a q m
        using that dis [of p a] dis [of q m] h(2) unfolding big_ok_def by blast
      with g show "case g of (p, a) \<Rightarrow> \<forall>(q, m) \<in> insert (x, n) G. (p, a) \<noteq> (q, m) \<longrightarrow> {p..<p + a} \<inter> {q..<q + m} = {}"
        by blast
    qed
    have "(kaddr x 0, 4096 * n) \<notin> B"
    proof
      assume "(kaddr x 0, 4096 * n) \<in> B"
      then have "(kaddr x 0, 4096 * n) \<in> run_block ` G" using h(3) live_size [of "(kaddr x 0, 4096 * n)"] np(2) by auto
      then obtain p where p: "(p, n) \<in> G" "kaddr x 0 = kaddr p 0" by (auto simp: run_block_def)
      have "x < 2 ^ 52" using po xfl mi by (auto simp: pages_ok_def mp_inv_def nr_pgs_def)
      then have "x = p" using p kaddr_inj [of x 0 p 0] run_pages_used(4) [OF h(1,2) p(1), of 0] np(2) by simp
      then show False using dis [OF p(1)] xR by blast
    qed
    moreover have "same_phys (km_pages km) (km_pages ?km)" using Alloc_phys [OF res] .
    then have "reserved ?km X G R" by (rule reserved_same_phys [OF h(4)])
    then have "reserved ?km ?X (insert (x, n) G) R"
      using po ok(2) unfolding reserved_def pages_ok_def by fastforce
    then have "heap_res R ?km (insert (kaddr x 0, 4096 * n) B)"
      unfolding heap_res_def using tr bo h(3)
      by (intro exI [of _ ?X] exI [of _ fl'] exI [of _ Q] exI [of _ L] exI [of _ "insert (x, n) G"]) (simp add: run_block_def)
    ultimately show ?thesis using res by blast
  qed
qed

lemma Free_large_heap:
  assumes "heap_res R km B" and "b \<in> B" and "2048 < snd b"
  shows "\<exists>km'. Free ctz0 clz0 (fst b) km = Inr km' \<and> heap_res R km' (B - {b})"
proof -
  obtain X fl Q L G where h: "kinv km X fl Q L {}" "big_ok X G" "B = live (slab_view km Q L) \<union> run_block ` G" "reserved km X G R"
    using assms(1) by (auto simp: heap_res_def)
  have nl: "b \<notin> live (slab_view km Q L)" using live_size [of b] assms(3) by auto
  then obtain x n where g: "(x, n) \<in> G" "b = (kaddr x 0, 4096 * n)"
    using assms(2) h(3) by (auto simp: run_block_def)
  let ?R = "{x..<x + n}"
  have n1: "1 \<le> n" and Xx: "X x = Some (int (4096 * n))" and R: "?R \<subseteq> dom X"
    using h(2) g(1) unfolding big_ok_def by auto
  have po: "pages_ok km X fl" using kinvD(1) [OF h(1)] .
  then have mi: "mp_inv (km_pages km) fl" and sz: "slab_obj_size (pgs km x) = int (4096 * n)"
    and "x < nr_pgs km" "nr_pgs km \<le> 2 ^ 27" using Xx by (auto simp: pages_ok_def)
  then have x: "x < 2 ^ 27" "x < 2 ^ 52" by simp_all
  have "x + n \<le> unat (nr_page_structs (km_pages km))"
    using run_pages_used(1) [OF h(1,2) g(1), of "n - 1"] n1 by (simp add: nr_pgs_def)
  moreover have "?R \<inter> set fl = {}" using po R by (auto simp: pages_ok_def)
  ultimately obtain mp where mp: "FreePages (km_pages km) (PageAt x) (int n) = Inr mp"
      "mp_inv mp (rev [x..<x + n] @ fl)" "same_meta (km_pages km) mp"
    using FreePages_inv [OF mi _ _ n1] by metis
  have fl': "set (rev [x..<x + n] @ fl) = ?R \<union> set fl" by auto
  note gr = kinv_give_run [OF h(1) R mp(2) fl' mp(3)]
  have "page_at (KPTR_TO_PADDR (fst b)) = PageAt x" using page_at_kaddr [OF x(2), of 0] g(2) by simp
  moreover have "fst b \<noteq> 0" using kaddr_nonzero [OF x(1), of 0] g(2) by simp
  moreover have "int (4096 * n) sdiv 4096 = int n" using n1 by (simp add: signed_divide_int_def sgn_if)
  ultimately have res: "Free ctz0 clz0 (fst b) km = Inr (km\<lparr>km_pages := mp\<rparr>)"
    using mp(1) sz assms(3) g(2) by (simp add: Free_def Let_def pgs_def)
  have dis: "{p..<p + m} \<inter> ?R = {}" if "(p, m) \<in> G - {(x, n)}" for p m
    using that g(1) h(2) unfolding big_ok_def by blast
  have bo: "big_ok (X |` (- ?R)) (G - {(x, n)})"
    unfolding big_ok_def
  proof (intro conjI ballI)
    fix y assume y: "y \<in> G - {(x, n)}"
    obtain p m where pm: "y = (p, m)" by fastforce
    then have "1 \<le> m" "X p = Some (int (4096 * m))" "{p..<p + m} \<subseteq> dom X" "{p..<p + m} \<inter> ?R = {}"
      using h(2) y dis [of p m] unfolding big_ok_def by auto
    then show "case y of (p, m) \<Rightarrow> 1 \<le> m \<and> (X |` (- ?R)) p = Some (int (4096 * m)) \<and> {p..<p + m} \<subseteq> dom (X |` (- ?R))"
      unfolding pm by (auto simp: restrict_map_def disjoint_iff)
  next
    fix y assume "y \<in> G - {(x, n)}"
    then show "case y of (p, a) \<Rightarrow> \<forall>(q, m) \<in> G - {(x, n)}. (p, a) \<noteq> (q, m) \<longrightarrow> {p..<p + a} \<inter> {q..<q + m} = {}"
      using h(2) unfolding big_ok_def by blast
  qed
  have "run_block (p, m) \<noteq> b" if "(p, m) \<in> G - {(x, n)}" for p m
    using that g(2) kaddr_inj [of p 0 x 0] run_pages_used(4) [OF h(1,2), of p m 0] x(2) h(2)
    by (auto simp: run_block_def big_ok_def)
  then have "run_block y \<noteq> b" if "y \<in> G - {(x, n)}" for y using that by (cases y) blast
  moreover have "run_block (x, n) = b" using g(2) by (simp add: run_block_def)
  ultimately have "run_block ` (G - {(x, n)}) = run_block ` G - {b}" using g(1) by blast
  moreover have "reserved (km\<lparr>km_pages := mp\<rparr>) (X |` (- ?R)) (G - {(x, n)}) R"
    using reserved_same_phys [OF h(4) Free_phys [OF res]] g(1) unfolding reserved_def by (fastforce simp: restrict_map_def dom_def)
  ultimately have "heap_res R (km\<lparr>km_pages := mp\<rparr>) (B - {b})"
    unfolding heap_res_def using gr bo h(3) nl
    by (intro exI [of _ "X |` (- ?R)"] exI [of _ "rev [x..<x + n] @ fl"] exI [of _ Q] exI [of _ L] exI [of _ "G - {(x, n)}"]) auto
  then show ?thesis using res by blast
qed

section \<open>Start-up\<close>

definition init_chunks :: "chunk list" where
  "init_chunks = [meta_slab, chunk16, chunk32, chunk64, chunk128, chunk256, chunk512, chunk1024, chunk2048]"

lemma init_chunks_all: "set init_chunks = UNIV" "distinct init_chunks"
  using chunk.exhaust by (auto simp: init_chunks_def)

lemma MemCacheBase_forest:
  assumes "forest (km_nodes km) H (\<lambda>_. [])" and "cache_queues k \<inter> H = {}"
  shows "forest (km_nodes (MemCacheBase (Global k) km)) (cache_queues k \<union> H) (\<lambda>_. [])"
proof -
  have step: "forest (InitHead h a) (insert a H') (\<lambda>_. [])" if "forest h H' (\<lambda>_. [])" "a \<notin> H'"
    for h :: "node_ptr node_heap" and a H'
    using forest_InitHead [OF that(1), of a] that(2) by (auto simp: ring_def fun_upd_idem)
  have "forest (InitHead (InitHead (InitHead (km_nodes km) (QFull (Global k))) (QHalf (Global k))) (QEmpty (Global k)))
      (insert (QEmpty (Global k)) (insert (QHalf (Global k)) (insert (QFull (Global k)) H))) (\<lambda>_. [])"
    using assms by (intro step) (auto simp: cache_queues_def)
  moreover have "insert (QEmpty (Global k)) (insert (QHalf (Global k)) (insert (QFull (Global k)) H)) = cache_queues k \<union> H"
    by (auto simp: cache_queues_def)
  ultimately show ?thesis by (simp add: MemCacheBase_def)
qed

lemma MemCacheBase_same: "same_slabs km (MemCacheBase c km)"
  by (simp add: MemCacheBase_def same_slabs_def)

lemma InitSlab_forest:
  assumes "distinct ks" and "\<forall>k \<in> set ks. cache_queues k \<inter> H = {}" and "forest (km_nodes km) H (\<lambda>_. [])"
  shows "forest (km_nodes (fold (\<lambda>k. MemCacheBase (Global k)) ks km)) ((\<Union>k \<in> set ks. cache_queues k) \<union> H) (\<lambda>_. []) \<and>
    same_slabs km (fold (\<lambda>k. MemCacheBase (Global k)) ks km)"
  using assms
proof (induction ks arbitrary: km H)
  case Nil
  then show ?case by (simp add: same_slabs_def)
next
  case (Cons k ks)
  let ?km = "MemCacheBase (Global k) km" and ?H = "cache_queues k \<union> H"
  have "forest (km_nodes ?km) ?H (\<lambda>_. [])" using MemCacheBase_forest Cons.prems by simp
  moreover have "\<forall>j \<in> set ks. cache_queues j \<inter> ?H = {}" using Cons.prems by (auto simp: cache_queues_def)
  ultimately have "forest (km_nodes (fold (\<lambda>k. MemCacheBase (Global k)) ks ?km)) ((\<Union>k \<in> set ks. cache_queues k) \<union> ?H) (\<lambda>_. []) \<and>
      same_slabs ?km (fold (\<lambda>k. MemCacheBase (Global k)) ks ?km)"
    using Cons.IH [of ?H ?km] Cons.prems(1) by simp
  moreover have "(\<Union>j \<in> set (k # ks). cache_queues j) \<union> H = (\<Union>j \<in> set ks. cache_queues j) \<union> ?H" by auto
  ultimately show ?case using MemCacheBase_same [of km "Global k"] by (simp add: same_slabs_def)
qed

lemma InitSlab_kinv_outside:
  assumes "mp_inv (km_pages km) fl" and "unat (nr_page_structs (km_pages km)) \<le> 2 ^ 27"
    and "phys_ok (km_pages km) (set fl)"
    and "\<And>p z. X p = Some z \<Longrightarrow> p < nr_pgs km \<and> phyaddr (pgs km p) = of_nat (4096 * p) \<and> slab_obj_size (pgs km p) = z \<and> p \<notin> set fl"
  shows "kinv (InitSlab km) X fl (\<lambda>_. []) (\<lambda>_. {}) {}"
proof -
  have hd: "heads {} = (\<Union>k \<in> set init_chunks. cache_queues k)"
    unfolding init_chunks_all by (auto simp: heads_def cache_queues_def)
  have f0: "forest (km_nodes km) {} (\<lambda>_. [])" by (simp add: forest_def)
  have f: "forest (km_nodes (InitSlab km)) (heads {}) (\<lambda>_. [])" "same_slabs km (InitSlab km)"
    using InitSlab_forest [OF init_chunks_all(2) _ f0] unfolding hd InitSlab_def init_chunks_def [symmetric] by simp_all
  have "X p = None" if "p \<in> set fl" for p using assms(4) [of p] that by (cases "X p") auto
  then have "pages_ok km X fl"
    using assms by (auto simp: pages_ok_def nr_pgs_def pgs_def phys_ok_def)
  then have "pages_ok (InitSlab km) X fl" using pages_ok_cong [OF f(2)] by simp
  then show ?thesis using f(1) by (simp add: kinv_def queues_ok_def)
qed

lemma InitSlab_kinv:
  assumes "mp_inv (km_pages km) fl" and "unat (nr_page_structs (km_pages km)) \<le> 2 ^ 27"
    and "phys_ok (km_pages km) (set fl)"
  shows "kinv (InitSlab km) Map.empty fl (\<lambda>_. []) (\<lambda>_. {}) {}"
  using InitSlab_kinv_outside [OF assms, of Map.empty] by simp

lemma InitSlab_heap_res:
  assumes "mp_inv (km_pages km) fl" and "unat (nr_page_structs (km_pages km)) \<le> 2 ^ 27"
    and "phys_ok (km_pages km) (set fl)" and "R \<inter> set fl = {}"
  shows "heap_res R (InitSlab km) {}"
proof -
  define X where "X = (\<lambda>p. if p \<in> R \<and> p < nr_pgs km \<and> phyaddr (pgs km p) = of_nat (4096 * p) then Some (slab_obj_size (pgs km p)) else None)"
  have "km_pages (InitSlab km) = km_pages km" by (simp add: InitSlab_def MemCacheBase_def)
  then have "reserved (InitSlab km) X {} R" by (simp add: reserved_def X_def nr_pgs_def pgs_def dom_def)
  moreover have "kinv (InitSlab km) X fl (\<lambda>_. []) (\<lambda>_. {}) {}"
    by (rule InitSlab_kinv_outside [OF assms(1-3)]) (use assms(4) in \<open>auto simp: X_def split: if_splits\<close>)
  ultimately show ?thesis
    unfolding heap_res_def
    by (intro exI [of _ X] exI [of _ fl] exI [of _ "\<lambda>_. []"] exI [of _ "\<lambda>_. {}"] exI [of _ "{}"])
      (auto simp: big_ok_def live_def used_objs_def slab_view_def)
qed

lemmas InitSlab_heap_ok = InitSlab_heap_res [where R = "{}", OF _ _ _ Int_empty_left]

section \<open>Histories\<close>

text \<open>The size of the block a request gets: the least size class, or whole pages.\<close>

definition block_size :: "int \<Rightarrow> nat" where
  "block_size sz = (if 2048 < sz then 4096 * nr_page_of sz
     else hd (filter (\<lambda>n. sz \<le> int n) [16, 32, 64, 128, 256, 512, 1024, 2048]))"

lemma block_size_small:
  assumes "2 \<le> sz" and "sz \<le> 2048"
  shows "\<exists>k. FitGlobalMemCache clz0 sz = Inr (Global k) \<and> k \<noteq> meta_slab \<and> block_size sz = ObjSize k \<and> sz \<le> int (ObjSize k)"
proof -
  obtain k where k: "FitGlobalMemCache clz0 sz = Inr (Global k)" "k \<noteq> meta_slab" "sz \<le> int (ObjSize k)"
      "\<forall>j. j \<noteq> meta_slab \<longrightarrow> sz \<le> int (ObjSize j) \<longrightarrow> ObjSize k \<le> ObjSize j"
    using FitGlobalMemCache_fits [OF assms] by blast
  have "block_size sz = ObjSize k"
    using k(2,3) k(4) [rule_format, of chunk16] k(4) [rule_format, of chunk32] k(4) [rule_format, of chunk64]
      k(4) [rule_format, of chunk128] k(4) [rule_format, of chunk256] k(4) [rule_format, of chunk512]
      k(4) [rule_format, of chunk1024] k(4) [rule_format, of chunk2048] assms
    unfolding block_size_def by (cases k) (auto split: if_splits)
  with k show ?thesis by blast
qed

text \<open>A size \<^verbatim>\<open>Alloc\<close> is specified for: at least 2, and no larger than the page array and an \<^verbatim>\<open>int\<close> allow.\<close>

definition size_ok :: "kmem \<Rightarrow> int \<Rightarrow> bool" where
  "size_ok km sz \<longleftrightarrow> 2 \<le> sz \<and> sz \<le> 2 ^ 31 - 4096 \<and> (2048 < sz \<longrightarrow> nr_page_of sz \<le> nr_pgs km)"

lemma Alloc_small_run:
  assumes "2 \<le> sz" and "sz \<le> 2048"
  obtains k where "k \<noteq> meta_slab" and "block_size sz = ObjSize k"
    and "Alloc ctz0 clz0 sz km = Cache_Allocate ctz0 (Global k) km" and "sz \<le> int (ObjSize k)"
  using block_size_small [OF assms, of clz0] assms that by (auto simp: Alloc_def)

text \<open>
  When a request may fail: at most two pages are free, for an object (one for a meta slab, one for the data, and the last free page is never
  handed out); at most one, for a single page; or there is no run of that many free pages.
\<close>

definition no_room :: "kmem \<Rightarrow> int \<Rightarrow> bool" where
  "no_room km sz \<longleftrightarrow> (if sz \<le> 2048 then free_pages km \<le> 2 else if nr_page_of sz = 1 then free_pages km \<le> 1
     else \<forall>s. \<not> free_pages_at (km_pages km) (nr_page_of sz) s)"

lemma Alloc_heap:
  assumes "heap_res R km B" and "ctz_safe ctz0 sz" and "size_ok km sz"
  shows "Alloc ctz0 clz0 sz km = Inl NullDeref \<and> no_room km sz \<or>
    (\<exists>ptr km'. Alloc ctz0 clz0 sz km = Inr (ptr, km') \<and> (ptr, block_size sz) \<notin> B \<and>
      heap_res R km' (insert (ptr, block_size sz) B))"
proof (cases "2048 < sz")
  case True
  then show ?thesis
    using Alloc_large_heap [OF assms(1) True, of ctz0 clz0] assms(3) by (auto simp: size_ok_def block_size_def no_room_def split: if_splits)
next
  case False
  then obtain k where k: "k \<noteq> meta_slab" "block_size sz = ObjSize k"
      "Alloc ctz0 clz0 sz km = Cache_Allocate ctz0 (Global k) km" "sz \<le> int (ObjSize k)"
    using Alloc_small_run [of sz ctz0 clz0 km] assms(3) by (auto simp: size_ok_def)
  show ?thesis using Cache_Allocate_heap [OF assms(1) ctz_safe_mono [OF assms(2) k(4)] k(1)] k(2,3) False by (auto simp: no_room_def)
qed

text \<open>No block overlaps a reserved page.\<close>

lemma heap_res_block:
  assumes "heap_res R km B" and "b \<in> B" and "a \<in> block b" and "p \<in> R" and "p < 2 ^ 52" and "off < 4096"
  shows "a \<noteq> kaddr p off"
proof
  assume e: "a = kaddr p off"
  obtain X fl Q L G where h: "kinv km X fl Q L {}" "big_ok X G" "B = live (slab_view km Q L) \<union> run_block ` G" "reserved km X G R"
    using assms(1) by (auto simp: heap_res_def)
  show False
  proof (cases "b \<in> live (slab_view km Q L)")
    case True
    then obtain q off' where q: "a = kaddr q off'" "q < 2 ^ 52" "off' < 4096" "page_used km X fl q" using live_page [OF h(1) True assms(3)] by blast
    then have "q = p" using e assms(5,6) kaddr_inj [of q off' p off] by simp
    then show False using q(4) h(4) assms(4) by (auto simp: page_used_def reserved_def)
  next
    case False
    then obtain q n where g: "(q, n) \<in> G" "b = run_block (q, n)" using h(3) assms(2) by auto
    then obtain j off' where j: "j < n" "off' < 4096" "a = kaddr (q + j) off'" using run_block_addr assms(3) by metis
    note u = run_pages_used [OF h(1,2) g(1) j(1)]
    have pq: "q + j = p" using e j u(4) assms(5,6) kaddr_inj [of "q + j" off' p off] by simp
    then have "phyaddr (pgs km p) = of_nat (4096 * p)" "p < nr_pgs km" using u(1,3) kinvD(1) [OF h(1)] by (auto simp: pages_ok_def)
    then have "\<forall>(q, n) \<in> G. p \<notin> {q..<q + n}" using h(4) assms(4) unfolding reserved_def by blast
    then show False using g(1) j(1) pq by fastforce
  qed
qed

lemma heap_nonzero:
  assumes "heap_res R km B" and "b \<in> B"
  shows "fst b \<noteq> 0"
proof -
  obtain X fl Q L G where h: "kinv km X fl Q L {}" "big_ok X G" "B = live (slab_view km Q L) \<union> run_block ` G"
    using assms(1) by (auto simp: heap_res_def)
  have nr: "nr_pgs km \<le> 2 ^ 27" using kinvD(1) [OF h(1)] by (simp add: pages_ok_def)
  show ?thesis
  proof (cases "b \<in> live (slab_view km Q L)")
    case True
    then obtain k t i where x: "(k, t, i) \<in> used_objs (slab_view km Q L)" "b = obj_block (slab_view km Q L) (k, t, i)"
      by (auto simp: live_def simp del: obj_block.simps)
    obtain p where p: "page_used km X fl p" "i \<in> slab_cap k" "b = (kaddr p (i * ObjSize k), ObjSize k)"
      using used_obj_page [OF h(1) x(1)] x(2) by metis
    then have "p < 2 ^ 27" using nr by (simp add: page_used_def)
    then show ?thesis using kaddr_nonzero slab_cap_offset [OF p(2)] p(3) by simp
  next
    case False
    then obtain q n where g: "(q, n) \<in> G" "b = run_block (q, n)" using h(3) assms(2) by auto
    then have "0 < n" using h(2) by (auto simp: big_ok_def)
    then have "q < 2 ^ 27" using run_pages_used(1) [OF h(1,2) g(1), of 0] nr by simp
    then show ?thesis using kaddr_nonzero [of q 0] g(2) by (simp add: run_block_def)
  qed
qed

lemma Free_heap:
  assumes "heap_res R km B" and "b \<in> B"
  shows "\<exists>km'. Free ctz0 clz0 (fst b) km = Inr km' \<and> heap_res R km' (B - {b})"
  using Free_small_heap [OF assms] Free_large_heap [OF assms] by (cases "snd b \<le> 2048") auto

text \<open>How many pages a small request takes, and that freeing takes none.\<close>

lemma Alloc_small_pages:
  assumes "heap_res R km B" and "ctz_safe ctz0 sz" and "2 \<le> sz" and "sz \<le> 2048"
  shows "Alloc ctz0 clz0 sz km = Inl e \<Longrightarrow> free_pages km \<le> 2"
    and "Alloc ctz0 clz0 sz km = Inr (p, km') \<Longrightarrow> free_pages km \<le> free_pages km' + 2"
proof -
  obtain k where k: "k \<noteq> meta_slab" "Alloc ctz0 clz0 sz km = Cache_Allocate ctz0 (Global k) km" "sz \<le> int (ObjSize k)"
    using Alloc_small_run [OF assms(3,4), of ctz0 clz0 km] by metis
  note safe = ctz_safe_mono [OF assms(2) k(3)]
  show "Alloc ctz0 clz0 sz km = Inl e \<Longrightarrow> free_pages km \<le> 2" using Cache_Allocate_heap [OF assms(1) safe k(1)] k(2) by auto
  obtain X fl Q L where h: "kinv km X fl Q L {}" using assms(1) by (auto simp: heap_res_def)
  have "length fl \<le> free_pages km' + 2" if "Cache_Allocate ctz0 (Global k) km = Inr (p, km')" for km'
    using slab_provider.Allocate_correct [OF base_slab_provider [OF k(1) safe] h] that free_pages_length
    by (fastforce simp: Cache_Allocate_def)
  then show "Alloc ctz0 clz0 sz km = Inr (p, km') \<Longrightarrow> free_pages km \<le> free_pages km' + 2" using free_pages_length [OF h] k(2) by simp
qed

lemma Free_keeps_pages:
  assumes "Free ctz0 clz0 p km = Inr km'"
  shows "free_pages km \<le> free_pages km'"
proof -
  have "{p. p < nr_pgs km \<and> is_free (pgs km p)} \<subseteq> {p. p < nr_pgs km' \<and> is_free (pgs km' p)}"
    using Free_free [OF assms] nr_pgs_same_phys [OF Free_phys [OF assms]] by (auto simp: more_free_def pgs_def)
  then show ?thesis unfolding free_pages_def by (rule card_mono [rotated]) simp
qed

text \<open>
  The states reached from start-up by successful calls, with the blocks handed out and not yet freed. The requests are of a size \<^verbatim>\<open>Alloc\<close> is specified
  for (\<open>size_ok\<close>) and do not run into a \<^verbatim>\<open>ctzl(0)\<close> below 32 (\<open>ctz_safe\<close>).
\<close>

inductive heap_run :: "nat \<Rightarrow> int \<Rightarrow> kmem \<Rightarrow> kmem \<Rightarrow> (u64 \<times> nat) set \<Rightarrow> bool"
  for ctz0 clz0 km0 where
  start: "heap_run ctz0 clz0 km0 (InitSlab km0) {}"
| alloc: "heap_run ctz0 clz0 km0 km B \<Longrightarrow> size_ok km sz \<Longrightarrow> ctz_safe ctz0 sz \<Longrightarrow> Alloc ctz0 clz0 sz km = Inr (ptr, km') \<Longrightarrow>
    heap_run ctz0 clz0 km0 km' (insert (ptr, block_size sz) B)"
| free: "heap_run ctz0 clz0 km0 km B \<Longrightarrow> b \<in> B \<Longrightarrow> Free ctz0 clz0 (fst b) km = Inr km' \<Longrightarrow>
    heap_run ctz0 clz0 km0 km' (B - {b})"
| free_null: "heap_run ctz0 clz0 km0 km B \<Longrightarrow> Free ctz0 clz0 0 km = Inr km' \<Longrightarrow> heap_run ctz0 clz0 km0 km' B"

definition boot_ok :: "kmem \<Rightarrow> nat list \<Rightarrow> bool" where
  "boot_ok km fl \<longleftrightarrow> mp_inv (km_pages km) fl \<and> unat (nr_page_structs (km_pages km)) \<le> 2 ^ 27 \<and>
     phys_ok (km_pages km) (set fl)"

lemma heap_run_ok:
  assumes "heap_run ctz0 clz0 km0 km B" and "boot_ok km0 fl"
  shows "heap_ok km B"
  using assms(1)
proof induction
  case start
  then show ?case using InitSlab_heap_ok [of km0 fl] assms(2) by (simp add: boot_ok_def)
next
  case (alloc km B sz ptr km')
  then show ?case using Alloc_heap [OF alloc.IH alloc.hyps(3,2), of clz0] by auto
next
  case (free km B b km')
  then show ?case using Free_heap [OF free.IH free.hyps(2), of ctz0 clz0] by auto
next
  case (free_null km B km')
  then show ?case by (simp add: Free_def)
qed

section \<open>A heap to evaluate on\<close>

definition demo_mp0 :: mem_pages where
  "demo_mp0 = \<lparr>avail_size = 0x8000, reserved_size = 0, acpi_size = 0, tot_size = 0x8000, avail_low = 0,
     max_phy = 0x8000, page_head = zero_page\<lparr>alloc_next := PageHead, alloc_prev := PageHead\<rparr>,
     page_structs = (\<lambda>i. zero_page\<lparr>phyaddr := of_nat (4096 * i)\<rparr>), nr_page_structs = 8\<rparr>"

definition demo_kmem :: kmem where
  "demo_kmem = \<lparr>km_pages = (case FreePages demo_mp0 (PageAt 1) 6 of Inr mp \<Rightarrow> mp | Inl _ \<Rightarrow> demo_mp0),
     km_nodes = (\<lambda>_. \<lparr>node_prev = NodeAt 0, node_next = NodeAt 0\<rparr>), data_page = (\<lambda>_. NullPage),
     slab_bitmap = (\<lambda>_. []), slab_free_list = (\<lambda>_. \<lparr>nr_free = 0, nr_total = 0, free_stack = (\<lambda>_. 0)\<rparr>),
     nr_free_slab = (\<lambda>_. 0), cache_stats = (\<lambda>_. \<lparr>allocated = 0, slab_pg = 0, max_pg = 0\<rparr>)\<rparr>"

lemma demo_boot: "boot_ok demo_kmem (rev [1..<7])" and demo_nr: "nr_pgs demo_kmem = 8"
proof -
  have i: "mp_inv demo_mp0 []"
    by (simp add: mp_inv_def page_list_def demo_mp0_def zero_page_def links_def)
  have "unat (nr_page_structs demo_mp0) = 8" by (simp add: demo_mp0_def)
  then obtain mp where mp: "FreePages demo_mp0 (PageAt 1) (int 6) = Inr mp" "mp_inv mp (rev [1..<1 + 6] @ [])" "same_meta demo_mp0 mp"
    using FreePages_inv [OF i, of 1 6] by auto
  then have k: "km_pages demo_kmem = mp" by (simp add: demo_kmem_def)
  have "nr_page_structs mp = 8" using same_metaD(1) [OF mp(3)] by (simp add: demo_mp0_def)
  moreover have "phys_ok mp S" for S
    using same_metaD(2) [OF mp(3)] by (simp add: phys_ok_def demo_mp0_def)
  ultimately show "boot_ok demo_kmem (rev [1..<7])" "nr_pgs demo_kmem = 8"
    using mp(2) by (simp_all add: boot_ok_def k nr_pgs_def del: upt_rec_numeral)
qed

lemma demo_heap: "heap_ok (InitSlab demo_kmem) {}" "free_pages (InitSlab demo_kmem) = 6" "nr_pgs (InitSlab demo_kmem) = 8"
proof -
  have b: "mp_inv (km_pages demo_kmem) (rev [1..<7])" "unat (nr_page_structs (km_pages demo_kmem)) \<le> 2 ^ 27"
      "phys_ok (km_pages demo_kmem) (set (rev [1..<7]))"
    using demo_boot unfolding boot_ok_def by blast+
  show "heap_ok (InitSlab demo_kmem) {}" by (rule InitSlab_heap_ok [OF b])
  show "free_pages (InitSlab demo_kmem) = 6" using free_pages_length [OF InitSlab_kinv [OF b]] by simp
  show "nr_pgs (InitSlab demo_kmem) = 8"
    using demo_nr MemCacheBase_same by (simp add: nr_pgs_def InitSlab_def MemCacheBase_def)
qed

lemma demo_alloc: "\<exists>ptr km. Alloc ctz0 32 100 (InitSlab demo_kmem) = Inr (ptr, km) \<and> heap_ok km {(ptr, 128)}"
proof -
  obtain k where k: "k \<noteq> meta_slab" "block_size 100 = ObjSize k"
      "Alloc ctz0 32 100 (InitSlab demo_kmem) = Cache_Allocate ctz0 (Global k) (InitSlab demo_kmem)"
    by (rule Alloc_small_run [of 100 ctz0 32 "InitSlab demo_kmem"]) simp_all
  have "ObjSize k = 128" using k(2) by (simp add: block_size_def)
  then show ?thesis using Cache_Allocate_heap [OF demo_heap(1) _ k(1), of ctz0] demo_heap(2) k(3) by (auto simp: ctz_safe_def)
qed

section \<open>Properties\<close>

text \<open>
  C1. In every state reached from start-up by calls of \<^verbatim>\<open>Alloc\<close> and \<^verbatim>\<open>Free\<close>, the blocks handed out and
  not yet freed are pairwise disjoint, each can be freed without a fault, and a further allocation
  returns a block that is not handed out, or fails through a null page because there are not enough free pages for it. The requests are of
  2 bytes or more, no larger than an \<^verbatim>\<open>int\<close> and the page array allow (\<open>size_ok\<close>), and those of at most 32 bytes are on a machine where the
  compiler's \<^verbatim>\<open>ctzl(0)\<close> is at least 32 (\<open>ctz_safe\<close>): with a smaller value the slabs of the 16 and 32-byte classes hand out objects in use (see \<open>Slab_Bodies\<close>).
\<close>

theorem heap_run_safe:
  assumes "heap_run ctz0 clz0 km0 km B" and "boot_ok km0 fl"
  shows "(\<forall>b \<in> B. \<forall>c \<in> B. b \<noteq> c \<longrightarrow> block b \<inter> block c = {}) \<and>
    (\<forall>b \<in> B. \<exists>km'. Free ctz0 clz0 (fst b) km = Inr km') \<and>
    (\<forall>sz. size_ok km sz \<longrightarrow> ctz_safe ctz0 sz \<longrightarrow> Alloc ctz0 clz0 sz km = Inl NullDeref \<and> no_room km sz \<or>
      (\<exists>ptr km'. Alloc ctz0 clz0 sz km = Inr (ptr, km') \<and> (ptr, block_size sz) \<notin> B))"
proof -
  have h: "heap_ok km B" using heap_run_ok [OF assms] .
  show ?thesis
    using heap_blocks_disjoint [OF h] Free_heap [OF h] Alloc_heap [OF h] by blast
qed

theorem heap_run_safe_witness:
  "\<exists>ptr km. heap_run 0 32 demo_kmem km {(ptr, 128)} \<and> (\<exists>km'. Free 0 32 ptr km = Inr km')"
proof -
  obtain ptr km where a: "Alloc 0 32 100 (InitSlab demo_kmem) = Inr (ptr, km)" using demo_alloc by blast
  have "size_ok (InitSlab demo_kmem) 100" "ctz_safe 0 100" by (simp_all add: size_ok_def ctz_safe_def)
  from heap_run.alloc [OF heap_run.start this a] have r: "heap_run 0 32 demo_kmem km {(ptr, 128)}"
    by (simp add: block_size_def)
  show ?thesis using heap_run_safe [OF r demo_boot] r by auto
qed

text \<open>
  C11. A request for 2 to 2048 bytes gets an unused object of the smallest size class that holds it, and
  the other blocks stay as they are; it fails, through a null page, only when at most two pages
  are free. For a request of at most 32 bytes this holds when the compiler's \<^verbatim>\<open>ctzl(0)\<close> is at least 32 (\<open>ctz_safe\<close>;
  with a smaller value the slabs of these classes hand out objects in use), for a larger one whatever that value is.
\<close>

theorem Alloc_small_correct:
  assumes "heap_ok km B" and "ctz_safe ctz0 sz" and "2 \<le> sz" and "sz \<le> 2048"
  shows "Alloc ctz0 clz0 sz km = Inl NullDeref \<and> free_pages km \<le> 2 \<or>
    (\<exists>ptr km' k. Alloc ctz0 clz0 sz km = Inr (ptr, km') \<and> k \<noteq> meta_slab \<and> sz \<le> int (ObjSize k) \<and>
      (\<forall>j. j \<noteq> meta_slab \<longrightarrow> sz \<le> int (ObjSize j) \<longrightarrow> ObjSize k \<le> ObjSize j) \<and>
      (ptr, ObjSize k) \<notin> B \<and> heap_ok km' (insert (ptr, ObjSize k) B))"
proof -
  obtain k where k: "FitGlobalMemCache clz0 sz = Inr (Global k)" "k \<noteq> meta_slab" "sz \<le> int (ObjSize k)"
      "\<forall>j. j \<noteq> meta_slab \<longrightarrow> sz \<le> int (ObjSize j) \<longrightarrow> ObjSize k \<le> ObjSize j"
    using FitGlobalMemCache_fits [OF assms(3,4)] by blast
  then have "Alloc ctz0 clz0 sz km = Cache_Allocate ctz0 (Global k) km" using assms(4) by (simp add: Alloc_def)
  then show ?thesis using Cache_Allocate_heap [OF assms(1) ctz_safe_mono [OF assms(2) k(3)] k(2)] k(2-4) by auto
qed

theorem Alloc_small_correct_witness:
  "\<exists>ptr km'. Alloc 0 32 100 (InitSlab demo_kmem) = Inr (ptr, km') \<and> heap_ok km' {(ptr, 128)}"
proof -
  obtain ptr km' k where a: "Alloc 0 32 100 (InitSlab demo_kmem) = Inr (ptr, km')" "k \<noteq> meta_slab" "100 \<le> int (ObjSize k)"
      "\<forall>j. j \<noteq> meta_slab \<longrightarrow> 100 \<le> int (ObjSize j) \<longrightarrow> ObjSize k \<le> ObjSize j" "heap_ok km' {(ptr, ObjSize k)}"
    using Alloc_small_correct [OF demo_heap(1), of 0 100 32] demo_heap(2) by (auto simp: ctz_safe_def)
  have "ObjSize k = 128" using a(2,3) a(4) [rule_format, of chunk128] by (cases k) auto
  with a show ?thesis by auto
qed

text \<open>
  C13. A request for more than 2048 bytes, and for no more pages than the page array has, gets a run of whole pages that is not handed out. It fails
  only when there is no run of that many free pages or, for a single page, when at most one page is free: the last one is never handed out.
\<close>

theorem Alloc_large_correct:
  assumes "heap_ok km B" and "2048 < sz" and "sz \<le> 2 ^ 31 - 4096" and "nr_page_of sz \<le> nr_pgs km"
  shows "Alloc ctz0 clz0 sz km = Inl NullDeref \<and>
      (if nr_page_of sz = 1 then free_pages km \<le> 1 else \<forall>s. \<not> free_pages_at (km_pages km) (nr_page_of sz) s) \<or>
    (\<exists>ptr km'. Alloc ctz0 clz0 sz km = Inr (ptr, km') \<and> sz \<le> int (4096 * nr_page_of sz) \<and>
      (ptr, 4096 * nr_page_of sz) \<notin> B \<and> heap_ok km' (insert (ptr, 4096 * nr_page_of sz) B))"
proof -
  have "sz \<le> int (4096 * nr_page_of sz)" using assms(2) by (simp add: nr_page_of_def)
  then show ?thesis using Alloc_large_heap [OF assms, of ctz0 clz0] by blast
qed

theorem Alloc_large_correct_witness:
  "\<exists>ptr km'. Alloc 64 32 3000 (InitSlab demo_kmem) = Inr (ptr, km') \<and> heap_ok km' {(ptr, 4096)}"
  using Alloc_large_correct [OF demo_heap(1), of 3000 64 32] demo_heap(2,3) by (auto simp: nr_page_of_def)

text \<open>
  C12. Freeing any block that is handed out succeeds, without a panic or a fault, and takes exactly that
  block out of the set.
\<close>

theorem Free_block_correct:
  assumes "heap_ok km B" and "b \<in> B"
  shows "\<exists>km'. Free ctz0 clz0 (fst b) km = Inr km' \<and> heap_ok km' (B - {b})"
  by (rule Free_heap [OF assms])

theorem Free_block_correct_witness:
  "\<exists>ptr km1 km2. Alloc 64 32 100 (InitSlab demo_kmem) = Inr (ptr, km1) \<and> Free 64 32 ptr km1 = Inr km2 \<and> heap_ok km2 {}"
proof -
  obtain ptr km1 where a: "Alloc 64 32 100 (InitSlab demo_kmem) = Inr (ptr, km1)" "heap_ok km1 {(ptr, 128)}"
    using demo_alloc by blast
  show ?thesis using Free_block_correct [OF a(2), of "(ptr, 128)" 64 32] a(1) by auto
qed

text \<open>
  C33. The size class is the smallest of 16 to 2048 bytes that fits the request; every other \<^verbatim>\<open>int\<close> but 1,
  where the code depends on \<^verbatim>\<open>clz(0)\<close>, is refused by the assertion, so \<^verbatim>\<open>Alloc(0)\<close> panics.
\<close>

theorem FitGlobalMemCache_spec:
  assumes "- (2 ^ 31) \<le> n" and "n < 2 ^ 31" and "n \<noteq> 1"
  shows "if 2 \<le> n \<and> n \<le> 2048
    then \<exists>k. FitGlobalMemCache clz0 n = Inr (Global k) \<and> k \<noteq> meta_slab \<and> n \<le> int (ObjSize k) \<and>
      (\<forall>j. j \<noteq> meta_slab \<longrightarrow> n \<le> int (ObjSize j) \<longrightarrow> ObjSize k \<le> ObjSize j)
    else FitGlobalMemCache clz0 n = Inl (Panic ''idx < 8'')"
  using FitGlobalMemCache_fits [of n clz0] FitGlobalMemCache_refused [OF assms(1,2)] assms(3) by auto

theorem FitGlobalMemCache_spec_witness:
  "FitGlobalMemCache 32 0 = Inl (Panic ''idx < 8'') \<and> (\<exists>k. FitGlobalMemCache 32 100 = Inr (Global k) \<and> 100 \<le> int (ObjSize k))"
  using FitGlobalMemCache_spec [of 0 32] FitGlobalMemCache_spec [of 100 32] by auto

text \<open>
  C37. Freeing the last object of a slab while the cache holds more slabs than its maximum releases the
  slab header and loses the data page: afterwards the page is neither free nor part of any slab.
  \<^verbatim>\<open>max_pg\<close> is 0 unless \<^verbatim>\<open>set_max_page\<close> was called, so this happens to every slab that becomes empty.
\<close>

theorem Free_leaks_data_page:
  assumes "kinv km X fl Q L {}" and "k \<noteq> meta_slab"
    and "slab_view km Q L k s = Some (m, slab_cap k - {i})" and "i \<in> slab_cap k" and "data_page km s = PageAt p"
    and "max_pg (cache_stats km (Global k)) < slab_pg (cache_stats km (Global k))"
  shows "\<exists>km' fl' Q' L'. Cache_Free ctz0 (Global k) (m + of_nat (i * ObjSize k)) km = Inr km' \<and>
    kinv km' X fl' Q' L' {} \<and> p \<notin> set fl' \<and> p \<notin> slab_pages km' L' \<and> X p = None"
proof -
  have ii: "insert i (slab_cap k - {i}) = slab_cap k" using assms(4) by auto
  have sL: "s \<in> L k" using assms(3) by (simp add: slab_view_def split: if_splits)
  have p: "page_used km X fl p" "slab_ptr (pgs km p) = s"
    using kinv_base(2) [OF assms(1) sL assms(2)] assms(5) by (auto simp: data_ok_def)
  have p52: "p < 2 ^ 52" using kinv_page_bound [OF assms(1) p(1)] .
  have nm: "kaddr p 0 \<notin> L meta_slab"
  proof
    assume a: "kaddr p 0 \<in> L meta_slab"
    then have "slab_ptr (pgs km p) = kaddr p 0"
      using kinv_meta [OF assms(1) a] kaddr_inj p52 by (metis zero_less_numeral)
    then show False using p(2) kinv_chunk_unique [OF assms(1) sL, of meta_slab] a assms(2) by simp
  qed
  obtain km' fl' Q' L' where f: "Cache_Free ctz0 (Global k) (m + of_nat (i * ObjSize k)) km = Inr km'"
      "kinv km' X fl' Q' L' {}" "set fl' \<subseteq> set fl \<union> meta_pages L" "L' meta_slab \<subseteq> L meta_slab"
      "\<forall>j \<in> - {meta_slab}. slab_view km' Q' L' j = ((slab_view km Q L)(k := (slab_view km Q L k)(s := None))) j"
  proof -
    have "i \<notin> slab_cap k - {i}" by simp
    from slab_provider.Free_correct [OF tzcnt_provider [OF assms(2)] assms(1,3,4) this TrueI] show thesis
      using that assms(6) unfolding ii Cache_Free_def cache_chunk.simps MemCache_Free_ctz [of ctz0 _ _ _ _ _ 64] by (auto simp del: fun_upd_apply)
  qed
  have "p \<notin> set fl'" using f(3) p(1) nm by (auto simp: page_used_def meta_pages_def)
  moreover have "p \<notin> slab_pages km' L'"
  proof
    assume "p \<in> slab_pages km' L'"
    then obtain j t where j: "j \<noteq> meta_slab" "t \<in> L' j" "data_page km' t = PageAt p"
      using nm f(4) unfolding slab_pages_def by blast
    have "slab_view km' Q' L' j t = ((slab_view km Q L)(k := (slab_view km Q L k)(s := None))) j t"
      using f(5) j(1) by simp
    then have "slab_view km Q L j t = slab_view km' Q' L' j t" "(j, t) \<noteq> (k, s)"
      using j(2) by (auto simp: slab_view_def split: if_splits)
    then have t: "t \<in> L j" "slab_mem km j t = slab_mem km' j t"
      using j(2) by (auto simp: slab_view_def split: if_splits)
    have "slab_mem km' j t = kaddr p 0"
      using kinv_base(2) [OF f(2) j(2,1)] j(1,3) PADDR_frame [of p] by (auto simp: slab_mem_def data_ok_def page_used_def)
    moreover obtain q where q: "data_page km t = PageAt q" "page_used km X fl q" "slab_ptr (pgs km q) = t"
      using kinv_base(2) [OF assms(1) t(1) j(1)] by (auto simp: data_ok_def)
    ultimately have "kaddr q 0 = kaddr p 0"
      using t(2) j(1) PADDR_frame [of q] by (simp add: slab_mem_def page_used_def)
    then have "q = p" using kaddr_inj [of q 0 p 0] p52 kinv_page_bound [OF assms(1) q(2)] by simp
    then have "t = s" using q(3) p(2) by simp
    then show False using \<open>(j, t) \<noteq> (k, s)\<close> kinv_chunk_unique [OF assms(1) sL] t(1) by blast
  qed
  ultimately show ?thesis using f(1,2) p(1) by (auto simp: page_used_def)
qed

theorem Free_leaks_data_page_witness:
  "\<exists>km fl Q L s m i p km' fl' Q' L'. kinv km Map.empty fl Q L {} \<and>
     slab_view km Q L chunk128 s = Some (m, slab_cap chunk128 - {i}) \<and> data_page km s = PageAt p \<and>
     Cache_Free 64 (Global chunk128) (m + of_nat (i * 128)) km = Inr km' \<and>
     kinv km' Map.empty fl' Q' L' {} \<and> p \<notin> set fl' \<and> p \<notin> slab_pages km' L'"
proof -
  let ?v = "slab_view (InitSlab demo_kmem) (\<lambda>_. []) (\<lambda>_. {})"
  have b: "mp_inv (km_pages demo_kmem) (rev [1..<7])" "unat (nr_page_structs (km_pages demo_kmem)) \<le> 2 ^ 27"
      "phys_ok (km_pages demo_kmem) (set (rev [1..<7]))" using demo_boot unfolding boot_ok_def by blast+
  have "\<not> length (rev [1..<7]) \<le> 2" "\<And>s. ?v chunk128 s = None" by (simp_all add: slab_view_def)
  then obtain s m i km fl Q L where a: "kinv km Map.empty fl Q L {}" "i \<in> slab_cap chunk128"
      "slab_view km Q L chunk128 = (?v chunk128)(s \<mapsto> (m, slab_cap chunk128 - {i}))"
    using c128.Allocate_correct [OF InitSlab_kinv [OF b]] by fastforce
  let ?km = "upd_stat (Global chunk128) (\<lambda>_. \<lparr>allocated = 1, slab_pg = 1, max_pg = 0\<rparr>) km"
  have k: "kinv ?km Map.empty fl Q L {}" "slab_view ?km Q L chunk128 s = Some (m, slab_cap chunk128 - {i})"
    using a by simp_all
  then have "s \<in> L chunk128" by (simp add: slab_view_def split: if_splits)
  then obtain p where p: "data_page ?km s = PageAt p" using kinv_base(2) [OF k(1)] by (auto simp: data_ok_def)
  have "max_pg (cache_stats ?km (Global chunk128)) < slab_pg (cache_stats ?km (Global chunk128))" by simp
  then obtain km' fl' Q' L' where "Cache_Free 64 (Global chunk128) (m + of_nat (i * 128)) ?km = Inr km'"
      "kinv km' Map.empty fl' Q' L' {}" "p \<notin> set fl'" "p \<notin> slab_pages km' L'"
    using Free_leaks_data_page [OF k(1) _ k(2) a(2) p, of 64] by auto
  with k p show ?thesis
    by (intro exI [of _ ?km] exI [of _ fl] exI [of _ Q] exI [of _ L] exI [of _ s] exI [of _ m] exI [of _ i] exI [of _ p]
        exI [of _ km'] exI [of _ fl'] exI [of _ Q'] exI [of _ L']) (simp del: slab_cap.simps)
qed

end
