(* ===== verification/Libc_String.thy ===== *)
theory Libc_String
  imports Kernel_Prelude
begin

text \<open>
  The string and memory routines of \<^verbatim>\<open>kern/libc/string.c\<close> and the character classes of
  \<^verbatim>\<open>kern/libc/ctype.h\<close>. Memory is a function from addresses to bytes; pointer arithmetic wraps at
  64 bits. A loop that runs to a terminator need not end and is a partial function.
\<close>

type_synonym mem = "u64 \<Rightarrow> u8"

section \<open>Memory\<close>

text \<open>
  \<^verbatim>\<open>while (len--)\<close> on an \<^verbatim>\<open>int\<close> runs \<open>len mod 2 ^ 32\<close> times when the decrement wraps.
\<close>

definition int_count :: "int \<Rightarrow> nat" where
  "int_count len = nat (len mod 2 ^ 32)"

fun copy_up :: "nat \<Rightarrow> mem \<Rightarrow> u64 \<Rightarrow> u64 \<Rightarrow> mem" where
  "copy_up 0 m d s = m"
| "copy_up (Suc n) m d s = copy_up n (m(d := m s)) (d + 1) (s + 1)"

definition memcpy :: "mem \<Rightarrow> u64 \<Rightarrow> u64 \<Rightarrow> int \<Rightarrow> mem" where
  "memcpy m dst src len = copy_up (int_count len) m dst src"

fun copy_down :: "nat \<Rightarrow> mem \<Rightarrow> u64 \<Rightarrow> u64 \<Rightarrow> mem" where
  "copy_down 0 m d s = m"
| "copy_down (Suc n) m d s = copy_down n (m(d := m s)) (d - 1) (s - 1)"

definition memmove :: "mem \<Rightarrow> u64 \<Rightarrow> u64 \<Rightarrow> int \<Rightarrow> mem" where
  "memmove m dst src len = copy_down (int_count len) m (dst + of_int (len - 1)) (src + of_int (len - 1))"

fun fill :: "nat \<Rightarrow> mem \<Rightarrow> u64 \<Rightarrow> u8 \<Rightarrow> mem" where
  "fill 0 m b c = m"
| "fill (Suc n) m b c = fill n (m(b := c)) (b + 1) c"

definition memset :: "mem \<Rightarrow> u64 \<Rightarrow> int \<Rightarrow> u64 \<Rightarrow> mem" where
  "memset m b c len = fill (unat len) m b (of_int c)"

fun compare :: "nat \<Rightarrow> mem \<Rightarrow> u64 \<Rightarrow> u64 \<Rightarrow> int" where
  "compare 0 m p1 p2 = 0"
| "compare (Suc n) m p1 p2 = (if m p1 \<noteq> m p2 then uint (m p1) - uint (m p2) else compare n m (p1 + 1) (p2 + 1))"

definition memcmp :: "mem \<Rightarrow> u64 \<Rightarrow> u64 \<Rightarrow> u64 \<Rightarrow> int" where
  "memcmp m b1 b2 len = compare (unat len) m b1 b2"

section \<open>Strings\<close>

partial_function (option) strcmp :: "mem \<Rightarrow> u64 \<Rightarrow> u64 \<Rightarrow> int option" where
  "strcmp m s1 s2 =
     (if m s1 = m s2 \<and> m s1 \<noteq> 0 then strcmp m (s1 + 1) (s2 + 1) else Some (uint (m s1) - uint (m s2)))"

fun strncmp_loop :: "nat \<Rightarrow> mem \<Rightarrow> u64 \<Rightarrow> u64 \<Rightarrow> int" where
  "strncmp_loop 0 m s1 s2 = 0"
| "strncmp_loop (Suc n) m s1 s2 =
     (if m s1 = m s2 \<and> m s1 \<noteq> 0 then strncmp_loop n m (s1 + 1) (s2 + 1) else uint (m s1) - uint (m s2))"

definition strncmp :: "mem \<Rightarrow> u64 \<Rightarrow> u64 \<Rightarrow> u64 \<Rightarrow> int" where
  "strncmp m s1 s2 len = strncmp_loop (unat len) m s1 s2"

partial_function (option) strcpy :: "mem \<Rightarrow> u64 \<Rightarrow> u64 \<Rightarrow> mem option" where
  "strcpy m dst src =
     (if m src \<noteq> 0 then strcpy (m(dst := m src)) (dst + 1) (src + 1) else Some (m(dst := 0)))"

partial_function (option) str_end :: "mem \<Rightarrow> u64 \<Rightarrow> u64 option" where
  "str_end m dst = (if m dst \<noteq> 0 then str_end m (dst + 1) else Some dst)"

text \<open>The second loop and the terminator of \<^verbatim>\<open>strcat\<close> are those of \<^verbatim>\<open>strcpy\<close>.\<close>

definition strcat :: "mem \<Rightarrow> u64 \<Rightarrow> u64 \<Rightarrow> mem option" where
  "strcat m dst src = (case str_end m dst of None \<Rightarrow> None | Some e \<Rightarrow> strcpy m e src)"

text \<open>A null result is \<open>Some 0\<close>.\<close>

partial_function (option) strchr :: "mem \<Rightarrow> u64 \<Rightarrow> u8 \<Rightarrow> u64 option" where
  "strchr m s ch = (if m s \<noteq> 0 then if m s = ch then Some s else strchr m (s + 1) ch else Some 0)"

partial_function (option) strlen_loop :: "mem \<Rightarrow> u64 \<Rightarrow> u64 \<Rightarrow> u64 option" where
  "strlen_loop m s len = (if m s \<noteq> 0 then strlen_loop m (s + 1) (len + 1) else Some len)"

definition strlen :: "mem \<Rightarrow> u64 \<Rightarrow> u64 option" where
  "strlen m s = strlen_loop m s 0"

section \<open>Character classes\<close>

text \<open>\<^verbatim>\<open>char\<close> is signed on the target.\<close>

definition isupper :: "u8 \<Rightarrow> bool" where "isupper c \<longleftrightarrow> 65 \<le> sint c \<and> sint c \<le> 90"
definition isalpha :: "u8 \<Rightarrow> bool" where
  "isalpha c \<longleftrightarrow> (65 \<le> sint c \<and> sint c \<le> 90) \<or> (97 \<le> sint c \<and> sint c \<le> 122)"
definition isspace :: "u8 \<Rightarrow> bool" where "isspace c \<longleftrightarrow> c = 32 \<or> c = 9 \<or> c = 10 \<or> c = 10"
definition isdigit :: "u8 \<Rightarrow> bool" where "isdigit c \<longleftrightarrow> 48 \<le> sint c \<and> sint c \<le> 57"
definition isascii :: "u8 \<Rightarrow> bool" where "isascii c \<longleftrightarrow> 0 \<le> uint c \<and> uint c < 128"

section \<open>Copying\<close>

definition at :: "u64 \<Rightarrow> nat \<Rightarrow> u64" where "at p i = p + of_nat i"

lemma at_0 [simp]: "at p 0 = p" by (simp add: at_def)

lemma at_Suc: "at (p + 1) i = at p (Suc i)" by (simp add: at_def)

lemma at_at: "at (at p i) j = at p (i + j)"
  by (simp add: at_def add.assoc)

lemma at_inj: "i < 2 ^ 64 \<Longrightarrow> j < 2 ^ 64 \<Longrightarrow> at p i = at p j \<longleftrightarrow> i = j"
proof -
  assume b: "i < 2 ^ 64" "j < 2 ^ 64"
  have "unat (of_nat i :: u64) = i" "unat (of_nat j :: u64) = j" using b by (simp_all add: unat_of_nat)
  then show ?thesis by (metis at_def add_left_cancel)
qed

text \<open>
  \<open>moved n m d s m'\<close>: in \<open>m'\<close> the \<open>n\<close> bytes at \<open>d\<close> are the bytes \<open>m\<close> had at \<open>s\<close>, and nothing else changed.
\<close>

definition moved :: "nat \<Rightarrow> mem \<Rightarrow> u64 \<Rightarrow> u64 \<Rightarrow> mem \<Rightarrow> bool" where
  "moved n m d s m' \<longleftrightarrow> (\<forall>i < n. m' (at d i) = m (at s i)) \<and> (\<forall>x. (\<forall>i < n. x \<noteq> at d i) \<longrightarrow> m' x = m x)"

lemma copy_up_moved:
  assumes "n < 2 ^ 64" and "\<And>i j. j < i \<Longrightarrow> i < n \<Longrightarrow> at d j \<noteq> at s i"
  shows "moved n m d s (copy_up n m d s)"
  using assms
proof (induction n arbitrary: m d s)
  case 0
  then show ?case by (simp add: moved_def)
next
  case (Suc n)
  let ?m = "m(d := m s)"
  have IH: "moved n ?m (d + 1) (s + 1) (copy_up n ?m (d + 1) (s + 1))"
  proof (rule Suc.IH)
    fix i j assume "j < i" "i < n"
    then show "at (d + 1) j \<noteq> at (s + 1) i" using Suc.prems(2) [of "Suc j" "Suc i"] by (simp add: at_Suc)
  qed (use Suc.prems(1) in simp)
  have ne: "at s (Suc i) \<noteq> d" if "i < n" for i using Suc.prems(2) [of 0 "Suc i"] that by auto
  have d0: "at d (Suc i) \<noteq> d" if "i < n" for i
    using at_inj [of "Suc i" 0 d] that Suc.prems(1) by simp
  show ?case
    unfolding moved_def copy_up.simps
  proof (intro conjI allI impI)
    fix i assume i: "i < Suc n"
    show "copy_up n ?m (d + 1) (s + 1) (at d i) = m (at s i)"
    proof (cases i)
      case 0
      then have "\<forall>j<n. at d i \<noteq> at (d + 1) j" using d0 [THEN not_sym] by (simp add: at_Suc)
      then show ?thesis using IH 0 unfolding moved_def by auto
    next
      case (Suc j)
      then show ?thesis using IH i ne unfolding moved_def by (auto simp: at_Suc)
    qed
  next
    fix x assume "\<forall>i<Suc n. x \<noteq> at d i"
    then have "x \<noteq> d" "\<forall>i<n. x \<noteq> at (d + 1) i" by (auto simp: at_Suc dest: spec [of _ 0])
    then show "copy_up n ?m (d + 1) (s + 1) x = m x" using IH unfolding moved_def by auto
  qed
qed

text \<open>Copying from the last byte down.\<close>

lemma copy_down_up: "copy_down n m d s = (\<lambda>x. copy_up n (\<lambda>y. m (- y)) (- d) (- s) (- x))"
proof (induction n arbitrary: m d s)
  case (Suc n)
  have "(\<lambda>y. (m(d := m s)) (- y)) = (\<lambda>y. m (- y))(- d := m (- (- s)))"
    by (rule ext) (simp add: minus_equation_iff [of d] eq_commute)
  moreover have "- (d - 1) = - d + 1" "- (s - 1) = - s + 1" by simp_all
  ultimately show ?case unfolding copy_down.simps copy_up.simps Suc.IH by metis
qed simp

lemma at_last: "i < n \<Longrightarrow> - at (- (p + of_nat (n - 1))) i = at p (n - 1 - i)"
proof -
  assume "i < n"
  then have "n - 1 = (n - 1 - i) + i" by simp
  then have "(of_nat (n - 1) :: u64) = of_nat (n - 1 - i) + of_nat i" by (metis of_nat_add)
  then show ?thesis by (simp add: at_def)
qed

lemma at_last_neg: "i < n \<Longrightarrow> at (- (p + of_nat (n - 1))) (n - 1 - i) = - at p i"
proof -
  assume i: "i < n"
  then have "- at (- (p + of_nat (n - 1))) (n - 1 - i) = at p i" using at_last [of "n - 1 - i" n p] by simp
  then show ?thesis by (simp only: minus_equation_iff)
qed

lemma copy_down_moved:
  assumes "n < 2 ^ 64" and "\<And>i j. i < j \<Longrightarrow> j < n \<Longrightarrow> at d j \<noteq> at s i"
  shows "moved n m d s (copy_down n m (d + of_nat (n - 1)) (s + of_nat (n - 1)))"
proof -
  define d' s' m' where "d' = - (d + of_nat (n - 1))" and "s' = - (s + of_nat (n - 1))" and "m' = (\<lambda>y. m (- y))"
  have dn: "- at d' i = at d (n - 1 - i)" "- at s' i = at s (n - 1 - i)" "at d' (n - 1 - i) = - at d i"
      "at s' (n - 1 - i) = - at s i" if "i < n" for i
    unfolding d'_def s'_def using at_last [OF that] at_last_neg [OF that] by blast+
  have mv: "moved n m' d' s' (copy_up n m' d' s')"
  proof (rule copy_up_moved [OF assms(1)], rule notI)
    fix i j assume ij: "j < i" "i < n" and "at d' j = at s' i"
    then have "at d (n - 1 - j) = at s (n - 1 - i)" using dn(1) [of j] dn(2) [of i] by simp
    moreover have "at d (n - 1 - j) \<noteq> at s (n - 1 - i)" using ij by (intro assms(2)) auto
    ultimately show False by contradiction
  qed
  show ?thesis
    unfolding moved_def copy_down_up d'_def [symmetric] s'_def [symmetric] m'_def [symmetric]
  proof (intro conjI allI impI)
    fix i assume i: "i < n"
    then have "copy_up n m' d' s' (at d' (n - 1 - i)) = m' (at s' (n - 1 - i))"
      using mv unfolding moved_def by simp
    then show "copy_up n m' d' s' (- at d i) = m (at s i)" using dn(3,4) [OF i] by (simp add: m'_def)
  next
    fix x assume x: "\<forall>i<n. x \<noteq> at d i"
    have "- x \<noteq> at d' i" if "i < n" for i
    proof
      assume "- x = at d' i"
      then have "- (- x) = - at d' i" by (rule arg_cong)
      then have "x = - at d' i" by simp
      then show False using x dn(1) [OF that] that by simp
    qed
    then have "copy_up n m' d' s' (- x) = m' (- x)" using mv unfolding moved_def by blast
    then show "copy_up n m' d' s' (- x) = m x" by (simp add: m'_def)
  qed
qed

lemma int_count_id: "0 \<le> len \<Longrightarrow> len < 2 ^ 32 \<Longrightarrow> int_count len = nat len"
  by (simp add: int_count_def)

lemma memmove_down:
  assumes "n < 2 ^ 31" and "0 < n"
  shows "memmove m dst src (int n) = copy_down n m (dst + of_nat (n - 1)) (src + of_nat (n - 1))"
proof -
  have "int n - 1 = int (n - 1)" using assms by simp
  then have "(of_int (int n - 1) :: u64) = of_nat (n - 1)" by (metis of_int_of_nat_eq)
  moreover have "int_count (int n) = n" using assms by (simp add: int_count_def)
  ultimately show ?thesis unfolding memmove_def by (simp only:)
qed

section \<open>Strings as lists of bytes\<close>

definition string_at :: "mem \<Rightarrow> u64 \<Rightarrow> u8 list \<Rightarrow> bool" where
  "string_at m s xs \<longleftrightarrow> (\<forall>i < length xs. m (at s i) = xs ! i) \<and> 0 \<notin> set xs \<and> m (at s (length xs)) = 0"

lemma string_at_Nil: "string_at m s [] \<longleftrightarrow> m s = 0"
  by (simp add: string_at_def)

lemma string_at_Cons: "string_at m s (x # xs) \<longleftrightarrow> m s = x \<and> x \<noteq> 0 \<and> string_at m (s + 1) xs"
proof -
  have "(\<forall>i < length (x # xs). m (at s i) = (x # xs) ! i) \<longleftrightarrow> m s = x \<and> (\<forall>i < length xs. m (at (s + 1) i) = xs ! i)"
    unfolding length_Cons All_less_Suc2 by (simp add: at_Suc)
  then show ?thesis by (auto simp: string_at_def at_Suc)
qed

lemma str_end_string: "string_at m s xs \<Longrightarrow> str_end m s = Some (at s (length xs))"
proof (induction xs arbitrary: s)
  case Nil
  then show ?case by (subst str_end.simps) (simp add: string_at_Nil)
next
  case (Cons x xs)
  then show ?case by (subst str_end.simps) (simp add: string_at_Cons at_Suc)
qed

lemma strlen_loop_string: "string_at m s xs \<Longrightarrow> strlen_loop m s n = Some (n + of_nat (length xs))"
proof (induction xs arbitrary: s n)
  case Nil
  then show ?case by (subst strlen_loop.simps) (simp add: string_at_Nil)
next
  case (Cons x xs)
  then show ?case by (subst strlen_loop.simps) (simp add: string_at_Cons)
qed

text \<open>The order \<^verbatim>\<open>strcmp\<close> reports: the difference at the first position where the strings differ.\<close>

fun str_diff :: "u8 list \<Rightarrow> u8 list \<Rightarrow> int" where
  "str_diff [] [] = 0"
| "str_diff [] (y # ys) = - uint y"
| "str_diff (x # xs) [] = uint x"
| "str_diff (x # xs) (y # ys) = (if x = y then str_diff xs ys else uint x - uint y)"

lemma strcmp_string:
  "string_at m s xs \<Longrightarrow> string_at m t ys \<Longrightarrow> strcmp m s t = Some (str_diff xs ys)"
proof (induction xs ys arbitrary: s t rule: str_diff.induct)
  case 1
  then show ?case by (subst strcmp.simps) (simp add: string_at_Nil)
next
  case (2 y ys)
  then show ?case by (subst strcmp.simps) (auto simp: string_at_Nil string_at_Cons)
next
  case (3 x xs)
  then show ?case by (subst strcmp.simps) (auto simp: string_at_Nil string_at_Cons)
next
  case (4 x xs y ys)
  then show ?case by (subst strcmp.simps) (auto simp: string_at_Cons)
qed

lemma str_diff_zero: "0 \<notin> set xs \<Longrightarrow> 0 \<notin> set ys \<Longrightarrow> str_diff xs ys = 0 \<longleftrightarrow> xs = ys"
  by (induction xs ys rule: str_diff.induct) (auto simp: unsigned_eq_0_iff dest: unsigned_word_eqI)

lemma strncmp_string:
  "string_at m s xs \<Longrightarrow> string_at m t ys \<Longrightarrow> strncmp_loop n m s t = str_diff (take n xs) (take n ys)"
proof (induction n arbitrary: s t xs ys)
  case 0
  then show ?case by simp
next
  case (Suc n)
  then show ?case
    by (cases xs; cases ys) (auto simp: string_at_Nil string_at_Cons)
qed

lemma at_unat:
  assumes "unat p + n \<le> 2 ^ 64" and "i < n"
  shows "unat (at p i) = unat p + i"
proof -
  have "unat (of_nat i :: u64) = i" using assms by (simp add: unat_of_nat)
  then show ?thesis using assms unat_add_lem [of p "of_nat i"] by (simp add: at_def)
qed

text \<open>Two ranges that do not overlap in the harmful direction.\<close>

lemma at_ordered:
  assumes "unat d + n \<le> 2 ^ 64" "unat s + n \<le> 2 ^ 64" "unat d \<le> unat s \<or> unat s + n \<le> unat d" "j < i" "i < n"
  shows "at d j \<noteq> at s i"
proof
  assume "at d j = at s i"
  then have "unat d + j = unat s + i" using at_unat [OF assms(1), of j] at_unat [OF assms(2), of i] assms(4,5) by simp
  then show False using assms(3-5) by auto
qed

lemma strcpy_string:
  assumes "string_at m src xs" and "unat dst + Suc (length xs) \<le> 2 ^ 64" and "unat src + Suc (length xs) \<le> 2 ^ 64"
    and "unat dst \<le> unat src \<or> unat src + Suc (length xs) \<le> unat dst"
  shows "strcpy m dst src = Some (copy_up (Suc (length xs)) m dst src)"
  using assms
proof (induction xs arbitrary: m dst src)
  case Nil
  then show ?case by (subst strcpy.simps) (simp add: string_at_Nil)
next
  case (Cons x xs)
  let ?m = "m(dst := m src)"
  have u: "unat (src + 1) = unat src + 1" "unat (dst + 1) = unat dst + 1"
    using Cons.prems(2,3) at_unat [of src "Suc (length (x # xs))" 1] at_unat [of dst "Suc (length (x # xs))" 1]
    by (simp_all add: at_def)
  have "at (src + 1) i \<noteq> dst" if "i \<le> length xs" for i
    using at_ordered [OF Cons.prems(2,3), of 0 "Suc i"] Cons.prems(4) that by (simp add: at_Suc eq_commute)
  then have "string_at ?m (src + 1) xs"
    using Cons.prems(1) by (simp add: string_at_Cons) (simp add: string_at_def)
  then have "strcpy ?m (dst + 1) (src + 1) = Some (copy_up (Suc (length xs)) ?m (dst + 1) (src + 1))"
    using Cons.prems(2-4) u by (intro Cons.IH) (auto simp del: fun_upd_apply)
  moreover have "m src \<noteq> 0" using Cons.prems(1) by (simp add: string_at_Cons)
  ultimately show ?case by (subst strcpy.simps) simp
qed

text \<open>
  Copying down onto an overlapping range below: byte \<open>i\<close> gets what byte \<open>i + k\<close> already got.
\<close>

lemma copy_down_below:
  fixes m :: mem
  assumes "0 < k" and "s = d + of_nat k" and "n + k < 2 ^ 64"
  defines "r \<equiv> copy_down n m (d + of_nat (n - 1)) (s + of_nat (n - 1))"
  shows "(\<forall>i < n. r (at d i) = (if i + k < n then r (at d (i + k)) else m (at s i))) \<and>
    (\<forall>i. n \<le> i \<longrightarrow> i < 2 ^ 64 \<longrightarrow> r (at d i) = m (at d i))"
  using assms(3) unfolding r_def
proof (induction n arbitrary: m)
  case 0
  then show ?case by simp
next
  case (Suc c)
  let ?m = "m(at d c := m (at s c))"
  let ?r = "copy_down c ?m (d + of_nat (c - 1)) (s + of_nat (c - 1))"
  have run: "copy_down (Suc c) m (d + of_nat (Suc c - 1)) (s + of_nat (Suc c - 1)) = ?r"
    by (cases c) (simp_all add: at_def)
  have sd: "at s i = at d (i + k)" for i using assms(2) by (simp add: at_def)
  have inj: "at d i = at d j \<longleftrightarrow> i = j" if "i < 2 ^ 64" "j < 2 ^ 64" for i j using at_inj that by blast
  note IH = Suc.IH [of ?m] and b = Suc.prems
  have rest: "?r (at d i) = ?m (at d i)" if "c \<le> i" "i < 2 ^ 64" for i
    using conjunct2 [OF IH] b that by (simp del: fun_upd_apply)
  have rc: "?r (at d c) = m (at s c)" using rest [of c] b by simp
  show ?case
    unfolding run
  proof (intro conjI allI impI)
    fix i assume i: "i < Suc c"
    show "?r (at d i) = (if i + k < Suc c then ?r (at d (i + k)) else m (at s i))"
    proof (cases "i = c")
      case True
      then show ?thesis using rc assms(1) by simp
    next
      case False
      then have step: "?r (at d i) = (if i + k < c then ?r (at d (i + k)) else ?m (at s i))"
        using conjunct1 [OF IH] b i by (simp del: fun_upd_apply)
      consider "i + k < c" | "i + k = c" | "c < i + k" by linarith
      then show ?thesis
      proof cases
        case 2
        then show ?thesis using step rc sd [of i] by simp
      next
        case 3
        then have "at d (i + k) \<noteq> at d c" using inj [of "i + k" c] b i by simp
        then show ?thesis using step 3 sd [of i] by simp
      qed (use step in simp)
    qed
  next
    fix i assume "Suc c \<le> i" "i < 2 ^ 64"
    then show "?r (at d i) = m (at d i)" using rest [of i] inj [of i c] b by simp
  qed
qed

lemma string_at_moved:
  assumes "string_at m s xs" and "moved (Suc (length xs)) m d s m'"
  shows "string_at m' d xs"
  using assms by (simp add: string_at_def moved_def)

text \<open>
  What callers rely on: the result is 0 for equal strings and negative when the first is lexicographically smaller.
\<close>

definition str_order :: "u8 list \<Rightarrow> u8 list \<Rightarrow> int \<Rightarrow> bool" where
  "str_order xs ys r \<longleftrightarrow> (r = 0 \<longleftrightarrow> xs = ys) \<and> (r < 0 \<longleftrightarrow> (xs, ys) \<in> lexord {(x, y). x < y})"

lemma str_diff_order: "0 \<notin> set xs \<Longrightarrow> 0 \<notin> set ys \<Longrightarrow> str_order xs ys (str_diff xs ys)"
proof (induction xs ys rule: str_diff.induct)
  case (2 y ys)
  then have "0 < uint y" by (metis list.set_intros(1) uint_ge_0 uint_0_iff order_le_less)
  then show ?case by (simp add: str_order_def)
next
  case (3 x xs)
  then have "0 < uint x" by (metis list.set_intros(1) uint_ge_0 uint_0_iff order_le_less)
  then show ?case by (simp add: str_order_def)
next
  case (4 x xs y ys)
  then show ?case by (auto simp: str_order_def word_less_def dest: unsigned_word_eqI)
qed (simp add: str_order_def)

text \<open>
  \<^verbatim>\<open>memmove\<close> copies backwards in every case: onto an overlapping range \<open>k\<close> bytes below its source it leaves the last \<open>k\<close> bytes of the
  source in every slot of the destination.
\<close>

lemma memmove_down_smears:
  assumes "0 < k" and "n = k * q" and "n + k < 2 ^ 31" and "i < n"
  shows "memmove m dst (dst + of_nat k) (int n) (at dst i) = m (at (dst + of_nat k) (n - k + i mod k))"
proof -
  let ?s = "dst + of_nat k" and ?r = "memmove m dst (dst + of_nat k) (int n)"
  have r: "?r = copy_down n m (dst + of_nat (n - 1)) (?s + of_nat (n - 1))"
    using assms by (intro memmove_down) (linarith, linarith)
  have step: "?r (at dst j) = (if j + k < n then ?r (at dst (j + k)) else m (at ?s j))" if "j < n" for j
    using copy_down_below [OF assms(1) refl, where n = n and d = dst and m = m] assms(3) that unfolding r by simp
  show ?thesis
    using assms(4)
  proof (induction "n - i" arbitrary: i rule: less_induct)
    case less
    show ?case
    proof (cases "i + k < n")
      case True
      then have "?r (at dst (i + k)) = m (at ?s (n - k + (i + k) mod k))"
        using less.hyps [of "i + k"] assms(1) by simp
      then show ?thesis using step [OF less.prems] True by simp
    next
      case False
      obtain q' where q': "q = Suc q'" using less.prems assms(2) by (cases q) auto
      then have nk: "n - k = k * q'" using assms(2) by simp
      have "i - k * q' < k" using less.prems assms(1,2) q' by (simp add: algebra_simps)
      moreover have "k * q' \<le> i" using False assms(2) q' by simp
      ultimately have "i = k * q' + i mod k"
        by (metis le_add_diff_inverse mod_less mod_mult_self4)
      then show ?thesis using step [OF less.prems] False nk by simp
    qed
  qed
qed

section \<open>Properties\<close>

text \<open>
  C29. \<^verbatim>\<open>memmove\<close> moves: when the destination starts at or above the source, or ends below it, the bytes
  at the destination become the bytes the source had and no other byte changes.
\<close>

theorem memmove_moves:
  assumes "n < 2 ^ 31" and "unat dst + n \<le> 2 ^ 64" and "unat src + n \<le> 2 ^ 64"
    and "unat src \<le> unat dst \<or> unat dst + n \<le> unat src"
  shows "moved n m dst src (memmove m dst src (int n))"
proof (cases "n = 0")
  case True
  then show ?thesis by (simp add: moved_def memmove_def int_count_def)
next
  case False
  then have r: "memmove m dst src (int n) = copy_down n m (dst + of_nat (n - 1)) (src + of_nat (n - 1))"
    using assms(1) by (intro memmove_down) auto
  show ?thesis
    unfolding r
  proof (rule copy_down_moved)
    fix i j assume "i < j" "j < n"
    then show "at dst j \<noteq> at src i" using at_ordered [OF assms(3,2,4)] by metis
  qed (use assms(1) in simp)
qed

theorem memmove_moves_witness:
  "moved 3 (\<lambda>a. of_nat (unat a)) 0x101 0x100 (memmove (\<lambda>a. of_nat (unat a)) 0x101 0x100 (int 3))"
  by (rule memmove_moves) simp_all

text \<open>
  \<^verbatim>\<open>strcpy\<close> of a terminated string ends, leaves the same string at the destination, which
  \<^verbatim>\<open>strlen\<close> then measures, and changes nothing outside it.
\<close>

lemma strcpy_copies:
  assumes "string_at m src xs" and "unat dst + Suc (length xs) < 2 ^ 64" and "unat src + Suc (length xs) < 2 ^ 64"
    and "unat dst \<le> unat src \<or> unat src + Suc (length xs) \<le> unat dst"
  shows "\<exists>m'. strcpy m dst src = Some m' \<and> string_at m' dst xs \<and> strlen m' dst = Some (of_nat (length xs)) \<and>
    (\<forall>x. (\<forall>i \<le> length xs. x \<noteq> at dst i) \<longrightarrow> m' x = m x)"
proof -
  let ?n = "Suc (length xs)" and ?m = "copy_up (Suc (length xs)) m dst src"
  have le: "unat dst + ?n \<le> 2 ^ 64" "unat src + ?n \<le> 2 ^ 64" using assms(2,3) by simp_all
  have mv: "moved ?n m dst src ?m"
  proof (rule copy_up_moved)
    show "?n < 2 ^ 64" using assms(2) by linarith
  qed (use at_ordered [OF le assms(4)] in blast)
  then have "string_at ?m dst xs" by (rule string_at_moved [OF assms(1)])
  moreover from this have "strlen ?m dst = Some (of_nat (length xs))"
    using strlen_loop_string [of ?m dst xs 0] by (simp add: strlen_def)
  moreover have "\<forall>x. (\<forall>i \<le> length xs. x \<noteq> at dst i) \<longrightarrow> ?m x = m x"
    using mv unfolding moved_def less_Suc_eq_le by blast
  ultimately show ?thesis using strcpy_string [OF assms(1) le assms(4)] by blast
qed

lemma strcpy_copies_example:
  "\<exists>m'. strcpy ((\<lambda>_. 0)(0x100 := 97, 0x101 := 98)) 0x200 0x100 = Some m' \<and> string_at m' 0x200 [97, 98] \<and>
    strlen m' 0x200 = Some (of_nat (length [97 :: u8, 98])) \<and>
    (\<forall>x. (\<forall>i \<le> length [97 :: u8, 98]. x \<noteq> at 0x200 i) \<longrightarrow> m' x = ((\<lambda>_. 0)(0x100 := 97, 0x101 := 98)) x)"
  by (rule strcpy_copies) (simp_all add: string_at_Cons string_at_Nil)

text \<open>
  C30. On terminated strings \<^verbatim>\<open>strcmp\<close> ends and returns 0 exactly for equal strings, and a non-zero result has the
  sign of the difference of the first bytes that differ; \<^verbatim>\<open>strncmp\<close> does the same on the prefixes
  of the given length.
\<close>

theorem strcmp_correct:
  assumes "string_at m s xs" and "string_at m t ys"
  shows "(\<exists>r. strcmp m s t = Some r \<and> str_order xs ys r) \<and>
    str_order (take (unat len) xs) (take (unat len) ys) (strncmp m s t len)"
proof -
  have z: "0 \<notin> set xs" "0 \<notin> set ys" using assms by (simp_all add: string_at_def)
  then have "0 \<notin> set (take n xs)" "0 \<notin> set (take n ys)" for n by (meson in_set_takeD)+
  then show ?thesis
    using strcmp_string [OF assms] strncmp_string [OF assms] str_diff_order z by (simp add: strncmp_def)
qed

theorem strcmp_correct_witness:
  "(\<exists>r. strcmp ((\<lambda>_. 0)(0x100 := 97, 0x200 := 98)) 0x100 0x200 = Some r \<and> str_order [97] [98] r) \<and>
    str_order (take (unat (1 :: u64)) [97]) (take (unat (1 :: u64)) [98])
      (strncmp ((\<lambda>_. 0)(0x100 := 97, 0x200 := 98)) 0x100 0x200 1)"
  by (rule strcmp_correct) (simp_all add: string_at_Cons string_at_Nil)

end
