(* ===== verification/Word_Bits.thy ===== *)
theory Word_Bits
  imports Kernel_Prelude
begin

text \<open>
  Packed registers and descriptors are compared bit by bit: equality of fixed-width words as a finite conjunction over
  their bits (\<open>word_bits\<close>), which \<open>bit_simps\<close> then decides, and the bits of small numbers.
\<close>

named_theorems word_bits \<open>equality of words as a conjunction over their bits\<close>

lemma word_eq_bits: "w = v \<longleftrightarrow> (\<forall>n < LENGTH('a). bit w n \<longleftrightarrow> bit v n)" for w v :: "'a :: len word"
  by (metis bit_word_eqI)

lemma eq_bits_8: "w = v \<longleftrightarrow> (\<forall>n < 8. bit w n \<longleftrightarrow> bit v n)" for w v :: u8
  unfolding word_eq_bits by simp

lemma eq_bits_16: "w = v \<longleftrightarrow> (\<forall>n < 16. bit w n \<longleftrightarrow> bit v n)" for w v :: u16
  unfolding word_eq_bits by simp

lemma eq_bits_32: "w = v \<longleftrightarrow> (\<forall>n < 32. bit w n \<longleftrightarrow> bit v n)" for w v :: u32
  unfolding word_eq_bits by simp

lemma eq_bits_64: "w = v \<longleftrightarrow> (\<forall>n < 64. bit w n \<longleftrightarrow> bit v n)" for w v :: u64
  unfolding word_eq_bits by simp

lemma all_less_add: "(\<forall>n < a + b. P n) \<longleftrightarrow> (\<forall>n < a. P n) \<and> (\<forall>n < b. P (a + n))" for a b :: nat
proof safe
  fix n assume "\<forall>n < a. P n" "\<forall>n < b. P (a + n)" "n < a + b"
  then show "P n" by (cases "n < a") (auto dest: spec [of _ "n - a"])
qed auto

lemma all_less_8: "(\<forall>n < 8. P n) \<longleftrightarrow>
    P 0 \<and> P 1 \<and> P 2 \<and> P 3 \<and> P 4 \<and> P 5 \<and> P 6 \<and> P 7" for P :: "nat \<Rightarrow> bool"
  by (simp add: numeral_eq_Suc All_less_Suc conj_ac)

lemma all_less_16_half: "(\<forall>n < 16. P n) \<longleftrightarrow> (\<forall>n < 8. P n) \<and> (\<forall>n < 8. P (8 + n))" for P :: "nat \<Rightarrow> bool"
  using all_less_add [of 8 8 P] by simp

lemma all_less_16: "(\<forall>n < 16. P n) \<longleftrightarrow>
    P 0 \<and> P 1 \<and> P 2 \<and> P 3 \<and> P 4 \<and> P 5 \<and> P 6 \<and> P 7 \<and> P 8 \<and>
    P 9 \<and> P 10 \<and> P 11 \<and> P 12 \<and> P 13 \<and> P 14 \<and> P 15" for P :: "nat \<Rightarrow> bool"
  unfolding all_less_16_half by (simp add: all_less_8)

lemma all_less_32_half: "(\<forall>n < 32. P n) \<longleftrightarrow> (\<forall>n < 16. P n) \<and> (\<forall>n < 16. P (16 + n))" for P :: "nat \<Rightarrow> bool"
  using all_less_add [of 16 16 P] by simp

lemma all_less_32: "(\<forall>n < 32. P n) \<longleftrightarrow>
    P 0 \<and> P 1 \<and> P 2 \<and> P 3 \<and> P 4 \<and> P 5 \<and> P 6 \<and> P 7 \<and> P 8 \<and>
    P 9 \<and> P 10 \<and> P 11 \<and> P 12 \<and> P 13 \<and> P 14 \<and> P 15 \<and> P 16 \<and> P 17 \<and>
    P 18 \<and> P 19 \<and> P 20 \<and> P 21 \<and> P 22 \<and> P 23 \<and> P 24 \<and> P 25 \<and> P 26 \<and>
    P 27 \<and> P 28 \<and> P 29 \<and> P 30 \<and> P 31" for P :: "nat \<Rightarrow> bool"
  unfolding all_less_32_half by (simp add: all_less_16)

lemma all_less_64_half: "(\<forall>n < 64. P n) \<longleftrightarrow> (\<forall>n < 32. P n) \<and> (\<forall>n < 32. P (32 + n))" for P :: "nat \<Rightarrow> bool"
  using all_less_add [of 32 32 P] by simp

lemma all_less_64: "(\<forall>n < 64. P n) \<longleftrightarrow>
    P 0 \<and> P 1 \<and> P 2 \<and> P 3 \<and> P 4 \<and> P 5 \<and> P 6 \<and> P 7 \<and> P 8 \<and>
    P 9 \<and> P 10 \<and> P 11 \<and> P 12 \<and> P 13 \<and> P 14 \<and> P 15 \<and> P 16 \<and> P 17 \<and>
    P 18 \<and> P 19 \<and> P 20 \<and> P 21 \<and> P 22 \<and> P 23 \<and> P 24 \<and> P 25 \<and> P 26 \<and>
    P 27 \<and> P 28 \<and> P 29 \<and> P 30 \<and> P 31 \<and> P 32 \<and> P 33 \<and> P 34 \<and> P 35 \<and>
    P 36 \<and> P 37 \<and> P 38 \<and> P 39 \<and> P 40 \<and> P 41 \<and> P 42 \<and> P 43 \<and> P 44 \<and>
    P 45 \<and> P 46 \<and> P 47 \<and> P 48 \<and> P 49 \<and> P 50 \<and> P 51 \<and> P 52 \<and> P 53 \<and>
    P 54 \<and> P 55 \<and> P 56 \<and> P 57 \<and> P 58 \<and> P 59 \<and> P 60 \<and> P 61 \<and> P 62 \<and>
    P 63" for P :: "nat \<Rightarrow> bool"
  unfolding all_less_64_half by (simp add: all_less_32)

lemmas word_bits_8 [word_bits] = eq_bits_8 [unfolded all_less_8]
lemmas word_bits_16 [word_bits] = eq_bits_16 [unfolded all_less_16]
lemmas word_bits_32 [word_bits] = eq_bits_32 [unfolded all_less_32]
lemmas word_bits_64 [word_bits] = eq_bits_64 [unfolded all_less_64]

lemma bit_beyond_8 [word_bits]: "8 \<le> n \<Longrightarrow> bit w n = False" for w :: u8
  using bit_imp_le_length [of w n] by auto

lemma bit_beyond_16 [word_bits]: "16 \<le> n \<Longrightarrow> bit w n = False" for w :: u16
  using bit_imp_le_length [of w n] by auto

lemma bit_beyond_32 [word_bits]: "32 \<le> n \<Longrightarrow> bit w n = False" for w :: u32
  using bit_imp_le_length [of w n] by auto

lemma bit_beyond_64 [word_bits]: "64 \<le> n \<Longrightarrow> bit w n = False" for w :: u64
  using bit_imp_le_length [of w n] by auto

lemma plus_disjoint: "x AND y = 0 \<Longrightarrow> x + y = x OR y" for x y :: "'a :: len word"
  using word_plus_and_or [of x y] by simp

lemma bit_below:
  fixes w :: "'a :: len word"
  assumes "unat w < 2 ^ n" and "n \<le> i"
  shows "\<not> bit w i"
proof -
  have "take_bit n (unat w) = unat w" using assms(1) by (simp add: take_bit_nat_eq_self_iff)
  then have "take_bit n w = w" by (metis unsigned_take_bit_eq unsigned_word_eqI)
  then show ?thesis using assms(2) by (metis bit_take_bit_iff not_le)
qed

lemma below_of_bits:
  fixes w :: "'a :: len word"
  assumes "\<And>i. n \<le> i \<Longrightarrow> \<not> bit w i"
  shows "unat w < 2 ^ n"
proof -
  have "take_bit n w = w" by (rule bit_eqI) (use assms not_less in \<open>auto simp: bit_take_bit_iff\<close>)
  then have "take_bit n (unat w) = unat w" by (metis unsigned_take_bit_eq)
  then show ?thesis by (metis take_bit_nat_less_exp)
qed

end
