(* ===== verification/Terminal.thy ===== *)
theory Terminal
  imports Libc_String Word_Bits
begin

text \<open>
  The text screen (\<^verbatim>\<open>kern/terminal.h\<close>, \<^verbatim>\<open>kern/terminal.cc\<close>): colours, characters and strings drawn into the cells of
  the VGA text buffer, and the cell layout they produce.
\<close>

section \<open>Colours and screen\<close>

datatype Color = COLOR_BLACK | COLOR_BLUE | COLOR_GREEN | COLOR_CYAN | COLOR_RED | COLOR_MAGENTA | COLOR_BROWN
  | COLOR_LIGHT_GREY | COLOR_DARK_GREY | COLOR_LIGHT_BLUE | COLOR_LIGHT_GREEN | COLOR_LIGHT_CYAN | COLOR_LIGHT_RED
  | COLOR_LIGHT_MAGENTA | COLOR_LIGHT_BROWN | COLOR_WHITE

primrec Color_value :: "Color \<Rightarrow> u32" where
  "Color_value COLOR_BLACK = 0" | "Color_value COLOR_BLUE = 1" | "Color_value COLOR_GREEN = 2"
| "Color_value COLOR_CYAN = 3" | "Color_value COLOR_RED = 4" | "Color_value COLOR_MAGENTA = 5"
| "Color_value COLOR_BROWN = 6" | "Color_value COLOR_LIGHT_GREY = 7" | "Color_value COLOR_DARK_GREY = 8"
| "Color_value COLOR_LIGHT_BLUE = 9" | "Color_value COLOR_LIGHT_GREEN = 10" | "Color_value COLOR_LIGHT_CYAN = 11"
| "Color_value COLOR_LIGHT_RED = 12" | "Color_value COLOR_LIGHT_MAGENTA = 13" | "Color_value COLOR_LIGHT_BROWN = 14"
| "Color_value COLOR_WHITE = 15"

definition kVGAWidth :: nat where "kVGAWidth = 80"
definition kVGAHeight :: nat where "kVGAHeight = 25"

text \<open>The cells of \<^verbatim>\<open>kVGABuffer\<close>, by index.\<close>

type_synonym vga = "nat \<Rightarrow> u16"

record Terminal =
  term_x :: u8
  term_y :: u8
  bg_color :: Color
  fg_color :: Color

definition Terminal_ctor :: Terminal where
  "Terminal_ctor = \<lparr>term_x = 0, term_y = 0, bg_color = COLOR_BLACK, fg_color = COLOR_WHITE\<rparr>"

definition set_bg :: "Color \<Rightarrow> Terminal \<Rightarrow> Terminal" where "set_bg c t = t\<lparr>bg_color := c\<rparr>"
definition set_fg :: "Color \<Rightarrow> Terminal \<Rightarrow> Terminal" where "set_fg c t = t\<lparr>fg_color := c\<rparr>"

section \<open>Drawing\<close>

text \<open>\<^verbatim>\<open>u16 val = ch\<close> sign-extends: \<^verbatim>\<open>char\<close> is signed.\<close>

definition DrawChar_at :: "u8 \<Rightarrow> Color \<Rightarrow> Color \<Rightarrow> u8 \<Rightarrow> u8 \<Rightarrow> vga \<Rightarrow> vga" where
  "DrawChar_at ch fg bg x y s =
     (if kVGAWidth \<le> unat x \<or> kVGAHeight \<le> unat y then s
      else let idx = of_nat (unat x + unat y * kVGAWidth) :: u16;
               color = ucast (Color_value fg OR push_bit 4 (Color_value bg)) :: u8;
               val = scast ch OR push_bit 8 (ucast color)
           in s(unat idx := val))"

partial_function (option) DrawString_at :: "mem \<Rightarrow> u64 \<Rightarrow> Color \<Rightarrow> Color \<Rightarrow> u8 \<Rightarrow> u8 \<Rightarrow> vga \<Rightarrow> vga option" where
  "DrawString_at m p fg bg x y s =
     (if m p \<noteq> 0 then DrawString_at m (p + 1) fg bg (x + 1) y (DrawChar_at (m p) fg bg x y s) else Some s)"

definition Terminal_Reset :: "vga \<Rightarrow> vga" where
  "Terminal_Reset s = fold (\<lambda>i s. s(i := 0x0f00 OR 0x20)) [0..<kVGAWidth * kVGAHeight] s"

definition DrawChar_xy :: "Terminal \<Rightarrow> u8 \<Rightarrow> u8 \<Rightarrow> u8 \<Rightarrow> vga \<Rightarrow> vga" where
  "DrawChar_xy t ch x y s = DrawChar_at ch (fg_color t) (bg_color t) x y s"

definition DrawString_xy :: "Terminal \<Rightarrow> mem \<Rightarrow> u64 \<Rightarrow> u8 \<Rightarrow> u8 \<Rightarrow> vga \<Rightarrow> vga option" where
  "DrawString_xy t m p x y s = DrawString_at m p (fg_color t) (bg_color t) x y s"

definition DrawChar :: "Terminal \<Rightarrow> u8 \<Rightarrow> vga \<Rightarrow> vga" where
  "DrawChar t ch s = DrawChar_xy t ch (term_x t) (term_y t) s"

definition DrawString :: "Terminal \<Rightarrow> mem \<Rightarrow> u64 \<Rightarrow> vga \<Rightarrow> vga option" where
  "DrawString t m p s = DrawString_xy t m p (term_x t) (term_y t) s"

section \<open>Cells\<close>

definition cell_index :: "nat \<Rightarrow> nat \<Rightarrow> nat" where "cell_index x y = x + y * 80"

text \<open>The attribute byte of a pair of colours, and the cell a character becomes.\<close>

definition attribute :: "Color \<Rightarrow> Color \<Rightarrow> u8" where
  "attribute fg bg = of_nat (unat (Color_value fg) + 16 * unat (Color_value bg))"

definition glyph :: "Color \<Rightarrow> Color \<Rightarrow> u8 \<Rightarrow> u16" where
  "glyph fg bg ch = scast ch OR push_bit 8 (ucast (attribute fg bg))"

lemma dims [simp]: "kVGAWidth = 80" "kVGAHeight = 25"
  by (simp_all add: kVGAWidth_def kVGAHeight_def)

lemma attribute_or: "ucast (Color_value fg OR push_bit 4 (Color_value bg)) = attribute fg bg"
  by (cases fg; cases bg) (simp_all add: attribute_def)

lemma cell_index_div: "x < 80 \<Longrightarrow> cell_index x y mod 80 = x" "x < 80 \<Longrightarrow> cell_index x y div 80 = y"
  by (simp_all add: cell_index_def)

lemma cell_index_inj: "x < 80 \<Longrightarrow> x' < 80 \<Longrightarrow> cell_index x y = cell_index x' y' \<longleftrightarrow> x = x' \<and> y = y'"
  using cell_index_div by metis

lemma cell_index_less: "x < 80 \<Longrightarrow> y < 25 \<Longrightarrow> cell_index x y < 2000"
  by (simp add: cell_index_def)

lemma cell_index_cases:
  assumes "k < 2000"
  obtains x y where "x < 80" "y < 25" "k = cell_index x y"
  using assms that [of "k mod 80" "k div 80"] by (simp add: cell_index_def less_mult_imp_div_less)

lemma DrawChar_at_cell:
  assumes "unat x < 80" and "unat y < 25"
  shows "DrawChar_at ch fg bg x y s = s(cell_index (unat x) (unat y) := glyph fg bg ch)"
proof -
  have "unat (of_nat (unat x + unat y * 80) :: u16) = cell_index (unat x) (unat y)"
    unfolding cell_index_def
    by (rule of_nat_inverse [OF refl]) (use cell_index_less [OF assms] in \<open>simp add: cell_index_def\<close>)
  then show ?thesis using assms by (simp add: DrawChar_at_def glyph_def attribute_or)
qed

lemma DrawChar_at_outside: "80 \<le> unat x \<or> 25 \<le> unat y \<Longrightarrow> DrawChar_at ch fg bg x y s = s"
  by (simp add: DrawChar_at_def)

text \<open>The two bytes of a cell: the colour is lost for characters from 128 on.\<close>

lemma glyph_bytes:
  "ucast (glyph fg bg ch) = ch"
  "ucast (drop_bit 8 (glyph fg bg ch)) = (if ch < 128 then attribute fg bg else (0xff :: u8))"
proof -
  show "ucast (glyph fg bg ch) = ch" by (simp add: glyph_def word_bits bit_simps)
  have "bit ch 7 \<longleftrightarrow> \<not> ch < 128"
  proof
    assume "bit ch 7"
    then show "\<not> ch < 128" using bit_below [of ch 7 7] by (auto simp: word_less_nat_alt)
  next
    assume n: "\<not> ch < 128"
    show "bit ch 7"
    proof (rule ccontr)
      assume "\<not> bit ch 7"
      then have "\<not> bit ch i" if "7 \<le> i" for i using that by (cases "i = 7") (simp_all add: word_bits)
      then show False using below_of_bits [of 7 ch] n by (simp add: word_less_nat_alt)
    qed
  qed
  then show "ucast (drop_bit 8 (glyph fg bg ch)) = (if ch < 128 then attribute fg bg else (0xff :: u8))"
    by (simp add: glyph_def word_bits bit_simps)
qed

lemma Reset_cell: "Terminal_Reset s k = (if k < 2000 then 0x0f20 else s k)"
proof -
  have "fold (\<lambda>i s. s(i := v)) [0..<n] s k = (if k < n then v else s k)" for n and v :: u16
    by (induction n) auto
  then show ?thesis by (simp add: Terminal_Reset_def)
qed


text \<open>A string: one character per column, while the column counter does not wrap around.\<close>

definition row_text :: "nat \<Rightarrow> nat \<Rightarrow> u16 list \<Rightarrow> vga \<Rightarrow> vga" where
  "row_text x y gs s = (\<lambda>k. if k < 2000 \<and> k div 80 = y \<and> x \<le> k mod 80 \<and> k mod 80 < x + length gs
     then gs ! (k mod 80 - x) else s k)"

lemma row_text_Nil [simp]: "row_text x y [] s = s"
  by (rule ext) (auto simp: row_text_def)

lemma row_text_Cons:
  "row_text x y (g # gs) s = row_text (Suc x) y gs (if x < 80 \<and> y < 25 then s(cell_index x y := g) else s)"
proof (rule ext)
  fix k
  consider "k < 2000" "k div 80 = y" "k mod 80 = x" | "k < 2000" "k div 80 = y" "k mod 80 < x" | "k < 2000" "k div 80 = y" "x < k mod 80"
    | "\<not> (k < 2000 \<and> k div 80 = y)" by linarith
  then show "row_text x y (g # gs) s k = row_text (Suc x) y gs (if x < 80 \<and> y < 25 then s(cell_index x y := g) else s) k"
  proof cases
    case 1
    then have "k = cell_index x y" "x < 80" "y < 25" by (auto simp: cell_index_def less_mult_imp_div_less)
    then show ?thesis using 1 by (simp add: row_text_def)
  next
    case 2
    then have "k \<noteq> cell_index x y" if "x < 80" using cell_index_div(1) [OF that, of y] by auto
    then show ?thesis using 2 by (auto simp: row_text_def)
  next
    case 3
    then have "k \<noteq> cell_index x y" if "x < 80" using cell_index_div(1) [OF that, of y] by auto
    then show ?thesis using 3 by (simp add: row_text_def nth_Cons' Suc_le_eq)
  next
    case 4
    then have "k \<noteq> cell_index x y" if "x < 80" "y < 25" using cell_index_div(2) [OF that(1)] cell_index_less [OF that] by metis
    then show ?thesis using 4 by (auto simp: row_text_def)
  qed
qed

lemma DrawString_at_string:
  "string_at m p xs \<Longrightarrow> unat x + length xs \<le> 256 \<Longrightarrow>
    DrawString_at m p fg bg x y s = Some (row_text (unat x) (unat y) (map (glyph fg bg) xs) s)"
proof (induction xs arbitrary: p x s)
  case Nil
  then show ?case by (subst DrawString_at.simps) (simp add: string_at_Nil)
next
  case (Cons c xs)
  have draw: "DrawChar_at c fg bg x y s = (if unat x < 80 \<and> unat y < 25 then s(cell_index (unat x) (unat y) := glyph fg bg c) else s)"
    by (cases "unat x < 80 \<and> unat y < 25") (auto simp: DrawChar_at_cell DrawChar_at_outside not_less)
  have rec: "DrawString_at m p fg bg x y s = DrawString_at m (p + 1) fg bg (x + 1) y (DrawChar_at c fg bg x y s)"
    using Cons.prems(1) by (subst DrawString_at.simps) (simp add: string_at_Cons)
  show ?case
  proof (cases "xs = []")
    case True
    then have "m (p + 1) = 0" using Cons.prems(1) by (simp add: string_at_Cons string_at_Nil)
    then have "DrawString_at m p fg bg x y s = Some (DrawChar_at c fg bg x y s)"
      unfolding rec by (subst DrawString_at.simps) simp
    then show ?thesis using True by (simp add: draw row_text_Cons)
  next
    case False
    then have "unat x + 1 < 2 ^ 8" using Cons.prems(2) by (cases xs) auto
    then have "unat (x + 1) = Suc (unat x)" using unat_add_lem [of x 1] by simp
    then show ?thesis
      unfolding rec using Cons by (simp add: string_at_Cons draw row_text_Cons)
  qed
qed

section \<open>Properties\<close>

text \<open>
  \<^verbatim>\<open>DrawChar\<close> writes at most one cell, inside the 80 by 25 screen: it ignores positions off the screen, and on it the
  low byte of the cell becomes the character. The high byte becomes the two colours for a character below 128; from 128 on the
  sign extension of \<^verbatim>\<open>char\<close> overwrites both colours with 15.
\<close>

lemma DrawChar_cell:
  "DrawChar_xy t ch x y s =
     (if unat x < 80 \<and> unat y < 25
      then s(unat x + unat y * 80 := glyph (fg_color t) (bg_color t) ch) else s) \<and>
   ucast (glyph (fg_color t) (bg_color t) ch) = ch \<and>
   ucast (drop_bit 8 (glyph (fg_color t) (bg_color t) ch)) =
     (if ch < 128 then attribute (fg_color t) (bg_color t) else (0xff :: u8))"
  using glyph_bytes DrawChar_at_cell [of x y] DrawChar_at_outside [of x y]
  by (auto simp: DrawChar_xy_def cell_index_def not_less)

text \<open>
  \<^verbatim>\<open>DrawString\<close> of a terminated string returns, and writes the string into the row of the terminal's position, from its
  column on, clipped at the right edge, as long as start column and length add up to at most 256 (the column counter is 8 bits wide).
\<close>

lemma DrawString_row:
  assumes "string_at m p xs" and "unat (term_x t) + length xs \<le> 256"
  shows "\<exists>s'. DrawString t m p s = Some s' \<and>
    (\<forall>k. s' k = (if k < 2000 \<and> k div 80 = unat (term_y t) \<and> unat (term_x t) \<le> k mod 80 \<and> k mod 80 < unat (term_x t) + length xs
      then glyph (fg_color t) (bg_color t) (xs ! (k mod 80 - unat (term_x t))) else s k))"
proof -
  have "DrawString t m p s = Some (row_text (unat (term_x t)) (unat (term_y t)) (map (glyph (fg_color t) (bg_color t)) xs) s)"
    using DrawString_at_string [OF assms] by (simp add: DrawString_def DrawString_xy_def)
  then show ?thesis by (auto simp: row_text_def)
qed

lemma DrawString_row_example:
  "\<exists>s'. DrawString Terminal_ctor ((\<lambda>_. 0)(0x100 := 72, 0x101 := 105)) 0x100 (\<lambda>_. 0) = Some s' \<and> s' 1 = 0x0f69 \<and> s' 2 = 0"
proof -
  have "string_at ((\<lambda>_. 0)(0x100 := 72, 0x101 := 105)) 0x100 [72, 105]" by (simp add: string_at_Cons string_at_Nil)
  from DrawString_row [OF this, of Terminal_ctor "\<lambda>_. 0"] obtain s' where
    "DrawString Terminal_ctor ((\<lambda>_. 0)(0x100 := 72, 0x101 := 105)) 0x100 (\<lambda>_. 0) = Some s'"
    "\<forall>k. s' k = (if k < 2000 \<and> k div 80 = 0 \<and> k mod 80 < 2 then glyph COLOR_WHITE COLOR_BLACK ([72, 105] ! (k mod 80)) else 0)"
    by (auto simp: Terminal_ctor_def)
  then show ?thesis by (simp add: glyph_def attribute_def)
qed

end
