(* ===== verification/Vga_Buffer.thy ===== *)
theory Vga_Buffer
  imports Terminal
begin

text \<open>
  The scrolling text screen: \<^verbatim>\<open>VGABuffer\<close> of \<^verbatim>\<open>kern/console.h\<close> and \<^verbatim>\<open>kern/console.cc\<close>, and its refinement of a list of
  lines of which the last 25 are shown.
\<close>

section \<open>The buffer\<close>

text \<open>\<^verbatim>\<open>x\<close> and \<^verbatim>\<open>y\<close> start at 0 and are only incremented or reset: naturals.\<close>

record VGABuffer =
  vb_x :: nat
  vb_y :: nat
  vga_buffer :: "u8 list list"

definition VGABuffer_ctor :: VGABuffer where
  "VGABuffer_ctor = \<lparr>vb_x = 0, vb_y = 0, vga_buffer = replicate kVGAHeight (replicate kVGAWidth 0)\<rparr>"

definition cell :: "u8 list list \<Rightarrow> nat \<Rightarrow> nat \<Rightarrow> u8" where "cell b i j = b ! i ! j"
definition set_cell :: "nat \<Rightarrow> nat \<Rightarrow> u8 \<Rightarrow> u8 list list \<Rightarrow> u8 list list" where "set_cell i j v b = b[i := (b ! i)[j := v]]"

text \<open>Moving the rows up, clearing the last one, and drawing all of them.\<close>

definition move_rows :: "u8 list list \<Rightarrow> u8 list list" where
  "move_rows b = fold (\<lambda>i b. fold (\<lambda>j b. set_cell i j (cell b (i + 1) j) b) [0..<kVGAWidth] b) [0..<kVGAHeight - 1] b"

definition clear_last_row :: "u8 list list \<Rightarrow> u8 list list" where
  "clear_last_row b = fold (\<lambda>j b. set_cell (kVGAHeight - 1) j 0 b) [0..<kVGAWidth] b"

definition redraw :: "Terminal \<Rightarrow> u8 list list \<Rightarrow> vga \<Rightarrow> vga" where
  "redraw t b s = fold (\<lambda>i s. fold (\<lambda>j s. DrawChar_xy t (cell b i j) (of_nat j) (of_nat i) s) [0..<kVGAWidth] s) [0..<kVGAHeight] s"

definition VGABuffer_WriteByte :: "Terminal \<Rightarrow> u8 \<Rightarrow> VGABuffer \<times> vga \<Rightarrow> VGABuffer \<times> vga" where
  "VGABuffer_WriteByte t ch = (\<lambda>(v, s).
     let v = (if kVGAWidth \<le> vb_x v then v\<lparr>vb_x := 0, vb_y := vb_y v + 1\<rparr> else v);
         (v, s) = (if kVGAHeight \<le> vb_y v
            then let b = clear_last_row (move_rows (vga_buffer v))
                 in (v\<lparr>vga_buffer := b, vb_y := kVGAHeight - 1\<rparr>, redraw t b s)
            else (v, s))
     in if ch = 10 then (v\<lparr>vb_x := 0, vb_y := vb_y v + 1\<rparr>, s)
        else (v\<lparr>vga_buffer := set_cell (vb_y v) (vb_x v) ch (vga_buffer v), vb_x := vb_x v + 1\<rparr>,
              DrawChar_xy t ch (of_nat (vb_x v)) (of_nat (vb_y v)) s))"

section \<open>Lines\<close>

text \<open>
  The abstract screen: the lines written so far, the current one first. A full line is broken before the next byte.
\<close>

definition put_byte :: "u8 \<Rightarrow> u8 list list \<Rightarrow> u8 list list" where
  "put_byte ch ls = (let ls = (if 80 \<le> length (hd ls) then [] # ls else ls)
     in if ch = 10 then [] # ls else (hd ls @ [ch]) # tl ls)"

definition pad :: "u8 list \<Rightarrow> u8 list" where "pad l = l @ replicate (80 - length l) 0"

definition rect :: "u8 list list \<Rightarrow> bool" where "rect b \<longleftrightarrow> length b = 25 \<and> (\<forall>r \<in> set b. length r = 80)"

text \<open>What the 25 rows hold when \<open>p\<close> lines, in the order written, have scrolled off.\<close>

definition rows :: "nat \<Rightarrow> u8 list list \<Rightarrow> u8 list list" where
  "rows p ls = map (\<lambda>i. if p + i < length ls then pad (rev ls ! (p + i)) else replicate 80 0) [0..<25]"

text \<open>The screen shows a buffer; cells never drawn since the reset are blanks.\<close>

definition drawn :: "Terminal \<Rightarrow> u8 list list \<Rightarrow> vga \<Rightarrow> bool" where
  "drawn t b s \<longleftrightarrow> (\<forall>i < 25. \<forall>j < 80. s (cell_index j i) = glyph (fg_color t) (bg_color t) (b ! i ! j) \<or>
     b ! i ! j = 0 \<and> s (cell_index j i) = 0x0f20)"

definition vga_shows :: "Terminal \<Rightarrow> u8 list list \<Rightarrow> VGABuffer \<times> vga \<Rightarrow> bool" where
  "vga_shows t ls = (\<lambda>(v, s). ls \<noteq> [] \<and> (\<forall>l \<in> set ls. length l \<le> 80) \<and> vb_x v = length (hd ls) \<and>
     vb_y v \<le> 25 \<and> vb_y v < length ls \<and> (vb_y v + 1 < length ls \<longrightarrow> 24 \<le> vb_y v) \<and> (vb_y v = 25 \<longrightarrow> vb_x v = 0) \<and>
     vga_buffer v = rows (length ls - 1 - vb_y v) ls \<and> drawn t (vga_buffer v) s)"

section \<open>The scrolling loops\<close>

lemma length_set_cell [simp]: "length (set_cell i j v b) = length b"
  by (simp add: set_cell_def)

lemma nth_set_cell: "i < length b \<Longrightarrow> k < length b \<Longrightarrow> set_cell i j v b ! k = (if k = i then (b ! i)[j := v] else b ! k)"
  by (simp add: set_cell_def)

lemma rect_nth: "rect b \<Longrightarrow> i < 25 \<Longrightarrow> length (b ! i) = 80"
  by (auto simp: rect_def)

lemma rect_set_cell [intro]: "rect b \<Longrightarrow> i < 25 \<Longrightarrow> rect (set_cell i j v b)"
  by (auto simp: rect_def set_cell_def dest!: set_update_subset_insert [THEN subsetD])

lemma list_update_take_drop: "n < length r \<Longrightarrow> n < length xs \<Longrightarrow> (take n xs @ drop n r)[n := xs ! n] = take (Suc n) xs @ drop (Suc n) r"
  by (simp add: list_update_append take_Suc_conv_app_nth Cons_nth_drop_Suc [symmetric])

text \<open>A loop that assigns the cells of row \<open>i\<close> from left to right.\<close>

lemma fill_row:
  assumes "rect b" and "i < 25" and "length xs = 80" and "n \<le> 80"
    and "\<And>b' j. j < 80 \<Longrightarrow> (\<forall>k < 25. k \<noteq> i \<longrightarrow> b' ! k = b ! k) \<Longrightarrow> f b' j = xs ! j"
  shows "fold (\<lambda>j b. set_cell i j (f b j) b) [0..<n] b = b[i := take n xs @ drop n (b ! i)]"
  using assms(4)
proof (induction n)
  case 0
  then show ?case by simp
next
  case (Suc n)
  let ?b = "b[i := take n xs @ drop n (b ! i)]"
  have len: "length b = 25" "length (b ! i) = 80" using assms(1,2) by (auto simp: rect_def)
  have f: "f ?b n = xs ! n" using Suc.prems by (intro assms(5)) auto
  have "set_cell i n (xs ! n) ?b = b[i := take (Suc n) xs @ drop (Suc n) (b ! i)]"
    using len assms(2,3) Suc.prems list_update_take_drop [of n "b ! i" xs] by (simp add: set_cell_def)
  moreover have "fold (\<lambda>j b. set_cell i j (f b j) b) [0..<n] b = ?b" using Suc by simp
  ultimately show ?case using f by simp
qed

lemma move_rows_spec:
  assumes "rect b" and "n \<le> 24"
  shows "fold (\<lambda>i b. fold (\<lambda>j b. set_cell i j (cell b (i + 1) j) b) [0..<80] b) [0..<n] b =
    map (\<lambda>i. if i < n then b ! (i + 1) else b ! i) [0..<25]"
  using assms(2)
proof (induction n)
  case 0
  have "length b = 25" using assms(1) by (simp add: rect_def)
  then show ?case by (simp add: list_eq_iff_nth_eq)
next
  case (Suc n)
  let ?b = "map (\<lambda>i. if i < n then b ! (i + 1) else b ! i) [0..<25]"
  have r: "rect ?b" using assms(1) Suc.prems by (auto simp: rect_def)
  have "fold (\<lambda>j b. set_cell n j (cell b (n + 1) j) b) [0..<80] ?b = ?b[n := b ! (n + 1)]"
    using fill_row [OF r, of n "b ! (n + 1)" 80 "\<lambda>b j. cell b (n + 1) j"] Suc.prems rect_nth [OF assms(1), of "n + 1"]
      rect_nth [OF assms(1), of n] by (simp add: cell_def)
  moreover have "?b[n := b ! (n + 1)] = map (\<lambda>i. if i < Suc n then b ! (i + 1) else b ! i) [0..<25]"
    using Suc.prems by (intro nth_equalityI) (auto simp: nth_list_update)
  ultimately show ?case using Suc by simp
qed

lemma scroll_rows:
  assumes "rect b"
  shows "clear_last_row (move_rows b) = tl b @ [replicate 80 0]"
proof -
  let ?b = "map (\<lambda>i. if i < 24 then b ! (i + 1) else b ! i) [0..<25]"
  have l: "length b = 25" using assms by (simp add: rect_def)
  have m: "move_rows b = ?b" using move_rows_spec [OF assms, of 24] by (simp add: move_rows_def)
  have r: "rect ?b" using assms by (auto simp: rect_def)
  have "clear_last_row ?b = ?b[24 := replicate 80 0]"
    using fill_row [OF r, of 24 "replicate 80 0" 80 "\<lambda>_ _. 0"] rect_nth [OF r, of 24] by (simp add: clear_last_row_def)
  also have "\<dots> = tl b @ [replicate 80 0]"
    using l by (intro nth_equalityI) (auto simp: nth_list_update nth_append nth_tl)
  finally show ?thesis using m by simp
qed

text \<open>Drawing every row.\<close>

lemma of_nat_u8: "n < 256 \<Longrightarrow> unat (of_nat n :: u8) = n"
  by (rule of_nat_inverse [OF refl]) simp

lemma DrawChar_xy_cell:
  "j < 80 \<Longrightarrow> i < 25 \<Longrightarrow> DrawChar_xy t ch (of_nat j) (of_nat i) s = s(cell_index j i := glyph (fg_color t) (bg_color t) ch)"
  using DrawChar_at_cell [of "of_nat j" "of_nat i"] by (simp add: DrawChar_xy_def of_nat_u8)

lemma draw_row:
  assumes "i < 25" and "n \<le> 80"
  shows "fold (\<lambda>j s. DrawChar_xy t (cell b i j) (of_nat j) (of_nat i) s) [0..<n] s =
    (\<lambda>k. if k div 80 = i \<and> k mod 80 < n then glyph (fg_color t) (bg_color t) (b ! i ! (k mod 80)) else s k)"
  using assms(2)
proof (induction n)
  case (Suc n)
  have "k = cell_index n i \<longleftrightarrow> k div 80 = i \<and> k mod 80 = n" for k
    using Suc.prems cell_index_div [of n i] by (auto simp: cell_index_def)
  then show ?case using Suc assms(1) by (auto simp: DrawChar_xy_cell cell_def less_Suc_eq fun_eq_iff)
qed simp

lemma redraw_cells:
  "redraw t b s = (\<lambda>k. if k div 80 < 25 then glyph (fg_color t) (bg_color t) (b ! (k div 80) ! (k mod 80)) else s k)"
proof -
  have "fold (\<lambda>i s. fold (\<lambda>j s. DrawChar_xy t (cell b i j) (of_nat j) (of_nat i) s) [0..<80] s) [0..<n] s =
    (\<lambda>k. if k div 80 < n then glyph (fg_color t) (bg_color t) (b ! (k div 80) ! (k mod 80)) else s k)" if "n \<le> 25" for n
    using that
  proof (induction n)
    case (Suc n)
    then show ?case by (auto simp: draw_row less_Suc_eq fun_eq_iff)
  qed simp
  then show ?thesis by (simp add: redraw_def)
qed

lemma drawn_redraw: "drawn t b (redraw t b s)"
  by (simp add: drawn_def redraw_cells cell_index_div)

lemma drawn_set_cell:
  assumes "drawn t b s" and "rect b" and "y < 25" and "x < 80"
  shows "drawn t (set_cell y x ch b) (DrawChar_xy t ch (of_nat x) (of_nat y) s)"
proof -
  have l: "length b = 25" "length (b ! y) = 80" using assms by (auto simp: rect_def)
  show ?thesis
    using assms(1,3,4) l unfolding drawn_def
    by (auto simp: DrawChar_xy_cell cell_index_inj nth_set_cell nth_list_update)
qed

section \<open>Simulation\<close>

lemma length_pad: "length l \<le> 80 \<Longrightarrow> length (pad l) = 80"
  by (simp add: pad_def)

lemma rect_rows: "\<forall>l \<in> set ls. length l \<le> 80 \<Longrightarrow> rect (rows p ls)"
  by (auto simp: rect_def rows_def length_pad) (metis length_pad length_rev nth_mem set_rev)

lemma rows_new_line: "rows p ([] # ls) = rows p ls"
  by (auto simp: rows_def nth_append pad_def)

lemma rows_scroll:
  assumes "length ls = p + 25"
  shows "tl (rows p ls) @ [replicate 80 0] = rows (Suc p) ([] # ls)"
proof (rule nth_equalityI)
  fix i assume "i < length (tl (rows p ls) @ [replicate 80 0])"
  then have "i < 25" by (simp add: rows_def)
  then show "(tl (rows p ls) @ [replicate 80 0]) ! i = rows (Suc p) ([] # ls) ! i"
    using assms by (auto simp: rows_def nth_append nth_tl pad_def)
qed (simp add: rows_def)

lemma pad_snoc: "length l < 80 \<Longrightarrow> (pad l)[length l := ch] = pad (l @ [ch])"
  by (cases "80 - length l") (auto simp: pad_def list_update_append Suc_diff_Suc)

lemma rows_put:
  assumes "length (l # ls) = p + Suc y" and "y < 25" and "length l < 80"
  shows "set_cell y (length l) ch (rows p (l # ls)) = rows p ((l @ [ch]) # ls)"
proof (rule nth_equalityI)
  fix i assume "i < length (set_cell y (length l) ch (rows p (l # ls)))"
  then have i: "i < 25" by (simp add: rows_def)
  have "p + y = length ls" using assms(1) by simp
  then show "set_cell y (length l) ch (rows p (l # ls)) ! i = rows p ((l @ [ch]) # ls) ! i"
    using assms i by (auto simp: rows_def nth_set_cell nth_append pad_snoc)
qed (simp add: rows_def)

lemma shows_new_line:
  assumes "vga_shows t ls (v, s)" and "vb_y v < 25"
  shows "vga_shows t ([] # ls) (v\<lparr>vb_x := 0, vb_y := vb_y v + 1\<rparr>, s)"
  using assms by (auto simp: vga_shows_def rows_new_line)

lemma shows_scroll:
  assumes "vga_shows t ls (v, s)" and "25 \<le> vb_y v"
  defines "b \<equiv> clear_last_row (move_rows (vga_buffer v))"
  shows "vga_shows t ls (v\<lparr>vga_buffer := b, vb_y := 24\<rparr>, redraw t b s)"
proof -
  have y: "vb_y v = 25" and x: "vb_x v = 0" and b: "vga_buffer v = rows (length ls - 26) ls"
    using assms(1,2) by (auto simp: vga_shows_def)
  obtain ls' where ls: "ls = [] # ls'" using assms(1) x by (cases ls) (auto simp: vga_shows_def)
  define p where "p = length ls - 26"
  have len: "length ls' = p + 25" using assms(1) y by (auto simp: vga_shows_def ls p_def)
  have "rect (vga_buffer v)" using assms(1) rect_rows by (auto simp: vga_shows_def)
  then have "b = tl (rows p ls) @ [replicate 80 0]"
    using scroll_rows by (simp add: b_def b p_def)
  then have "b = rows (Suc p) ls" using rows_scroll [OF len] by (simp add: ls rows_new_line)
  then show ?thesis using assms(1) y len drawn_redraw by (simp add: vga_shows_def ls)
qed

lemma shows_put:
  assumes "vga_shows t ls (v, s)" and "vb_y v < 25" and "vb_x v < 80"
  shows "vga_shows t ((hd ls @ [ch]) # tl ls)
    (v\<lparr>vga_buffer := set_cell (vb_y v) (vb_x v) ch (vga_buffer v), vb_x := vb_x v + 1\<rparr>,
     DrawChar_xy t ch (of_nat (vb_x v)) (of_nat (vb_y v)) s)"
proof -
  obtain l ls' where ls: "ls = l # ls'" using assms(1) by (cases ls) (auto simp: vga_shows_def)
  let ?p = "length ls - 1 - vb_y v"
  have x: "vb_x v = length l" and b: "vga_buffer v = rows ?p ls" and y: "vb_y v < length ls"
    and le: "\<forall>l \<in> set ls. length l \<le> 80" and d: "drawn t (vga_buffer v) s"
    using assms(1) by (auto simp: vga_shows_def ls)
  have "set_cell (vb_y v) (vb_x v) ch (vga_buffer v) = rows ?p ((l @ [ch]) # ls')"
    using rows_put [of l ls' ?p "vb_y v" ch] assms(2,3) x y b by (simp add: ls)
  moreover have "drawn t (set_cell (vb_y v) (vb_x v) ch (vga_buffer v)) (DrawChar_xy t ch (of_nat (vb_x v)) (of_nat (vb_y v)) s)"
    using drawn_set_cell [OF d] rect_rows [OF le] assms(2,3) b by simp
  ultimately show ?thesis using assms by (auto simp: vga_shows_def ls)
qed

lemma WriteByte_shows:
  assumes "vga_shows t ls vs"
  shows "vga_shows t (put_byte ch ls) (VGABuffer_WriteByte t ch vs)"
proof -
  obtain v s where vs: "vs = (v, s)" by (cases vs)
  define ls1 v1 where "ls1 = (if 80 \<le> length (hd ls) then [] # ls else ls)"
    and "v1 = (if 80 \<le> vb_x v then v\<lparr>vb_x := 0, vb_y := vb_y v + 1\<rparr> else v)"
  have x: "vb_x v = length (hd ls)" and "vb_y v = 25 \<longrightarrow> vb_x v = 0" "vb_y v \<le> 25" using assms by (auto simp: vs vga_shows_def)
  then have 1: "vga_shows t ls1 (v1, s)" "vb_x v1 < 80"
    using assms shows_new_line [of t ls v s] by (auto simp: vs ls1_def v1_def)
  define b where "b = clear_last_row (move_rows (vga_buffer v1))"
  define v2 s2 where "v2 = (if 25 \<le> vb_y v1 then v1\<lparr>vga_buffer := b, vb_y := 24\<rparr> else v1)"
    and "s2 = (if 25 \<le> vb_y v1 then redraw t b s else s)"
  have 2: "vga_shows t ls1 (v2, s2)" "vb_y v2 < 25" "vb_x v2 < 80"
    using 1 shows_scroll [OF 1(1)] by (auto simp: v2_def s2_def b_def)
  have "VGABuffer_WriteByte t ch vs = (if ch = 10 then (v2\<lparr>vb_x := 0, vb_y := vb_y v2 + 1\<rparr>, s2)
     else (v2\<lparr>vga_buffer := set_cell (vb_y v2) (vb_x v2) ch (vga_buffer v2), vb_x := vb_x v2 + 1\<rparr>,
       DrawChar_xy t ch (of_nat (vb_x v2)) (of_nat (vb_y v2)) s2))"
    unfolding VGABuffer_WriteByte_def vs
    by (simp add: Let_def v1_def [symmetric] b_def [symmetric] v2_def s2_def)
  moreover have "put_byte ch ls = (if ch = 10 then [] # ls1 else (hd ls1 @ [ch]) # tl ls1)"
    by (simp add: put_byte_def Let_def ls1_def)
  ultimately show ?thesis using shows_new_line [OF 2(1,2)] shows_put [OF 2] by simp
qed

lemma VGABuffer_shows: "vga_shows t [[]] (VGABuffer_ctor, Terminal_Reset s)"
proof -
  have "rows 0 [[]] = replicate 25 (replicate 80 0)"
    by (rule nth_equalityI) (auto simp: rows_def pad_def)
  then show ?thesis by (simp add: vga_shows_def VGABuffer_ctor_def drawn_def Reset_cell cell_index_less)
qed

lemma shows_text: "vga_shows t ls vs \<Longrightarrow> vga_shows t (fold put_byte bs ls) (fold (VGABuffer_WriteByte t) bs vs)"
  by (induction bs arbitrary: ls vs) (simp_all add: WriteByte_shows)

section \<open>Properties\<close>

text \<open>
  C3. The text screen refines a list of lines. After any bytes written to a fresh \<^verbatim>\<open>VGABuffer\<close> on a reset screen, the 25 rows of the
  buffer hold the last lines of the text, broken at 80 columns and at newlines, padded with zeros, and every cell
  of the screen shows the byte of its row, or is still blank where none was written.
\<close>

theorem VGABuffer_refines_lines:
  defines "lines bs \<equiv> fold put_byte bs [[]]"
  shows "\<exists>v s'. fold (VGABuffer_WriteByte t) bs (VGABuffer_ctor, Terminal_Reset s) = (v, s') \<and>
    vb_x v = length (hd (lines bs)) \<and> vb_y v \<le> 25 \<and> vb_y v < length (lines bs) \<and> min 24 (length (lines bs) - 1) \<le> vb_y v \<and>
    vga_buffer v = rows (length (lines bs) - 1 - vb_y v) (lines bs) \<and> drawn t (vga_buffer v) s'"
proof -
  have "vga_shows t (fold put_byte bs [[]]) (fold (VGABuffer_WriteByte t) bs (VGABuffer_ctor, Terminal_Reset s))"
    by (rule shows_text [OF VGABuffer_shows])
  then show ?thesis
    unfolding lines_def vga_shows_def
    by (cases "fold (VGABuffer_WriteByte t) bs (VGABuffer_ctor, Terminal_Reset s)") auto
qed

end
