(* ===== verification/Io_Ports.thy ===== *)
theory Io_Ports
  imports Word_Bits
begin

text \<open>
  Port input and output, and the PCI configuration accesses built on it (\<^verbatim>\<open>kern/io-ports.h\<close>). The machine is
  the history of port accesses; what a device answers to an input is a parameter, a function of that history.
\<close>

section \<open>Port accesses\<close>

datatype io_event =
    Out8 u16 u8 | Out16 u16 u16 | Out32 u16 u32
  | In8 u16 | In16 u16 | In32 u16

type_synonym io_log = "io_event list"

text \<open>The devices: the 8, 16 and 32 bit answers, given the accesses so far, latest first.\<close>

record devices =
  answer8 :: "io_log \<Rightarrow> u16 \<Rightarrow> u8"
  answer16 :: "io_log \<Rightarrow> u16 \<Rightarrow> u16"
  answer32 :: "io_log \<Rightarrow> u16 \<Rightarrow> u32"

definition OutB :: "u16 \<Rightarrow> u8 \<Rightarrow> io_log \<Rightarrow> io_log" where "OutB port val h = Out8 port val # h"
definition OutW :: "u16 \<Rightarrow> u16 \<Rightarrow> io_log \<Rightarrow> io_log" where "OutW port val h = Out16 port val # h"
definition OutDW :: "u16 \<Rightarrow> u32 \<Rightarrow> io_log \<Rightarrow> io_log" where "OutDW port val h = Out32 port val # h"
definition InB :: "devices \<Rightarrow> u16 \<Rightarrow> io_log \<Rightarrow> u8 \<times> io_log" where "InB dev port h = (answer8 dev h port, In8 port # h)"
definition InW :: "devices \<Rightarrow> u16 \<Rightarrow> io_log \<Rightarrow> u16 \<times> io_log" where "InW dev port h = (answer16 dev h port, In16 port # h)"
definition InDW :: "devices \<Rightarrow> u16 \<Rightarrow> io_log \<Rightarrow> u32 \<times> io_log" where "InDW dev port h = (answer32 dev h port, In32 port # h)"

section \<open>PCI configuration space\<close>

definition kPciAddressPort :: u16 where "kPciAddressPort = 0xCF8"
definition kPciDataPort :: u16 where "kPciDataPort = 0xCFC"

definition PciWriteAddr :: "u8 \<Rightarrow> u8 \<Rightarrow> u8 \<Rightarrow> u8 \<Rightarrow> io_log \<Rightarrow> io_log result" where
  "PciWriteAddr bus slot func off h =
     kassert ''slot < 32'' (slot < 32) (kassert ''func < 8'' (func < 8)
       (Inr (OutDW kPciAddressPort
         (push_bit 16 (ucast bus) OR push_bit 11 (ucast slot) OR push_bit 8 (ucast func) OR
          (ucast off AND 0xfc) OR 0x80000000) h)))"

definition PciReadB :: "devices \<Rightarrow> u8 \<Rightarrow> u8 \<Rightarrow> u8 \<Rightarrow> u8 \<Rightarrow> io_log \<Rightarrow> (u8 \<times> io_log) result" where
  "PciReadB dev bus slot func off h = ebind (PciWriteAddr bus slot func off h) (\<lambda>h1.
     let (v, h2) = InDW dev kPciDataPort h1 in Inr (ucast (drop_bit (unat (off AND 3) * 8) v AND 0xff), h2))"

definition PciReadW :: "devices \<Rightarrow> u8 \<Rightarrow> u8 \<Rightarrow> u8 \<Rightarrow> u8 \<Rightarrow> io_log \<Rightarrow> (u16 \<times> io_log) result" where
  "PciReadW dev bus slot func off h = kassert ''(offset & 1) == 0'' (off AND 1 = 0)
     (ebind (PciWriteAddr bus slot func off h) (\<lambda>h1.
     let (v, h2) = InDW dev kPciDataPort h1 in Inr (ucast (drop_bit (unat (off AND 2) * 8) v AND 0xffff), h2)))"

definition PciReadDW :: "devices \<Rightarrow> u8 \<Rightarrow> u8 \<Rightarrow> u8 \<Rightarrow> u8 \<Rightarrow> io_log \<Rightarrow> (u32 \<times> io_log) result" where
  "PciReadDW dev bus slot func off h = kassert ''(offset & 3) == 0'' (off AND 3 = 0)
     (ebind (PciWriteAddr bus slot func off h) (\<lambda>h1. Inr (InDW dev kPciDataPort h1)))"

definition PciWriteB :: "u8 \<Rightarrow> u8 \<Rightarrow> u8 \<Rightarrow> u8 \<Rightarrow> u8 \<Rightarrow> io_log \<Rightarrow> io_log result" where
  "PciWriteB bus slot func off val h = ebind (PciWriteAddr bus slot func off h) (\<lambda>h1.
     Inr (OutB (kPciDataPort + ucast (off AND 3)) val h1))"

definition PciWriteW :: "u8 \<Rightarrow> u8 \<Rightarrow> u8 \<Rightarrow> u8 \<Rightarrow> u16 \<Rightarrow> io_log \<Rightarrow> io_log result" where
  "PciWriteW bus slot func off val h = kassert ''(offset & 1) == 0'' (off AND 1 = 0)
     (ebind (PciWriteAddr bus slot func off h) (\<lambda>h1. Inr (OutW (kPciDataPort + ucast (off AND 2)) val h1)))"

definition PciWriteDW :: "u8 \<Rightarrow> u8 \<Rightarrow> u8 \<Rightarrow> u8 \<Rightarrow> u32 \<Rightarrow> io_log \<Rightarrow> io_log result" where
  "PciWriteDW bus slot func off val h = kassert ''(offset & 3) == 0'' (off AND 3 = 0)
     (ebind (PciWriteAddr bus slot func off h) (\<lambda>h1. Inr (OutDW kPciDataPort val h1)))"

section \<open>The host bridge\<close>

text \<open>
  The other side of the interface, PCI configuration mechanism 1: the dword last written to port \<open>0xCF8\<close> selects a function and
  a dword of its configuration space, and the data ports \<open>0xCFC\<close> to \<open>0xCFF\<close> are its four bytes while the enable bit, bit 31 of
  the address, is set. Without it the bridge ignores writes of data and answers all ones, as it does on every other port.
  \<open>bridge_after\<close> is what the bridge makes of a history of accesses, latest first.
\<close>

type_synonym config_space = "u8 \<Rightarrow> u8 \<Rightarrow> u8 \<Rightarrow> u8 \<Rightarrow> u8"

record bridge =
  select :: u32
  space :: config_space

definition sel_bus :: "u32 \<Rightarrow> u8" where "sel_bus a = ucast (drop_bit 16 a)"
definition sel_slot :: "u32 \<Rightarrow> u8" where "sel_slot a = ucast (drop_bit 11 a) AND 31"
definition sel_func :: "u32 \<Rightarrow> u8" where "sel_func a = ucast (drop_bit 8 a) AND 7"
definition sel_reg :: "u32 \<Rightarrow> u8" where "sel_reg a = ucast a AND 0xfc"

definition sel_enabled :: "u32 \<Rightarrow> bool" where "sel_enabled a \<longleftrightarrow> bit a 31"

definition config_byte :: "bridge \<Rightarrow> u8 \<Rightarrow> u8" where
  "config_byte b i = (if sel_enabled (select b)
     then space b (sel_bus (select b)) (sel_slot (select b)) (sel_func (select b)) (sel_reg (select b) + i) else 0xff)"

definition set_config_byte :: "u8 \<Rightarrow> u8 \<Rightarrow> bridge \<Rightarrow> bridge" where
  "set_config_byte i v b = b\<lparr>space := (\<lambda>bus slot func reg.
     if sel_enabled (select b) \<and> bus = sel_bus (select b) \<and> slot = sel_slot (select b) \<and> func = sel_func (select b) \<and> reg = sel_reg (select b) + i
     then v else space b bus slot func reg)\<rparr>"

definition le16 :: "u8 \<Rightarrow> u8 \<Rightarrow> u16" where "le16 b0 b1 = ucast b0 OR push_bit 8 (ucast b1)"
definition le32 :: "u8 \<Rightarrow> u8 \<Rightarrow> u8 \<Rightarrow> u8 \<Rightarrow> u32" where
  "le32 b0 b1 b2 b3 = ucast b0 OR push_bit 8 (ucast b1) OR push_bit 16 (ucast b2) OR push_bit 24 (ucast b3)"

fun bridge_step :: "io_event \<Rightarrow> bridge \<Rightarrow> bridge" where
  "bridge_step (Out32 p v) b =
     (if p = 0xCF8 then b\<lparr>select := v\<rparr>
      else if p = 0xCFC then set_config_byte 3 (ucast (drop_bit 24 v)) (set_config_byte 2 (ucast (drop_bit 16 v))
        (set_config_byte 1 (ucast (drop_bit 8 v)) (set_config_byte 0 (ucast v) b)))
      else b)"
| "bridge_step (Out16 p v) b =
     (if p = 0xCFC \<or> p = 0xCFE
      then set_config_byte (ucast (p - 0xCFC) + 1) (ucast (drop_bit 8 v)) (set_config_byte (ucast (p - 0xCFC)) (ucast v) b)
      else b)"
| "bridge_step (Out8 p v) b = (if 0xCFC \<le> p \<and> p \<le> 0xCFF then set_config_byte (ucast (p - 0xCFC)) v b else b)"
| "bridge_step e b = b"

fun bridge_after :: "bridge \<Rightarrow> io_log \<Rightarrow> bridge" where
  "bridge_after b [] = b"
| "bridge_after b (e # h) = bridge_step e (bridge_after b h)"

definition data_port8 :: "u16 \<Rightarrow> bool" where "data_port8 p \<longleftrightarrow> 0xCFC \<le> p \<and> p \<le> 0xCFF"
definition data_port16 :: "u16 \<Rightarrow> bool" where "data_port16 p \<longleftrightarrow> p = 0xCFC \<or> p = 0xCFE"

definition bridge_devices :: "bridge \<Rightarrow> devices" where
  "bridge_devices b = \<lparr>
     answer8 = (\<lambda>h p. let c = config_byte (bridge_after b h) in if data_port8 p then c (ucast (p - 0xCFC)) else 0xff),
     answer16 = (\<lambda>h p. let c = config_byte (bridge_after b h) in
       if data_port16 p then le16 (c (ucast (p - 0xCFC))) (c (ucast (p - 0xCFC) + 1)) else 0xffff),
     answer32 = (\<lambda>h p. let c = config_byte (bridge_after b h) in
       if p = 0xCF8 then select (bridge_after b h)
       else if p = 0xCFC then le32 (c 0) (c 1) (c 2) (c 3) else 0xffffffff)\<rparr>"

section \<open>Lemmas\<close>

text \<open>The address dword \<^verbatim>\<open>PciWriteAddr\<close> composes, and that the bridge takes it apart again.\<close>

definition pci_address :: "u8 \<Rightarrow> u8 \<Rightarrow> u8 \<Rightarrow> u8 \<Rightarrow> u32" where
  "pci_address bus slot func off = push_bit 16 (ucast bus) OR push_bit 11 (ucast slot) OR push_bit 8 (ucast func) OR
     (ucast off AND 0xfc) OR 0x80000000"

lemma PciWriteAddr_select:
  "slot < 32 \<Longrightarrow> func < 8 \<Longrightarrow> PciWriteAddr bus slot func off h = Inr (Out32 0xCF8 (pci_address bus slot func off) # h)"
  by (simp add: PciWriteAddr_def OutDW_def kPciAddressPort_def pci_address_def)

lemma pci_address_fields:
  assumes "slot < 32" and "func < 8"
  shows "sel_bus (pci_address bus slot func off) = bus" "sel_slot (pci_address bus slot func off) = slot"
    "sel_func (pci_address bus slot func off) = func" "sel_reg (pci_address bus slot func off) = off AND 0xfc"
    "sel_enabled (pci_address bus slot func off)"
proof -
  have "\<not> bit slot i" if "5 \<le> i" for i using bit_below [of slot 5 i] assms(1) that by (simp add: word_less_nat_alt)
  moreover have "\<not> bit func i" if "3 \<le> i" for i using bit_below [of func 3 i] assms(2) that by (simp add: word_less_nat_alt)
  ultimately show "sel_bus (pci_address bus slot func off) = bus" "sel_slot (pci_address bus slot func off) = slot"
    "sel_func (pci_address bus slot func off) = func" "sel_reg (pci_address bus slot func off) = off AND 0xfc"
    "sel_enabled (pci_address bus slot func off)"
    by (simp_all add: word_bits sel_bus_def sel_slot_def sel_func_def sel_reg_def sel_enabled_def pci_address_def bit_simps)
qed

lemma off_split: "(off AND 0xfc) + (off AND 3) = off" for off :: u8
proof -
  have "(off AND 0xfc) + (off AND 3) = (off AND 0xfc) OR (off AND 3)"
    by (rule plus_disjoint) (simp add: word_bits bit_simps)
  also have "\<dots> = off" by (simp add: word_bits bit_simps)
  finally show ?thesis .
qed

lemma and_3_cases:
  fixes off :: u8
  obtains "off AND 3 = 0" | "off AND 3 = 1" | "off AND 3 = 2" | "off AND 3 = 3"
proof -
  have "off AND 3 = (if bit off 0 then 1 else 0) + (if bit off 1 then 2 else 0)"
    by (simp add: word_bits bit_simps)
  then show ?thesis using that by (cases "bit off 0"; cases "bit off 1") auto
qed

lemma le32_bytes:
  "ucast (le32 b0 b1 b2 b3) = b0" "ucast (drop_bit 8 (le32 b0 b1 b2 b3)) = b1"
  "ucast (drop_bit 16 (le32 b0 b1 b2 b3)) = b2" "ucast (drop_bit 24 (le32 b0 b1 b2 b3)) = b3"
  by (simp_all add: word_bits le32_def bit_simps)

lemma ucast_mask: "ucast (v AND 0xff) = (ucast v :: u8)" "ucast (v AND 0xffff) = (ucast v :: u16)" for v :: u32
  by (simp_all add: word_bits bit_simps)

text \<open>What the bridge holds, and what a read through it returns, at the selected function.\<close>

lemma config_byte_address:
  assumes "slot < 32" and "func < 8"
  shows "config_byte (bridge_step (Out32 0xCF8 (pci_address bus slot func off)) b) i = space b bus slot func ((off AND 0xfc) + i)"
  by (simp add: config_byte_def pci_address_fields [OF assms])

text \<open>The bytes of a configuration space with one of them changed.\<close>

definition with_byte :: "u8 \<Rightarrow> u8 \<Rightarrow> u8 \<Rightarrow> u8 \<Rightarrow> u8 \<Rightarrow> config_space \<Rightarrow> config_space" where
  "with_byte bus slot func off v S = (\<lambda>b' s' f' r'. if b' = bus \<and> s' = slot \<and> f' = func \<and> r' = off then v else S b' s' f' r')"

lemma space_set_config_byte [simp]:
  "sel_enabled (select b) \<Longrightarrow> space (set_config_byte i v b) =
    with_byte (sel_bus (select b)) (sel_slot (select b)) (sel_func (select b)) (sel_reg (select b) + i) v (space b)"
  by (simp add: set_config_byte_def with_byte_def)

lemma select_set_config_byte [simp]: "select (set_config_byte i v b) = select b"
  by (simp add: set_config_byte_def)

lemma and_low: "off AND 1 = 0 \<Longrightarrow> off AND 3 = off AND 2" "off AND 3 = 0 \<Longrightarrow> off AND 0xfc = off" for off :: u8
  using off_split [of off] by (simp_all add: word_bits bit_simps)

lemma word_half_cases:
  fixes off :: u8
  assumes "off AND 1 = 0"
  obtains "off AND 2 = 0" "off AND 0xfc = off" | "off AND 2 = 2" "(off AND 0xfc) + 2 = off" "(off AND 0xfc) + 3 = off + 1"
proof -
  have e: "off AND 3 = off AND 2" and s: "(off AND 0xfc) + (off AND 2) = off" using assms and_low(1) off_split [of off] by simp_all
  have "off AND 2 = 0 \<or> off AND 2 = 2" by (cases "bit off 1") (simp_all add: word_bits bit_simps)
  then show ?thesis
  proof
    assume o2: "off AND 2 = 2"
    then have "(off AND 0xfc) + 2 = off" using s by simp
    moreover from this have "(off AND 0xfc) + 3 = off + 1" by (metis add.assoc numeral_plus_one semiring_norm(5))
    ultimately show ?thesis using that(2) o2 by blast
  qed (use that(1) s in simp)
qed

lemma PciReadB_bridge:
  assumes "slot < 32" and "func < 8"
  shows "PciReadB (bridge_devices b) bus slot func off h =
    Inr (space (bridge_after b h) bus slot func off, In32 0xCFC # Out32 0xCF8 (pci_address bus slot func off) # h)"
  by (rule and_3_cases [of off])
    (use assms off_split [of off] in \<open>simp_all add: PciReadB_def PciWriteAddr_select InDW_def bridge_devices_def kPciDataPort_def
      config_byte_address ucast_mask le32_bytes del: bridge_step.simps\<close>)

lemma PciReadW_bridge:
  assumes "slot < 32" and "func < 8" and "off AND 1 = 0"
  shows "PciReadW (bridge_devices b) bus slot func off h =
    Inr (le16 (space (bridge_after b h) bus slot func off) (space (bridge_after b h) bus slot func (off + 1)),
      In32 0xCFC # Out32 0xCF8 (pci_address bus slot func off) # h)"
proof -
  have lo: "ucast (drop_bit 0 (le32 b0 b1 b2 b3)) = le16 b0 b1" "ucast (drop_bit 16 (le32 b0 b1 b2 b3)) = le16 b2 b3" for b0 b1 b2 b3
    by (simp_all add: word_bits le32_def le16_def bit_simps)
  note defs = PciReadW_def PciWriteAddr_select InDW_def bridge_devices_def kPciDataPort_def config_byte_address ucast_mask
  consider "off AND 2 = 0" "off AND 0xfc = off" | "off AND 2 = 2" "(off AND 0xfc) + 2 = off" "(off AND 0xfc) + 3 = off + 1"
    by (rule word_half_cases [OF assms(3)])
  then show ?thesis
  proof cases
    case 1
    then show ?thesis using assms lo(1) by (simp add: defs del: bridge_step.simps)
  next
    case 2
    then show ?thesis using assms by (simp add: defs lo(2) 2(3) del: bridge_step.simps)
  qed
qed

lemma PciReadDW_bridge:
  assumes "slot < 32" and "func < 8" and "off AND 3 = 0"
  shows "PciReadDW (bridge_devices b) bus slot func off h =
    Inr (le32 (space (bridge_after b h) bus slot func off) (space (bridge_after b h) bus slot func (off + 1))
      (space (bridge_after b h) bus slot func (off + 2)) (space (bridge_after b h) bus slot func (off + 3)),
      In32 0xCFC # Out32 0xCF8 (pci_address bus slot func off) # h)"
  using assms and_low(2) by (simp add: PciReadDW_def PciWriteAddr_select InDW_def bridge_devices_def kPciDataPort_def
      config_byte_address del: bridge_step.simps)

lemma PciWriteB_bridge:
  assumes "slot < 32" and "func < 8"
  shows "\<exists>h'. PciWriteB bus slot func off v h = Inr h' \<and>
    space (bridge_after b h') = with_byte bus slot func off v (space (bridge_after b h))"
  by (rule and_3_cases [of off])
    (use assms off_split [of off] in \<open>simp_all add: PciWriteB_def PciWriteAddr_select OutB_def kPciDataPort_def
      pci_address_fields\<close>)

lemma PciWriteW_bridge:
  assumes "slot < 32" and "func < 8" and "off AND 1 = 0"
  shows "\<exists>h'. PciWriteW bus slot func off v h = Inr h' \<and>
    space (bridge_after b h') = with_byte bus slot func (off + 1) (ucast (drop_bit 8 v))
      (with_byte bus slot func off (ucast v) (space (bridge_after b h)))"
proof -
  note defs = PciWriteW_def PciWriteAddr_select OutW_def kPciDataPort_def pci_address_fields
  consider "off AND 2 = 0" "off AND 0xfc = off" | "off AND 2 = 2" "(off AND 0xfc) + 2 = off" "(off AND 0xfc) + 3 = off + 1"
    by (rule word_half_cases [OF assms(3)])
  then show ?thesis
  proof cases
    case 1
    then show ?thesis using assms by (simp add: defs)
  next
    case 2
    then show ?thesis using assms by (simp add: defs 2(3))
  qed
qed

lemma PciWriteDW_bridge:
  assumes "slot < 32" and "func < 8" and "off AND 3 = 0"
  shows "\<exists>h'. PciWriteDW bus slot func off v h = Inr h' \<and>
    space (bridge_after b h') = with_byte bus slot func (off + 3) (ucast (drop_bit 24 v))
      (with_byte bus slot func (off + 2) (ucast (drop_bit 16 v)) (with_byte bus slot func (off + 1) (ucast (drop_bit 8 v))
      (with_byte bus slot func off (ucast v) (space (bridge_after b h)))))"
  using assms and_low(2) [of off]
  by (simp add: PciWriteDW_def PciWriteAddr_select OutDW_def kPciDataPort_def pci_address_fields)

text \<open>The condition of the first failing assertion of a sequence of them.\<close>

fun first_failed :: "(bool \<times> string) list \<Rightarrow> string option" where
  "first_failed [] = None"
| "first_failed ((c, t) # cs) = (if c then first_failed cs else Some t)"

lemma space_select [simp]: "space (bridge_after b (In32 p # Out32 0xCF8 a # h)) = space (bridge_after b h)"
  by simp

section \<open>Properties\<close>

text \<open>
  C31. Against a host bridge that implements configuration mechanism 1, the byte, word and dword reads of \<^verbatim>\<open>IoPorts\<close> return the
  bytes of the addressed configuration space, little endian, whatever accesses came before, and change none of them; a
  misaligned access, or a slot or function out of range, panics with the condition that failed, the alignment first.
\<close>

theorem PciRead_correct:
  "(case first_failed [(slot < 32, ''slot < 32''), (func < 8, ''func < 8'')] of
      Some t \<Rightarrow> PciReadB (bridge_devices b) bus slot func off h = Inl (Panic t)
    | None \<Rightarrow> \<exists>h'. PciReadB (bridge_devices b) bus slot func off h = Inr (space (bridge_after b h) bus slot func off, h') \<and>
        space (bridge_after b h') = space (bridge_after b h)) \<and>
   (case first_failed [(off AND 1 = 0, ''(offset & 1) == 0''), (slot < 32, ''slot < 32''), (func < 8, ''func < 8'')] of
      Some t \<Rightarrow> PciReadW (bridge_devices b) bus slot func off h = Inl (Panic t)
    | None \<Rightarrow> \<exists>h'. PciReadW (bridge_devices b) bus slot func off h =
          Inr (le16 (space (bridge_after b h) bus slot func off) (space (bridge_after b h) bus slot func (off + 1)), h') \<and>
        space (bridge_after b h') = space (bridge_after b h)) \<and>
   (case first_failed [(off AND 3 = 0, ''(offset & 3) == 0''), (slot < 32, ''slot < 32''), (func < 8, ''func < 8'')] of
      Some t \<Rightarrow> PciReadDW (bridge_devices b) bus slot func off h = Inl (Panic t)
    | None \<Rightarrow> \<exists>h'. PciReadDW (bridge_devices b) bus slot func off h =
          Inr (le32 (space (bridge_after b h) bus slot func off) (space (bridge_after b h) bus slot func (off + 1))
            (space (bridge_after b h) bus slot func (off + 2)) (space (bridge_after b h) bus slot func (off + 3)), h') \<and>
        space (bridge_after b h') = space (bridge_after b h))"
proof (cases "slot < 32 \<and> func < 8")
  case True
  then show ?thesis using PciReadB_bridge [of slot func] PciReadW_bridge [of slot func off] PciReadDW_bridge [of slot func off]
    by (simp add: PciReadW_def PciReadDW_def)
qed (auto simp: PciReadB_def PciReadW_def PciReadDW_def PciWriteAddr_def kassert_def)

text \<open>
  C32. A configuration write changes the addressed byte, word or dword, at every offset the alignment check lets through, and no
  other byte of any function; a misaligned access, or a slot or function out of range, panics.
\<close>

theorem PciWrite_correct:
  "(case first_failed [(slot < 32, ''slot < 32''), (func < 8, ''func < 8'')] of
      Some t \<Rightarrow> PciWriteB bus slot func off v h = Inl (Panic t)
    | None \<Rightarrow> \<exists>h'. PciWriteB bus slot func off v h = Inr h' \<and>
        space (bridge_after b h') = with_byte bus slot func off v (space (bridge_after b h))) \<and>
   (case first_failed [(off AND 1 = 0, ''(offset & 1) == 0''), (slot < 32, ''slot < 32''), (func < 8, ''func < 8'')] of
      Some t \<Rightarrow> PciWriteW bus slot func off w h = Inl (Panic t)
    | None \<Rightarrow> \<exists>h'. PciWriteW bus slot func off w h = Inr h' \<and>
        space (bridge_after b h') = with_byte bus slot func (off + 1) (ucast (drop_bit 8 w))
          (with_byte bus slot func off (ucast w) (space (bridge_after b h)))) \<and>
   (case first_failed [(off AND 3 = 0, ''(offset & 3) == 0''), (slot < 32, ''slot < 32''), (func < 8, ''func < 8'')] of
      Some t \<Rightarrow> PciWriteDW bus slot func off d h = Inl (Panic t)
    | None \<Rightarrow> \<exists>h'. PciWriteDW bus slot func off d h = Inr h' \<and>
        space (bridge_after b h') = with_byte bus slot func (off + 3) (ucast (drop_bit 24 d))
          (with_byte bus slot func (off + 2) (ucast (drop_bit 16 d)) (with_byte bus slot func (off + 1) (ucast (drop_bit 8 d))
          (with_byte bus slot func off (ucast d) (space (bridge_after b h))))))"
proof (cases "slot < 32 \<and> func < 8")
  case True
  then show ?thesis using PciWriteB_bridge [of slot func] PciWriteW_bridge [of slot func off] PciWriteDW_bridge [of slot func off]
    by (simp add: PciWriteW_def PciWriteDW_def)
qed (auto simp: PciWriteB_def PciWriteW_def PciWriteDW_def PciWriteAddr_def kassert_def)

end
