(* ===== verification/Console.thy ===== *)
theory Console
  imports Vga_Buffer Io_Ports
begin

text \<open>
  The console (\<^verbatim>\<open>kern/console.h\<close>, \<^verbatim>\<open>kern/console.cc\<close>): the serial port, the chain of sources every byte is sent to, and
  formatted output.
\<close>

section \<open>Serial port\<close>

record SerialPort =
  sp_port :: u16

text \<open>Ports are \<^verbatim>\<open>int\<close> in the class and \<^verbatim>\<open>u16\<close> at every access.\<close>

definition SerialPort_ctor :: "u16 \<Rightarrow> io_log \<Rightarrow> SerialPort \<times> io_log" where
  "SerialPort_ctor p h =
     (let h = OutB (p + 1) 0x00 h; h = OutB (p + 3) 0x80 h; h = OutB (p + 0) 0x03 h; h = OutB (p + 1) 0x00 h;
          h = OutB (p + 3) 0x03 h; h = OutB (p + 2) 0xC7 h; h = OutB (p + 4) 0x0B h
      in (\<lparr>sp_port = p\<rparr>, h))"

definition COM1 :: u16 where "COM1 = 0x03F8"

definition SerialPort_WriteByte :: "SerialPort \<Rightarrow> u8 \<Rightarrow> io_log \<Rightarrow> io_log" where
  "SerialPort_WriteByte sp a h = OutB (sp_port sp) a h"

datatype InterruptMode = InterruptDataAvailable | InterruptTransmitterEmpty | InterruptError | InterruptStatusChange

primrec mode_number :: "InterruptMode \<Rightarrow> nat" where
  "mode_number InterruptDataAvailable = 0" | "mode_number InterruptTransmitterEmpty = 1"
| "mode_number InterruptError = 2" | "mode_number InterruptStatusChange = 3"

definition EnableInterrupt :: "devices \<Rightarrow> SerialPort \<Rightarrow> InterruptMode \<Rightarrow> io_log \<Rightarrow> io_log" where
  "EnableInterrupt dev sp mode h =
     (let bitmask = push_bit (mode_number mode) 1; (old, h) = InB dev (sp_port sp + 1) h
      in OutB (sp_port sp + 1) (old OR bitmask) h)"

definition DisableInterrupt :: "devices \<Rightarrow> SerialPort \<Rightarrow> InterruptMode \<Rightarrow> io_log \<Rightarrow> io_log" where
  "DisableInterrupt dev sp mode h =
     (let bitmask = push_bit (mode_number mode) 1; (old, h) = InB dev (sp_port sp + 1) h
      in OutB (sp_port sp + 1) (old AND NOT bitmask) h)"

section \<open>The chain of sources\<close>

text \<open>
  A source is an object at an address; its class decides which \<^verbatim>\<open>WriteByte\<close> a call runs. The console state also holds what
  the sources write to: the screen, the terminal with its colours, and the ports.
\<close>

datatype ConsoleSource = VGA VGABuffer | Serial SerialPort

record console =
  sources :: "nat option"
  source_next :: "nat \<Rightarrow> nat option"
  source_at :: "nat \<Rightarrow> ConsoleSource"
  terminal :: Terminal
  screen :: vga
  ports :: io_log

definition Console_init :: "console \<Rightarrow> console" where
  "Console_init k = k\<lparr>sources := None\<rparr>"

definition AddSource :: "nat \<Rightarrow> console \<Rightarrow> console" where
  "AddSource src k = k\<lparr>source_next := (source_next k)(src := sources k), sources := Some src\<rparr>"

definition source_WriteByte :: "nat \<Rightarrow> u8 \<Rightarrow> console \<Rightarrow> console" where
  "source_WriteByte a ch k = (case source_at k a of
     VGA v \<Rightarrow> let (v', s') = VGABuffer_WriteByte (terminal k) ch (v, screen k)
              in k\<lparr>source_at := (source_at k)(a := VGA v'), screen := s'\<rparr>
   | Serial sp \<Rightarrow> k\<lparr>ports := SerialPort_WriteByte sp ch (ports k)\<rparr>)"

partial_function (option) write_chain :: "nat option \<Rightarrow> u8 \<Rightarrow> console \<Rightarrow> console option" where
  "write_chain s ch k = (case s of None \<Rightarrow> Some k
     | Some a \<Rightarrow> (let k' = source_WriteByte a ch k in write_chain (source_next k' a) ch k'))"

definition Console_WriteByte :: "u8 \<Rightarrow> console \<Rightarrow> console option" where
  "Console_WriteByte ch k = write_chain (sources k) ch k"

section \<open>Formatted output\<close>

function dec_digits :: "u64 \<Rightarrow> u8 list" where
  "dec_digits u = (48 + ucast (u mod 10)) # (if u div 10 \<noteq> 0 then dec_digits (u div 10) else [])"
  by pat_completeness auto
termination
  by (relation "measure unat") (auto simp: unat_div_distrib unat_gt_0 div_less_dividend intro!: div_less_dividend)

definition hex_chars :: "u8 list" where
  "hex_chars = [48, 49, 50, 51, 52, 53, 54, 55, 56, 57, 97, 98, 99, 100, 101, 102]"

function hex_digits :: "u64 \<Rightarrow> u8 list" where
  "hex_digits u = hex_chars ! unat (u AND 0xf) # (if drop_bit 4 u \<noteq> 0 then hex_digits (drop_bit 4 u) else [])"
  by pat_completeness auto
termination
  by (relation "measure unat") (auto simp: drop_bit_eq_div unat_div_distrib unat_gt_0 intro!: div_less_dividend)

declare dec_digits.simps [simp del] hex_digits.simps [simp del]

fun write_bytes :: "u8 list \<Rightarrow> console \<Rightarrow> console option" where
  "write_bytes [] k = Some k"
| "write_bytes (b # bs) k = Option.bind (Console_WriteByte b k) (write_bytes bs)"

partial_function (option) write_string :: "mem \<Rightarrow> u64 \<Rightarrow> console \<Rightarrow> console option" where
  "write_string m s k = (if m s \<noteq> 0 then Option.bind (Console_WriteByte (m s) k) (\<lambda>k. write_string m (s + 1) k) else Some k)"

text \<open>
  \<open>ap i\<close> is the 8-byte argument slot \<open>i\<close> of the \<^verbatim>\<open>va_list\<close>. A directive starts after the percent sign; \<open>l\<close>
  counts the \<^verbatim>\<open>l\<close>s. It returns the rest of the format and the next slot.
\<close>

definition write_number :: "u8 \<Rightarrow> int \<Rightarrow> u64 \<Rightarrow> console \<Rightarrow> console option" where
  "write_number c l arg k =
     (let u = (if l = 2 then arg else if l = 1 then arg else ucast (ucast arg :: u32));
          buf = (if c = 100 \<or> c = 117 then dec_digits u else hex_digits u)
      in write_bytes (rev buf) k)"

partial_function (option) directive ::
    "mem \<Rightarrow> u64 \<Rightarrow> (nat \<Rightarrow> u64) \<Rightarrow> nat \<Rightarrow> int \<Rightarrow> console \<Rightarrow> (u64 \<times> nat \<times> console) option" where
  "directive m fmt ap i l k =
     (let c = m fmt in
      if c = 108 then directive m (fmt + 1) ap i (i32 (l + 1)) k
      else if c = 99 then map_option (\<lambda>k. (fmt + 1, i + 1, k)) (Console_WriteByte (ucast (ap i)) k)
      else if c = 115 then map_option (\<lambda>k. (fmt + 1, i + 1, k)) (write_string m (ap i) k)
      else if c = 100 \<or> c = 117 \<or> c = 120 then map_option (\<lambda>k. (fmt + 1, i + 1, k)) (write_number c l (ap i) k)
      else Some (fmt + 1, i, k))"

partial_function (option) vprintf :: "mem \<Rightarrow> u64 \<Rightarrow> (nat \<Rightarrow> u64) \<Rightarrow> nat \<Rightarrow> console \<Rightarrow> console option" where
  "vprintf m fmt ap i k =
     (let c = m fmt in
      if c = 0 then Some k
      else if c \<noteq> 37 then Option.bind (Console_WriteByte c k) (\<lambda>k. vprintf m (fmt + 1) ap i k)
      else Option.bind (directive m (fmt + 1) ap i 0 k) (\<lambda>(fmt', i', k'). vprintf m fmt' ap i' k'))"

definition printf :: "mem \<Rightarrow> u64 \<Rightarrow> (nat \<Rightarrow> u64) \<Rightarrow> console \<Rightarrow> console option" where
  "printf m fmt args k = vprintf m fmt args 0 k"

text \<open>\<^verbatim>\<open>kprintf\<close> prints on the default console.\<close>

definition kprintf :: "mem \<Rightarrow> u64 \<Rightarrow> (nat \<Rightarrow> u64) \<Rightarrow> console \<Rightarrow> console option" where
  "kprintf m fmt args def_console = vprintf m fmt args 0 def_console"

section \<open>Numbers\<close>

text \<open>The usual text of a number in base \<open>b\<close>, most significant digit first, and its value.\<close>

definition digit_char :: "nat \<Rightarrow> u8" where "digit_char d = (if d < 10 then 48 + of_nat d else 87 + of_nat d)"
definition digit_value :: "u8 \<Rightarrow> nat" where "digit_value c = (if unat c < 58 then unat c - 48 else unat c - 87)"

fun num_text :: "nat \<Rightarrow> nat \<Rightarrow> u8 list" where
  "num_text b n = (if n < b \<or> b < 2 then [digit_char n] else num_text b (n div b) @ [digit_char (n mod b)])"

declare num_text.simps [simp del]

definition num_value :: "nat \<Rightarrow> u8 list \<Rightarrow> nat" where
  "num_value b ds = foldl (\<lambda>a d. a * b + digit_value d) 0 ds"

lemma digit_value_char: "d < 16 \<Longrightarrow> digit_value (digit_char d) = d"
  by (simp add: digit_value_def digit_char_def unat_word_ariths of_nat_inverse [OF refl] unat_of_nat take_bit_eq_mod)

lemma num_value_text: "2 \<le> b \<Longrightarrow> b \<le> 16 \<Longrightarrow> num_value b (num_text b n) = n"
proof (induction b n rule: num_text.induct)
  case (1 b n)
  then show ?case
    by (subst num_text.simps) (auto simp: num_value_def digit_value_char less_le_trans [of _ b])
qed

lemma length_num_text: "2 \<le> b \<Longrightarrow> n < b ^ k \<Longrightarrow> length (num_text b n) \<le> max 1 k"
proof (induction b n arbitrary: k rule: num_text.induct)
  case (1 b n)
  show ?case
  proof (cases "n < b")
    case False
    then obtain k' where k: "k = Suc k'" using 1 by (cases k) auto
    then have "n div b < b ^ k'" using 1 by (simp add: less_mult_imp_div_less mult.commute)
    then have "length (num_text b (n div b)) \<le> max 1 k'" using 1 False by auto
    moreover have "0 < k'" using False 1 k by (cases k') auto
    ultimately show ?thesis using 1 False k by (subst num_text.simps) (auto simp: max_def)
  qed (subst num_text.simps, simp)
qed

lemma dec_digits_text: "rev (dec_digits u) = num_text 10 (unat u)"
proof (induction u rule: dec_digits.induct)
  case (1 u)
  have "u div 10 \<noteq> 0 \<longleftrightarrow> \<not> unat u < 10"
    by (auto simp: unat_div_distrib word_unat_eq_iff)
  moreover have "48 + ucast (u mod 10) = digit_char (unat u mod 10)"
  proof -
    have m: "unat u mod 10 = unat (u mod 10)" and "unat (u mod 10) < 10" by (simp_all add: unat_mod_distrib)
    then show ?thesis unfolding m digit_char_def by simp
  qed
  ultimately show ?case
    using 1 by (subst dec_digits.simps, subst num_text.simps) (auto simp: unat_div_distrib)
qed

lemma hex_char: "n < 16 \<Longrightarrow> hex_chars ! n = digit_char n"
  by (simp add: hex_chars_def digit_char_def numeral_eq_Suc less_Suc_eq) (elim disjE; simp)

lemma hex_digits_text: "rev (hex_digits u) = num_text 16 (unat u)"
proof (induction u rule: hex_digits.induct)
  case (1 u)
  have a: "u AND 0xf = u mod 16"
    using take_bit_eq_mask [of 4 u] by (simp add: take_bit_eq_mod mask_eq_exp_minus_1)
  have d: "drop_bit 4 u = u div 16" by (simp add: drop_bit_eq_div)
  have "u div 16 \<noteq> 0 \<longleftrightarrow> \<not> unat u < 16"
    by (auto simp: unat_div_distrib word_unat_eq_iff)
  moreover have "hex_chars ! unat (u mod 16) = digit_char (unat u mod 16)"
    using hex_char [of "unat u mod 16"] by (simp add: unat_mod_distrib)
  ultimately show ?case
    using 1 by (subst hex_digits.simps, subst num_text.simps) (auto simp: unat_div_distrib a d)
qed

section \<open>Formats\<close>

text \<open>
  What a format asks for: literal bytes, characters, strings (with the bytes found at the argument) and numbers
  (the conversion and how many \<^verbatim>\<open>l\<close>s precede it). Everything but a literal takes one argument slot.
\<close>

datatype fmt_item = Lit u8 | Chr | Str "u8 list" | Num u8 nat

primrec item_fmt :: "fmt_item \<Rightarrow> u8 list" where
  "item_fmt (Lit c) = [c]"
| "item_fmt Chr = [37, 99]"
| "item_fmt (Str xs) = [37, 115]"
| "item_fmt (Num c l) = 37 # replicate l 108 @ [c]"

definition num_arg :: "nat \<Rightarrow> u64 \<Rightarrow> nat" where
  "num_arg l a = (if l = 1 \<or> l = 2 then unat a else unat a mod 2 ^ 32)"

fun items_ok :: "mem \<Rightarrow> fmt_item list \<Rightarrow> (nat \<Rightarrow> u64) \<Rightarrow> nat \<Rightarrow> bool" where
  "items_ok m [] ap i \<longleftrightarrow> True"
| "items_ok m (Lit c # its) ap i \<longleftrightarrow> c \<noteq> 37 \<and> items_ok m its ap i"
| "items_ok m (Chr # its) ap i \<longleftrightarrow> items_ok m its ap (Suc i)"
| "items_ok m (Str xs # its) ap i \<longleftrightarrow> string_at m (ap i) xs \<and> items_ok m its ap (Suc i)"
| "items_ok m (Num c l # its) ap i \<longleftrightarrow> c \<in> {100, 117, 120} \<and> l < 2 ^ 31 \<and> items_ok m its ap (Suc i)"

fun render :: "fmt_item list \<Rightarrow> (nat \<Rightarrow> u64) \<Rightarrow> nat \<Rightarrow> u8 list" where
  "render [] ap i = []"
| "render (Lit c # its) ap i = c # render its ap i"
| "render (Chr # its) ap i = ucast (ap i) # render its ap (Suc i)"
| "render (Str xs # its) ap i = xs @ render its ap (Suc i)"
| "render (Num c l # its) ap i = num_text (if c = 120 then 16 else 10) (num_arg l (ap i)) @ render its ap (Suc i)"

lemma write_bytes_Nil: "write_bytes [] = Some"
  by (rule ext) simp

lemma write_bytes_append: "write_bytes (xs @ ys) k = Option.bind (write_bytes xs k) (write_bytes ys)"
  by (induction xs arbitrary: k) (auto split: Option.bind_split)

lemma string_at_append: "string_at m s (xs @ ys) \<Longrightarrow> string_at m (s + of_nat (length xs)) ys"
proof (induction xs arbitrary: s)
  case (Cons x xs)
  then have "string_at m (s + 1 + of_nat (length xs)) ys" by (simp add: string_at_Cons)
  then show ?case by (simp add: add.assoc)
qed simp

lemma write_string_bytes: "string_at m s xs \<Longrightarrow> write_string m s k = write_bytes xs k"
proof (induction xs arbitrary: s k)
  case Nil
  then show ?case by (subst write_string.simps) (simp add: string_at_Nil)
next
  case (Cons x xs)
  then have "write_string m (s + 1) = write_bytes xs" by (intro ext) (simp add: string_at_Cons)
  then show ?case using Cons.prems by (subst write_string.simps) (simp add: string_at_Cons)
qed

lemma write_number_text:
  assumes "c \<in> {100, 117, 120}"
  shows "write_number c (int l) a k = write_bytes (num_text (if c = 120 then 16 else 10) (num_arg l a)) k"
proof -
  have "unat (ucast (ucast a :: u32) :: u64) = unat a mod 2 ^ 32" by (simp add: unsigned_ucast_eq take_bit_eq_mod unat_mod_distrib)
  then show ?thesis using assms by (auto simp: write_number_def Let_def num_arg_def dec_digits_text hex_digits_text)
qed

text \<open>The \<^verbatim>\<open>l\<close>s before a conversion.\<close>

lemma directive_long:
  "string_at m p (replicate n 108 @ zs) \<Longrightarrow> l + n < 2 ^ 31 \<Longrightarrow>
    directive m p ap i (int l) k = directive m (p + of_nat n) ap i (int (l + n)) k"
proof (induction n arbitrary: p l)
  case (Suc n)
  have "i32 (int l + 1) = int (Suc l)" using Suc.prems(2) by (simp add: i32_def)
  then have "directive m p ap i (int l) k = directive m (p + 1) ap i (int (Suc l)) k"
    using Suc.prems(1) by (subst directive.simps) (simp add: string_at_Cons)
  also have "\<dots> = directive m (p + 1 + of_nat n) ap i (int (Suc l + n)) k"
    using Suc.prems by (intro Suc.IH) (auto simp: string_at_Cons)
  finally show ?case by (simp add: algebra_simps)
qed simp

lemma directive_number:
  assumes "string_at m p (replicate l 108 @ c # zs)" and "c \<in> {100, 117, 120}" and "l < 2 ^ 31"
  shows "directive m p ap i 0 k = map_option (\<lambda>k. (p + of_nat (Suc l), Suc i, k))
    (write_bytes (num_text (if c = 120 then 16 else 10) (num_arg l (ap i))) k)"
proof -
  have c: "m (p + of_nat l) = c" using string_at_append [OF assms(1)] by (simp add: string_at_Cons)
  have "directive m p ap i 0 k = directive m (p + of_nat l) ap i (int l) k"
    using directive_long [OF assms(1), of 0] assms(3) by simp
  also have "\<dots> = map_option (\<lambda>k. (p + of_nat (Suc l), Suc i, k)) (write_number c (int l) (ap i) k)"
  proof -
    have e: "p + of_nat (Suc l) = p + of_nat l + 1" by simp
    have "c \<noteq> 108" "c \<noteq> 99" "c \<noteq> 115" "c = 100 \<or> c = 117 \<or> c = 120" using assms(2) by auto
    then show ?thesis unfolding e using c by (subst directive.simps) (simp add: Let_def)
  qed
  finally show ?thesis using write_number_text [OF assms(2)] by simp
qed

lemma vprintf_directive:
  "m fmt = 37 \<Longrightarrow> directive m (fmt + 1) ap i 0 k = map_option (\<lambda>k. (fmt', i', k)) (write_bytes bs k) \<Longrightarrow>
    vprintf m fmt ap i k = Option.bind (write_bytes bs k) (\<lambda>k. vprintf m fmt' ap i' k)"
  by (subst vprintf.simps) (simp split: Option.bind_split)

lemma vprintf_items:
  "string_at m fmt (concat (map item_fmt its)) \<Longrightarrow> items_ok m its ap i \<Longrightarrow>
    vprintf m fmt ap i k = write_bytes (render its ap i) k"
proof (induction its arbitrary: fmt i k)
  case Nil
  then show ?case by (subst vprintf.simps) (simp add: string_at_Nil)
next
  case (Cons it its)
  have rest: "string_at m (fmt + of_nat (length (item_fmt it))) (concat (map item_fmt its))"
    using string_at_append Cons.prems(1) by simp
  have step2: "2 + fmt = fmt + 2" by (rule add.commute)
  show ?case
  proof (cases it)
    case (Lit c)
    then have "m fmt = c" "c \<noteq> 0" "c \<noteq> 37" using Cons.prems by (auto simp: string_at_Cons)
    moreover have "vprintf m (fmt + 1) ap i = write_bytes (render its ap i)"
      using Cons rest Lit by (intro ext) auto
    ultimately show ?thesis using Lit by (subst vprintf.simps) simp
  next
    case Chr
    have IH: "vprintf m (fmt + 2) ap (Suc i) = write_bytes (render its ap (Suc i))"
      using Cons rest Chr by (intro ext) auto
    have "directive m (fmt + 1) ap i 0 k = map_option (\<lambda>k. (fmt + 2, Suc i, k)) (write_bytes [ucast (ap i)] k)"
      using Cons.prems(1) Chr by (subst directive.simps) (simp add: string_at_Cons write_bytes_Nil step2)
    then have "vprintf m fmt ap i k = Option.bind (write_bytes [ucast (ap i)] k) (vprintf m (fmt + 2) ap (Suc i))"
      by (rule vprintf_directive [rotated]) (use Cons.prems(1) Chr in \<open>simp add: string_at_Cons\<close>)
    then show ?thesis using Chr IH by (simp add: write_bytes_Nil)
  next
    case (Str xs)
    have IH: "vprintf m (fmt + 2) ap (Suc i) = write_bytes (render its ap (Suc i))"
      using Cons rest Str by (intro ext) auto
    have "directive m (fmt + 1) ap i 0 k = map_option (\<lambda>k. (fmt + 2, Suc i, k)) (write_bytes xs k)"
      using Cons.prems Str by (subst directive.simps) (simp add: string_at_Cons write_string_bytes [of m "ap i" xs] step2)
    then show ?thesis using vprintf_directive [of m fmt ap i k] Cons.prems(1) Str IH by (simp add: string_at_Cons write_bytes_append)
  next
    case (Num c l)
    let ?t = "num_text (if c = 120 then 16 else 10) (num_arg l (ap i))"
    have IH: "vprintf m (fmt + 1 + of_nat (Suc l)) ap (Suc i) = write_bytes (render its ap (Suc i))"
      using Cons rest Num by (intro ext) (auto simp: algebra_simps)
    have f: "m fmt = 37" "string_at m (fmt + 1) (replicate l 108 @ c # concat (map item_fmt its))"
      using Cons.prems(1) Num by (simp_all add: string_at_Cons)
    have "directive m (fmt + 1) ap i 0 k = map_option (\<lambda>k. (fmt + 1 + of_nat (Suc l), Suc i, k)) (write_bytes ?t k)"
      using Cons.prems(2) Num by (intro directive_number [OF f(2)]) auto
    then show ?thesis using vprintf_directive [of m fmt, OF f(1)] Num IH by (simp add: write_bytes_append)
  qed
qed

section \<open>Sources\<close>

text \<open>\<open>chain k p as\<close>: following the links from \<open>p\<close> visits the sources \<open>as\<close>.\<close>

fun chain :: "console \<Rightarrow> nat option \<Rightarrow> nat list \<Rightarrow> bool" where
  "chain k p [] \<longleftrightarrow> p = None"
| "chain k p (a # as) \<longleftrightarrow> p = Some a \<and> chain k (source_next k a) as"

definition write_all :: "nat list \<Rightarrow> u8 \<Rightarrow> console \<Rightarrow> console" where
  "write_all as ch k = fold (\<lambda>a. source_WriteByte a ch) as k"

lemma source_WriteByte_links [simp]:
  "source_next (source_WriteByte a ch k) = source_next k" "sources (source_WriteByte a ch k) = sources k"
  "terminal (source_WriteByte a ch k) = terminal k"
  by (simp_all add: source_WriteByte_def split: ConsoleSource.splits prod.splits)

lemma write_all_links [simp]:
  "source_next (write_all as ch k) = source_next k" "sources (write_all as ch k) = sources k"
  by (induction as arbitrary: k) (simp_all add: write_all_def)

lemma chain_links: "source_next k' = source_next k \<Longrightarrow> chain k' p as \<longleftrightarrow> chain k p as"
  by (induction as arbitrary: p) simp_all

lemma write_chain_all: "chain k p as \<Longrightarrow> write_chain p ch k = Some (write_all as ch k)"
proof (induction as arbitrary: p k)
  case Nil
  then show ?case by (subst write_chain.simps) (simp add: write_all_def)
next
  case (Cons a as)
  have "chain (source_WriteByte a ch k) (source_next k a) as" using Cons.prems chain_links [of "source_WriteByte a ch k" k] by simp
  from Cons.IH [OF this] show ?case
    using Cons.prems by (subst write_chain.simps) (simp add: write_all_def)
qed

lemma write_bytes_all:
  assumes "chain k (sources k) as"
  shows "write_bytes bs k = Some (fold (write_all as) bs k)"
  using assms
proof (induction bs arbitrary: k)
  case (Cons b bs)
  have "Console_WriteByte b k = Some (write_all as b k)" using Cons.prems by (simp add: Console_WriteByte_def write_chain_all)
  moreover have "chain (write_all as b k) (sources (write_all as b k)) as"
    using Cons.prems chain_links [of "write_all as b k" k] by simp
  ultimately show ?case using Cons.IH by simp
qed simp

lemma AddSource_chain:
  assumes "chain k (sources k) as" and "a \<notin> set as"
  shows "chain (AddSource a k) (sources (AddSource a k)) (a # as)"
proof -
  have "chain (AddSource a k) p as \<longleftrightarrow> chain k p as" for p
    using assms(2) by (induction as arbitrary: p) (auto simp: AddSource_def)
  then show ?thesis using assms(1) by (simp add: AddSource_def)
qed

text \<open>
  The contract of a source: \<open>shown bs k\<close> says the device behind it has output \<open>bs\<close>. A write to the source itself extends the output; a
  write to a source that is \<open>foreign\<close>, using another device, does not disturb it.
\<close>

locale console_source =
  fixes addr :: nat and shown :: "u8 list \<Rightarrow> console \<Rightarrow> bool" and foreign :: "nat \<Rightarrow> console \<Rightarrow> bool"
  assumes shown_write: "shown bs k \<Longrightarrow> shown (bs @ [b]) (source_WriteByte addr b k)"
    and shown_foreign: "foreign a k \<Longrightarrow> shown bs k \<Longrightarrow> a \<noteq> addr \<Longrightarrow> shown bs (source_WriteByte a b k)"
    and foreign_write: "foreign a k \<Longrightarrow> foreign a (source_WriteByte a' b k)"
begin

lemma shown_pass:
  "distinct as \<Longrightarrow> \<forall>a \<in> set as - {addr}. foreign a k \<Longrightarrow> shown bs k \<Longrightarrow>
    shown (if addr \<in> set as then bs @ [b] else bs) (write_all as b k) \<and> (\<forall>a. foreign a k \<longrightarrow> foreign a (write_all as b k))"
proof (induction as arbitrary: k bs)
  case (Cons a as)
  let ?k = "source_WriteByte a b k"
  have all: "\<forall>a' \<in> set as - {addr}. foreign a' ?k" using Cons.prems(2) foreign_write by simp
  show ?case
  proof (cases "a = addr")
    case True
    then have "shown (bs @ [b]) ?k" using shown_write Cons.prems(3) by simp
    from Cons.IH [OF _ all this] show ?thesis
      using Cons.prems(1) True foreign_write by (simp add: write_all_def)
  next
    case False
    then have "shown bs ?k" using shown_foreign Cons.prems(2,3) by simp
    from Cons.IH [OF _ all this] show ?thesis
      using Cons.prems(1) False foreign_write by (simp add: write_all_def)
  qed
qed (simp add: write_all_def)

lemma shown_text:
  assumes "distinct as" and "addr \<in> set as" and "\<forall>a \<in> set as - {addr}. foreign a k" and "shown bs k"
  shows "shown (bs @ cs) (fold (write_all as) cs k)"
  using assms
proof (induction cs arbitrary: k bs)
  case (Cons c cs)
  have "shown (bs @ [c]) (write_all as c k)" "\<forall>a \<in> set as - {addr}. foreign a (write_all as c k)"
    using shown_pass [OF Cons.prems(1,3,4), of c] Cons.prems(2,3) by auto
  from Cons.IH [OF Cons.prems(1,2) this(2,1)] show ?case by simp
qed simp

end

text \<open>A screen source: no other source writes the screen.\<close>

definition screen_shown :: "nat \<Rightarrow> u8 list \<Rightarrow> console \<Rightarrow> bool" where
  "screen_shown a bs k \<longleftrightarrow> (case source_at k a of
     VGA v \<Rightarrow> vga_shows (terminal k) (fold put_byte bs [[]]) (v, screen k) | Serial sp \<Rightarrow> False)"

definition is_serial :: "nat \<Rightarrow> console \<Rightarrow> bool" where
  "is_serial a k \<longleftrightarrow> (case source_at k a of VGA v \<Rightarrow> False | Serial sp \<Rightarrow> True)"

interpretation screen: console_source a "screen_shown a" is_serial for a
proof
  fix bs k b assume "screen_shown a bs k"
  then obtain v where v: "source_at k a = VGA v" "vga_shows (terminal k) (fold put_byte bs [[]]) (v, screen k)"
    by (auto simp: screen_shown_def split: ConsoleSource.splits)
  from WriteByte_shows [OF v(2), of b] show "screen_shown a (bs @ [b]) (source_WriteByte a b k)"
    by (auto simp: screen_shown_def source_WriteByte_def v(1) split: prod.splits)
next
  fix a' k bs b assume "is_serial a' k" "screen_shown a bs k" "a' \<noteq> a"
  then show "screen_shown a bs (source_WriteByte a' b k)"
    by (auto simp: screen_shown_def is_serial_def source_WriteByte_def split: ConsoleSource.splits)
next
  fix a' k a'' b assume "is_serial a' k"
  then show "is_serial a' (source_WriteByte a'' b k)"
    by (auto simp: is_serial_def source_WriteByte_def split: ConsoleSource.splits prod.splits)
qed

text \<open>A serial source: what went out on its port since the history \<open>h\<close>.\<close>

definition port_output :: "u16 \<Rightarrow> io_log \<Rightarrow> u8 list" where
  "port_output p h = concat (map (\<lambda>e. case e of Out8 q v \<Rightarrow> if q = p then [v] else [] | _ \<Rightarrow> []) (rev h))"

definition serial_shown :: "io_log \<Rightarrow> u16 \<Rightarrow> nat \<Rightarrow> u8 list \<Rightarrow> console \<Rightarrow> bool" where
  "serial_shown h p a bs k \<longleftrightarrow> source_at k a = Serial \<lparr>sp_port = p\<rparr> \<and> (\<exists>h'. ports k = h' @ h \<and> port_output p h' = bs)"

definition other_port :: "u16 \<Rightarrow> nat \<Rightarrow> console \<Rightarrow> bool" where
  "other_port p a k \<longleftrightarrow> (case source_at k a of VGA v \<Rightarrow> True | Serial sp \<Rightarrow> sp_port sp \<noteq> p)"

lemma port_output_Cons: "port_output p (Out8 q v # h) = port_output p h @ (if q = p then [v] else [])"
  by (simp add: port_output_def)

interpretation serial: console_source a "serial_shown h p a" "other_port p" for h p a
proof
  fix bs k b assume "serial_shown h p a bs k"
  then obtain h' where "source_at k a = Serial \<lparr>sp_port = p\<rparr>" "ports k = h' @ h" "port_output p h' = bs"
    by (auto simp: serial_shown_def)
  then show "serial_shown h p a (bs @ [b]) (source_WriteByte a b k)"
    unfolding serial_shown_def
    by (auto simp: source_WriteByte_def SerialPort_WriteByte_def OutB_def port_output_Cons intro!: exI [of _ "Out8 p b # h'"])
next
  fix a' k bs b assume o: "other_port p a' k" "serial_shown h p a bs k" "a' \<noteq> a"
  then obtain h' where h: "source_at k a = Serial \<lparr>sp_port = p\<rparr>" "ports k = h' @ h" "port_output p h' = bs"
    by (auto simp: serial_shown_def)
  show "serial_shown h p a bs (source_WriteByte a' b k)"
  proof (cases "source_at k a'")
    case (VGA v)
    then show ?thesis using o h by (auto simp: serial_shown_def source_WriteByte_def split: prod.splits)
  next
    case (Serial sp)
    then show ?thesis using o h unfolding serial_shown_def
      by (auto simp: other_port_def source_WriteByte_def SerialPort_WriteByte_def OutB_def port_output_Cons
          intro!: exI [of _ "Out8 (sp_port sp) b # h'"])
  qed
next
  fix a' k a'' b assume "other_port p a' k"
  then show "other_port p a' (source_WriteByte a'' b k)"
    by (auto simp: other_port_def source_WriteByte_def split: ConsoleSource.splits prod.splits)
qed

section \<open>Properties\<close>

text \<open>
  C15. \<^verbatim>\<open>printf\<close> writes what its format says: for a terminated format of literal bytes and the conversions \<^verbatim>\<open>%c\<close>, \<^verbatim>\<open>%s\<close>, \<^verbatim>\<open>%d\<close>, \<^verbatim>\<open>%u\<close>, \<^verbatim>\<open>%x\<close>
  with any number of \<^verbatim>\<open>l\<close>s, each source of the console receives, in chain order and byte by byte, the literals, the arguments' characters
  and strings, and the numbers in base 10 or 16 (of 64 bits with one or two \<^verbatim>\<open>l\<close>s, otherwise of the low 32 bits);
  the call returns.
\<close>

theorem printf_renders:
  assumes "string_at m fmt (concat (map item_fmt its))" and "items_ok m its args 0" and "chain k (sources k) as"
  shows "printf m fmt args k = Some (fold (write_all as) (render its args 0) k)"
  using vprintf_items [OF assms(1,2)] write_bytes_all [OF assms(3)] by (simp add: printf_def)

theorem printf_renders_witness:
  "printf ((\<lambda>_. 0)(0x100 := 37, 0x101 := 120)) 0x100 (\<lambda>_. 0xBEEF)
     (AddSource 7 \<lparr>sources = None, source_next = \<lambda>_. None, source_at = \<lambda>_. Serial \<lparr>sp_port = COM1\<rparr>,
        terminal = Terminal_ctor, screen = \<lambda>_. 0, ports = []\<rparr>) =
   Some (fold (write_all [7]) (render [Num 120 0] (\<lambda>_. 0xBEEF) 0)
     (AddSource 7 \<lparr>sources = None, source_next = \<lambda>_. None, source_at = \<lambda>_. Serial \<lparr>sp_port = COM1\<rparr>,
        terminal = Terminal_ctor, screen = \<lambda>_. 0, ports = []\<rparr>))"
  by (rule printf_renders) (simp_all add: string_at_Cons string_at_Nil AddSource_def)

text \<open>
  C28. The number conversions of \<^verbatim>\<open>vprintf\<close> are correct and fit their buffer: the digits left in \<^verbatim>\<open>buf\<close>, printed in reverse, are the usual
  text of the number, reading that text gives the number back, and at most 20 of the 32 bytes are used.
\<close>

theorem digits_correct:
  "rev (dec_digits u) = num_text 10 (unat u) \<and> rev (hex_digits u) = num_text 16 (unat u) \<and>
   num_value 10 (rev (dec_digits u)) = unat u \<and> num_value 16 (rev (hex_digits u)) = unat u \<and>
   length (dec_digits u) \<le> 20 \<and> length (hex_digits u) \<le> 16"
proof -
  have "unat u < 10 ^ 20" "unat u < 16 ^ 16" using unat_u64_less [of u] by simp_all
  then have "length (rev (dec_digits u)) \<le> 20" "length (rev (hex_digits u)) \<le> 16"
    using length_num_text [of 10 "unat u" 20] length_num_text [of 16 "unat u" 16] by (simp_all add: dec_digits_text hex_digits_text)
  then have "length (dec_digits u) \<le> 20" "length (hex_digits u) \<le> 16" by (simp_all only: length_rev)
  then show ?thesis using dec_digits_text hex_digits_text num_value_text [of 10] num_value_text [of 16] by simp
qed

text \<open>
  A percent sign at the very end of a format makes \<^verbatim>\<open>vprintf\<close> step over the terminator: it goes on formatting whatever bytes follow
  the string in memory.
\<close>

lemma vprintf_trailing_percent:
  assumes "m fmt = 37" and "m (fmt + 1) = 0"
  shows "vprintf m fmt ap i k = vprintf m (fmt + 2) ap i k"
proof -
  have e: "fmt + 1 + 1 = fmt + 2" by simp
  have "directive m (fmt + 1) ap i 0 k = Some (fmt + 2, i, k)"
    using assms(2) by (subst directive.simps) (simp add: e)
  then show ?thesis using assms(1) by (subst vprintf.simps) simp
qed

lemma vprintf_trailing_percent_example:
  defines "k0 \<equiv> \<lparr>sources = None, source_next = \<lambda>_. None, source_at = \<lambda>_. VGA VGABuffer_ctor, terminal = Terminal_ctor,
     screen = \<lambda>_. 0, ports = []\<rparr>"
  shows "vprintf ((\<lambda>_. 0)(0x100 := 37)) 0x100 (\<lambda>_. 0) 0 k0 = vprintf ((\<lambda>_. 0)(0x100 := 37)) 0x102 (\<lambda>_. 0) 0 k0"
  using vprintf_trailing_percent [of "(\<lambda>_. 0)(0x100 := 37)" "0x100"] by simp

text \<open>
  C16. Every console source gets the whole text. On a console with a fresh screen buffer at \<open>a\<close> over a reset screen and the first serial port
  at \<open>b\<close>, in either order of the chain, however many bytes are printed, the screen shows the last rows of the text, at most 25 of 80 columns
  (\<open>vga_shows\<close>), and exactly its bytes, in order, went out on the port.
\<close>

theorem console_broadcast:
  assumes "chain k (sources k) as" and "distinct as" and "set as = {a, b}" and "a \<noteq> b"
    and "source_at k a = VGA VGABuffer_ctor" and "screen k = Terminal_Reset s" and "source_at k b = Serial \<lparr>sp_port = COM1\<rparr>"
  shows "\<exists>k' v h. write_bytes bs k = Some k' \<and> source_at k' a = VGA v \<and>
    vga_shows (terminal k') (fold put_byte bs [[]]) (v, screen k') \<and> ports k' = h @ ports k \<and> port_output COM1 h = bs"
proof -
  let ?k = "fold (write_all as) bs k"
  have "screen_shown a [] k" using assms(5,6) VGABuffer_shows by (simp add: screen_shown_def)
  moreover have "\<forall>a' \<in> set as - {a}. is_serial a' k" using assms(3,7) by (auto simp: is_serial_def)
  ultimately have "screen_shown a bs ?k" using screen.shown_text [of as a k "[]" bs] assms(2,3) by simp
  moreover have "serial_shown (ports k) COM1 b [] k" using assms(7) by (simp add: serial_shown_def port_output_def)
  moreover have "\<forall>a' \<in> set as - {b}. other_port COM1 a' k" using assms(3,5) by (auto simp: other_port_def)
  ultimately show ?thesis
    using serial.shown_text [of as b COM1 k "ports k" "[]" bs] assms(2,3) write_bytes_all [OF assms(1)]
    by (auto simp: screen_shown_def serial_shown_def split: ConsoleSource.splits)
qed

theorem console_broadcast_witness:
  defines "k0 \<equiv> \<lparr>sources = None, source_next = \<lambda>_. None, source_at = (\<lambda>_. Serial \<lparr>sp_port = COM1\<rparr>)(1 := VGA VGABuffer_ctor),
     terminal = Terminal_ctor, screen = Terminal_Reset (\<lambda>_. 0), ports = []\<rparr>"
  shows "\<exists>k' v h. write_bytes [72, 105] (AddSource 2 (AddSource 1 k0)) = Some k' \<and> source_at k' 1 = VGA v \<and>
    vga_shows (terminal k') (fold put_byte [72, 105] [[]]) (v, screen k') \<and> ports k' = h @ [] \<and> port_output COM1 h = [72, 105]"
  using console_broadcast [of "AddSource 2 (AddSource 1 k0)" "[2, 1]" 1 2 "\<lambda>_. 0" "[72, 105]"]
  by (auto simp: k0_def AddSource_def)

end
