(* ===== verification/Page_Table.thy ===== *)
theory Page_Table
  imports Mem_Pages Word_Bits
begin

text \<open>
  The page tables (\<^verbatim>\<open>kern/page-table.h\<close>, \<^verbatim>\<open>kern/page-table.cc\<close>). A table entry is a 64-bit word; an entry object is the static \<^verbatim>\<open>kernel_pgt\<close>, the
  local \<^verbatim>\<open>kern_entry\<close> of \<^verbatim>\<open>InitKernelPageTable\<close>, or a slot of a table in physical memory, which the kernel reaches
  through its direct mapping (\<^verbatim>\<open>PADDR_TO_KPTR\<close>) and the model through its physical address.
\<close>

section \<open>Entries\<close>

definition set_flag :: "bool \<Rightarrow> nat \<Rightarrow> u64 \<Rightarrow> u64" where
  "set_flag b n e = (let flag = push_bit n 1 in if b then e OR flag else e AND NOT flag)"

definition get_flag :: "nat \<Rightarrow> u64 \<Rightarrow> bool" where
  "get_flag n e = (let flag = push_bit n 1 in e AND flag \<noteq> 0)"

definition set_present :: "bool \<Rightarrow> u64 \<Rightarrow> u64" where "set_present b = set_flag b 0"
definition is_present :: "u64 \<Rightarrow> bool" where "is_present = get_flag 0"
definition set_read_write :: "bool \<Rightarrow> u64 \<Rightarrow> u64" where "set_read_write b = set_flag b 1"
definition is_read_write :: "u64 \<Rightarrow> bool" where "is_read_write = get_flag 1"
definition set_kernel_mode :: "bool \<Rightarrow> u64 \<Rightarrow> u64" where "set_kernel_mode b = set_flag b 2"
definition is_kernel_mode :: "u64 \<Rightarrow> bool" where "is_kernel_mode = get_flag 2"
definition set_write_through :: "bool \<Rightarrow> u64 \<Rightarrow> u64" where "set_write_through b = set_flag b 3"
definition is_write_through :: "u64 \<Rightarrow> bool" where "is_write_through = get_flag 3"
definition set_cache_disabled :: "bool \<Rightarrow> u64 \<Rightarrow> u64" where "set_cache_disabled b = set_flag b 4"
definition is_cache_disabled :: "u64 \<Rightarrow> bool" where "is_cache_disabled = get_flag 4"
definition set_huge :: "bool \<Rightarrow> u64 \<Rightarrow> u64" where "set_huge b = set_flag b 7"
definition is_huge :: "u64 \<Rightarrow> bool" where "is_huge = get_flag 7"

text \<open>\<^verbatim>\<open>~(0x01FF)\<close> is an \<^verbatim>\<open>int\<close> and is sign-extended.\<close>

definition physical_address :: "u64 \<Rightarrow> u64" where "physical_address e = e AND NOT 0x1FF"

definition CommonBaseEntry :: "u64 \<Rightarrow> u64" where
  "CommonBaseEntry paddr = set_read_write True (set_present True paddr)"

section \<open>Tables in memory\<close>

datatype entry_ref = KernelPgt | KernEntry | Slot u64

record pt_state =
  qmem :: "u64 \<Rightarrow> u64"       \<comment> \<open>the quadwords of physical memory\<close>
  pt_pages :: mem_pages
  cr3 :: u64
  kernel_pgt :: u64
  kern_entry :: u64

fun rd_entry :: "pt_state \<Rightarrow> entry_ref \<Rightarrow> u64" where
  "rd_entry st KernelPgt = kernel_pgt st"
| "rd_entry st KernEntry = kern_entry st"
| "rd_entry st (Slot a) = qmem st a"

fun wr_entry :: "entry_ref \<Rightarrow> u64 \<Rightarrow> pt_state \<Rightarrow> pt_state" where
  "wr_entry KernelPgt e st = st\<lparr>kernel_pgt := e\<rparr>"
| "wr_entry KernEntry e st = st\<lparr>kern_entry := e\<rparr>"
| "wr_entry (Slot a) e st = st\<lparr>qmem := (qmem st)(a := e)\<rparr>"

text \<open>\<^verbatim>\<open>memset(PADDR_TO_KPTR(p), 0, PAGESIZE)\<close>, on quadwords.\<close>

definition clear_frame :: "u64 \<Rightarrow> pt_state \<Rightarrow> pt_state" where
  "clear_frame p st = st\<lparr>qmem := (\<lambda>a. if a - p < PAGESIZE then 0 else qmem st a)\<rparr>"

definition Allocate :: "entry_ref \<Rightarrow> pt_state \<Rightarrow> pt_state result" where
  "Allocate r st =
     ebind (AllocPage (pt_pages st)) (\<lambda>(pg, mp).
     ebind (rd_page mp pg) (\<lambda>p.
     let st = wr_entry r (phyaddr p) (st\<lparr>pt_pages := mp\<rparr>);
         st = clear_frame (rd_entry st r) st;
         st = wr_entry r (set_present True (rd_entry st r)) st;
         st = wr_entry r (set_read_write True (rd_entry st r)) st
     in Inr st))"

definition Clear :: "entry_ref \<Rightarrow> pt_state \<Rightarrow> pt_state" where
  "Clear r st = wr_entry r 0 st"

definition AllocateOrPresent :: "entry_ref \<Rightarrow> pt_state \<Rightarrow> pt_state result" where
  "AllocateOrPresent r st = (if \<not> is_present (rd_entry st r) then Allocate r st else Inr st)"

definition entry_offset :: "nat \<Rightarrow> u64 \<Rightarrow> u16" where
  "entry_offset Level vaddr = ucast (drop_bit (12 + (Level - 1) * 9) vaddr AND 0x1FF)"

text \<open>\<^verbatim>\<open>CommonEntry<Level>::operator[]\<close>: the slot of the next level's table.\<close>

definition entry_index :: "nat \<Rightarrow> entry_ref \<Rightarrow> u64 \<Rightarrow> pt_state \<Rightarrow> entry_ref result" where
  "entry_index Level r vaddr st =
     (if Level = 1 \<and> is_huge (rd_entry st r) then Inl (Panic ''Cannot access huge page dir entry'')
      else kassert ''offset < 512'' (entry_offset Level vaddr < 512)
        (Inr (Slot (physical_address (rd_entry st r) + 8 * ucast (entry_offset Level vaddr)))))"

text \<open>\<^verbatim>\<open>.AllocateOrPresent()[vaddr]\<close>\<close>

definition descend :: "nat \<Rightarrow> u64 \<Rightarrow> entry_ref \<times> pt_state \<Rightarrow> (entry_ref \<times> pt_state) result" where
  "descend Level vaddr = (\<lambda>(r, st).
     ebind (AllocateOrPresent r st) (\<lambda>st.
     ebind (entry_index Level r vaddr st) (\<lambda>r'. Inr (r', st))))"

definition PageTable :: "pt_state \<Rightarrow> pt_state" where
  "PageTable st = st\<lparr>kernel_pgt := cr3 st\<rparr>"

definition Install :: "pt_state \<Rightarrow> pt_state" where
  "Install st = st\<lparr>cr3 := kernel_pgt st\<rparr>"

definition get_page :: "u64 \<Rightarrow> page_ptr" where
  "get_page e = page_at (physical_address e)"

definition MapPage :: "u64 \<Rightarrow> bool \<Rightarrow> bool \<Rightarrow> pt_state \<Rightarrow> pt_state result" where
  "MapPage paddr write_through cache_disabled st =
     (let vaddr = KERN_OFFSET + paddr;
          entry = set_cache_disabled cache_disabled (set_write_through write_through (CommonBaseEntry paddr))
      in ebind (entry_index 4 KernelPgt vaddr st) (\<lambda>r4.
         ebind (descend 3 vaddr (r4, st)) (\<lambda>s3.
         ebind (descend 2 vaddr s3) (\<lambda>s2.
         ebind (descend 1 vaddr s2) (\<lambda>(r, st). Inr (wr_entry r entry st))))))"

section \<open>Mapping memory\<close>

text \<open>One round of the loop of \<^verbatim>\<open>MapPagesToPageTable\<close>: the new state and the next address.\<close>

definition map_step :: "entry_ref \<Rightarrow> u64 \<Rightarrow> u64 \<Rightarrow> bool \<Rightarrow> bool \<Rightarrow> u64 \<Rightarrow> pt_state \<Rightarrow> (u64 \<times> pt_state) result" where
  "map_step root start_addr len skip write_through addr st =
     (let vaddr = KERN_OFFSET + addr in
      if skip \<and> addr mod HUGEPAGESIZE = 0 \<and> addr + HUGEPAGESIZE \<le> start_addr + len then
        ebind (descend 3 vaddr (root, st)) (\<lambda>(r, st).
          Inr (addr + HUGEPAGESIZE, wr_entry r (set_write_through write_through (set_huge True (CommonBaseEntry addr))) st))
      else if skip \<and> addr mod LARGEPAGESIZE = 0 \<and> addr + LARGEPAGESIZE \<le> start_addr + len then
        ebind (descend 3 vaddr (root, st)) (\<lambda>s.
        ebind (descend 2 vaddr s) (\<lambda>(r, st).
          Inr (addr + LARGEPAGESIZE, wr_entry r (set_write_through write_through (set_huge True (CommonBaseEntry addr))) st)))
      else
        ebind (descend 3 vaddr (root, st)) (\<lambda>s.
        ebind (descend 2 vaddr s) (\<lambda>s.
        ebind (descend 1 vaddr s) (\<lambda>(r, st).
          Inr (addr + PAGESIZE, wr_entry r (set_write_through write_through (CommonBaseEntry addr)) st)))))"

partial_function (option) map_pages ::
    "entry_ref \<Rightarrow> u64 \<Rightarrow> u64 \<Rightarrow> bool \<Rightarrow> bool \<Rightarrow> u64 \<Rightarrow> pt_state \<Rightarrow> pt_state result option" where
  "map_pages root start_addr len skip write_through addr st =
     (if addr < start_addr + len
      then case map_step root start_addr len skip write_through addr st of
          Inl e \<Rightarrow> Some (Inl e)
        | Inr (addr', st') \<Rightarrow> map_pages root start_addr len skip write_through addr' st'
      else Some (Inr st))"

definition MapPagesToPageTable :: "entry_ref \<Rightarrow> u64 \<Rightarrow> u64 \<Rightarrow> bool \<Rightarrow> bool \<Rightarrow> pt_state \<Rightarrow> pt_state result option" where
  "MapPagesToPageTable root start_addr len skip write_through st =
     map_pages root start_addr len skip write_through start_addr st"

fun map_entries :: "multiboot_mmap_entry list \<Rightarrow> pt_state \<Rightarrow> pt_state result option" where
  "map_entries [] st = Some (Inr st)"
| "map_entries (e # es) st =
     (if entry_addr e mod PAGESIZE \<noteq> 0 then map_entries es st
      else case (if entry_type e = MULTIBOOT_MEMORY_AVAILABLE
          then MapPagesToPageTable KernEntry (entry_addr e) (entry_len e) True False st
          else MapPagesToPageTable KernEntry (entry_addr e) (entry_len e) False True st) of
        None \<Rightarrow> None
      | Some (Inl err) \<Rightarrow> Some (Inl err)
      | Some (Inr st') \<Rightarrow> map_entries es st')"

definition InitKernelPageTable :: "multiboot_tag_mmap \<Rightarrow> pt_state \<Rightarrow> pt_state result option" where
  "InitKernelPageTable mm st =
     (if KERN_MAX_MEMORY < max_phy (pt_pages st) then Some (Inl (Panic ''Cannot support more than 512GB memory!''))
      else let st = st\<lparr>kern_entry := 0\<rparr> in
      case nr_mmap_entries mm of
        Inl e \<Rightarrow> Some (Inl e)
      | Inr n \<Rightarrow> (case map_entries (mmap_entry_list mm n) st of
            None \<Rightarrow> None
          | Some (Inl e) \<Rightarrow> Some (Inl e)
          | Some (Inr st) \<Rightarrow> Some (
              ebind (entry_index 4 KernelPgt 0 st) (\<lambda>r0.
              let st = Clear r0 st in
              ebind (entry_index 4 KernelPgt KERN_OFFSET st) (\<lambda>r.
              Inr (Install (wr_entry r (kern_entry st) st)))))))"

definition boot_step :: "nat \<Rightarrow> pt_state \<Rightarrow> pt_state result" where
  "boot_step i st =
     (let base_addr = of_nat (i * 2 ^ 21); vaddr = KERN_OFFSET + base_addr;
          entry = set_read_write True (set_present True (set_huge True (CommonBaseEntry base_addr)))
      in ebind (entry_index 4 KernelPgt vaddr st) (\<lambda>r4.
         ebind (entry_index 3 r4 vaddr st) (\<lambda>r3.
         ebind (entry_index 2 r3 vaddr st) (\<lambda>r2.
         Inr (wr_entry r2 entry st)))))"

fun boot_loop :: "nat list \<Rightarrow> pt_state \<Rightarrow> pt_state result" where
  "boot_loop [] st = Inr st"
| "boot_loop (i # is) st = ebind (boot_step i st) (boot_loop is)"

definition InitBootPageTable :: "pt_state \<Rightarrow> pt_state result" where
  "InitBootPageTable st = boot_loop [0..<512] (PageTable st)"

end
