(* ===== verification/Page_Walk.thy ===== *)
theory Page_Walk
  imports Page_Table
begin

text \<open>
  What the page tables mean: the walk the processor makes for an address, and the tree structure under which changing one
  slot changes the translation of exactly the addresses that pass through it.
\<close>

section \<open>The processor's walk\<close>

definition frame :: "u64 \<Rightarrow> u64" where "frame e = e AND 0x000FFFFFFFFFF000"

definition ix :: "nat \<Rightarrow> u64 \<Rightarrow> nat" where "ix l va = unat (drop_bit (12 + (l - 1) * 9) va AND 0x1FF)"

definition slot :: "u64 \<Rightarrow> nat \<Rightarrow> u64" where "slot t i = t + of_nat (8 * i)"

text \<open>
  \<open>walk m l t va\<close>: starting at the table \<open>t\<close> of level \<open>l\<close> (4 for the top level, 1 for the tables of 4 KiB pages), the entry that maps \<open>va\<close> and the
  level below it: 0, 1 and 2 for pages of 4 KiB, 2 MiB and 1 GiB.
\<close>

fun walk :: "(u64 \<Rightarrow> u64) \<Rightarrow> nat \<Rightarrow> u64 \<Rightarrow> u64 \<Rightarrow> (nat \<times> u64) option" where
  "walk m 0 t va = None"
| "walk m (Suc l) t va =
     (let e = m (slot t (ix (Suc l) va)) in
      if \<not> bit e 0 then None
      else if l = 0 \<or> l < 3 \<and> bit e 7 then Some (l, e)
      else walk m l (frame e) va)"

text \<open>The physical address behind the walk: frame bits of the entry, offset bits of the address.\<close>

definition translate :: "(u64 \<Rightarrow> u64) \<Rightarrow> u64 \<Rightarrow> u64 \<Rightarrow> u64 option" where
  "translate m cr va = map_option (\<lambda>(l, e). (frame e AND NOT (mask (12 + 9 * l))) OR (va AND mask (12 + 9 * l))) (walk m 4 (frame cr) va)"

section \<open>The tables on the way\<close>

definition next_table :: "nat \<Rightarrow> u64 \<Rightarrow> u64 option" where
  "next_table l e = (if 1 < l \<and> is_present e \<and> \<not> (l \<le> 3 \<and> is_huge e) then Some (physical_address e) else None)"

text \<open>\<open>tbl m root L n va\<close>: the table reached for \<open>va\<close> in \<open>n\<close> steps from the table \<open>root\<close> of level \<open>L\<close>.\<close>

fun tbl :: "(u64 \<Rightarrow> u64) \<Rightarrow> u64 option \<Rightarrow> nat \<Rightarrow> nat \<Rightarrow> u64 \<Rightarrow> u64 option" where
  "tbl m root L 0 va = root"
| "tbl m root L (Suc n) va = (case tbl m root L n va of None \<Rightarrow> None
     | Some t \<Rightarrow> next_table (L - n) (m (slot t (ix (L - n) va))))"

definition same_path :: "nat \<Rightarrow> nat \<Rightarrow> u64 \<Rightarrow> u64 \<Rightarrow> bool" where
  "same_path L n va va' \<longleftrightarrow> (\<forall>k < n. ix (L - k) va = ix (L - k) va')"

definition frame_ok :: "u64 \<Rightarrow> bool" where "frame_ok t \<longleftrightarrow> frame t = t"

text \<open>
  The tables form a tree of page frames: none is among the frames \<open>F\<close> kept for other uses, and two paths meet in a table only if it is the same path.
\<close>

definition tree :: "(u64 \<Rightarrow> u64) \<Rightarrow> u64 option \<Rightarrow> nat \<Rightarrow> u64 set \<Rightarrow> bool" where
  "tree m root L F \<longleftrightarrow>
     (\<forall>n < L. \<forall>va t. tbl m root L n va = Some t \<longrightarrow> frame_ok t \<and> t \<notin> F) \<and>
     (\<forall>n < L. \<forall>n' < L. \<forall>va va' t. tbl m root L n va = Some t \<longrightarrow> tbl m root L n' va' = Some t \<longrightarrow> n = n' \<and> same_path L n va va')"

section \<open>Flags and slots\<close>

lemma get_flag_bit: "n < 64 \<Longrightarrow> get_flag n e \<longleftrightarrow> bit e n"
proof -
  assume "n < 64"
  then have "bit (e AND push_bit n 1) k \<longleftrightarrow> bit e n \<and> k = n" for k
    by (auto simp: bit_simps)
  then show ?thesis by (simp add: get_flag_def Let_def) (metis bit_0_eq bot_apply bot_bool_def bit_eqI)
qed

lemma bit_set_flag: "n < 64 \<Longrightarrow> bit (set_flag b n e) k \<longleftrightarrow> (if k = n then b else bit e k)"
  by (cases b) (auto simp: set_flag_def Let_def bit_or_iff bit_and_iff bit_not_iff bit_exp_iff
      dest: bit_imp_le_length)

lemma flag_bits [simp]: "is_present e \<longleftrightarrow> bit e 0" "is_huge e \<longleftrightarrow> bit e 7"
  by (simp_all add: is_present_def is_huge_def get_flag_bit)

lemma ix_take_bit: "ix l va = unat (take_bit 9 (drop_bit (12 + (l - 1) * 9) va))"
  by (simp add: ix_def take_bit_eq_mask mask_eq_exp_minus_1)

lemma ix_less: "ix l va < 512"
proof -
  have "take_bit 9 (unat (drop_bit (12 + (l - 1) * 9) va)) < 2 ^ 9" by (rule take_bit_nat_less_exp)
  then show ?thesis by (simp only: ix_take_bit unsigned_take_bit_eq) simp
qed

lemma entry_offset_ix: "ucast (entry_offset l va) = (of_nat (ix l va) :: u64)" "entry_offset l va < 512"
proof -
  let ?w = "drop_bit (12 + (l - 1) * 9) va AND 0x1FF"
  have "unat (ucast ?w :: u16) = ix l va"
    using ix_less [of l va] by (simp add: ix_def unsigned_ucast_eq take_bit_nat_eq_self_iff)
  then have u: "unat (entry_offset l va) = ix l va" by (simp add: entry_offset_def)
  then show "entry_offset l va < 512" using ix_less [of l va] by (simp add: word_less_nat_alt)
  show "ucast (entry_offset l va) = (of_nat (ix l va) :: u64)" unfolding u [symmetric] by simp
qed

lemma bit_frame: "bit (frame e) n \<longleftrightarrow> bit e n \<and> 12 \<le> n \<and> n < 52"
proof -
  have "(0x000FFFFFFFFFF000 :: u64) = push_bit 12 (mask 40)" by (simp add: mask_eq_exp_minus_1)
  then have "bit (frame e) n \<longleftrightarrow> bit e n \<and> bit (push_bit 12 (mask 40) :: u64) n" unfolding frame_def by (simp only: bit_and_iff)
  then show ?thesis by (simp only: bit_push_bit_iff bit_mask_iff) (auto dest: bit_imp_le_length)
qed

lemma bit_physical: "bit (physical_address e) n \<longleftrightarrow> bit e n \<and> 9 \<le> n"
proof -
  have "(0x1FF :: u64) = mask 9" by (simp add: mask_eq_exp_minus_1)
  then show ?thesis
    unfolding physical_address_def by (simp only: bit_and_iff bit_not_iff bit_mask_iff) (auto dest: bit_imp_le_length)
qed

lemma frame_ok_bits: "frame_ok t \<longleftrightarrow> (\<forall>n. bit t n \<longrightarrow> 12 \<le> n \<and> n < 52)"
  unfolding frame_ok_def by (metis bit_frame bit_eqI)

lemma frame_physical: "frame_ok (physical_address e) \<Longrightarrow> frame e = physical_address e"
  by (rule bit_eqI) (auto simp: frame_ok_bits bit_frame bit_physical)

lemma frame_ok_unat: "frame_ok t \<Longrightarrow> unat t < 2 ^ 52 \<and> unat t mod 4096 = 0"
proof -
  assume f: "frame_ok t"
  have "unat t < 2 ^ 52" using f by (intro below_of_bits) (auto simp: frame_ok_bits not_less)
  moreover have "take_bit 12 t = 0" using f by (intro bit_eqI) (auto simp: frame_ok_bits bit_take_bit_iff)
  then have "take_bit 12 (unat t) = 0" by (metis unsigned_take_bit_eq unsigned_0)
  ultimately show ?thesis by (simp add: take_bit_eq_mod)
qed

lemma unat_slot: "frame_ok t \<Longrightarrow> i < 512 \<Longrightarrow> unat (slot t i) = unat t + 8 * i"
proof -
  assume a: "frame_ok t" "i < 512"
  have "unat (of_nat (8 * i) :: u64) = 8 * i" using a(2) by (intro of_nat_inverse [OF refl]) simp
  then show ?thesis using frame_ok_unat [OF a(1)] a(2) unat_add_lem [of t "of_nat (8 * i)"] unfolding slot_def by simp
qed

lemma quad_slot_inj:
  assumes "frame_ok t" "frame_ok t'" "i < 512" "i' < 512"
  shows "slot t i = slot t' i' \<longleftrightarrow> t = t' \<and> i = i'"
proof
  assume "slot t i = slot t' i'"
  then have e: "unat t + 8 * i = unat t' + 8 * i'" using unat_slot assms by metis
  have "(unat t + 8 * i) mod 4096 = 8 * i" "(unat t' + 8 * i') mod 4096 = 8 * i'"
    using frame_ok_unat [OF assms(1)] frame_ok_unat [OF assms(2)] assms(3,4) by (auto simp: mod_add_left_eq [symmetric])
  then have "i = i'" using e by simp
  then show "t = t' \<and> i = i'" using e by (simp add: word_unat_eq_iff)
qed auto

text \<open>A frame of its own: clearing it leaves the slots of other frames alone.\<close>

lemma slot_in_frame:
  assumes "frame_ok t" "frame_ok p" "i < 512"
  shows "slot t i - p < 4096 \<longleftrightarrow> t = p"
proof -
  note u = frame_ok_unat [OF assms(1)] frame_ok_unat [OF assms(2)]
  obtain a b where ab: "unat t = 4096 * a" "unat p = 4096 * b" using u by (metis mod_0_imp_dvd dvdE)
  show ?thesis
  proof (cases "b \<le> a")
    case True
    then have "unat (slot t i - p) = 4096 * (a - b) + 8 * i"
      using unat_slot [OF assms(1,3)] ab by (subst unat_sub) (auto simp: word_le_nat_alt diff_mult_distrib2)
    then show ?thesis using assms(3) ab True by (auto simp: word_less_nat_alt word_unat_eq_iff)
  next
    case False
    have "4096 * a + 8 * i < 4096 * b" using assms(3) False by simp
    then have "unat (slot t i - p) = 2 ^ 64 + (4096 * a + 8 * i) - 4096 * b"
      using unat_slot [OF assms(1,3)] ab by (subst unat_sub_if') (auto simp: word_le_nat_alt)
    moreover have "4096 * b < 2 ^ 52" using u(2) ab by simp
    ultimately show ?thesis using ab False by (auto simp: word_less_nat_alt)
  qed
qed

section \<open>Paths\<close>

lemma same_path_refl [simp]: "same_path L n va va"
  by (simp add: same_path_def)

lemma same_path_sym: "same_path L n va va' \<Longrightarrow> same_path L n va' va"
  by (simp add: same_path_def)

lemma same_path_trans: "same_path L n va vb \<Longrightarrow> same_path L n vb vc \<Longrightarrow> same_path L n va vc"
  by (simp add: same_path_def)

lemma same_path_mono: "same_path L n va va' \<Longrightarrow> k \<le> n \<Longrightarrow> same_path L k va va'"
  by (simp add: same_path_def)

lemma same_path_Suc: "same_path L (Suc n) va va' \<longleftrightarrow> same_path L n va va' \<and> ix (L - n) va = ix (L - n) va'"
  by (auto simp: same_path_def less_Suc_eq)

lemma tbl_same: "same_path L n va va' \<Longrightarrow> tbl m root L n va = tbl m root L n va'"
  by (induction n) (auto simp: same_path_Suc split: option.splits)

lemma tbl_None [simp]: "tbl m None L n va = None"
  by (induction n) auto

lemma tbl_front:
  "tbl m (Some r) (Suc l) (Suc n) va = tbl m (next_table (Suc l) (m (slot r (ix (Suc l) va)))) l n va"
  by (induction n) (auto split: option.splits)

lemma tbl_cong:
  "(\<And>k t. k < n \<Longrightarrow> tbl m root L k va = Some t \<Longrightarrow> m' (slot t (ix (L - k) va)) = m (slot t (ix (L - k) va))) \<Longrightarrow>
    tbl m' root L n va = tbl m root L n va"
proof (induction n)
  case (Suc n)
  then have "tbl m' root L n va = tbl m root L n va" by simp
  then show ?case using Suc.prems [of n] by (auto split: option.splits)
qed simp

lemma treeD:
  assumes "tree m root L F" and "n < L" and "tbl m root L n va = Some t"
  shows "frame_ok t" and "t \<notin> F" and "\<And>n' va'. n' < L \<Longrightarrow> tbl m root L n' va' = Some t \<Longrightarrow> n' = n \<and> same_path L n va' va"
  using assms unfolding tree_def by (blast, blast, metis same_path_sym)

text \<open>The walk follows the tables.\<close>

lemma walk_Suc_table:
  assumes "next_table (Suc l) (m (slot t (ix (Suc l) va))) = Some t'" and "frame_ok t'" and "0 < l" and "l \<le> 3"
  shows "walk m (Suc l) t va = walk m l t' va"
proof -
  let ?e = "m (slot t (ix (Suc l) va))"
  have "bit ?e 0" "\<not> (l < 3 \<and> bit ?e 7)" "t' = physical_address ?e"
    using assms(1) by (auto simp: next_table_def split: if_splits)
  moreover from this have "frame ?e = t'" using assms(2) frame_physical by simp
  ultimately show ?thesis using assms(3) by (auto simp: Let_def)
qed

lemma walk_tbl:
  assumes "tree m (Some r) L F" and "L \<le> 4" and "n < L" and "tbl m (Some r) L n va = Some t"
  shows "walk m L r va = walk m (L - n) t va"
  using assms(3,4)
proof (induction n arbitrary: t)
  case (Suc n)
  then obtain t0 where t0: "tbl m (Some r) L n va = Some t0" "next_table (L - n) (m (slot t0 (ix (L - n) va))) = Some t"
    by (auto split: option.splits)
  have "frame_ok t" using treeD(1) [OF assms(1)] Suc.prems by blast
  obtain l where l: "L - n = Suc l" "0 < l" "l \<le> 3" "L - Suc n = l" using Suc.prems(1) assms(2) by (cases "L - n") auto
  have "walk m L r va = walk m (Suc l) t0 va" using Suc.IH [OF _ t0(1)] Suc.prems(1) l(1) by simp
  also have "\<dots> = walk m l t va"
    using walk_Suc_table [of l m t0 va t] t0(2) \<open>frame_ok t\<close> l by simp
  finally show ?case using l(4) by simp
qed simp

text \<open>The walk reads only the slots of its tables.\<close>

lemma walk_cong:
  assumes "\<And>n t. n < L \<Longrightarrow> tbl m (Some r) L n va = Some t \<Longrightarrow> m' (slot t (ix (L - n) va)) = m (slot t (ix (L - n) va))"
    and "\<And>n t. n < L \<Longrightarrow> tbl m (Some r) L n va = Some t \<Longrightarrow> frame_ok t" and "L \<le> 4"
  shows "walk m' L r va = walk m L r va"
  using assms
proof (induction L arbitrary: r)
  case (Suc l)
  let ?e = "m (slot r (ix (Suc l) va))"
  have e: "m' (slot r (ix (Suc l) va)) = ?e" using Suc.prems(1) [of 0 r] by simp
  show ?case
  proof (cases "bit ?e 0 \<and> \<not> (l = 0 \<or> l < 3 \<and> bit ?e 7)")
    case True
    then have nt: "next_table (Suc l) ?e = Some (physical_address ?e)" by (auto simp: next_table_def)
    have sub: "tbl m (Some r) (Suc l) (Suc n) va = tbl m (Some (physical_address ?e)) l n va" for n
      using tbl_front [of m r l n va] nt by simp
    have "frame_ok (physical_address ?e)" using Suc.prems(2) [of 1 "physical_address ?e"] nt True by simp
    then have f: "frame ?e = physical_address ?e" by (rule frame_physical)
    have "walk m' l (physical_address ?e) va = walk m l (physical_address ?e) va"
    proof (rule Suc.IH)
      fix n t assume "n < l" "tbl m (Some (physical_address ?e)) l n va = Some t"
      then show "m' (slot t (ix (l - n) va)) = m (slot t (ix (l - n) va))" "frame_ok t"
        using Suc.prems(1,2) [of "Suc n" t] sub by auto
    qed (use Suc.prems(3) in simp)
    then show ?thesis using e f True by (auto simp: Let_def)
  qed (auto simp: e Let_def)
qed simp

section \<open>Changing a slot\<close>

lemma tbl_update:
  fixes e :: u64
  assumes "tree m root L F" and "D < L" and "tbl m root L D VA = Some T"
  defines "m' \<equiv> m(slot T (ix (L - D) VA) := e)"
  shows "n \<le> D \<Longrightarrow> tbl m' root L n va = tbl m root L n va"
    and "\<not> same_path L (Suc D) va VA \<Longrightarrow> n \<le> L \<Longrightarrow> tbl m' root L n va = tbl m root L n va"
    and "same_path L (Suc D) va VA \<Longrightarrow> tbl m' root L (Suc D) va = next_table (L - D) e"
proof -
  have hit: "k = D \<and> same_path L (Suc D) va VA" if "k < L" "tbl m root L k va = Some t" "slot t (ix (L - k) va) = slot T (ix (L - D) VA)" for k va t
  proof -
    have "t = T" "ix (L - k) va = ix (L - D) VA"
      using quad_slot_inj [of t T "ix (L - k) va" "ix (L - D) VA"] treeD(1) [OF assms(1)] that assms(2,3) ix_less by blast+
    moreover from this have "k = D \<and> same_path L D va VA" using treeD(3) [OF assms(1,2,3) that(1)] that(2) by blast
    ultimately show ?thesis by (auto simp: same_path_Suc)
  qed
  have keep: "m' (slot t (ix (L - k) va)) = m (slot t (ix (L - k) va))"
    if "k < L" "tbl m root L k va = Some t" "\<not> (k = D \<and> same_path L (Suc D) va VA)" for k va t
    using hit [OF that(1,2)] that(3) by (auto simp: m'_def)
  show low: "tbl m' root L n va = tbl m root L n va" if "n \<le> D" for n va
    using that assms(2) by (intro tbl_cong keep) auto
  show "tbl m' root L n va = tbl m root L n va" if "\<not> same_path L (Suc D) va VA" "n \<le> L"
    using that by (intro tbl_cong keep) auto
  assume s: "same_path L (Suc D) va VA"
  then have "tbl m root L D va = Some T" using tbl_same [of L D va VA] assms(3) by (simp add: same_path_Suc)
  then show "tbl m' root L (Suc D) va = next_table (L - D) e"
    using low [of D va] s by (simp add: m'_def same_path_Suc)
qed

lemma tbl_stays_None: "tbl m root L n va = None \<Longrightarrow> n \<le> k \<Longrightarrow> tbl m root L k va = None"
  by (induction k) (auto simp: le_Suc_eq)

text \<open>
  What a slot may be changed to: a leaf or nothing, or a pointer to an empty table \<open>N\<close> that is not yet part of the tree.
\<close>

definition new_entry :: "(u64 \<Rightarrow> u64) \<Rightarrow> u64 option \<Rightarrow> nat \<Rightarrow> nat \<Rightarrow> u64 \<Rightarrow> bool" where
  "new_entry m root L l e \<longleftrightarrow> (case next_table l e of None \<Rightarrow> True
     | Some N \<Rightarrow> frame_ok N \<and> (\<forall>n < L. \<forall>va. tbl m root L n va \<noteq> Some N) \<and> (\<forall>i < 512. m (slot N i) = 0))"

lemma tbl_update_all:
  fixes e :: u64
  assumes "tree m root L F" and "D < L" and "tbl m root L D VA = Some T" and "new_entry m root L (L - D) e" and "n \<le> L"
  defines "m' \<equiv> m(slot T (ix (L - D) VA) := e)"
  shows "tbl m' root L n va = (if n \<le> D \<or> \<not> same_path L (Suc D) va VA then tbl m root L n va
    else if n = Suc D then next_table (L - D) e else None)"
proof (cases "n \<le> D \<or> \<not> same_path L (Suc D) va VA")
  case True
  then show ?thesis using tbl_update(1,2) [OF assms(1-3)] assms(5) by (auto simp: m'_def)
next
  case False
  then have sd: "tbl m' root L (Suc D) va = next_table (L - D) e" using tbl_update(3) [OF assms(1-3)] by (simp add: m'_def)
  have "tbl m' root L (Suc (Suc D)) va = None"
  proof (cases "next_table (L - D) e")
    case (Some N)
    then have N: "frame_ok N" "T \<noteq> N" "m (slot N (ix (L - Suc D) va)) = 0"
      using assms(2,3,4) ix_less by (auto simp: new_entry_def)
    then have "slot N (ix (L - Suc D) va) \<noteq> slot T (ix (L - D) VA)"
      using quad_slot_inj [of N T] treeD(1) [OF assms(1-3)] ix_less by blast
    then have "next_table (L - Suc D) (m' (slot N (ix (L - Suc D) va))) = None" using N(3) by (simp add: m'_def next_table_def)
    then show ?thesis using sd Some by simp
  qed (use sd in simp)
  then have "tbl m' root L n va = None" if "n \<noteq> Suc D" using tbl_stays_None [of m' root L "Suc (Suc D)" va n] False that by auto
  then show ?thesis using False sd by auto
qed

lemma tree_update:
  fixes e :: u64
  assumes "tree m root L F" and "D < L" and "tbl m root L D VA = Some T" and "new_entry m root L (L - D) e"
    and "F' \<subseteq> F" and "\<And>N. next_table (L - D) e = Some N \<Longrightarrow> N \<notin> F'"
  defines "m' \<equiv> m(slot T (ix (L - D) VA) := e)"
  shows "tree m' root L F'"
proof -
  have all: "tbl m' root L n va = (if n \<le> D \<or> \<not> same_path L (Suc D) va VA then tbl m root L n va
    else if n = Suc D then next_table (L - D) e else None)" if "n < L" for n va
    unfolding m'_def using tbl_update_all [OF assms(1-4), of n va] that by simp
  have tab: "tbl m root L n va = Some t \<or> n = Suc D \<and> same_path L (Suc D) va VA \<and> next_table (L - D) e = Some t"
    if "n < L" "tbl m' root L n va = Some t" for n va t using all [OF that(1), of va] that(2) by (auto split: if_splits)
  have new: "frame_ok N" "tbl m root L n va \<noteq> Some N" if "next_table (L - D) e = Some N" "n < L" for N n va
    using assms(4) that by (auto simp: new_entry_def)
  show ?thesis
    unfolding tree_def
  proof (intro conjI allI impI)
    fix n va t assume "n < L" "tbl m' root L n va = Some t"
    then show "frame_ok t" "t \<notin> F'" using tab [of n va t] treeD(1,2) [OF assms(1)] new(1) assms(5,6) by blast+
  next
    fix n n' va va' t assume "n < L" "n' < L" "tbl m' root L n va = Some t" "tbl m' root L n' va' = Some t"
    then consider "tbl m root L n va = Some t" "tbl m root L n' va' = Some t"
      | "n = Suc D" "n' = Suc D" "same_path L (Suc D) va VA" "same_path L (Suc D) va' VA"
      using tab [of n va t] tab [of n' va' t] new(2) by blast
    then have "n = n' \<and> same_path L n va va'"
    proof cases
      case 1
      then show ?thesis using treeD(3) [OF assms(1) \<open>n' < L\<close>, of va' t n va] \<open>n < L\<close> by blast
    next
      case 2
      then show ?thesis using same_path_trans same_path_sym by blast
    qed
    then show "n = n'" "same_path L n va va'" by blast+
  qed
qed

lemma walk_update:
  fixes e :: u64
  assumes "tree m (Some r) L F" and "L \<le> 4" and "D < L" and "tbl m (Some r) L D VA = Some T" and "new_entry m (Some r) L (L - D) e"
  defines "m' \<equiv> m(slot T (ix (L - D) VA) := e)"
  shows "walk m' L r va = (if same_path L (Suc D) va VA
    then if bit e 0 \<and> (L - D = 1 \<or> L - D \<le> 3 \<and> bit e 7) then Some (L - D - 1, e) else None else walk m L r va)"
proof (cases "same_path L (Suc D) va VA")
  case False
  have "walk m' L r va = walk m L r va"
  proof (rule walk_cong [OF _ treeD(1) [OF assms(1)] assms(2)])
    fix n t assume n: "n < L" "tbl m (Some r) L n va = Some t"
    have "slot t (ix (L - n) va) \<noteq> slot T (ix (L - D) VA)"
    proof
      assume "slot t (ix (L - n) va) = slot T (ix (L - D) VA)"
      then have "t = T" "ix (L - n) va = ix (L - D) VA"
        using quad_slot_inj treeD(1) [OF assms(1)] n assms(3,4) ix_less by blast+
      moreover from this have "n = D \<and> same_path L D va VA" using treeD(3) [OF assms(1,3,4) n(1)] n(2) by blast
      ultimately show False using False by (auto simp: same_path_Suc)
    qed
    then show "m' (slot t (ix (L - n) va)) = m (slot t (ix (L - n) va))" by (simp add: m'_def)
  qed auto
  then show ?thesis using False by simp
next
  case True
  obtain l where l: "L - D = Suc l" "l \<le> 3" using assms(2,3) by (cases "L - D") auto
  have tr: "tree m' (Some r) L {}" unfolding m'_def using assms(1,3,4,5) by (intro tree_update) auto
  have tD: "tbl m' (Some r) L D va = Some T"
    using tbl_update(1) [OF assms(1,3,4), of D e va] tbl_same [of L D va VA] True assms(4) by (simp add: m'_def same_path_Suc)
  have e: "m' (slot T (ix (Suc l) va)) = e" using True l(1) by (simp add: m'_def same_path_Suc)
  have "walk m' L r va = walk m' (Suc l) T va" using walk_tbl [OF tr assms(2,3) tD] l(1) by simp
  also have "\<dots> = (if bit e 0 \<and> (l = 0 \<or> l < 3 \<and> bit e 7) then Some (l, e) else None)"
  proof (cases "bit e 0 \<and> \<not> (l = 0 \<or> l < 3 \<and> bit e 7)")
    case table: True
    then obtain N l' where N: "next_table (Suc l) e = Some N" "l = Suc l'" by (cases l) (auto simp: next_table_def)
    then have fr: "frame_ok N" "m (slot N (ix l va)) = 0" "N \<noteq> T"
      using assms(3,4,5) l(1) ix_less by (auto simp: new_entry_def)
    have "slot N (ix l va) \<noteq> slot T (ix (L - D) VA)"
      using quad_slot_inj [of N T] fr(1,3) treeD(1) [OF assms(1,3,4)] ix_less by blast
    then have "walk m' l N va = None" using fr(2) N(2) by (simp add: m'_def Let_def)
    moreover have "walk m' (Suc l) T va = walk m' l N va"
      using walk_Suc_table [of l m' T va N] e N fr(1) l(2) by simp
    ultimately show ?thesis using table by simp
  qed (auto simp: e Let_def)
  finally show ?thesis using True l by auto
qed

end
