(* ===== verification/Page_Map.thy ===== *)
theory Page_Map
  imports Page_Walk
begin

text \<open>
  The table operations of \<^verbatim>\<open>kern/page-table.h\<close> as operations on the translation: allocating tables on the way never changes it, and
  storing an entry changes it for exactly the addresses of that entry's page.
\<close>

section \<open>Invariant\<close>

fun root_of :: "pt_state \<Rightarrow> entry_ref \<Rightarrow> u64 option" where
  "root_of st KernelPgt = Some (physical_address (kernel_pgt st))"
| "root_of st KernEntry = next_table 4 (kern_entry st)"
| "root_of st (Slot a) = None"

definition frames :: "nat list \<Rightarrow> u64 set" where "frames fl = (\<lambda>p. of_nat (4096 * p)) ` set fl"

text \<open>
  \<open>pt_inv st R L fl X\<close>: the tables below \<open>R\<close> form a tree of frames that are neither free nor among the frames \<open>X\<close>, which belong to others.
\<close>

definition pt_inv :: "pt_state \<Rightarrow> entry_ref \<Rightarrow> nat \<Rightarrow> nat list \<Rightarrow> u64 set \<Rightarrow> bool" where
  "pt_inv st R L fl X \<longleftrightarrow> mp_inv (pt_pages st) fl \<and> unat (nr_page_structs (pt_pages st)) \<le> 2 ^ 27 \<and>
     (\<forall>p \<in> set fl. phyaddr (page_structs (pt_pages st) p) = of_nat (4096 * p)) \<and>
     tree (qmem st) (root_of st R) L (frames fl \<union> X) \<and> frames fl \<inter> X = {} \<and> (\<forall>x \<in> X. frame_ok x)"

definition view :: "pt_state \<Rightarrow> entry_ref \<Rightarrow> nat \<Rightarrow> u64 \<Rightarrow> (nat \<times> u64) option" where
  "view st R L va = (case root_of st R of None \<Rightarrow> None | Some r \<Rightarrow> walk (qmem st) L r va)"

text \<open>What allocating tables leaves alone.\<close>

definition keeps :: "entry_ref \<Rightarrow> nat \<Rightarrow> u64 set \<Rightarrow> pt_state \<Rightarrow> pt_state \<Rightarrow> bool" where
  "keeps R L X st st' \<longleftrightarrow> view st' R L = view st R L \<and> (\<forall>t \<in> X. \<forall>i < 512. qmem st' (slot t i) = qmem st (slot t i)) \<and>
     kernel_pgt st' = kernel_pgt st \<and> cr3 st' = cr3 st \<and> max_phy (pt_pages st') = max_phy (pt_pages st)"

lemma keeps_refl [simp]: "keeps R L X st st"
  by (simp add: keeps_def)

lemma keeps_trans: "keeps R L X a b \<Longrightarrow> keeps R L X b c \<Longrightarrow> keeps R L X a c"
  by (simp add: keeps_def)

section \<open>Tables that do not change\<close>

lemma tables_cong:
  assumes "\<And>n va t. n < L \<Longrightarrow> tbl m root L n va = Some t \<Longrightarrow> \<forall>i < 512. m' (slot t i) = m (slot t i)"
  shows "n \<le> L \<Longrightarrow> tbl m' root L n va = tbl m root L n va" and "tree m' root L F \<longleftrightarrow> tree m root L F"
proof -
  show eq: "tbl m' root L n va = tbl m root L n va" if "n \<le> L" for n va
  proof (rule tbl_cong)
    fix k t assume "k < n" "tbl m root L k va = Some t"
    then show "m' (slot t (ix (L - k) va)) = m (slot t (ix (L - k) va))" using assms [of k va t] that ix_less by simp
  qed
  then show "tree m' root L F \<longleftrightarrow> tree m root L F" unfolding tree_def by simp
qed

lemma walk_tables_cong:
  assumes "tree m (Some r) L F" and "L \<le> 4"
    and "\<And>n va t. n < L \<Longrightarrow> tbl m (Some r) L n va = Some t \<Longrightarrow> \<forall>i < 512. m' (slot t i) = m (slot t i)"
  shows "walk m' L r va = walk m L r va"
  using assms ix_less treeD(1) [OF assms(1)] by (intro walk_cong) blast+

lemma frame_ok_page:
  assumes "p < 2 ^ 27"
  shows "frame_ok (of_nat (4096 * p))"
proof -
  have u: "unat (of_nat (4096 * p) :: u64) = 4096 * p" using assms by (intro of_nat_inverse [OF refl]) simp
  have hi: "\<not> bit (of_nat (4096 * p) :: u64) n" if "52 \<le> n" for n
    using bit_below [of "of_nat (4096 * p) :: u64" 52 n] u assms that by simp
  have "(of_nat (4096 * p) :: u64) = push_bit 12 (of_nat p)" by (simp add: push_bit_eq_mult)
  then have lo: "\<not> bit (of_nat (4096 * p) :: u64) n" if "n < 12" for n using that by (simp only: bit_push_bit_iff) auto
  show ?thesis unfolding frame_ok_bits using hi lo not_less by blast
qed

lemma free_frame:
  assumes "pt_inv st R L fl X" and "p \<in> set fl"
  shows "p < 2 ^ 27" "frame_ok (of_nat (4096 * p))" "of_nat (4096 * p) \<in> frames fl"
proof -
  show "p < 2 ^ 27" using assms mp_inv_less [of "pt_pages st" fl p] by (auto simp: pt_inv_def)
  then show "frame_ok (of_nat (4096 * p))" by (rule frame_ok_page)
  show "of_nat (4096 * p) \<in> frames fl" using assms(2) by (auto simp: frames_def)
qed

lemma page_addr_inj: "p < 2 ^ 27 \<Longrightarrow> q < 2 ^ 27 \<Longrightarrow> (of_nat (4096 * p) :: u64) = of_nat (4096 * q) \<longleftrightarrow> p = q"
proof
  assume "p < 2 ^ 27" "q < 2 ^ 27" "(of_nat (4096 * p) :: u64) = of_nat (4096 * q)"
  moreover have "unat (of_nat (4096 * k) :: u64) = 4096 * k" if "k < 2 ^ 27" for k using that by (intro of_nat_inverse [OF refl]) simp
  ultimately have "4096 * p = 4096 * q" by metis
  then show "p = q" by simp
qed simp

section \<open>A new table\<close>

lemma entry_bits: "bit (CommonBaseEntry p) n \<longleftrightarrow> n = 0 \<or> n = 1 \<or> bit p n"
  by (auto simp: CommonBaseEntry_def set_read_write_def set_present_def bit_set_flag)

lemma table_entry:
  assumes "frame_ok N"
  shows "1 < l \<Longrightarrow> next_table l (CommonBaseEntry N) = Some N" "bit (CommonBaseEntry N) 0" "\<not> bit (CommonBaseEntry N) 7"
proof -
  have "physical_address (CommonBaseEntry N) = N"
    by (rule bit_eqI) (use assms in \<open>auto simp: bit_physical entry_bits frame_ok_bits\<close>)
  then show "1 < l \<Longrightarrow> next_table l (CommonBaseEntry N) = Some N" "bit (CommonBaseEntry N) 0" "\<not> bit (CommonBaseEntry N) 7"
    using assms by (auto simp: next_table_def entry_bits frame_ok_bits)
qed

definition cleared :: "u64 \<Rightarrow> (u64 \<Rightarrow> u64) \<Rightarrow> u64 \<Rightarrow> u64" where
  "cleared N m = (\<lambda>a. if a - N < 4096 then 0 else m a)"

lemma cleared_slot:
  assumes "frame_ok t" "frame_ok N" "i < 512"
  shows "cleared N m (slot t i) = (if t = N then 0 else m (slot t i))"
  using slot_in_frame [OF assms] by (simp add: cleared_def)

text \<open>Taking a page and clearing it.\<close>

lemma pt_inv_take:
  assumes "pt_inv st R L (x # y # r) X" and "mp_inv mp (y # r)" and "same_meta (pt_pages st) mp"
  defines "N \<equiv> of_nat (4096 * x)"
  shows "frame_ok N" "N \<notin> frames (y # r) \<union> X" "tree (cleared N (qmem st)) (root_of st R) L (insert N (frames (y # r) \<union> X))"
    "\<And>n va t. n < L \<Longrightarrow> tbl (qmem st) (root_of st R) L n va = Some t \<Longrightarrow> t \<noteq> N \<and> frame_ok t"
    "\<And>n va. n \<le> L \<Longrightarrow> tbl (cleared N (qmem st)) (root_of st R) L n va = tbl (qmem st) (root_of st R) L n va"
    "\<And>p. p \<in> set (y # r) \<Longrightarrow> phyaddr (page_structs mp p) = of_nat (4096 * p)" "unat (nr_page_structs mp) \<le> 2 ^ 27" "max_phy mp = max_phy (pt_pages st)"
proof -
  have tr: "tree (qmem st) (root_of st R) L (frames (x # y # r) \<union> X)" using assms(1) by (simp add: pt_inv_def)
  have fr: "frames (x # y # r) = insert N (frames (y # r))" by (simp add: frames_def N_def)
  show fN: "frame_ok N" using free_frame(2) [OF assms(1), of x] by (simp add: N_def)
  have "mp_inv (pt_pages st) (x # y # r)" using assms(1) by (simp add: pt_inv_def)
  then have d: "x \<notin> set (y # r)" using mp_inv_distinct by fastforce
  have "N \<notin> frames (y # r)"
  proof
    assume "N \<in> frames (y # r)"
    then obtain p where "p \<in> set (y # r)" "N = of_nat (4096 * p)" by (auto simp: frames_def)
    then show False using d free_frame(1) [OF assms(1)] page_addr_inj [of x p] by (auto simp: N_def)
  qed
  then show "N \<notin> frames (y # r) \<union> X" using assms(1) fr by (auto simp: pt_inv_def)
  show tN: "t \<noteq> N \<and> frame_ok t" if "n < L" "tbl (qmem st) (root_of st R) L n va = Some t" for n va t
    using treeD(1,2) [OF tr that] fr by auto
  have keep: "\<forall>i < 512. cleared N (qmem st) (slot t i) = qmem st (slot t i)"
    if "n < L" "tbl (qmem st) (root_of st R) L n va = Some t" for n va t
    using tN [OF that] fN cleared_slot by simp
  show "tree (cleared N (qmem st)) (root_of st R) L (insert N (frames (y # r) \<union> X))"
    using tables_cong(2) [of L "qmem st" "root_of st R" "cleared N (qmem st)"] keep tr fr by auto
  show "\<And>n va. n \<le> L \<Longrightarrow> tbl (cleared N (qmem st)) (root_of st R) L n va = tbl (qmem st) (root_of st R) L n va"
    using tables_cong(1) keep by blast
  show "phyaddr (page_structs mp p) = of_nat (4096 * p)" if "p \<in> set (y # r)" for p
    using assms(1,3) that by (auto simp: pt_inv_def same_meta_def)
  have "mp = (pt_pages st)\<lparr>page_head := page_head mp, page_structs := page_structs mp\<rparr>" using assms(3) by (simp add: same_meta_def)
  then have "nr_page_structs mp = nr_page_structs (pt_pages st)" "max_phy mp = max_phy (pt_pages st)"
    by (metis mem_pages.select_convs(9) mem_pages.surjective mem_pages.update_convs(7,8), metis mem_pages.select_convs(6) mem_pages.surjective mem_pages.update_convs(7,8))
  then show "unat (nr_page_structs mp) \<le> 2 ^ 27" "max_phy mp = max_phy (pt_pages st)" using assms(1) by (auto simp: pt_inv_def)
qed

lemma clear_frame_cleared: "clear_frame p s = s\<lparr>qmem := cleared p (qmem s)\<rparr>"
  by (simp add: clear_frame_def cleared_def)

lemma Allocate_unfold:
  assumes "AllocPage (pt_pages st) = Inr (PageAt x, mp)" and "phyaddr (page_structs mp x) = N"
    and "\<And>a. r = Slot a \<Longrightarrow> \<not> a - N < 4096" and "r \<noteq> KernelPgt"
  shows "Allocate r st = Inr (wr_entry r (CommonBaseEntry N) (st\<lparr>pt_pages := mp, qmem := cleared N (qmem st)\<rparr>))"
proof (cases r)
  case (Slot a)
  have up: "cleared N ((qmem st)(a := N)) = (cleared N (qmem st))(a := N)"
    using assms(3) [OF Slot] by (auto simp: cleared_def fun_eq_iff)
  show ?thesis using assms Slot by (simp add: Allocate_def clear_frame_cleared up CommonBaseEntry_def Let_def del: fun_upd_apply) (simp add: up)
next
  case KernEntry
  then show ?thesis using assms by (simp add: Allocate_def clear_frame_cleared CommonBaseEntry_def Let_def)
qed (use assms in simp)

lemma Allocate_slot:
  assumes inv: "pt_inv st R L (x # y # r) X" and D: "Suc D < L" "L \<le> 4" and T: "tbl (qmem st) (root_of st R) L D va = Some T"
    and np: "\<not> bit (qmem st (slot T (ix (L - D) va))) 0"
  shows "\<exists>st' N. Allocate (Slot (slot T (ix (L - D) va))) st = Inr st' \<and> pt_inv st' R L (y # r) X \<and> keeps R L X st st' \<and>
    qmem st' (slot T (ix (L - D) va)) = CommonBaseEntry N \<and> frame_ok N \<and> tbl (qmem st') (root_of st' R) L (Suc D) va = Some N \<and>
    kern_entry st' = kern_entry st"
proof -
  let ?s = "slot T (ix (L - D) va)"
  define N :: u64 where "N = of_nat (4096 * x)"
  define e where "e = CommonBaseEntry N"
  have DL: "D < L" using D by simp
  have "mp_inv (pt_pages st) (x # y # r)" using inv by (simp add: pt_inv_def)
  then obtain mp where mp: "AllocPage (pt_pages st) = Inr (PageAt x, mp)" "mp_inv mp (y # r)" "same_meta (pt_pages st) mp"
    by (rule AllocPage_inv)
  note take = pt_inv_take [OF inv mp(2,3), folded N_def]
  have phx: "phyaddr (page_structs mp x) = N" using inv mp(3) by (simp add: pt_inv_def same_meta_def N_def)
  have fT: "T \<noteq> N" "frame_ok T" using take(4) [OF DL T] by auto
  have off: "\<not> ?s - N < 4096" using slot_in_frame [OF fT(2) take(1)] ix_less fT(1) by simp
  define m1 where "m1 = cleared N (qmem st)"
  define st' where "st' = st\<lparr>pt_pages := mp, qmem := m1(?s := e)\<rparr>"
  have run: "Allocate (Slot ?s) st = Inr st'"
    using Allocate_unfold [OF mp(1) phx, of "Slot ?s"] off by (simp add: st'_def m1_def e_def)
  have root: "root_of st' R = root_of st R" by (cases R) (simp_all add: st'_def)
  have tr1: "tree m1 (root_of st R) L (insert N (frames (y # r) \<union> X))" using take(3) by (simp add: m1_def)
  have T1: "tbl m1 (root_of st R) L D va = Some T" using take(5) [of D va] DL T by (simp add: m1_def)
  have DL1: "1 < L - D" using D by simp
  note te = table_entry(1) [OF take(1) DL1, folded e_def] table_entry(2,3) [OF take(1), folded e_def]
  have new: "new_entry m1 (root_of st R) L (L - D) e"
    unfolding new_entry_def te(1)
    using take(1) treeD(2) [OF tr1] cleared_slot [OF take(1) take(1)] by (auto simp: m1_def)
  have qm: "qmem st' = m1(?s := e)" by (simp add: st'_def)
  have tr2: "tree (qmem st') (root_of st R) L (frames (y # r) \<union> X)"
    unfolding qm using take(2) te(1) by (intro tree_update [OF tr1 DL T1 new]) auto
  have "tbl (qmem st') (root_of st R) L (Suc D) va = next_table (L - D) e"
    unfolding qm by (rule tbl_update(3) [OF tr1 DL T1]) simp
  then have tN: "tbl (qmem st') (root_of st' R) L (Suc D) va = Some N" using te(1) root by simp
  have X: "frames (y # r) \<inter> X = {}" "\<forall>x \<in> X. frame_ok x" using inv by (auto simp: pt_inv_def frames_def)
  have inv': "pt_inv st' R L (y # r) X"
    unfolding pt_inv_def root using mp(2) take(6,7) tr2 X by (simp add: st'_def)
  have vw: "view st' R L va' = view st R L va'" for va'
  proof (cases "root_of st R")
    case (Some q)
    have "walk (qmem st') L q va' = (if same_path L (Suc D) va' va then None else walk m1 L q va')"
      unfolding qm using walk_update [OF tr1 [unfolded Some] D(2) DL T1 [unfolded Some] new [unfolded Some], of va'] te(3) D(1)
      by auto
    moreover have w1: "walk m1 L q va' = walk (qmem st) L q va'"
    proof (rule walk_tables_cong)
      show "tree (qmem st) (Some q) L (frames (x # y # r) \<union> X)" using inv Some by (simp add: pt_inv_def)
      show "\<forall>i<512. m1 (slot t i) = qmem st (slot t i)" if "n < L" "tbl (qmem st) (Some q) L n va = Some t" for n va t
        using take(4) [of n va t] that Some cleared_slot [OF _ take(1)] by (simp add: m1_def)
    qed (rule D(2))
    moreover have "walk m1 L q va' = None" if "same_path L (Suc D) va' va"
    proof -
      obtain l where l: "L - D = Suc l" using DL by (cases "L - D") auto
      have "tbl m1 (Some q) L D va' = Some T" using tbl_same [of L D va' va] that T1 Some by (simp add: same_path_Suc)
      then have "walk m1 L q va' = walk m1 (Suc l) T va'" using walk_tbl [OF tr1 [unfolded Some] D(2) DL] l by simp
      moreover have "m1 (slot T (ix (Suc l) va')) = qmem st (slot T (ix (L - D) va))"
        using that l cleared_slot [OF fT(2) take(1)] fT(1) ix_less by (simp add: m1_def same_path_Suc)
      ultimately show ?thesis using np by (simp add: Let_def)
    qed
    ultimately show ?thesis using Some root by (simp add: view_def)
  qed (simp add: view_def root)
  have "qmem st' (slot t i) = qmem st (slot t i)" if "t \<in> X" "i < 512" for t i
  proof -
    have t: "frame_ok t" "t \<noteq> N" "t \<noteq> T" using X(2) that(1) take(2) treeD(2) [OF tr1 DL T1] by auto
    then have "slot t i \<noteq> ?s" using quad_slot_inj [of t T i] fT(2) that(2) ix_less by blast
    then show ?thesis using cleared_slot [OF t(1) take(1) that(2)] t(2) by (simp add: qm m1_def)
  qed
  then have "keeps R L X st st'" using vw take(8) by (auto simp: keeps_def st'_def)
  then show ?thesis using run inv' tN take(1) by (intro exI [of _ st'] exI [of _ N]) (simp add: qm e_def st'_def)
qed

lemma Allocate_fails:
  assumes "pt_inv st R L fl X" and "length fl \<le> 1"
  shows "Allocate r st = Inl NullDeref"
  using assms AllocPage_short [of "pt_pages st" fl] by (simp add: Allocate_def pt_inv_def)

text \<open>The first table below \<^verbatim>\<open>kern_entry\<close>.\<close>

lemma Allocate_root:
  assumes inv: "pt_inv st KernEntry L (x # y # r) X" and L: "0 < L" "L \<le> 3" and np: "\<not> bit (kern_entry st) 0"
  shows "\<exists>st' N. Allocate KernEntry st = Inr st' \<and> pt_inv st' KernEntry L (y # r) X \<and> keeps KernEntry L X st st' \<and>
    kern_entry st' = CommonBaseEntry N \<and> frame_ok N"
proof -
  define N :: u64 where "N = of_nat (4096 * x)"
  have "mp_inv (pt_pages st) (x # y # r)" using inv by (simp add: pt_inv_def)
  then obtain mp where mp: "AllocPage (pt_pages st) = Inr (PageAt x, mp)" "mp_inv mp (y # r)" "same_meta (pt_pages st) mp"
    by (rule AllocPage_inv)
  note take = pt_inv_take [OF inv mp(2,3), folded N_def]
  have phx: "phyaddr (page_structs mp x) = N" using inv mp(3) by (simp add: pt_inv_def same_meta_def N_def)
  define m1 where "m1 = cleared N (qmem st)"
  define st' where "st' = st\<lparr>pt_pages := mp, qmem := m1, kern_entry := CommonBaseEntry N\<rparr>"
  have run: "Allocate KernEntry st = Inr st'"
    using Allocate_unfold [OF mp(1) phx, of KernEntry] by (simp add: st'_def m1_def)
  have zero: "m1 (slot N i) = 0" if "i < 512" for i using cleared_slot [OF take(1) take(1) that] by (simp add: m1_def)
  have root: "root_of st' KernEntry = Some N" using table_entry(1) [OF take(1)] by (simp add: st'_def)
  have t: "tbl m1 (Some N) L n va = (if n = 0 then Some N else None)" for n va
  proof (induction n)
    case (Suc n)
    then show ?case using zero [OF ix_less] by (simp add: next_table_def)
  qed simp
  have tr: "tree m1 (Some N) L (frames (y # r) \<union> X)"
    unfolding tree_def t using take(1,2) by (auto simp: same_path_def)
  have X: "frames (y # r) \<inter> X = {}" "\<forall>x \<in> X. frame_ok x" using inv by (auto simp: pt_inv_def frames_def)
  have inv': "pt_inv st' KernEntry L (y # r) X"
    unfolding pt_inv_def root using mp(2) take(6,7) tr X by (simp add: st'_def)
  obtain l where l: "L = Suc l" using L by (cases L) auto
  have "view st' KernEntry L va = view st KernEntry L va" for va
    unfolding view_def root using zero [OF ix_less] np by (simp add: st'_def l next_table_def Let_def)
  moreover have "qmem st' (slot t i) = qmem st (slot t i)" if "t \<in> X" "i < 512" for t i
    using cleared_slot [OF _ take(1) that(2), of t] X(2) that(1) take(2) by (auto simp: st'_def m1_def)
  ultimately have "keeps KernEntry L X st st'" using take(8) by (auto simp: keeps_def st'_def)
  then show ?thesis using run inv' take(1) by (intro exI [of _ st'] exI [of _ N]) (simp add: st'_def)
qed

section \<open>One step down\<close>

lemma entry_index_slot:
  assumes "next_table (Suc l) (rd_entry st R) = Some t" and "1 \<le> l" "l \<le> 3"
  shows "entry_index l R va st = Inr (Slot (slot t (ix l va)))"
proof -
  have "\<not> (l = 1 \<and> bit (rd_entry st R) 7)" "t = physical_address (rd_entry st R)"
    using assms by (auto simp: next_table_def split: if_splits)
  then show ?thesis using entry_offset_ix [of l va] by (auto simp: entry_index_def slot_def)
qed

text \<open>
  \<^verbatim>\<open>AllocateOrPresent()[vaddr]\<close> on a slot of the tree: it arrives at the slot of the next table, or there is no page left for it.
\<close>

lemma descend_slot:
  assumes inv: "pt_inv st R L fl X" and D: "Suc D < L" "L \<le> 4" and T: "tbl (qmem st) (root_of st R) L D va = Some T"
    and ok: "bit (qmem st (slot T (ix (L - D) va))) 0 \<Longrightarrow> next_table (L - D) (qmem st (slot T (ix (L - D) va))) \<noteq> None"
  shows "descend (L - Suc D) va (Slot (slot T (ix (L - D) va)), st) = Inl NullDeref \<and> length fl \<le> 1 \<or>
    (\<exists>st' fl' T'. descend (L - Suc D) va (Slot (slot T (ix (L - D) va)), st) = Inr (Slot (slot T' (ix (L - Suc D) va)), st') \<and>
      pt_inv st' R L fl' X \<and> keeps R L X st st' \<and> tbl (qmem st') (root_of st' R) L (Suc D) va = Some T' \<and> length fl \<le> Suc (length fl'))"
proof -
  let ?s = "slot T (ix (L - D) va)"
  obtain l where l: "L - D = Suc l" "L - Suc D = l" "1 \<le> l" "l \<le> 3" using D by (cases "L - D") auto
  show ?thesis
  proof (cases "bit (qmem st ?s) 0")
    case True
    then obtain t where t: "next_table (Suc l) (rd_entry st (Slot ?s)) = Some t" using ok l(1) by auto
    then have "tbl (qmem st) (root_of st R) L (Suc D) va = Some t" using T l(1) by simp
    moreover have "descend l va (Slot ?s, st) = Inr (Slot (slot t (ix l va)), st)"
      using True entry_index_slot [OF t l(3,4)] by (simp add: descend_def AllocateOrPresent_def)
    ultimately show ?thesis using inv l(2) by (intro disjI2 exI [of _ st] exI [of _ fl] exI [of _ t]) simp
  next
    case np: False
    show ?thesis
    proof (cases "length fl \<le> 1")
      case True
      then show ?thesis using Allocate_fails [OF inv] np by (simp add: descend_def AllocateOrPresent_def)
    next
      case False
      then obtain x y r where fl: "fl = x # y # r" by (cases fl; cases "tl fl") auto
      then obtain st' N where a: "Allocate (Slot ?s) st = Inr st'" "pt_inv st' R L (y # r) X" "keeps R L X st st'"
        "qmem st' ?s = CommonBaseEntry N" "frame_ok N" "tbl (qmem st') (root_of st' R) L (Suc D) va = Some N"
        using Allocate_slot [of st R L x y r X D va T] inv D T np by auto
      have "next_table (Suc l) (rd_entry st' (Slot ?s)) = Some N" using table_entry(1) [OF a(5), of "Suc l"] a(4) l(3) by simp
      then have "descend l va (Slot ?s, st) = Inr (Slot (slot N (ix l va)), st')"
        using np a(1) entry_index_slot [of l st' "Slot ?s" N va] l(3,4) by (simp add: descend_def AllocateOrPresent_def)
      then show ?thesis using a fl l(2) by (intro disjI2 exI [of _ st'] exI [of _ "y # r"] exI [of _ N]) simp
    qed
  qed
qed

lemma descend_root:
  assumes inv: "pt_inv st KernEntry 3 fl X"
  shows "descend 3 va (KernEntry, st) = Inl NullDeref \<and> length fl \<le> 1 \<or>
    (\<exists>st' fl' T'. descend 3 va (KernEntry, st) = Inr (Slot (slot T' (ix 3 va)), st') \<and>
      pt_inv st' KernEntry 3 fl' X \<and> keeps KernEntry 3 X st st' \<and> tbl (qmem st') (root_of st' KernEntry) 3 0 va = Some T' \<and>
      length fl \<le> Suc (length fl'))"
proof (cases "bit (kern_entry st) 0")
  case True
  then obtain t where t: "next_table 4 (kern_entry st) = Some t" by (auto simp: next_table_def)
  then have "descend 3 va (KernEntry, st) = Inr (Slot (slot t (ix 3 va)), st)"
    using True entry_index_slot [of 3 st KernEntry t va] by (simp add: descend_def AllocateOrPresent_def)
  then show ?thesis using inv t by (intro disjI2 exI [of _ st] exI [of _ fl] exI [of _ t]) simp
next
  case np: False
  show ?thesis
  proof (cases "length fl \<le> 1")
    case True
    then show ?thesis using Allocate_fails [OF inv] np by (simp add: descend_def AllocateOrPresent_def)
  next
    case False
    then obtain x y r where fl: "fl = x # y # r" by (cases fl; cases "tl fl") auto
    then obtain st' N where a: "Allocate KernEntry st = Inr st'" "pt_inv st' KernEntry 3 (y # r) X" "keeps KernEntry 3 X st st'"
      "kern_entry st' = CommonBaseEntry N" "frame_ok N"
      using Allocate_root [of st 3 x y r X] inv np by auto
    have n: "next_table 4 (rd_entry st' KernEntry) = Some N" using table_entry(1) a(4,5) by simp
    then have "descend 3 va (KernEntry, st) = Inr (Slot (slot N (ix 3 va)), st')"
      using np a(1) entry_index_slot [of 3 st' KernEntry N va] by (simp add: descend_def AllocateOrPresent_def)
    then show ?thesis using a fl n by (intro disjI2 exI [of _ st'] exI [of _ "y # r"] exI [of _ N]) simp
  qed
qed

section \<open>Storing an entry\<close>

lemma store_entry:
  assumes inv: "pt_inv st R L fl X" and D: "D < L" "L \<le> 4" and T: "tbl (qmem st) (root_of st R) L D va = Some T"
    and leaf: "bit e 0" "L - D = 1 \<or> L - D \<le> 3 \<and> bit e 7"
  defines "st' \<equiv> wr_entry (Slot (slot T (ix (L - D) va))) e st"
  shows "pt_inv st' R L fl X" and "view st' R L va' = (if same_path L (Suc D) va' va then Some (L - Suc D, e) else view st R L va')"
    and "\<And>t i. t \<in> X \<Longrightarrow> i < 512 \<Longrightarrow> qmem st' (slot t i) = qmem st (slot t i)"
    and "kernel_pgt st' = kernel_pgt st" "cr3 st' = cr3 st" "pt_pages st' = pt_pages st" "kern_entry st' = kern_entry st"
proof -
  have tr: "tree (qmem st) (root_of st R) L (frames fl \<union> X)" using inv by (simp add: pt_inv_def)
  have root: "root_of st' R = root_of st R" by (cases R) (simp_all add: st'_def)
  have qm: "qmem st' = (qmem st)(slot T (ix (L - D) va) := e)" by (simp add: st'_def)
  have nt: "next_table (L - D) e = None" using leaf by (auto simp: next_table_def)
  then have new: "new_entry (qmem st) (root_of st R) L (L - D) e" by (simp add: new_entry_def)
  have "tree (qmem st') (root_of st' R) L (frames fl \<union> X)"
    unfolding qm root using nt by (intro tree_update [OF tr D(1) T new]) auto
  then show "pt_inv st' R L fl X" using inv by (simp add: pt_inv_def st'_def)
  show "view st' R L va' = (if same_path L (Suc D) va' va then Some (L - Suc D, e) else view st R L va')"
  proof (cases "root_of st R")
    case (Some r)
    have "walk (qmem st') L r va' = (if same_path L (Suc D) va' va then Some (L - D - 1, e) else walk (qmem st) L r va')"
      unfolding qm using walk_update [OF tr [unfolded Some] D(2,1) T [unfolded Some] new [unfolded Some], of va'] leaf by simp
    then show ?thesis using Some root by (simp add: view_def)
  qed (use T in simp)
  show "qmem st' (slot t i) = qmem st (slot t i)" if "t \<in> X" "i < 512" for t i
  proof -
    have "frame_ok t" "frame_ok T" "t \<noteq> T" using inv that(1) treeD(1,2) [OF tr D(1) T] by (auto simp: pt_inv_def)
    then have "slot t i \<noteq> slot T (ix (L - D) va)" using quad_slot_inj that(2) ix_less by blast
    then show ?thesis by (simp add: qm)
  qed
qed (simp_all add: st'_def)

text \<open>An address that is not mapped has no large page on the way to its page.\<close>

lemma unmapped_path:
  assumes "pt_inv st R L fl X" and "L \<le> 4" and "Suc D < L" and "tbl (qmem st) (root_of st R) L D va = Some T"
    and "view st R L va = None \<or> (\<exists>e. view st R L va = Some (l, e) \<and> l < L - Suc D)" and "bit (qmem st (slot T (ix (L - D) va))) 0"
  shows "next_table (L - D) (qmem st (slot T (ix (L - D) va))) \<noteq> None"
proof -
  let ?e = "qmem st (slot T (ix (L - D) va))"
  obtain k where k: "L - D = Suc k" "L - Suc D = k" using assms(3) by (cases "L - D") auto
  obtain r where r: "root_of st R = Some r" using assms(4) by (cases "root_of st R") auto
  have tr: "tree (qmem st) (Some r) L (frames fl \<union> X)" using assms(1) r by (simp add: pt_inv_def)
  have "view st R L va = walk (qmem st) (Suc k) T va"
    using walk_tbl [OF tr assms(2) _ assms(4) [unfolded r]] assms(3) r k by (simp add: view_def)
  then have "\<not> (k < 3 \<and> bit ?e 7)" using assms(5,6) k by (auto simp: Let_def split: if_splits)
  then show ?thesis using assms(3,6) k by (auto simp: next_table_def)
qed

text \<open>The address is unmapped, or mapped below level \<open>l\<close>.\<close>

definition free_path :: "pt_state \<Rightarrow> entry_ref \<Rightarrow> nat \<Rightarrow> u64 \<Rightarrow> nat \<Rightarrow> bool" where
  "free_path st R L va l \<longleftrightarrow> (case view st R L va of None \<Rightarrow> True | Some (k, e) \<Rightarrow> k < l)"

lemma free_path_keeps: "keeps R L X st st' \<Longrightarrow> free_path st R L va l \<Longrightarrow> free_path st' R L va l"
  by (simp add: free_path_def keeps_def)

lemma descend_free:
  assumes inv: "pt_inv st R L fl X" and D: "Suc D < L" "L \<le> 4" and T: "tbl (qmem st) (root_of st R) L D va = Some T"
    and ok: "free_path st R L va l" "l \<le> L - Suc D"
  shows "descend (L - Suc D) va (Slot (slot T (ix (L - D) va)), st) = Inl NullDeref \<and> length fl \<le> 1 \<or>
    (\<exists>st' fl' T'. descend (L - Suc D) va (Slot (slot T (ix (L - D) va)), st) = Inr (Slot (slot T' (ix (L - Suc D) va)), st') \<and>
      pt_inv st' R L fl' X \<and> keeps R L X st st' \<and> tbl (qmem st') (root_of st' R) L (Suc D) va = Some T' \<and> length fl \<le> Suc (length fl'))"
proof (rule descend_slot [OF inv D T])
  have "view st R L va = None \<or> (\<exists>e. view st R L va = Some (fst (the (view st R L va)), e) \<and> fst (the (view st R L va)) < L - Suc D)"
    using ok by (auto simp: free_path_def split: option.splits)
  then show "bit (qmem st (slot T (ix (L - D) va))) 0 \<Longrightarrow> next_table (L - D) (qmem st (slot T (ix (L - D) va))) \<noteq> None"
    using unmapped_path [OF inv D(2,1) T] by blast
qed

section \<open>Page numbers\<close>

definition pagenum :: "nat \<Rightarrow> u64 \<Rightarrow> u64" where "pagenum l va = drop_bit (12 + 9 * l) (take_bit 48 va)"

lemma bit_pagenum: "bit (pagenum l va) k \<longleftrightarrow> bit va (12 + 9 * l + k) \<and> 12 + 9 * l + k < 48"
  by (auto simp: pagenum_def bit_drop_bit_eq bit_take_bit_iff)

lemma ix_eq: "1 \<le> l \<Longrightarrow> ix l va = ix l va' \<longleftrightarrow> (\<forall>k < 9. bit va (3 + 9 * l + k) = bit va' (3 + 9 * l + k))"
proof -
  assume "1 \<le> l"
  then have e: "12 + (l - 1) * 9 = 3 + 9 * l" by (cases l) auto
  have "ix l va = ix l va' \<longleftrightarrow> take_bit 9 (drop_bit (3 + 9 * l) va) = take_bit 9 (drop_bit (3 + 9 * l) va')"
    unfolding ix_take_bit e by (simp add: word_unat_eq_iff)
  also have "\<dots> \<longleftrightarrow> (\<forall>k < 9. bit va (3 + 9 * l + k) = bit va' (3 + 9 * l + k))"
  proof
    assume t: "take_bit 9 (drop_bit (3 + 9 * l) va) = take_bit 9 (drop_bit (3 + 9 * l) va')"
    show "\<forall>k < 9. bit va (3 + 9 * l + k) = bit va' (3 + 9 * l + k)"
    proof (intro allI impI)
      fix k :: nat assume "k < 9"
      then show "bit va (3 + 9 * l + k) = bit va' (3 + 9 * l + k)"
        using arg_cong [OF t, of "\<lambda>w. bit w k"] by (simp add: bit_take_bit_iff bit_drop_bit_eq)
    qed
  qed (auto simp: bit_eq_iff bit_take_bit_iff bit_drop_bit_eq)
  finally show ?thesis .
qed

lemma same_path_bits:
  "n \<le> L \<Longrightarrow> same_path L n va va' \<longleftrightarrow> (\<forall>k. 12 + 9 * (L - n) \<le> k \<longrightarrow> k < 12 + 9 * L \<longrightarrow> bit va k = bit va' k)"
proof (induction n)
  case (Suc n)
  define b where "b = 12 + 9 * (L - Suc n)"
  have b: "12 + 9 * (L - n) = b + 9" "3 + 9 * (L - n) = b" "1 \<le> L - n" using Suc.prems by (auto simp: b_def)
  have "same_path L (Suc n) va va' \<longleftrightarrow> (\<forall>k. b + 9 \<le> k \<longrightarrow> k < 12 + 9 * L \<longrightarrow> bit va k = bit va' k) \<and>
      (\<forall>k < 9. bit va (b + k) = bit va' (b + k))"
    using Suc b by (simp add: same_path_Suc ix_eq)
  also have "\<dots> \<longleftrightarrow> (\<forall>k. b \<le> k \<longrightarrow> k < 12 + 9 * L \<longrightarrow> bit va k = bit va' k)"
  proof (rule iffI; (intro conjI allI impI)?)
    fix k assume a: "(\<forall>k. b + 9 \<le> k \<longrightarrow> k < 12 + 9 * L \<longrightarrow> bit va k = bit va' k) \<and> (\<forall>k < 9. bit va (b + k) = bit va' (b + k))"
      "b \<le> k" "k < 12 + 9 * L"
    show "bit va k = bit va' k"
    proof (cases "b + 9 \<le> k")
      case False
      then have "bit va (b + (k - b)) = bit va' (b + (k - b))" using a by (metis less_diff_conv2 add.commute not_le)
      then show ?thesis using a(2) by simp
    qed (use a in blast)
  next
    fix k :: nat assume "\<forall>k. b \<le> k \<longrightarrow> k < 12 + 9 * L \<longrightarrow> bit va k = bit va' k" "k < 9"
    moreover have "b + k < 12 + 9 * L" using b Suc.prems \<open>k < 9\<close> by linarith
    ultimately show "bit va (b + k) = bit va' (b + k)" by simp
  qed simp
  finally show ?case by (simp add: b_def)
qed (simp add: same_path_def)

lemma same_path_pagenum: "l < 4 \<Longrightarrow> same_path 4 (4 - l) va va' \<longleftrightarrow> pagenum l va = pagenum l va'"
proof -
  assume "l < 4"
  then have "same_path 4 (4 - l) va va' \<longleftrightarrow> (\<forall>k. 12 + 9 * l \<le> k \<longrightarrow> k < 48 \<longrightarrow> bit va k = bit va' k)"
    using same_path_bits [of "4 - l" 4 va va'] by simp
  also have "\<dots> \<longleftrightarrow> pagenum l va = pagenum l va'"
  proof
    assume "\<forall>k. 12 + 9 * l \<le> k \<longrightarrow> k < 48 \<longrightarrow> bit va k = bit va' k"
    then show "pagenum l va = pagenum l va'" by (intro bit_eqI) (auto simp: bit_pagenum)
  next
    assume p: "pagenum l va = pagenum l va'"
    show "\<forall>k. 12 + 9 * l \<le> k \<longrightarrow> k < 48 \<longrightarrow> bit va k = bit va' k"
    proof (intro allI impI)
      fix k assume "12 + 9 * l \<le> k" "k < 48"
      then show "bit va k = bit va' k" using arg_cong [OF p, of "\<lambda>w. bit w (k - (12 + 9 * l))"] by (simp add: bit_pagenum)
    qed
  qed
  finally show ?thesis .
qed

end
