(* ===== verification/Page_Ops.thy ===== *)
theory Page_Ops
  imports Page_Map
begin

text \<open>
  Mapping pages: \<^verbatim>\<open>PageTable::MapPage\<close>, \<^verbatim>\<open>MapPagesToPageTable\<close>, \<^verbatim>\<open>InitBootPageTable\<close> and \<^verbatim>\<open>InitKernelPageTable\<close> against the translation the
  processor makes.
\<close>

section \<open>Several steps down\<close>

definition at_slot :: "pt_state \<Rightarrow> entry_ref \<Rightarrow> nat \<Rightarrow> nat \<Rightarrow> u64 \<Rightarrow> u64 \<Rightarrow> bool" where
  "at_slot st R L D va T \<longleftrightarrow> D < L \<and> tbl (qmem st) (root_of st R) L D va = Some T"

text \<open>\<open>arrives s st R L D fl X va n\<close>: a descent that needs at most \<open>n\<close> pages gets to a slot at depth \<open>D\<close>, or runs out of pages.\<close>

definition arrives :: "(entry_ref \<times> pt_state) result \<Rightarrow> pt_state \<Rightarrow> entry_ref \<Rightarrow> nat \<Rightarrow> nat \<Rightarrow> nat list \<Rightarrow> u64 set \<Rightarrow> u64 \<Rightarrow> nat \<Rightarrow> bool" where
  "arrives s st R L D fl X va n \<longleftrightarrow> s = Inl NullDeref \<and> length fl \<le> n \<or>
     (\<exists>st' fl' T. s = Inr (Slot (slot T (ix (L - D) va)), st') \<and> pt_inv st' R L fl' X \<and> keeps R L X st st' \<and> at_slot st' R L D va T \<and>
       length fl \<le> n + length fl')"

lemma arrives_step:
  assumes "arrives s st R L D fl X va n" and "Suc D < L" "L \<le> 4" and "free_path st R L va l" "l \<le> L - Suc D"
  shows "arrives (ebind s (descend (L - Suc D) va)) st R L (Suc D) fl X va (Suc n)"
proof (cases "s = Inl NullDeref \<and> length fl \<le> n")
  case True
  then show ?thesis by (simp add: arrives_def)
next
  case False
  then obtain st1 fl1 T1 where s: "s = Inr (Slot (slot T1 (ix (L - D) va)), st1)" "pt_inv st1 R L fl1 X" "keeps R L X st st1"
    "at_slot st1 R L D va T1" "length fl \<le> n + length fl1" using assms(1) by (auto simp: arrives_def)
  have fp: "free_path st1 R L va l" using free_path_keeps [OF s(3) assms(4)] .
  have t: "tbl (qmem st1) (root_of st1 R) L D va = Some T1" using s(4) by (simp add: at_slot_def)
  from descend_free [OF s(2) assms(2,3) t fp assms(5)] show ?thesis
  proof (elim disjE exE conjE)
    fix st' fl' T'
    assume a: "descend (L - Suc D) va (Slot (slot T1 (ix (L - D) va)), st1) = Inr (Slot (slot T' (ix (L - Suc D) va)), st')"
      "pt_inv st' R L fl' X" "keeps R L X st1 st'" "tbl (qmem st') (root_of st' R) L (Suc D) va = Some T'" "length fl1 \<le> Suc (length fl')"
    have "length fl \<le> Suc n + length fl'" using a(5) s(5) by simp
    then show ?thesis unfolding arrives_def
      using s a(1,2,4) keeps_trans [OF s(3) a(3)] assms(2) by (intro disjI2 exI [of _ st'] exI [of _ fl'] exI [of _ T']) (simp add: at_slot_def)
  qed (use s in \<open>simp add: arrives_def\<close>)
qed

text \<open>\<open>stores s st R L l fl X va e n\<close>: the entry \<open>e\<close> now maps the page of \<open>va\<close> at level \<open>l\<close>, all else translates as before.\<close>

definition stores :: "pt_state result \<Rightarrow> pt_state \<Rightarrow> entry_ref \<Rightarrow> nat \<Rightarrow> nat \<Rightarrow> nat list \<Rightarrow> u64 set \<Rightarrow> u64 \<Rightarrow> u64 \<Rightarrow> nat \<Rightarrow> bool" where
  "stores s st R L l fl X va e n \<longleftrightarrow> s = Inl NullDeref \<and> length fl \<le> n \<or>
    (\<exists>st' fl'. s = Inr st' \<and> pt_inv st' R L fl' X \<and> length fl \<le> n + length fl' \<and>
      (\<forall>va'. view st' R L va' = (if same_path L (L - l) va' va then Some (l, e) else view st R L va')) \<and>
      (\<forall>t \<in> X. \<forall>i < 512. qmem st' (slot t i) = qmem st (slot t i)) \<and>
      kernel_pgt st' = kernel_pgt st \<and> cr3 st' = cr3 st \<and> max_phy (pt_pages st') = max_phy (pt_pages st))"

lemma stores_mono:
  assumes "stores s st R L l fl X va e n" and "n \<le> n'"
  shows "stores s st R L l fl X va e n'"
proof (cases "s = Inl NullDeref \<and> length fl \<le> n")
  case False
  then obtain st' fl' where "s = Inr st'" "pt_inv st' R L fl' X" "length fl \<le> n + length fl'"
    "\<forall>va'. view st' R L va' = (if same_path L (L - l) va' va then Some (l, e) else view st R L va')"
    "\<forall>t \<in> X. \<forall>i < 512. qmem st' (slot t i) = qmem st (slot t i)" "kernel_pgt st' = kernel_pgt st" "cr3 st' = cr3 st"
    "max_phy (pt_pages st') = max_phy (pt_pages st)"
    using assms(1) unfolding stores_def by blast
  then show ?thesis using assms(2) unfolding stores_def by (intro disjI2 exI [of _ st'] exI [of _ fl']) simp
qed (use assms(2) in \<open>simp add: stores_def\<close>)

lemma arrives_store:
  assumes "arrives s st R L D fl X va n" and "L \<le> 4" and "L = Suc (D + l)" and "bit e 0" "l = 0 \<or> l \<le> 2 \<and> bit e 7"
  shows "stores (ebind s (\<lambda>(r, st). Inr (wr_entry r e st))) st R L l fl X va e n"
proof (cases "s = Inl NullDeref \<and> length fl \<le> n")
  case False
  then obtain st1 fl1 T1 where s: "s = Inr (Slot (slot T1 (ix (L - D) va)), st1)" "pt_inv st1 R L fl1 X" "keeps R L X st st1"
    "at_slot st1 R L D va T1" "length fl \<le> n + length fl1" using assms(1) by (auto simp: arrives_def)
  have D: "D < L" "tbl (qmem st1) (root_of st1 R) L D va = Some T1" using s(4) by (auto simp: at_slot_def)
  have lD: "L - Suc D = l" "Suc D = L - l" "L - D = 1 \<or> L - D \<le> 3 \<and> bit e 7" using assms(3,5) by auto
  let ?st = "wr_entry (Slot (slot T1 (ix (L - D) va))) e st1"
  note se = store_entry [OF s(2) D(1) assms(2) D(2) assms(4) lD(3)]
  have "view ?st R L va' = (if same_path L (L - l) va' va then Some (l, e) else view st R L va')" for va'
    using se(2) [of va'] s(3) lD(1,2) by (simp add: keeps_def)
  moreover have "qmem ?st (slot t i) = qmem st (slot t i)" if "t \<in> X" "i < 512" for t i
    using se(3) [OF that] s(3) that by (simp add: keeps_def)
  moreover have "kernel_pgt ?st = kernel_pgt st" "cr3 ?st = cr3 st" "max_phy (pt_pages ?st) = max_phy (pt_pages st)"
    using s(3) by (simp_all add: keeps_def)
  ultimately show ?thesis using s(1,5) se(1) unfolding stores_def
    by (intro disjI2 exI [of _ ?st] exI [of _ fl1]) simp
qed (simp add: stores_def)

section \<open>Single pages\<close>

lemma leaf_bits:
  "bit (set_cache_disabled cd (set_write_through wt (CommonBaseEntry p))) n \<longleftrightarrow>
     (if n = 4 then cd else if n = 3 then wt else n = 0 \<or> n = 1 \<or> bit p n)"
  "bit (set_write_through wt (CommonBaseEntry p)) n \<longleftrightarrow> (if n = 3 then wt else n = 0 \<or> n = 1 \<or> bit p n)"
  "bit (set_write_through wt (set_huge True (CommonBaseEntry p))) n \<longleftrightarrow> (if n = 3 then wt else n = 0 \<or> n = 1 \<or> n = 7 \<or> bit p n)"
  by (auto simp: set_cache_disabled_def set_write_through_def set_huge_def bit_set_flag entry_bits)

lemma MapPage_view:
  fixes wt cd :: bool
  assumes "pt_inv st KernelPgt 4 fl X" and "free_path st KernelPgt 4 (KERN_OFFSET + p) 1"
  defines "e \<equiv> set_cache_disabled cd (set_write_through wt (CommonBaseEntry p))"
  shows "stores (MapPage p wt cd st) st KernelPgt 4 0 fl X (KERN_OFFSET + p) e 3"
proof -
  let ?va = "KERN_OFFSET + p"
  define T where "T = physical_address (kernel_pgt st)"
  have i4: "entry_index 4 KernelPgt ?va st = Inr (Slot (slot T (ix 4 ?va)))"
    using entry_offset_ix [of 4 ?va] by (simp add: entry_index_def slot_def T_def)
  have a0: "arrives (Inr (Slot (slot T (ix 4 ?va)), st)) st KernelPgt 4 0 fl X ?va 0"
    using assms(1) by (auto simp: arrives_def at_slot_def T_def)
  define s1 where "s1 = ebind (Inr (Slot (slot T (ix 4 ?va)), st)) (descend (4 - Suc 0) ?va)"
  define s2 where "s2 = ebind s1 (descend (4 - Suc (Suc 0)) ?va)"
  define s3 where "s3 = ebind s2 (descend (4 - Suc (Suc (Suc 0))) ?va)"
  have a1: "arrives s1 st KernelPgt 4 (Suc 0) fl X ?va (Suc 0)"
    unfolding s1_def by (rule arrives_step [OF a0 _ _ assms(2)]) simp_all
  have a2: "arrives s2 st KernelPgt 4 (Suc (Suc 0)) fl X ?va (Suc (Suc 0))"
    unfolding s2_def by (rule arrives_step [OF a1 _ _ assms(2)]) simp_all
  have a3: "arrives s3 st KernelPgt 4 (Suc (Suc (Suc 0))) fl X ?va (Suc (Suc (Suc 0)))"
    unfolding s3_def by (rule arrives_step [OF a2 _ _ assms(2)]) simp_all
  have run: "MapPage p wt cd st = ebind s3 (\<lambda>(r, st). Inr (wr_entry r e st))"
    by (simp add: MapPage_def i4 e_def Let_def s1_def s2_def s3_def ebind_assoc)
  have "bit e 0" by (simp add: e_def leaf_bits)
  then have "stores (MapPage p wt cd st) st KernelPgt 4 0 fl X ?va e (Suc (Suc (Suc 0)))"
    unfolding run by (intro arrives_store [OF a3]) simp_all
  then show ?thesis by (simp only: numeral_3_eq_3)
qed

section \<open>Translations\<close>

definition phys_of :: "nat \<Rightarrow> u64 \<Rightarrow> u64 \<Rightarrow> u64" where
  "phys_of l e va = (frame e AND NOT (mask (12 + 9 * l))) OR (va AND mask (12 + 9 * l))"

lemma translate_view:
  assumes "pt_inv st KernelPgt 4 fl X"
  shows "translate (qmem st) (kernel_pgt st) va = map_option (\<lambda>(l, e). phys_of l e va) (view st KernelPgt 4 va)"
proof -
  have "frame_ok (physical_address (kernel_pgt st))"
    using assms treeD(1) [of "qmem st" "root_of st KernelPgt" 4 "frames fl \<union> X" 0] by (simp add: pt_inv_def)
  then show ?thesis by (simp add: translate_def view_def phys_of_def frame_physical)
qed

lemma phys_of_leaf:
  assumes "frame_ok p" and "\<And>n. 12 \<le> n \<Longrightarrow> bit e n = bit p n" and "\<And>n. n < 12 + 9 * l \<Longrightarrow> \<not> bit p n"
  shows "phys_of l e va = p OR (va AND mask (12 + 9 * l))"
proof -
  have "frame e AND NOT (mask (12 + 9 * l)) = p"
  proof (rule bit_eqI)
    fix n
    show "bit (frame e AND NOT (mask (12 + 9 * l))) n \<longleftrightarrow> bit p n"
      using assms by (auto simp: bit_and_iff bit_not_iff bit_mask_iff bit_frame frame_ok_bits dest: bit_imp_le_length)
  qed
  then show ?thesis by (simp add: phys_of_def)
qed

lemma tree_empty:
  assumes "frame_ok r" "r \<notin> F" "\<And>i. i < 512 \<Longrightarrow> m (slot r i) = 0"
  shows "tree m (Some r) L F"
proof -
  have "tbl m (Some r) L n va = (if n = 0 then Some r else None)" for n va
    by (induction n) (use assms(3) [OF ix_less] in \<open>simp_all add: next_table_def\<close>)
  then show ?thesis using assms(1,2) by (simp add: tree_def same_path_def)
qed

section \<open>Regions\<close>

text \<open>The direct mapping of the first 512 GiB: \<open>kva q\<close> is the kernel address of the physical address \<open>q\<close>.\<close>

abbreviation kva :: "u64 \<Rightarrow> u64" where "kva q \<equiv> KERN_OFFSET + q"

lemma bit_kva:
  assumes "unat q < 2 ^ 39" and "k < 39"
  shows "bit (kva q) k = bit q k"
proof -
  have K: "KERN_OFFSET = push_bit 40 (mask 24)" by (simp add: KERN_OFFSET_def mask_eq_exp_minus_1)
  have Kb: "bit KERN_OFFSET n \<Longrightarrow> 40 \<le> n" for n by (simp only: K bit_push_bit_iff)
  have "KERN_OFFSET AND q = 0"
    by (rule bit_eqI) (use Kb bit_below [OF assms(1)] in \<open>force simp: bit_and_iff\<close>)
  then have "kva q = KERN_OFFSET OR q" by (rule plus_disjoint)
  then show ?thesis using Kb [of k] assms(2) by (auto simp: bit_or_iff)
qed

lemma drop_bit_eq_bits:
  fixes q a :: u64
  assumes "unat q < 2 ^ 39" "unat a < 2 ^ 39" "b \<le> 39"
  shows "(\<forall>k. b \<le> k \<longrightarrow> k < 39 \<longrightarrow> bit q k = bit a k) \<longleftrightarrow> unat q div 2 ^ b = unat a div 2 ^ b"
proof -
  have hi: "\<not> bit q k" "\<not> bit a k" if "39 \<le> k" for k using bit_below [OF assms(1) that] bit_below [OF assms(2) that] by auto
  have "unat q div 2 ^ b = unat a div 2 ^ b \<longleftrightarrow> drop_bit b q = drop_bit b a"
    by (simp only: word_unat_eq_iff unat_drop_bit_eq) (simp add: drop_bit_eq_div)
  also have "\<dots> \<longleftrightarrow> (\<forall>k. b \<le> k \<longrightarrow> k < 39 \<longrightarrow> bit q k = bit a k)"
  proof
    assume d: "drop_bit b q = drop_bit b a"
    show "\<forall>k. b \<le> k \<longrightarrow> k < 39 \<longrightarrow> bit q k = bit a k"
    proof (intro allI impI)
      fix k assume "b \<le> k"
      then show "bit q k = bit a k" using arg_cong [OF d, of "\<lambda>w. bit w (k - b)"] by (simp add: bit_drop_bit_eq)
    qed
  next
    assume "\<forall>k. b \<le> k \<longrightarrow> k < 39 \<longrightarrow> bit q k = bit a k"
    then have "bit q (b + k) = bit a (b + k)" for k using hi [of "b + k"] by (cases "b + k < 39") auto
    then show "drop_bit b q = drop_bit b a" by (intro bit_eqI) (simp add: bit_drop_bit_eq)
  qed
  finally show ?thesis by simp
qed

lemma div_eq_iff_between: "0 < d \<Longrightarrow> a mod d = 0 \<Longrightarrow> q div d = a div d \<longleftrightarrow> a \<le> q \<and> q < a + d" for a d q :: nat
proof -
  assume d: "0 < d" "a mod d = 0"
  then obtain c where c: "a = d * c" by (auto simp: mod_eq_0_iff_dvd)
  have "q div d = c \<longleftrightarrow> d * c \<le> q \<and> q < d * c + d"
  proof
    assume "q div d = c"
    then show "d * c \<le> q \<and> q < d * c + d" using d(1) by (metis add.commute dividend_less_times_div times_div_less_eq_dividend)
  qed (use div_nat_eqI [of d c q] in \<open>auto simp: algebra_simps\<close>)
  then show ?thesis using d(1) by (simp add: c)
qed

lemma same_page:
  assumes "unat q < 2 ^ 39" "unat a < 2 ^ 39" "l \<le> 2" "unat a mod 2 ^ (12 + 9 * l) = 0"
  shows "same_path 3 (3 - l) (kva q) (kva a) \<longleftrightarrow> unat a \<le> unat q \<and> unat q < unat a + 2 ^ (12 + 9 * l)"
proof -
  have "same_path 3 (3 - l) (kva q) (kva a) \<longleftrightarrow> (\<forall>k. 12 + 9 * l \<le> k \<longrightarrow> k < 39 \<longrightarrow> bit q k = bit a k)"
    using same_path_bits [of "3 - l" 3 "kva q" "kva a"] bit_kva [OF assms(1)] bit_kva [OF assms(2)] assms(3) by simp
  also have "\<dots> \<longleftrightarrow> unat q div 2 ^ (12 + 9 * l) = unat a div 2 ^ (12 + 9 * l)"
    using assms(3) by (intro drop_bit_eq_bits [OF assms(1,2)]) simp
  also have "\<dots> \<longleftrightarrow> unat a \<le> unat q \<and> unat q < unat a + 2 ^ (12 + 9 * l)"
    by (rule div_eq_iff_between [OF _ assms(4)]) simp
  finally show ?thesis .
qed

lemma aligned_bits:
  fixes a :: u64
  assumes "unat a mod 2 ^ b = 0" and "k < b"
  shows "\<not> bit a k"
proof -
  have "bit (unat a) k \<longleftrightarrow> bit a k" by (simp add: bit_unsigned_iff)
  moreover have "bit (unat a) k \<longleftrightarrow> bit (take_bit b (unat a)) k" using assms(2) by (simp add: bit_take_bit_iff)
  ultimately show ?thesis using assms(1) by (simp add: take_bit_eq_mod)
qed

text \<open>A leaf for the page at \<open>a\<close> sends every kernel address of the page to its physical address.\<close>

lemma phys_of_page:
  fixes a q :: u64
  assumes "unat q < 2 ^ 39" "unat a < 2 ^ 39" "l \<le> 2" "unat a mod 2 ^ (12 + 9 * l) = 0"
    and "unat a \<le> unat q" "unat q < unat a + 2 ^ (12 + 9 * l)" and "\<And>n. 12 \<le> n \<Longrightarrow> bit e n = bit a n"
  shows "phys_of l e (kva q) = q"
proof -
  let ?b = "12 + 9 * l"
  have lo: "\<not> bit a n" if "n < ?b" for n by (rule aligned_bits [OF assms(4) that])
  have "unat q div 2 ^ ?b = unat a div 2 ^ ?b" using div_eq_iff_between [of "2 ^ ?b" "unat a" "unat q"] assms(4,5,6) by simp
  then have hi: "bit q n = bit a n" if "?b \<le> n" "n < 39" for n
    using drop_bit_eq_bits [OF assms(1,2), of ?b] assms(3) that by simp
  have top: "\<not> bit q n" "\<not> bit a n" if "39 \<le> n" for n using bit_below [OF assms(1) that] bit_below [OF assms(2) that] by auto
  have "frame_ok a" unfolding frame_ok_bits
  proof (intro allI impI conjI)
    fix n assume "bit a n"
    then show "12 \<le> n" "n < 52" using lo [of n] top(2) [of n] by linarith+
  qed
  then have "phys_of l e (kva q) = a OR (kva q AND mask ?b)" using assms(7) lo by (intro phys_of_leaf) auto
  also have "\<dots> = q"
  proof (rule bit_eqI)
    fix n
    consider "n < ?b" | "?b \<le> n" "n < 39" | "39 \<le> n" by linarith
    then show "bit (a OR (kva q AND mask ?b)) n \<longleftrightarrow> bit q n"
    proof cases
      case 1
      then show ?thesis using lo [of n] bit_kva [OF assms(1), of n] assms(3)
        by (auto simp: bit_or_iff bit_and_iff bit_mask_iff dest: bit_imp_le_length)
    next
      case 2
      then show ?thesis using hi [of n] by (auto simp: bit_or_iff bit_and_iff bit_mask_iff)
    next
      case 3
      then show ?thesis using top [of n] assms(3) by (auto simp: bit_or_iff bit_and_iff bit_mask_iff)
    qed
  qed
  finally show ?thesis .
qed

text \<open>One round of the mapping loop stores one leaf, of the largest size that fits.\<close>

definition leaf_for :: "u64 \<Rightarrow> bool \<Rightarrow> nat \<Rightarrow> u64 \<Rightarrow> bool" where
  "leaf_for a wt l e \<longleftrightarrow> l \<le> 2 \<and> unat a mod 2 ^ (12 + 9 * l) = 0 \<and> bit e 0 \<and> bit e 1 \<and> \<not> bit e 2 \<and> bit e 3 = wt \<and> (\<forall>n \<ge> 12. bit e n = bit a n)"

lemma descend_root_arrives:
  assumes "pt_inv st KernEntry 3 fl X"
  shows "arrives (descend 3 va (KernEntry, st)) st KernEntry 3 0 fl X va (Suc 0)"
  using descend_root [OF assms, of va] unfolding arrives_def at_slot_def by fastforce

lemma step_split: "ebind s (\<lambda>(r, st). Inr (a, wr_entry r e st)) = ebind (ebind s (\<lambda>(r, st). Inr (wr_entry r e st))) (\<lambda>st. Inr (a, st))"
  by (cases s) (auto split: prod.splits)

lemma word_mod_unat: "a mod b = 0 \<longleftrightarrow> unat a mod unat b = 0" for a b :: u64
  by (simp add: word_unat_eq_iff unat_mod_distrib)

lemma sizes: "PAGESIZE = 2 ^ 12" "LARGEPAGESIZE = 2 ^ 21" "HUGEPAGESIZE = 2 ^ 30"
  by (simp_all add: LARGEPAGESIZE_def LARGEPAGESHIFT_def HUGEPAGESIZE_def HUGEPAGESHIFT_def)

text \<open>The level at which a round maps address \<open>a\<close> of a region that ends at \<open>E\<close>, and the number of rounds from there.\<close>

definition step_level :: "bool \<Rightarrow> nat \<Rightarrow> nat \<Rightarrow> nat" where
  "step_level skip a E = (if skip \<and> a mod 2 ^ 30 = 0 \<and> a + 2 ^ 30 \<le> E then 2 else if skip \<and> a mod 2 ^ 21 = 0 \<and> a + 2 ^ 21 \<le> E then 1 else 0)"

function map_rounds :: "bool \<Rightarrow> nat \<Rightarrow> nat \<Rightarrow> nat" where
  "map_rounds skip a E = (if a < E then Suc (map_rounds skip (a + 2 ^ (12 + 9 * step_level skip a E)) E) else 0)"
  by pat_completeness auto
termination
proof (relation "measure (\<lambda>(skip, a, E). E - a)", goal_cases)
  case (2 skip a E)
  have "a < a + 2 ^ (12 + 9 * step_level skip a E)" by simp
  then have "E - (a + 2 ^ (12 + 9 * step_level skip a E)) < E - a" using 2 by (intro diff_less_mono2)
  then show ?case by simp
qed simp

declare map_rounds.simps [simp del]

lemma map_step_stores:
  assumes inv: "pt_inv st KernEntry 3 fl X" and al: "unat addr mod 4096 = 0" and un: "view st KernEntry 3 (kva addr) = None"
    and lim: "unat addr < 2 ^ 39"
  shows "\<exists>l e s. leaf_for addr wt l e \<and> (l = 0 \<or> addr + 2 ^ (12 + 9 * l) \<le> start + len) \<and> l = step_level skip (unat addr) (unat (start + len)) \<and>
    map_step KernEntry start len skip wt addr st = ebind s (\<lambda>st. Inr (addr + 2 ^ (12 + 9 * l), st)) \<and>
    stores s st KernEntry 3 l fl X (kva addr) e 3"
proof -
  let ?va = "kva addr"
  have fp: "free_path st KernEntry 3 ?va 0" using un by (simp add: free_path_def)
  define s1 where "s1 = descend 3 ?va (KernEntry, st)"
  define s2 where "s2 = ebind s1 (descend (3 - Suc 0) ?va)"
  define s3 where "s3 = ebind s2 (descend (3 - Suc (Suc 0)) ?va)"
  have a1: "arrives s1 st KernEntry 3 0 fl X ?va (Suc 0)" unfolding s1_def by (rule descend_root_arrives [OF inv])
  have a2: "arrives s2 st KernEntry 3 (Suc 0) fl X ?va (Suc (Suc 0))"
    unfolding s2_def by (rule arrives_step [OF a1 _ _ fp]) simp_all
  have a3: "arrives s3 st KernEntry 3 (Suc (Suc 0)) fl X ?va (Suc (Suc (Suc 0)))"
    unfolding s3_def by (rule arrives_step [OF a2 _ _ fp]) simp_all
  define eh e4 where "eh = set_write_through wt (set_huge True (CommonBaseEntry addr))" and "e4 = set_write_through wt (CommonBaseEntry addr)"
  have lo: "\<not> bit addr n" if "n < 12" for n using aligned_bits [of addr 12 n] al that by simp
  have bh: "bit eh 0" "bit eh 7" "bit e4 0" by (simp_all add: eh_def e4_def leaf_bits)
  have lh: "leaf_for addr wt l eh" if "l \<le> 2" "unat addr mod 2 ^ (12 + 9 * l) = 0" for l
    using that lo by (simp add: leaf_for_def eh_def leaf_bits)
  have l4: "leaf_for addr wt 0 e4" using al lo by (simp add: leaf_for_def e4_def leaf_bits)
  let ?store = "\<lambda>s e. ebind s (\<lambda>(r, st). Inr (wr_entry r e st)) :: pt_state result"
  have st2: "stores (?store s1 eh) st KernEntry 3 2 fl X ?va eh 3"
    by (rule stores_mono [OF arrives_store [OF a1]]) (use bh in simp_all)
  have st1: "stores (?store s2 eh) st KernEntry 3 1 fl X ?va eh 3"
    by (rule stores_mono [OF arrives_store [OF a2]]) (use bh in simp_all)
  have st0: "stores (?store s3 e4) st KernEntry 3 0 fl X ?va e4 3"
    by (rule stores_mono [OF arrives_store [OF a3]]) (use bh in simp_all)
  define H where "H \<longleftrightarrow> skip \<and> addr mod HUGEPAGESIZE = 0 \<and> addr + HUGEPAGESIZE \<le> start + len"
  define G where "G \<longleftrightarrow> skip \<and> addr mod LARGEPAGESIZE = 0 \<and> addr + LARGEPAGESIZE \<le> start + len"
  have run: "map_step KernEntry start len skip wt addr st =
     (if H then ebind (?store s1 eh) (\<lambda>st. Inr (addr + HUGEPAGESIZE, st))
      else if G then ebind (?store s2 eh) (\<lambda>st. Inr (addr + LARGEPAGESIZE, st))
      else ebind (?store s3 e4) (\<lambda>st. Inr (addr + PAGESIZE, st)))"
    unfolding map_step_def Let_def H_def [symmetric] G_def [symmetric] s1_def [symmetric] eh_def [symmetric] e4_def [symmetric] step_split [symmetric] s3_def s2_def
    by (simp add: ebind_assoc)
  have up: "unat (addr + 2 ^ 30) = unat addr + 2 ^ 30" "unat (addr + 2 ^ 21) = unat addr + 2 ^ 21"
    using lim unat_add_lem [of addr "2 ^ 30"] unat_add_lem [of addr "2 ^ 21"] by simp_all
  have lv: "step_level skip (unat addr) (unat (start + len)) = (if H then 2 else if G then 1 else 0)"
    by (simp add: step_level_def H_def G_def sizes word_mod_unat word_le_nat_alt up [simplified])
  consider H | "\<not> H" G | "\<not> H" "\<not> G" by blast
  then show ?thesis
  proof cases
    case 1
    then have "unat addr mod 2 ^ (12 + 9 * 2) = 0" by (simp add: H_def G_def word_mod_unat sizes)
    then show ?thesis using 1 st2 lh [of 2] run
      by (intro exI [of _ 2] exI [of _ eh] exI [of _ "?store s1 eh"]) (simp add: lv, simp add: H_def sizes)
  next
    case 2
    then have "unat addr mod 2 ^ (12 + 9 * 1) = 0" by (simp add: H_def G_def word_mod_unat sizes)
    then show ?thesis using 2 st1 lh [of 1] run
      by (intro exI [of _ 1] exI [of _ eh] exI [of _ "?store s2 eh"]) (simp add: lv, simp add: G_def sizes)
  next
    case 3
    then show ?thesis using st0 l4 run
      by (intro exI [of _ 0] exI [of _ e4] exI [of _ "?store s3 e4"]) (simp add: lv)
  qed
qed

text \<open>
  \<open>direct st st' A B wt\<close>: from \<open>st\<close> to \<open>st'\<close> the physical addresses from \<open>A\<close> to \<open>B\<close> have become mapped at their kernel addresses, writable and for
  the kernel only, and the rest of the first 512 GiB is mapped as before.
\<close>

definition direct :: "pt_state \<Rightarrow> pt_state \<Rightarrow> nat \<Rightarrow> nat \<Rightarrow> bool \<Rightarrow> bool" where
  "direct st st' A B wt \<longleftrightarrow> (\<forall>q. unat q < 2 ^ 39 \<longrightarrow>
     (if A \<le> unat q \<and> unat q < B
      then \<exists>l e. view st' KernEntry 3 (kva q) = Some (l, e) \<and> phys_of l e (kva q) = q \<and> bit e 1 \<and> \<not> bit e 2 \<and> bit e 3 = wt
      else view st' KernEntry 3 (kva q) = view st KernEntry 3 (kva q)))"

definition others_keep :: "u64 set \<Rightarrow> pt_state \<Rightarrow> pt_state \<Rightarrow> bool" where
  "others_keep X st st' \<longleftrightarrow> (\<forall>t \<in> X. \<forall>i < 512. qmem st' (slot t i) = qmem st (slot t i)) \<and>
     kernel_pgt st' = kernel_pgt st \<and> cr3 st' = cr3 st \<and> max_phy (pt_pages st') = max_phy (pt_pages st)"

lemma direct_outside:
  "direct st st' A B wt \<Longrightarrow> unat q < 2 ^ 39 \<Longrightarrow> unat q < A \<or> B \<le> unat q \<Longrightarrow> view st' KernEntry 3 (kva q) = view st KernEntry 3 (kva q)"
  unfolding direct_def by (metis leD)

lemma direct_empty: "direct st st A A wt"
  by (auto simp: direct_def)

lemma direct_leaf:
  assumes "leaf_for a wt l e" "unat a < 2 ^ 39"
    and "\<forall>va'. view st' KernEntry 3 va' = (if same_path 3 (3 - l) va' (kva a) then Some (l, e) else view st KernEntry 3 va')"
  shows "direct st st' (unat a) (unat a + 2 ^ (12 + 9 * l)) wt"
  unfolding direct_def
proof (intro allI impI)
  fix q :: u64 assume q: "unat q < 2 ^ 39"
  have l: "l \<le> 2" "unat a mod 2 ^ (12 + 9 * l) = 0" "\<And>n. 12 \<le> n \<Longrightarrow> bit e n = bit a n"
    and f: "bit e 1" "\<not> bit e 2" "bit e 3 = wt" using assms(1) unfolding leaf_for_def by blast+
  have sp: "same_path 3 (3 - l) (kva q) (kva a) \<longleftrightarrow> unat a \<le> unat q \<and> unat q < unat a + 2 ^ (12 + 9 * l)"
    by (rule same_page [OF q assms(2) l(1,2)])
  show "if unat a \<le> unat q \<and> unat q < unat a + 2 ^ (12 + 9 * l)
      then \<exists>l e. view st' KernEntry 3 (kva q) = Some (l, e) \<and> phys_of l e (kva q) = q \<and> bit e 1 \<and> \<not> bit e 2 \<and> bit e 3 = wt
      else view st' KernEntry 3 (kva q) = view st KernEntry 3 (kva q)"
  proof (cases "unat a \<le> unat q \<and> unat q < unat a + 2 ^ (12 + 9 * l)")
    case True
    then have "view st' KernEntry 3 (kva q) = Some (l, e)" using assms(3) sp by simp
    moreover have "phys_of l e (kva q) = q"
      using True by (intro phys_of_page [OF q assms(2) l(1,2) _ _ l(3)]) auto
    ultimately show ?thesis using True f by (subst if_P) blast+
  next
    case False
    then show ?thesis using assms(3) sp by (subst if_not_P) auto
  qed
qed

lemma direct_append:
  assumes "direct st st1 A B wt" "direct st1 st2 B C wt" "A \<le> B" "B \<le> C"
  shows "direct st st2 A C wt"
  unfolding direct_def
proof (intro allI impI)
  fix q :: u64 assume q: "unat q < 2 ^ 39"
  show "if A \<le> unat q \<and> unat q < C
      then \<exists>l e. view st2 KernEntry 3 (kva q) = Some (l, e) \<and> phys_of l e (kva q) = q \<and> bit e 1 \<and> \<not> bit e 2 \<and> bit e 3 = wt
      else view st2 KernEntry 3 (kva q) = view st KernEntry 3 (kva q)"
    using assms(1,2) [unfolded direct_def, rule_format, OF q] assms(3,4)
    by (cases "unat q < B"; cases "A \<le> unat q \<and> unat q < C") auto
qed

lemma others_keep_refl [simp]: "others_keep X st st"
  by (simp add: others_keep_def)

lemma others_keep_trans: "others_keep X a b \<Longrightarrow> others_keep X b c \<Longrightarrow> others_keep X a c"
  by (simp add: others_keep_def)

lemma stores_direct:
  assumes "stores s st KernEntry 3 l fl X (kva a) e n" and "leaf_for a wt l e" "unat a < 2 ^ 39"
  obtains "s = Inl NullDeref" "length fl \<le> n" | st' fl' where "s = Inr st'" "pt_inv st' KernEntry 3 fl' X"
    "direct st st' (unat a) (unat a + 2 ^ (12 + 9 * l)) wt" "others_keep X st st'" "length fl \<le> n + length fl'"
proof -
  from assms(1) [unfolded stores_def] show ?thesis
  proof (elim disjE exE conjE)
    fix st' fl'
    assume a: "s = Inr st'" "pt_inv st' KernEntry 3 fl' X"
      "\<forall>va'. view st' KernEntry 3 va' = (if same_path 3 (3 - l) va' (kva a) then Some (l, e) else view st KernEntry 3 va')"
      "\<forall>t \<in> X. \<forall>i < 512. qmem st' (slot t i) = qmem st (slot t i)" "kernel_pgt st' = kernel_pgt st" "cr3 st' = cr3 st"
      "max_phy (pt_pages st') = max_phy (pt_pages st)" "length fl \<le> n + length fl'"
    show ?thesis
      by (rule that(2) [OF a(1,2) direct_leaf [OF assms(2,3) a(3)]]) (use a in \<open>simp_all add: others_keep_def\<close>)
  qed (rule that(1))
qed

text \<open>Where the loop ends: at the end of the region, rounded up to a page.\<close>

definition page_up :: "nat \<Rightarrow> nat" where "page_up n = (n + 4095) div 4096 * 4096"

lemma page_up_le: "a mod 4096 = 0 \<Longrightarrow> a < n \<Longrightarrow> a + 4096 \<le> page_up n"
proof -
  assume a: "a mod 4096 = 0" "a < n"
  then obtain c where c: "a = 4096 * c" by (auto simp: mod_eq_0_iff_dvd)
  have "(4096 * c + 4096) div 4096 \<le> (n + 4095) div 4096" using a(2) c by (intro div_le_mono) simp
  then show ?thesis by (simp add: page_up_def c)
qed

lemma page_up_bounds: "n \<le> page_up n" "page_up n < n + 4096"
proof -
  have "page_up n + (n + 4095) mod 4096 = n + 4095" unfolding page_up_def by (rule div_mult_mod_eq)
  moreover have "(n + 4095) mod 4096 < 4096" by simp
  ultimately show "n \<le> page_up n" "page_up n < n + 4096" by linarith+
qed

lemma page_up_self: "a mod 4096 = 0 \<Longrightarrow> n \<le> a \<Longrightarrow> a < n + 4096 \<Longrightarrow> page_up n = a"
proof -
  assume a: "a mod 4096 = 0" "n \<le> a" "a < n + 4096"
  then obtain c where c: "a = 4096 * c" by (auto simp: mod_eq_0_iff_dvd)
  then have "(n + 4095) div 4096 = c" using a(2,3) by (intro div_nat_eqI) auto
  then show ?thesis by (simp add: page_up_def c)
qed

lemma map_pages_direct:
  fixes skip :: bool
  assumes "pt_inv st KernEntry 3 fl X" and "unat addr mod 4096 = 0" and "unat (start + len) \<le> 2 ^ 39"
    and "\<And>q. unat addr \<le> unat q \<Longrightarrow> unat q < unat (start + len) \<Longrightarrow> view st KernEntry 3 (kva q) = None"
    and "unat addr \<le> page_up (unat (start + len))"
  defines "budget a \<equiv> 3 * map_rounds skip (unat (a :: u64)) (unat (start + len))"
  shows "\<exists>res. map_pages KernEntry start len skip wt addr st = Some res \<and> (res = Inl NullDeref \<and> length fl \<le> budget addr \<or>
    (\<exists>st' fl'. res = Inr st' \<and> pt_inv st' KernEntry 3 fl' X \<and> direct st st' (unat addr) (page_up (unat (start + len))) wt \<and>
      others_keep X st st' \<and> length fl \<le> budget addr + length fl'))"
  using assms(1-5)
proof (induction "page_up (unat (start + len)) - unat addr" arbitrary: st fl addr rule: less_induct)
  case less
  let ?E = "unat (start + len)"
  note inv = less.prems(1) and al = less.prems(2) and E = less.prems(3) and un = less.prems(4) and le = less.prems(5)
  show ?case
  proof (cases "addr < start + len")
    case False
    then have "page_up ?E = unat addr" using page_up_self [of "unat addr" ?E] al le page_up_bounds(2) [of ?E] by (simp add: word_less_nat_alt)
    then show ?thesis using False inv by (subst map_pages.simps) (auto simp: direct_empty)
  next
    case True
    then have lt: "unat addr < ?E" by (simp add: word_less_nat_alt)
    then have a39: "unat addr < 2 ^ 39" using E by simp
    obtain l e s where lv: "l = step_level skip (unat addr) ?E" and s: "leaf_for addr wt l e" "l = 0 \<or> addr + 2 ^ (12 + 9 * l) \<le> start + len"
      "map_step KernEntry start len skip wt addr st = ebind s (\<lambda>st. Inr (addr + 2 ^ (12 + 9 * l), st))"
      "stores s st KernEntry 3 l fl X (kva addr) e 3"
      using map_step_stores [OF inv al un [OF order_refl lt] a39, where wt = wt and skip = skip and start = start and len = len] by blast
    have l2: "l \<le> 2" "unat addr mod 2 ^ (12 + 9 * l) = 0" using s(1) by (auto simp: leaf_for_def)
    have sz: "unat (2 ^ (12 + 9 * l) :: u64) = 2 ^ (12 + 9 * l)" "(2 :: nat) ^ (12 + 9 * l) \<le> 2 ^ 30"
    proof -
      consider "l = 0" | "l = 1" | "l = 2" using l2(1) by linarith
      then show "unat (2 ^ (12 + 9 * l) :: u64) = 2 ^ (12 + 9 * l)" "(2 :: nat) ^ (12 + 9 * l) \<le> 2 ^ 30" by (cases; simp)+
    qed
    define addr' where "addr' = addr + 2 ^ (12 + 9 * l)"
    have ua: "unat addr' = unat addr + 2 ^ (12 + 9 * l)"
      using unat_add_lem [of addr "2 ^ (12 + 9 * l)"] sz a39 by (simp add: addr'_def)
    have al': "unat addr' mod 4096 = 0"
    proof -
      have "(4096 :: nat) dvd 2 ^ (12 + 9 * l)" by (simp add: power_add)
      then show ?thesis using al ua by (auto simp: mod_eq_0_iff_dvd)
    qed
    have le': "unat addr' \<le> page_up ?E"
    proof (cases "l = 0")
      case True
      then show ?thesis using page_up_le [OF al lt] ua by simp
    next
      case False
      then have "unat addr' \<le> ?E" using s(2) by (simp add: addr'_def word_le_nat_alt)
      then show ?thesis using page_up_bounds(1) [of ?E] by simp
    qed
    have lt': "unat addr < unat addr'" unfolding ua by simp
    have unfold: "map_pages KernEntry start len skip wt addr st =
        (case s of Inl err \<Rightarrow> Some (Inl err) | Inr st1 \<Rightarrow> map_pages KernEntry start len skip wt addr' st1)"
      using True s(3) by (subst map_pages.simps) (cases s; simp add: addr'_def)
    have bud: "3 + budget addr' = budget addr"
      unfolding budget_def map_rounds.simps [of skip "unat addr"] using lt ua lv by simp
    from stores_direct [OF s(4,1) a39] show ?thesis
    proof cases
      case 1
      then show ?thesis using unfold bud by simp
    next
      case (2 st1 fl1)
      have "view st1 KernEntry 3 (kva q) = None" if q: "unat addr' \<le> unat q" "unat q < ?E" for q
        using direct_outside [OF 2(3), of q] un [of q] q ua E by simp
      moreover have "page_up ?E - unat addr' < page_up ?E - unat addr"
        using diff_less_mono2 [OF lt' less_le_trans [OF lt' le']] .
      ultimately obtain res where res: "map_pages KernEntry start len skip wt addr' st1 = Some res"
        "res = Inl NullDeref \<and> length fl1 \<le> budget addr' \<or> (\<exists>st' fl'. res = Inr st' \<and> pt_inv st' KernEntry 3 fl' X \<and>
          direct st1 st' (unat addr') (page_up ?E) wt \<and> others_keep X st1 st' \<and> length fl1 \<le> budget addr' + length fl')"
        using less.hyps [OF _ 2(2) al' E _ le'] by blast
      have "direct st st' (unat addr) (page_up ?E) wt \<and> others_keep X st st'"
        if "direct st1 st' (unat addr') (page_up ?E) wt" "others_keep X st1 st'" for st'
        using direct_append [OF 2(3) [folded ua] that(1)] ua le' others_keep_trans [OF 2(4) that(2)] by simp
      then show ?thesis using unfold 2(1,5) res bud by fastforce
    qed
  qed
qed

end
