(* ===== verification/Kernel_Map.thy ===== *)
theory Kernel_Map
  imports Page_Ops
begin

text \<open>
  The kernel's page table at start-up: \<^verbatim>\<open>InitBootPageTable\<close> and \<^verbatim>\<open>InitKernelPageTable\<close>, and the properties of the page-table component.
\<close>

section \<open>The entries of the memory map\<close>

definition paged :: "multiboot_mmap_entry \<Rightarrow> bool" where "paged e \<longleftrightarrow> entry_addr e mod PAGESIZE = 0"

definition region :: "multiboot_mmap_entry \<Rightarrow> nat set" where
  "region e = {unat (entry_addr e)..<page_up (unat (entry_addr e) + unat (entry_len e))}"

text \<open>A bound on the pages that mapping an entry takes: at most three tables for each round of the loop, which maps 1 GiB, 2 MiB or 4 KiB of usable memory
  and 4 KiB of other memory.\<close>

definition table_pages :: "multiboot_mmap_entry \<Rightarrow> nat" where
  "table_pages e = (if paged e then 3 * map_rounds (entry_type e = MULTIBOOT_MEMORY_AVAILABLE) (unat (entry_addr e)) (unat (entry_addr e) + unat (entry_len e)) else 0)"

definition mapped_at :: "pt_state \<Rightarrow> u64 \<Rightarrow> bool \<Rightarrow> bool" where
  "mapped_at st q wt \<longleftrightarrow> (\<exists>l e. view st KernEntry 3 (kva q) = Some (l, e) \<and> phys_of l e (kva q) = q \<and> bit e 1 \<and> \<not> bit e 2 \<and> bit e 3 = wt)"

definition entry_wt :: "multiboot_mmap_entry \<Rightarrow> bool" where "entry_wt e \<longleftrightarrow> entry_type e \<noteq> MULTIBOOT_MEMORY_AVAILABLE"

text \<open>Entries below 512 GiB whose pages do not overlap.\<close>

fun map_ok :: "multiboot_mmap_entry list \<Rightarrow> bool" where
  "map_ok [] \<longleftrightarrow> True"
| "map_ok (e # es) \<longleftrightarrow> (paged e \<longrightarrow> unat (entry_addr e) + unat (entry_len e) \<le> 2 ^ 39 \<and>
     (\<forall>e' \<in> set es. paged e' \<longrightarrow> region e \<inter> region e' = {})) \<and> map_ok es"

lemma page_up_bound: "n \<le> 2 ^ 39 \<Longrightarrow> page_up n \<le> 2 ^ 39"
proof -
  assume "n \<le> 2 ^ 39"
  then have "(n + 4095) div 4096 \<le> (2 ^ 39 + 4095) div 4096" by (intro div_le_mono) simp
  then show ?thesis by (simp add: page_up_def)
qed

lemma map_entry_direct:
  assumes "pt_inv st KernEntry 3 fl X" and "paged e" and "unat (entry_addr e) + unat (entry_len e) \<le> 2 ^ 39"
    and "\<And>q. unat q \<in> region e \<Longrightarrow> view st KernEntry 3 (kva q) = None"
  shows "\<exists>res. (if entry_type e = MULTIBOOT_MEMORY_AVAILABLE
      then MapPagesToPageTable KernEntry (entry_addr e) (entry_len e) True False st
      else MapPagesToPageTable KernEntry (entry_addr e) (entry_len e) False True st) = Some res \<and>
    (res = Inl NullDeref \<and> length fl \<le> table_pages e \<or> (\<exists>st' fl'. res = Inr st' \<and> pt_inv st' KernEntry 3 fl' X \<and>
      direct st st' (unat (entry_addr e)) (page_up (unat (entry_addr e) + unat (entry_len e))) (entry_wt e) \<and> others_keep X st st' \<and>
      length fl \<le> table_pages e + length fl'))"
proof -
  let ?a = "entry_addr e" and ?n = "entry_len e"
  have E: "unat (?a + ?n) = unat ?a + unat ?n" using assms(3) unat_add_lem [of ?a ?n] by simp
  have al: "unat ?a mod 4096 = 0" using assms(2) by (simp add: paged_def word_mod_unat)
  have un: "view st KernEntry 3 (kva q) = None" if "unat ?a \<le> unat q" "unat q < unat (?a + ?n)" for q
    using assms(4) [of q] that E page_up_bounds(1) [of "unat ?a + unat ?n"] by (simp add: region_def)
  have le: "unat ?a \<le> page_up (unat (?a + ?n))" using E page_up_bounds(1) [of "unat ?a + unat ?n"] by simp
  show ?thesis
    using map_pages_direct [OF assms(1) al _ un le, of True False] map_pages_direct [OF assms(1) al _ un le, of False True] assms(3) E
    by (simp add: MapPagesToPageTable_def entry_wt_def table_pages_def assms(2))
qed

lemma direct_inside: "direct st st' A B wt \<Longrightarrow> B \<le> 2 ^ 39 \<Longrightarrow> A \<le> unat q \<Longrightarrow> unat q < B \<Longrightarrow> mapped_at st' q wt"
  unfolding direct_def mapped_at_def by (meson less_le_trans)

text \<open>The effect of mapping the entries \<open>es\<close>, with the frames \<open>X\<close> of others left alone.\<close>

definition all_mapped :: "u64 set \<Rightarrow> pt_state \<Rightarrow> multiboot_mmap_entry list \<Rightarrow> pt_state \<Rightarrow> bool" where
  "all_mapped X st es st' \<longleftrightarrow> others_keep X st st' \<and>
     (\<forall>e \<in> set es. \<forall>q. paged e \<longrightarrow> unat q \<in> region e \<longrightarrow> mapped_at st' q (entry_wt e)) \<and>
     (\<forall>q. unat q < 2 ^ 39 \<longrightarrow> (\<forall>e \<in> set es. paged e \<longrightarrow> unat q \<notin> region e) \<longrightarrow>
        view st' KernEntry 3 (kva q) = view st KernEntry 3 (kva q))"

lemma region_bound: "map_ok es \<Longrightarrow> e \<in> set es \<Longrightarrow> paged e \<Longrightarrow> n \<in> region e \<Longrightarrow> n < 2 ^ 39"
proof (induction es)
  case (Cons x es)
  show ?case
  proof (cases "e = x")
    case True
    then have "unat (entry_addr e) + unat (entry_len e) \<le> 2 ^ 39" using Cons.prems by simp
    then show ?thesis using page_up_bound Cons.prems(4) by (fastforce simp: region_def)
  qed (use Cons in auto)
qed simp

lemma all_mapped_Cons:
  assumes d: "direct st st1 (unat (entry_addr e)) (page_up (unat (entry_addr e) + unat (entry_len e))) (entry_wt e)" "others_keep X st st1"
    and r: "all_mapped X st1 es st2" and ok: "map_ok (e # es)" "paged e"
  shows "all_mapped X st (e # es) st2"
  unfolding all_mapped_def
proof (intro conjI ballI allI impI)
  show "others_keep X st st2" using r d(2) others_keep_trans by (auto simp: all_mapped_def)
next
  fix e' and q :: u64 assume e': "e' \<in> set (e # es)" "paged e'" "unat q \<in> region e'"
  have q39: "unat q < 2 ^ 39" using region_bound [OF ok(1) e'] .
  show "mapped_at st2 q (entry_wt e')"
  proof (cases "e' \<in> set es")
    case False
    then have e: "e' = e" using e'(1) by simp
    have "page_up (unat (entry_addr e) + unat (entry_len e)) \<le> 2 ^ 39" using ok page_up_bound by simp
    then have "mapped_at st1 q (entry_wt e)" using direct_inside [OF d(1)] e'(3) e by (simp add: region_def)
    moreover have "\<forall>x \<in> set es. paged x \<longrightarrow> unat q \<notin> region x" using ok e'(3) e by auto
    ultimately show ?thesis using r q39 e by (simp add: all_mapped_def mapped_at_def)
  qed (use r e' in \<open>auto simp: all_mapped_def\<close>)
next
  fix q :: u64 assume q: "unat q < 2 ^ 39" "\<forall>e' \<in> set (e # es). paged e' \<longrightarrow> unat q \<notin> region e'"
  then have "unat q \<notin> region e" using ok(2) by simp
  then have "view st1 KernEntry 3 (kva q) = view st KernEntry 3 (kva q)"
    using direct_outside [OF d(1) q(1)] by (auto simp: region_def)
  then show "view st2 KernEntry 3 (kva q) = view st KernEntry 3 (kva q)" using r q by (simp add: all_mapped_def)
qed

lemma map_entries_direct:
  assumes "pt_inv st KernEntry 3 fl X" and "map_ok es"
    and "\<And>e q. e \<in> set es \<Longrightarrow> paged e \<Longrightarrow> unat q \<in> region e \<Longrightarrow> view st KernEntry 3 (kva q) = None"
  shows "\<exists>res. map_entries es st = Some res \<and> (res = Inl NullDeref \<and> length fl \<le> sum_list (map table_pages es) \<or>
    (\<exists>st' fl'. res = Inr st' \<and> pt_inv st' KernEntry 3 fl' X \<and> all_mapped X st es st' \<and> length fl \<le> sum_list (map table_pages es) + length fl'))"
  using assms
proof (induction es arbitrary: st fl)
  case Nil
  then show ?case by (auto simp: all_mapped_def)
next
  case (Cons e es)
  have ok: "map_ok es" using Cons.prems(2) by simp
  show ?case
  proof (cases "paged e")
    case False
    then have run: "map_entries (e # es) st = map_entries es st" by (simp add: paged_def)
    have "all_mapped X st (e # es) st'" if "all_mapped X st es st'" for st' using that False by (auto simp: all_mapped_def)
    moreover have "view st KernEntry 3 (kva q) = None" if "x \<in> set es" "paged x" "unat q \<in> region x" for x q
      using Cons.prems(3) [of x q] that by simp
    moreover have "sum_list (map table_pages (e # es)) = sum_list (map table_pages es)" using False by (simp add: table_pages_def)
    ultimately show ?thesis unfolding run using Cons.IH [OF Cons.prems(1) ok] by (simp only:) blast
  next
    case True
    have bound: "unat (entry_addr e) + unat (entry_len e) \<le> 2 ^ 39" using Cons.prems(2) True by simp
    obtain res where res: "(if entry_type e = MULTIBOOT_MEMORY_AVAILABLE
        then MapPagesToPageTable KernEntry (entry_addr e) (entry_len e) True False st
        else MapPagesToPageTable KernEntry (entry_addr e) (entry_len e) False True st) = Some res"
      "res = Inl NullDeref \<and> length fl \<le> table_pages e \<or> (\<exists>st' fl'. res = Inr st' \<and> pt_inv st' KernEntry 3 fl' X \<and>
        direct st st' (unat (entry_addr e)) (page_up (unat (entry_addr e) + unat (entry_len e))) (entry_wt e) \<and> others_keep X st st' \<and>
        length fl \<le> table_pages e + length fl')"
      using map_entry_direct [OF Cons.prems(1) True bound] Cons.prems(3) [of e] True by auto
    have run: "map_entries (e # es) st = (case res of Inl err \<Rightarrow> Some (Inl err) | Inr st' \<Rightarrow> map_entries es st')"
      using True res(1) by (simp add: paged_def split: sum.splits)
    show ?thesis
    proof (cases "res = Inl NullDeref")
      case False
      then obtain st1 fl1 where 1: "res = Inr st1" "pt_inv st1 KernEntry 3 fl1 X"
        "direct st st1 (unat (entry_addr e)) (page_up (unat (entry_addr e) + unat (entry_len e))) (entry_wt e)" "others_keep X st st1"
        "length fl \<le> table_pages e + length fl1" using res(2) by blast
      have un: "view st1 KernEntry 3 (kva q) = None" if e': "e' \<in> set es" "paged e'" "unat q \<in> region e'" for e' q
      proof -
        have "unat q \<notin> region e" "unat q < 2 ^ 39" using Cons.prems(2) e' True region_bound [OF ok e'] by auto
        then show ?thesis using direct_outside [OF 1(3)] Cons.prems(3) [of e' q] e' by (auto simp: region_def)
      qed
      have "\<exists>res. map_entries es st1 = Some res \<and> (res = Inl NullDeref \<and> length fl1 \<le> sum_list (map table_pages es) \<or>
        (\<exists>st' fl'. res = Inr st' \<and> pt_inv st' KernEntry 3 fl' X \<and> all_mapped X st1 es st' \<and>
          length fl1 \<le> sum_list (map table_pages es) + length fl'))"
        by (rule Cons.IH [OF 1(2) ok]) (rule un)
      then obtain res' where res': "map_entries es st1 = Some res'"
        "res' = Inl NullDeref \<and> length fl1 \<le> sum_list (map table_pages es) \<or> (\<exists>st' fl'. res' = Inr st' \<and> pt_inv st' KernEntry 3 fl' X \<and>
          all_mapped X st1 es st' \<and> length fl1 \<le> sum_list (map table_pages es) + length fl')" by blast
      then show ?thesis unfolding run using 1(1,5) all_mapped_Cons [OF 1(3,4) _ Cons.prems(2) True] by fastforce
    qed (use run res(2) in auto)
  qed
qed

section \<open>Installing the kernel's table\<close>

lemma ix_top: "ix 4 0 = 0" "ix 4 KERN_OFFSET = 510"
  by (simp_all add: ix_def KERN_OFFSET_def)

lemma ix_kva: "unat q < 2 ^ 39 \<Longrightarrow> ix 4 (kva q) = 510"
proof -
  assume q: "unat q < 2 ^ 39"
  have K: "KERN_OFFSET = push_bit 40 (mask 24)" by (simp add: KERN_OFFSET_def mask_eq_exp_minus_1)
  have Kb: "bit KERN_OFFSET n \<Longrightarrow> 40 \<le> n" for n by (simp only: K bit_push_bit_iff)
  have qb: "\<not> bit q n" if "39 \<le> n" for n using bit_below [OF q that] .
  have "KERN_OFFSET AND q = 0" by (rule bit_eqI) (use Kb qb in \<open>force simp: bit_and_iff\<close>)
  then have "kva q = KERN_OFFSET OR q" by (rule plus_disjoint)
  then have "ix 4 (kva q) = ix 4 KERN_OFFSET" using qb by (simp add: ix_eq bit_or_iff)
  then show ?thesis by (simp add: ix_top)
qed

lemma entry_index_top: "entry_index 4 KernelPgt va st = Inr (Slot (slot (physical_address (kernel_pgt st)) (ix 4 va)))"
  using entry_offset_ix [of 4 va] by (simp add: entry_index_def slot_def)

text \<open>Putting the finished tables below the top-level table \<open>K\<close>.\<close>

lemma installed_walk:
  assumes inv: "pt_inv st KernEntry 3 fl X" and K: "frame_ok K" "K \<in> X"
  defines "m \<equiv> (qmem st)(slot K 0 := 0, slot K 510 := kern_entry st)"
  shows "ix 4 va = 510 \<Longrightarrow> walk m 4 K va = view st KernEntry 3 va" and "ix 4 va = 0 \<Longrightarrow> walk m 4 K va = None"
proof -
  have e: "m (slot K 510) = kern_entry st" by (simp add: m_def)
  have z: "m (slot K 0) = 0" using quad_slot_inj [OF K(1) K(1), of 0 510] by (simp add: m_def)
  show "walk m 4 K va = None" if "ix 4 va = 0" using z that by (simp add: numeral_eq_Suc Let_def)
  assume i: "ix 4 va = 510"
  show "walk m 4 K va = view st KernEntry 3 va"
  proof (cases "bit (kern_entry st) 0")
    case False
    then show ?thesis using e i by (simp add: numeral_eq_Suc Let_def view_def next_table_def)
  next
    case True
    define r where "r = physical_address (kern_entry st)"
    have root: "root_of st KernEntry = Some r" using True by (simp add: next_table_def r_def)
    have tr: "tree (qmem st) (Some r) 3 (frames fl \<union> X)" using inv root by (simp add: pt_inv_def)
    have fr: "frame_ok r" using treeD(1) [OF tr, of 0] by simp
    have "walk m 4 K va = walk m 3 (frame (kern_entry st)) va"
      using True e i by (simp add: numeral_eq_Suc Let_def)
    also have "frame (kern_entry st) = r" using frame_physical fr by (simp add: r_def)
    also have "walk m 3 r va = walk (qmem st) 3 r va"
    proof (rule walk_tables_cong [OF tr])
      fix n va t assume "n < 3" "tbl (qmem st) (Some r) 3 n va = Some t"
      then have "t \<noteq> K" "frame_ok t" using treeD(1,2) [OF tr] K(2) by auto
      then show "\<forall>i<512. m (slot t i) = qmem st (slot t i)" using quad_slot_inj [of t K] K(1) by (simp add: m_def)
    qed simp
    finally show ?thesis using root by (simp add: view_def)
  qed
qed

lemma InitKernelPageTable_run:
  assumes "max_phy (pt_pages st) \<le> KERN_MAX_MEMORY" and "nr_mmap_entries mm = Inr n"
    and "map_entries (mmap_entry_list mm n) (st\<lparr>kern_entry := 0\<rparr>) = Some (Inr st1)" and "kernel_pgt st1 = kernel_pgt st"
  defines "K \<equiv> physical_address (kernel_pgt st)"
  shows "\<exists>st'. InitKernelPageTable mm st = Some (Inr st') \<and> cr3 st' = kernel_pgt st \<and>
    qmem st' = (qmem st1)(slot K 0 := 0, slot K 510 := kern_entry st1) \<and> pt_pages st' = pt_pages st1"
  using assms by (simp add: InitKernelPageTable_def Let_def Clear_def entry_index_top ix_top Install_def)

section \<open>The boot tables\<close>

lemma ix_kva_low:
  assumes "unat q < 2 ^ 39" "1 \<le> l" "l \<le> 3"
  shows "ix l (kva q) = unat q div 2 ^ (3 + 9 * l) mod 512"
proof -
  define b where "b = 3 + 9 * l"
  have b: "12 + (l - 1) * 9 = b" "b + 9 \<le> 39" using assms(2,3) by (auto simp: b_def)
  have "take_bit 9 (drop_bit b (kva q)) = take_bit 9 (drop_bit b q)"
    by (rule bit_eqI) (use b(2) bit_kva [OF assms(1)] in \<open>auto simp: bit_take_bit_iff bit_drop_bit_eq\<close>)
  then have "ix l (kva q) = unat (take_bit 9 (drop_bit b q))" unfolding ix_take_bit b(1) by simp
  also have "\<dots> = take_bit 9 (drop_bit b (unat q))" by (simp only: unsigned_take_bit_eq unat_drop_bit_eq)
  also have "\<dots> = unat q div 2 ^ b mod 512" by (simp add: take_bit_eq_mod drop_bit_eq_div)
  finally show ?thesis by (simp add: b_def)
qed

text \<open>
  What the boot code leaves: from the top-level table \<open>K\<close> an entry for the kernel's half leads to a table \<open>P\<close>, whose first entry leads to a table \<open>D\<close>
  of 2 MiB pages.
\<close>

definition boot_tables :: "pt_state \<Rightarrow> u64 \<Rightarrow> u64 \<Rightarrow> u64 \<Rightarrow> bool" where
  "boot_tables st K P D \<longleftrightarrow> frame_ok K \<and> frame_ok P \<and> frame_ok D \<and> K \<noteq> D \<and> P \<noteq> D \<and> physical_address (cr3 st) = K \<and>
     next_table 4 (qmem st (slot K 510)) = Some P \<and> next_table 3 (qmem st (slot P 0)) = Some D"

definition boot_entry :: "nat \<Rightarrow> u64" where
  "boot_entry i = set_read_write True (set_present True (set_huge True (CommonBaseEntry (of_nat (i * 2 ^ 21)))))"

lemma boot_entry_bits: "bit (boot_entry i) n \<longleftrightarrow> n = 0 \<or> n = 1 \<or> n = 7 \<or> bit (of_nat (i * 2 ^ 21) :: u64) n"
  by (auto simp: boot_entry_def set_read_write_def set_present_def set_huge_def bit_set_flag entry_bits)

lemma boot_addr: "i < 512 \<Longrightarrow> unat (of_nat (i * 2 ^ 21) :: u64) = i * 2 ^ 21"
  by (intro of_nat_inverse [OF refl]) simp

lemma boot_step_run:
  assumes "boot_tables st K P D" and "kernel_pgt st = cr3 st" and "i < 512"
  shows "boot_step i st = Inr (st\<lparr>qmem := (qmem st)(slot D i := boot_entry i)\<rparr>)"
proof -
  let ?q = "of_nat (i * 2 ^ 21) :: u64"
  have q: "unat ?q = i * 2 ^ 21" using boot_addr [OF assms(3)] .
  then have q39: "unat ?q < 2 ^ 39" using assms(3) by simp
  have ix: "ix 4 (kva ?q) = 510" "ix 3 (kva ?q) = 0" "ix 2 (kva ?q) = i"
    using ix_kva [OF q39] ix_kva_low [OF q39, of 3] ix_kva_low [OF q39, of 2] assms(3) unfolding q by simp_all
  have 4: "entry_index 4 KernelPgt (kva ?q) st = Inr (Slot (slot K 510))"
    using entry_index_top [of "kva ?q" st] ix(1) assms(1,2) by (simp add: boot_tables_def)
  have 3: "entry_index 3 (Slot (slot K 510)) (kva ?q) st = Inr (Slot (slot P 0))"
    using entry_index_slot [of 3 st "Slot (slot K 510)" P "kva ?q"] ix(2) assms(1) by (simp add: boot_tables_def)
  have 2: "entry_index 2 (Slot (slot P 0)) (kva ?q) st = Inr (Slot (slot D i))"
    using entry_index_slot [of 2 st "Slot (slot P 0)" D "kva ?q"] ix(3) assms(1) by (simp add: boot_tables_def)
  show ?thesis
    unfolding boot_step_def Let_def 4 ebind_Inr 3 2 by (simp add: boot_entry_def)
qed

lemma boot_tables_step: "boot_tables st K P D \<Longrightarrow> i < 512 \<Longrightarrow> boot_tables (st\<lparr>qmem := (qmem st)(slot D i := e)\<rparr>) K P D"
  using quad_slot_inj [of K D 510 i] quad_slot_inj [of P D 0 i] by (simp add: boot_tables_def)

lemma boot_loop_run:
  "boot_tables st K P D \<Longrightarrow> kernel_pgt st = cr3 st \<Longrightarrow> distinct is \<Longrightarrow> set is \<subseteq> {..<512} \<Longrightarrow>
    \<exists>st'. boot_loop is st = Inr st' \<and> boot_tables st' K P D \<and> kernel_pgt st' = kernel_pgt st \<and> cr3 st' = cr3 st \<and>
      pt_pages st' = pt_pages st \<and> (\<forall>j < 512. qmem st' (slot D j) = (if j \<in> set is then boot_entry j else qmem st (slot D j)))"
proof (induction "is" arbitrary: st)
  case (Cons i "is")
  let ?st = "st\<lparr>qmem := (qmem st)(slot D i := boot_entry i)\<rparr>"
  have i: "i < 512" and D: "frame_ok D" using Cons.prems(1,4) by (auto simp: boot_tables_def)
  have step: "boot_step i st = Inr ?st" by (rule boot_step_run [OF Cons.prems(1,2) i])
  from Cons.IH [of ?st] obtain st' where "boot_loop is ?st = Inr st'" "boot_tables st' K P D" "kernel_pgt st' = kernel_pgt st" "cr3 st' = cr3 st"
    "pt_pages st' = pt_pages st" "\<forall>j < 512. qmem st' (slot D j) = (if j \<in> set is then boot_entry j else qmem ?st (slot D j))"
    using boot_tables_step [OF Cons.prems(1) i] Cons.prems by auto
  then show ?case using step i quad_slot_inj [OF D D] Cons.prems(3) by (intro exI [of _ st']) auto
qed simp

section \<open>A small machine for the witnesses\<close>

definition demo_frame :: "page_ptr \<Rightarrow> page_ptr \<Rightarrow> nat \<Rightarrow> page" where
  "demo_frame p n i = zero_page\<lparr>phyaddr := of_nat (4096 * i), alloc_prev := p, alloc_next := n, is_free := True, is_in_list := True\<rparr>"

definition demo_frames :: mem_pages where
  "demo_frames = \<lparr>avail_size = 0, reserved_size = 0, acpi_size = 0, tot_size = 0, avail_low = 0, max_phy = 0x5000,
     page_head = zero_page\<lparr>alloc_prev := PageAt 4, alloc_next := PageAt 1\<rparr>,
     page_structs = (\<lambda>_. zero_page)(1 := demo_frame PageHead (PageAt 2) 1, 2 := demo_frame (PageAt 1) (PageAt 3) 2,
       3 := demo_frame (PageAt 2) (PageAt 4) 3, 4 := demo_frame (PageAt 3) PageHead 4),
     nr_page_structs = 5\<rparr>"

definition demo_pt :: pt_state where
  "demo_pt = \<lparr>qmem = \<lambda>_. 0, pt_pages = demo_frames, cr3 = 0x200000, kernel_pgt = 0x200000, kern_entry = 0\<rparr>"

lemma demo_frames_inv: "mp_inv demo_frames [1, 2, 3, 4]"
proof -
  have "(i :: nat) < 5 \<longleftrightarrow> i = 0 \<or> i = 1 \<or> i = 2 \<or> i = 3 \<or> i = 4" for i by auto
  then show ?thesis by (auto simp: mp_inv_def page_list_def dlist_def demo_frames_def demo_frame_def zero_page_def)
qed

lemma demo_root: "frame_ok (0x200000 :: u64)" "physical_address 0x200000 = 0x200000"
  by (simp_all add: frame_ok_def frame_def physical_address_def)

lemma demo_frames_set: "frames [1, 2, 3, 4] = {0x1000, 0x2000, 0x3000, 0x4000}"
  by (simp add: frames_def)

lemma demo_pt_inv: "pt_inv demo_pt KernelPgt 4 [1, 2, 3, 4] {}"
  unfolding pt_inv_def
proof (intro conjI)
  show "tree (qmem demo_pt) (root_of demo_pt KernelPgt) 4 (frames [1, 2, 3, 4] \<union> {})"
  proof -
    have r: "root_of demo_pt KernelPgt = Some 0x200000" "qmem demo_pt = (\<lambda>_. 0)" using demo_root by (simp_all add: demo_pt_def)
    show ?thesis unfolding r demo_frames_set by (rule tree_empty) (use demo_root in simp_all)
  qed
qed (use demo_frames_inv in \<open>auto simp: demo_pt_def demo_frames_def demo_frame_def\<close>)

lemma demo_unmapped: "view demo_pt KernelPgt 4 va = None"
  by (simp add: view_def demo_pt_def numeral_eq_Suc Let_def)

section \<open>Properties\<close>

text \<open>
  C8. \<^verbatim>\<open>MapPage\<close> refines an update of the address translation. With at least four free pages, on tables that form a tree, mapping a page at
  an address that is unmapped or mapped by a 4 KiB entry succeeds; afterwards the processor sends the kernel address
  of that page to the page, writable, for the kernel only and with the requested cache flags, and every other address exactly where it went before.
\<close>

theorem MapPage_maps:
  assumes "pt_inv st KernelPgt 4 fl X" and "frame_ok p" and "4 \<le> length fl" and "free_path st KernelPgt 4 (KERN_OFFSET + p) 1"
  shows "\<exists>st' fl'. MapPage p wt cd st = Inr st' \<and> pt_inv st' KernelPgt 4 fl' X \<and> kernel_pgt st' = kernel_pgt st \<and>
    (\<forall>va. translate (qmem st') (kernel_pgt st') va = (if pagenum 0 va = pagenum 0 (KERN_OFFSET + p)
       then Some (p OR (va AND mask 12)) else translate (qmem st) (kernel_pgt st) va)) \<and>
    (\<exists>e. walk (qmem st') 4 (frame (kernel_pgt st')) (KERN_OFFSET + p) = Some (0, e) \<and>
       is_read_write e \<and> \<not> is_kernel_mode e \<and> is_write_through e = wt \<and> is_cache_disabled e = cd)"
proof -
  define e where "e = set_cache_disabled cd (set_write_through wt (CommonBaseEntry p))"
  from MapPage_view [OF assms(1,4), of wt cd] assms(3) obtain st' fl' where st': "MapPage p wt cd st = Inr st'"
    "pt_inv st' KernelPgt 4 fl' X" "\<And>va. view st' KernelPgt 4 va = (if same_path 4 4 va (kva p) then Some (0, e) else view st KernelPgt 4 va)"
    "kernel_pgt st' = kernel_pgt st" by (auto simp: stores_def e_def)
  have view: "view st' KernelPgt 4 va = (if pagenum 0 va = pagenum 0 (kva p) then Some (0, e) else view st KernelPgt 4 va)" for va
    using st'(3) same_path_pagenum [of 0] by simp
  have lo: "\<not> bit p n" if "n < 12" for n using assms(2) that by (auto simp: frame_ok_bits)
  have "phys_of 0 e va = p OR (va AND mask 12)" for va
    using phys_of_leaf [OF assms(2), of e 0 va] lo by (simp add: e_def leaf_bits)
  then have "translate (qmem st') (kernel_pgt st') va = (if pagenum 0 va = pagenum 0 (kva p)
       then Some (p OR (va AND mask 12)) else translate (qmem st) (kernel_pgt st) va)" for va
    by (simp add: translate_view [OF st'(2)] translate_view [OF assms(1)] view)
  moreover have "walk (qmem st') 4 (frame (kernel_pgt st')) (kva p) = Some (0, e)"
  proof -
    have "frame_ok (physical_address (kernel_pgt st'))"
      using st'(2) treeD(1) [of "qmem st'" "root_of st' KernelPgt" 4 "frames fl' \<union> X" 0] by (simp add: pt_inv_def)
    then show ?thesis using view [of "kva p"] by (simp add: view_def frame_physical)
  qed
  moreover have "is_read_write e" "\<not> is_kernel_mode e" "is_write_through e = wt" "is_cache_disabled e = cd"
    using lo by (simp_all add: is_read_write_def is_kernel_mode_def is_write_through_def is_cache_disabled_def get_flag_bit e_def leaf_bits)
  ultimately show ?thesis using st'(1,2,4) by (intro exI [of _ st'] exI [of _ fl']) blast
qed

theorem MapPage_maps_witness:
  "\<exists>st' fl'. MapPage 0xFEC00000 True True demo_pt = Inr st' \<and> pt_inv st' KernelPgt 4 fl' {} \<and> kernel_pgt st' = kernel_pgt demo_pt \<and>
    (\<forall>va. translate (qmem st') (kernel_pgt st') va = (if pagenum 0 va = pagenum 0 (KERN_OFFSET + 0xFEC00000)
       then Some (0xFEC00000 OR (va AND mask 12)) else translate (qmem demo_pt) (kernel_pgt demo_pt) va)) \<and>
    (\<exists>e. walk (qmem st') 4 (frame (kernel_pgt st')) (KERN_OFFSET + 0xFEC00000) = Some (0, e) \<and>
       is_read_write e \<and> \<not> is_kernel_mode e \<and> is_write_through e = True \<and> is_cache_disabled e = True)"
  by (rule MapPage_maps [OF demo_pt_inv]) (simp_all add: frame_ok_def frame_def free_path_def demo_unmapped)

lemma InitBootPageTable_run:
  assumes "boot_tables st K P D"
  obtains st' where "InitBootPageTable st = Inr st'" and "boot_tables st' K P D" and "kernel_pgt st' = cr3 st" and "cr3 st' = cr3 st"
    and "pt_pages st' = pt_pages st" and "\<forall>j < 512. qmem st' (slot D j) = boot_entry j"
proof -
  have "boot_tables (PageTable st) K P D" using assms by (simp add: boot_tables_def PageTable_def)
  then show thesis using boot_loop_run [of "PageTable st" K P D "[0..<512]"] that by (force simp: InitBootPageTable_def PageTable_def)
qed

text \<open>
  C26. \<^verbatim>\<open>InitBootPageTable\<close> maps the first gigabyte: on the tables the boot code leaves, it succeeds, and afterwards the processor sends
  every kernel address of the first 1 GiB of physical memory to that memory.
\<close>

theorem InitBootPageTable_maps:
  assumes "boot_tables st K P D"
  shows "\<exists>st'. InitBootPageTable st = Inr st' \<and> kernel_pgt st' = cr3 st \<and> cr3 st' = cr3 st \<and>
    (\<forall>q. unat q < 2 ^ 30 \<longrightarrow> translate (qmem st') (cr3 st') (KERN_OFFSET + q) = Some q)"
proof -
  obtain st' where st': "InitBootPageTable st = Inr st'" "boot_tables st' K P D" "kernel_pgt st' = cr3 st" "cr3 st' = cr3 st"
    "\<forall>j < 512. qmem st' (slot D j) = boot_entry j" using InitBootPageTable_run [OF assms] by blast
  have "translate (qmem st') (cr3 st') (kva q) = Some q" if q: "unat q < 2 ^ 30" for q
  proof -
    have q39: "unat q < 2 ^ 39" using q by simp
    define i where "i = unat q div 2 ^ 21"
    have i: "i < 512" using q by (simp add: i_def less_mult_imp_div_less)
    have ix: "ix 4 (kva q) = 510" "ix 3 (kva q) = 0" "ix 2 (kva q) = i"
      using ix_kva [OF q39] ix_kva_low [OF q39, of 3] ix_kva_low [OF q39, of 2] q i by (simp_all add: i_def)
    have fr: "frame_ok K" "frame_ok P" "frame_ok D" and nt: "next_table 4 (qmem st' (slot K 510)) = Some P" "next_table 3 (qmem st' (slot P 0)) = Some D"
      and K: "physical_address (cr3 st') = K" using st'(2,4) by (auto simp: boot_tables_def)
    have "walk (qmem st') (Suc 3) K (kva q) = walk (qmem st') 3 P (kva q)"
      using nt(1) ix(1) fr(2) by (intro walk_Suc_table) simp_all
    also have "\<dots> = walk (qmem st') (Suc 2) P (kva q)" by simp
    also have "\<dots> = walk (qmem st') 2 D (kva q)" using nt(2) ix(2) fr(3) by (intro walk_Suc_table) simp_all
    also have "\<dots> = walk (qmem st') (Suc 1) D (kva q)" by (simp only: Suc_1)
    also have "\<dots> = Some (1, boot_entry i)"
      using st'(5) ix(3) i by (simp only: walk.simps Let_def) (simp add: boot_entry_bits numeral_2_eq_2)
    finally have w: "walk (qmem st') 4 K (kva q) = Some (1, boot_entry i)" by simp
    have a: "unat (of_nat (i * 2 ^ 21) :: u64) = i * 2 ^ 21" by (rule boot_addr [OF i])
    have i2: "i * 2 ^ 21 \<le> unat q \<and> unat q < i * 2 ^ 21 + 2 ^ 21"
      unfolding i_def using div_mult_mod_eq [of "unat q" "2 ^ 21"] mod_less_divisor [of "2 ^ 21" "unat q"] by simp
    have "phys_of 1 (boot_entry i) (kva q) = q"
    proof (rule phys_of_page [OF q39])
      show "unat (of_nat (i * 2 ^ 21) :: u64) \<le> unat q" "unat q < unat (of_nat (i * 2 ^ 21) :: u64) + 2 ^ (12 + 9 * 1)"
        unfolding a using i2 by simp_all
    qed (use a i boot_entry_bits in auto)
    then show ?thesis using w K frame_physical fr(1) by (simp add: translate_def phys_of_def)
  qed
  then show ?thesis using st' by (intro exI [of _ st']) simp
qed

definition demo_boot :: pt_state where
  "demo_boot = demo_pt\<lparr>qmem := (\<lambda>_. 0)(0x200FF0 := 0x201001, 0x201000 := 0x202001)\<rparr>"

theorem InitBootPageTable_maps_witness:
  "\<exists>st'. InitBootPageTable demo_boot = Inr st' \<and> kernel_pgt st' = cr3 demo_boot \<and> cr3 st' = cr3 demo_boot \<and>
    (\<forall>q. unat q < 2 ^ 30 \<longrightarrow> translate (qmem st') (cr3 st') (KERN_OFFSET + q) = Some q)"
  by (rule InitBootPageTable_maps [of _ "0x200000" "0x201000" "0x202000"])
    (simp add: boot_tables_def demo_boot_def demo_pt_def frame_ok_def frame_def physical_address_def next_table_def slot_def)

lemma InitKernelPageTable_mapped:
  assumes "mp_inv (pt_pages st) fl" and "unat (nr_page_structs (pt_pages st)) \<le> 2 ^ 27"
    and "\<forall>p \<in> set fl. phyaddr (page_structs (pt_pages st) p) = of_nat (4096 * p)"
    and "max_phy (pt_pages st) \<le> KERN_MAX_MEMORY" and "frame_ok (physical_address (kernel_pgt st))" and "physical_address (kernel_pgt st) \<notin> frames fl"
    and "nr_mmap_entries mm = Inr n" and "map_ok (mmap_entry_list mm n)"
  shows "InitKernelPageTable mm st = Some (Inl NullDeref) \<and> length fl \<le> sum_list (map table_pages (mmap_entry_list mm n)) \<or>
    (\<exists>st'. InitKernelPageTable mm st = Some (Inr st') \<and> cr3 st' = kernel_pgt st \<and>
      (\<forall>e \<in> set (mmap_entry_list mm n). \<forall>q. paged e \<longrightarrow> unat q \<in> region e \<longrightarrow> translate (qmem st') (cr3 st') (KERN_OFFSET + q) = Some q) \<and>
      (\<forall>q. unat q < 2 ^ 39 \<longrightarrow> (\<forall>e \<in> set (mmap_entry_list mm n). paged e \<longrightarrow> unat q \<notin> region e) \<longrightarrow>
        translate (qmem st') (cr3 st') (KERN_OFFSET + q) = None) \<and>
      (\<forall>va. ix 4 va = 0 \<longrightarrow> translate (qmem st') (cr3 st') va = None) \<and>
      (\<exists>fl'. mp_inv (pt_pages st') fl' \<and> unat (nr_page_structs (pt_pages st')) \<le> 2 ^ 27 \<and> phys_ok (pt_pages st') (set fl')))"
proof -
  let ?es = "mmap_entry_list mm n" and ?st = "st\<lparr>kern_entry := 0\<rparr>"
  define K where "K = physical_address (kernel_pgt st)"
  have fK: "frame_ok K" "frame (kernel_pgt st) = K" using assms(5) frame_physical by (simp_all add: K_def)
  have root: "root_of ?st KernEntry = None" by (simp add: next_table_def)
  have inv: "pt_inv ?st KernEntry 3 fl {K}"
    unfolding pt_inv_def root using assms(1,2,3,6) fK(1) by (auto simp: K_def tree_def)
  have none: "view ?st KernEntry 3 va = None" for va by (simp add: view_def next_table_def)
  obtain res where res: "map_entries ?es ?st = Some res" "res = Inl NullDeref \<and> length fl \<le> sum_list (map table_pages ?es) \<or>
      (\<exists>st1 fl1. res = Inr st1 \<and> pt_inv st1 KernEntry 3 fl1 {K} \<and> all_mapped {K} ?st ?es st1)"
    using map_entries_direct [OF inv assms(8) none] by blast
  show ?thesis
  proof (cases "res = Inl NullDeref \<and> length fl \<le> sum_list (map table_pages ?es)")
    case True
    then show ?thesis using res(1) assms(4,7) by (simp add: InitKernelPageTable_def Let_def)
  next
    case False
    then obtain st1 fl1 where 1: "res = Inr st1" "pt_inv st1 KernEntry 3 fl1 {K}" "all_mapped {K} ?st ?es st1" using res(2) by blast
    then have k: "kernel_pgt st1 = kernel_pgt st" by (simp add: all_mapped_def others_keep_def)
    obtain st' where st': "InitKernelPageTable mm st = Some (Inr st')" "cr3 st' = kernel_pgt st"
      "qmem st' = (qmem st1)(slot K 0 := 0, slot K 510 := kern_entry st1)" "pt_pages st' = pt_pages st1"
      using InitKernelPageTable_run [OF assms(4,7) _ k] res(1) 1(1) by (auto simp: K_def)
    note w = installed_walk [OF 1(2) fK(1), folded st'(3)]
    have tr: "translate (qmem st') (cr3 st') (kva q) = map_option (\<lambda>(l, e). phys_of l e (kva q)) (view st1 KernEntry 3 (kva q))"
      if "unat q < 2 ^ 39" for q
      using w(1) [of "kva q"] ix_kva [OF that] st'(2) fK(2) by (simp add: translate_def phys_of_def)
    have "translate (qmem st') (cr3 st') (kva q) = Some q" if "e \<in> set ?es" "paged e" "unat q \<in> region e" for e q
    proof -
      have "mapped_at st1 q (entry_wt e)" using 1(3) that by (simp add: all_mapped_def)
      then show ?thesis using tr [OF region_bound [OF assms(8) that]] by (auto simp: mapped_at_def)
    qed
    moreover have "translate (qmem st') (cr3 st') (kva q) = None" if "unat q < 2 ^ 39" "\<forall>e \<in> set ?es. paged e \<longrightarrow> unat q \<notin> region e" for q
      using tr [OF that(1)] 1(3) that none by (simp add: all_mapped_def)
    moreover have "translate (qmem st') (cr3 st') va = None" if "ix 4 va = 0" for va
      using w(2) [of va] that st'(2) fK(2) by (simp add: translate_def)
    moreover have "mp_inv (pt_pages st') fl1 \<and> unat (nr_page_structs (pt_pages st')) \<le> 2 ^ 27 \<and> phys_ok (pt_pages st') (set fl1)"
      using 1(2) st'(4) by (simp add: pt_inv_def phys_ok_def)
    ultimately show ?thesis using st'(1,2) by (intro disjI2 exI [of _ st']) blast
  qed
qed

text \<open>
  C5. \<^verbatim>\<open>InitKernelPageTable\<close> builds the direct mapping. For a memory map whose page-aligned entries lie below 512 GiB and do not overlap, and a top-level
  table that is not a free page, it returns: either without a page left for a table, which needs at most three pages for each page of 1 GiB, 2 MiB or 4 KiB it maps, or
  with tables installed under which the processor sends the kernel address of every byte of those entries (rounded up to whole pages) to that byte, and has no
  translation for the kernel addresses of the rest of the first 512 GiB nor for any address of the lowest 512 GiB.
\<close>

theorem InitKernelPageTable_direct_map:
  assumes "mp_inv (pt_pages st) fl" and "unat (nr_page_structs (pt_pages st)) \<le> 2 ^ 27"
    and "\<forall>p \<in> set fl. phyaddr (page_structs (pt_pages st) p) = of_nat (4096 * p)"
    and "max_phy (pt_pages st) \<le> KERN_MAX_MEMORY" and "frame_ok (physical_address (kernel_pgt st))" and "physical_address (kernel_pgt st) \<notin> frames fl"
    and "nr_mmap_entries mm = Inr n" and "map_ok (mmap_entry_list mm n)"
  shows "InitKernelPageTable mm st = Some (Inl NullDeref) \<and> length fl \<le> sum_list (map table_pages (mmap_entry_list mm n)) \<or>
    (\<exists>st'. InitKernelPageTable mm st = Some (Inr st') \<and> cr3 st' = kernel_pgt st \<and>
      (\<forall>e \<in> set (mmap_entry_list mm n). \<forall>q. paged e \<longrightarrow> unat q \<in> region e \<longrightarrow> translate (qmem st') (cr3 st') (KERN_OFFSET + q) = Some q) \<and>
      (\<forall>q. unat q < 2 ^ 39 \<longrightarrow> (\<forall>e \<in> set (mmap_entry_list mm n). paged e \<longrightarrow> unat q \<notin> region e) \<longrightarrow>
        translate (qmem st') (cr3 st') (KERN_OFFSET + q) = None) \<and>
      (\<forall>va. ix 4 va = 0 \<longrightarrow> translate (qmem st') (cr3 st') va = None))"
  using InitKernelPageTable_mapped [OF assms] by blast

theorem InitKernelPageTable_direct_map_witness:
  "\<exists>st'. InitKernelPageTable (demo_mmap 0x1000) demo_pt = Some (Inr st') \<and> translate (qmem st') (cr3 st') (KERN_OFFSET + 0x200123) = Some 0x200123"
proof -
  have e: "mmap_entry_list (demo_mmap 0x1000) 1 = [\<lparr>entry_addr = 0x200000, entry_len = 0x1000, entry_type = 1\<rparr>]"
    and n: "nr_mmap_entries (demo_mmap 0x1000) = Inr 1" by (rule demo_mmap_entries)+
  have ok: "map_ok (mmap_entry_list (demo_mmap 0x1000) 1)" unfolding e by (simp add: region_def)
  have h: "mp_inv (pt_pages demo_pt) [1, 2, 3, 4]" "unat (nr_page_structs (pt_pages demo_pt)) \<le> 2 ^ 27"
    "\<forall>p \<in> set [1, 2, 3, 4]. phyaddr (page_structs (pt_pages demo_pt) p) = of_nat (4096 * p)"
    "max_phy (pt_pages demo_pt) \<le> KERN_MAX_MEMORY" "frame_ok (physical_address (kernel_pgt demo_pt))"
    "physical_address (kernel_pgt demo_pt) \<notin> frames [1, 2, 3, 4]"
  proof -
    show "mp_inv (pt_pages demo_pt) [1, 2, 3, 4]" "unat (nr_page_structs (pt_pages demo_pt)) \<le> 2 ^ 27"
      "\<forall>p \<in> set [1, 2, 3, 4]. phyaddr (page_structs (pt_pages demo_pt) p) = of_nat (4096 * p)"
      using demo_pt_inv unfolding pt_inv_def by blast+
    have "physical_address (kernel_pgt demo_pt) = 0x200000" using demo_root by (simp add: demo_pt_def)
    then show "frame_ok (physical_address (kernel_pgt demo_pt))" "physical_address (kernel_pgt demo_pt) \<notin> frames [1, 2, 3, 4]"
      unfolding demo_frames_set using demo_root by simp_all
    show "max_phy (pt_pages demo_pt) \<le> KERN_MAX_MEMORY" by (simp add: demo_pt_def demo_frames_def KERN_MAX_MEMORY_def)
  qed
  have "\<not> length [1 :: nat, 2, 3, 4] \<le> sum_list (map table_pages (mmap_entry_list (demo_mmap 0x1000) 1))"
    unfolding e by (simp add: table_pages_def paged_def map_rounds.simps step_level_def MULTIBOOT_MEMORY_AVAILABLE_def)
  then obtain st' where "InitKernelPageTable (demo_mmap 0x1000) demo_pt = Some (Inr st')"
    "\<forall>e \<in> set (mmap_entry_list (demo_mmap 0x1000) 1). \<forall>q. paged e \<longrightarrow> unat q \<in> region e \<longrightarrow> translate (qmem st') (cr3 st') (KERN_OFFSET + q) = Some q"
    using InitKernelPageTable_direct_map [OF h(1-6) n ok] by blast
  then show ?thesis unfolding e by (intro exI [of _ st']) (simp add: paged_def region_def page_up_def)
qed

text \<open>
  C38. \<^verbatim>\<open>operator[]\<close> refuses to go through a 2 MiB page but not through a 1 GiB page: \<^verbatim>\<open>MapPage\<close> at an address inside a 1 GiB page (as \<^verbatim>\<open>InitKernelPageTable\<close>
  creates them) takes the data in it for a table. When the quadword it looks at has its lowest bit clear, the call succeeds and overwrites that
  quadword of the mapped memory with the address of a freshly taken page.
\<close>

theorem MapPage_overwrites_huge_page:
  fixes p :: u64
  defines "va \<equiv> KERN_OFFSET + p"
  assumes "pt_inv st KernelPgt 4 (x # y # r) X" and "tbl (qmem st) (root_of st KernelPgt) 4 1 va = Some P"
    and "is_present (qmem st (slot P (ix 3 va)))" and "is_huge (qmem st (slot P (ix 3 va)))"
    and "a = slot (physical_address (qmem st (slot P (ix 3 va)))) (ix 2 va)" and "\<not> is_present (qmem st a)" and "\<not> a - of_nat (4096 * x) < 4096"
  shows "\<exists>st'. MapPage p wt cd st = Inr st' \<and> qmem st' a = CommonBaseEntry (of_nat (4096 * x)) \<and> qmem st' a \<noteq> qmem st a"
proof -
  define K where "K = physical_address (kernel_pgt st)"
  define N :: u64 where "N = of_nat (4096 * x)"
  let ?h = "qmem st (slot P (ix 3 va))"
  define e where "e = set_cache_disabled cd (set_write_through wt (CommonBaseEntry p))"
  have i4: "entry_index 4 KernelPgt va st = Inr (Slot (slot K (ix 4 va)))" by (simp add: entry_index_top K_def)
  have k: "next_table 4 (qmem st (slot K (ix 4 va))) = Some P" using assms(3) by (simp add: K_def)
  then have pr: "is_present (qmem st (slot K (ix 4 va)))" by (auto simp: next_table_def split: if_splits)
  have d3: "descend 3 va (Slot (slot K (ix 4 va)), st) = Inr (Slot (slot P (ix 3 va)), st)"
    using pr entry_index_slot [of 3 st "Slot (slot K (ix 4 va))" P va] k by (simp add: descend_def AllocateOrPresent_def)
  have d2: "descend 2 va (Slot (slot P (ix 3 va)), st) = Inr (Slot a, st)"
    using assms(4,6) entry_offset_ix [of 2 va] by (simp add: descend_def AllocateOrPresent_def entry_index_def slot_def)
  have "mp_inv (pt_pages st) (x # y # r)" using assms(2) by (simp add: pt_inv_def)
  then obtain mp where mp: "AllocPage (pt_pages st) = Inr (PageAt x, mp)" "mp_inv mp (y # r)" "same_meta (pt_pages st) mp" by (rule AllocPage_inv)
  have phx: "phyaddr (page_structs mp x) = N" using assms(2) mp(3) by (simp add: pt_inv_def same_meta_def N_def)
  have fN: "frame_ok N" using free_frame(2) [OF assms(2), of x] by (simp add: N_def)
  let ?st = "st\<lparr>pt_pages := mp, qmem := (cleared N (qmem st))(a := CommonBaseEntry N)\<rparr>"
  have al: "Allocate (Slot a) st = Inr ?st" using Allocate_unfold [OF mp(1) phx, of "Slot a"] assms(8) by (simp add: N_def)
  have "next_table 2 (rd_entry ?st (Slot a)) = Some N" using table_entry(1) [OF fN, of 2] by simp
  then have "entry_index 1 (Slot a) va ?st = Inr (Slot (slot N (ix 1 va)))"
    using entry_index_slot [of 1 ?st "Slot a" N va] by (simp add: numeral_2_eq_2)
  then have d1: "descend 1 va (Slot a, st) = Inr (Slot (slot N (ix 1 va)), ?st)"
    using assms(7) al by (simp add: descend_def AllocateOrPresent_def)
  have run: "MapPage p wt cd st = Inr (wr_entry (Slot (slot N (ix 1 va))) e ?st)"
    using i4 d3 d2 d1 by (simp add: MapPage_def Let_def va_def e_def)
  have "slot N (ix 1 va) \<noteq> a" using slot_in_frame [OF fN fN ix_less, of 1 va] assms(8) by (auto simp: N_def)
  then have "qmem (wr_entry (Slot (slot N (ix 1 va))) e ?st) a = CommonBaseEntry N" by simp
  moreover have "CommonBaseEntry N \<noteq> qmem st a" using table_entry(2) [OF fN] assms(7) by auto
  ultimately show ?thesis using run N_def by auto
qed

definition demo_huge :: pt_state where
  "demo_huge = demo_pt\<lparr>qmem := (\<lambda>_. 0)(0x200FF0 := 0x201003, 0x201010 := 0x80000083)\<rparr>"

lemma demo_huge_inv: "pt_inv demo_huge KernelPgt 4 [1, 2, 3, 4] {}"
proof -
  let ?K = "0x200000 :: u64" and ?P = "0x201000 :: u64" and ?m = "qmem demo_pt" and ?va = "KERN_OFFSET + 0x80000000"
  have K: "frame_ok ?K" "frame_ok ?P" by (simp_all add: frame_ok_def frame_def)
  have nP: "next_table 4 0x201003 = Some ?P" by (simp add: next_table_def physical_address_def)
  have ix: "ix 4 ?va = 510" "ix 3 ?va = 2" by (simp_all add: ix_def KERN_OFFSET_def)
  have r: "root_of demo_pt KernelPgt = Some ?K" using demo_root by (simp add: demo_pt_def)
  have tr: "tree ?m (Some ?K) 4 ({0x1000, 0x2000, 0x3000, 0x4000})"
    using demo_pt_inv unfolding pt_inv_def r demo_frames_set by (simp only: Un_empty_right)
  have t1: "tbl ?m (Some ?K) 4 n va = (if n = 0 then Some ?K else None)" for n va
    by (induction n) (simp_all add: demo_pt_def next_table_def)
  define m1 where "m1 = ?m(slot ?K (ix (4 - 0) ?va) := 0x201003)"
  have tr1: "tree m1 (Some ?K) 4 {0x1000, 0x2000, 0x3000, 0x4000}"
    unfolding m1_def by (rule tree_update [OF tr]) (use t1 nP K in \<open>auto simp: new_entry_def demo_pt_def\<close>)
  have P: "tbl m1 (Some ?K) 4 1 ?va = Some ?P" using nP ix K by (simp add: m1_def)
  have "tree (m1(slot ?P (ix (4 - 1) ?va) := 0x80000083)) (Some ?K) 4 {0x1000, 0x2000, 0x3000, 0x4000}"
    by (rule tree_update [OF tr1 _ P]) (auto simp: new_entry_def next_table_def)
  moreover have "qmem demo_huge = m1(slot ?P (ix (4 - 1) ?va) := 0x80000083)"
    by (simp add: demo_huge_def m1_def demo_pt_def slot_def ix)
  moreover have "root_of demo_huge KernelPgt = Some ?K" using demo_root by (simp add: demo_huge_def demo_pt_def)
  ultimately show ?thesis using demo_pt_inv unfolding pt_inv_def demo_frames_set by (simp add: demo_huge_def)
qed

theorem MapPage_overwrites_huge_page_witness:
  "\<exists>st'. MapPage 0x80000000 False False demo_huge = Inr st' \<and> qmem st' 0x80000000 = 0x1003 \<and> qmem st' 0x80000000 \<noteq> qmem demo_huge 0x80000000"
proof -
  have ix: "ix 4 (KERN_OFFSET + 0x80000000) = 510" "ix 3 (KERN_OFFSET + 0x80000000) = 2" "ix 2 (KERN_OFFSET + 0x80000000) = 0"
    by (simp_all add: ix_def KERN_OFFSET_def)
  have "CommonBaseEntry (of_nat (4096 * 1)) = 0x1003"
    by (simp add: CommonBaseEntry_def set_read_write_def set_present_def set_flag_def)
  then show ?thesis
    using MapPage_overwrites_huge_page [OF demo_huge_inv, of "0x80000000" "0x201000" "0x80000000" False False]
    by (simp add: ix slot_def demo_huge_def demo_pt_def next_table_def physical_address_def)
qed

end
