(* ===== verification/Vector.thy ===== *)
theory Vector
  imports Kmalloc Libc_String Word_Bits
begin

text \<open>
  The growable array of \<^verbatim>\<open>kern/libc/vector.h\<close> and \<^verbatim>\<open>kern/libc/vector.cc\<close>, on the kernel heap and the bytes of memory.
  An element is the list of its \<^verbatim>\<open>sizeof(T)\<close> bytes: the kernel keeps pointers and plain structs in vectors, whose copy
  constructor copies bytes and whose destructor does nothing.
\<close>

section \<open>Operations\<close>

record BaseVector =
  capacity :: u64
  len :: u64
  vptr :: u64

type_synonym vec_state = "BaseVector \<times> kmem \<times> mem"

definition BaseVector_ctor :: "u64 \<Rightarrow> u64 \<Rightarrow> BaseVector" where
  "BaseVector_ctor n data = \<lparr>capacity = n, len = n, vptr = data\<rparr>"

definition ResetPtr :: "nat \<Rightarrow> int \<Rightarrow> u64 \<Rightarrow> u64 \<Rightarrow> vec_state \<Rightarrow> vec_state result" where
  "ResetPtr ctz0 clz0 new_capacity ele_size = (\<lambda>(v, km, m).
     let old_ptr = vptr v in
     ebind (if new_capacity = 0 then Inr (v\<lparr>vptr := 0\<rparr>, km, m)
            else ebind (Alloc ctz0 clz0 (i32 (uint (new_capacity * ele_size))) km) (\<lambda>(p, km).
              Inr (v\<lparr>vptr := p\<rparr>, km, memcpy m p old_ptr (i32 (uint (len v * ele_size)))))) (\<lambda>(v, km, m).
     ebind (Free ctz0 clz0 old_ptr km) (\<lambda>km. Inr (v\<lparr>capacity := new_capacity\<rparr>, km, m))))"

definition CopyFrom :: "nat \<Rightarrow> int \<Rightarrow> BaseVector \<Rightarrow> u64 \<Rightarrow> vec_state \<Rightarrow> vec_state result" where
  "CopyFrom ctz0 clz0 src ele_size = (\<lambda>(v, km, m).
     ebind (Free ctz0 clz0 (vptr v) km) (\<lambda>km.
     ebind (Alloc ctz0 clz0 (i32 (uint (ele_size * capacity src))) km) (\<lambda>(p, km).
     Inr (\<lparr>capacity = capacity src, len = len src, vptr = p\<rparr>, km, memcpy m p (vptr src) (i32 (uint (ele_size * len src)))))))"

definition Compact :: "nat \<Rightarrow> int \<Rightarrow> u64 \<Rightarrow> vec_state \<Rightarrow> vec_state result" where
  "Compact ctz0 clz0 ele_size = (\<lambda>(v, km, m). ResetPtr ctz0 clz0 (len v) ele_size (v, km, m))"

definition Extend :: "nat \<Rightarrow> int \<Rightarrow> u64 \<Rightarrow> vec_state \<Rightarrow> vec_state result" where
  "Extend ctz0 clz0 ele_size = (\<lambda>(v, km, m).
     if capacity v = 0 then ResetPtr ctz0 clz0 16 ele_size (v, km, m)
     else ResetPtr ctz0 clz0 (capacity v * 2) ele_size (v, km, m))"

definition EnsureSpace :: "nat \<Rightarrow> int \<Rightarrow> u64 \<Rightarrow> u64 \<Rightarrow> vec_state \<Rightarrow> vec_state result" where
  "EnsureSpace ctz0 clz0 idx ele_size = (\<lambda>(v, km, m).
     if idx \<ge> capacity v then Extend ctz0 clz0 ele_size (v, km, m) else Inr (v, km, m))"

definition vec_size :: "BaseVector \<Rightarrow> u64" where "vec_size v = len v"

definition Vector_ctor :: BaseVector where "Vector_ctor = BaseVector_ctor 0 0"

text \<open>The move constructor: the new vector and what is left in the old one, which keeps its capacity.\<close>

definition Vector_move :: "BaseVector \<Rightarrow> BaseVector \<times> BaseVector" where
  "Vector_move rhs = (BaseVector_ctor (len rhs) (vptr rhs), rhs\<lparr>vptr := 0, len := 0\<rparr>)"

text \<open>\<^verbatim>\<open>operator[]\<close>: the address of the element.\<close>

definition vec_index :: "u64 \<Rightarrow> u64 \<Rightarrow> BaseVector \<Rightarrow> u64 result" where
  "vec_index ele_size idx v =
     (if idx \<ge> len v then Inl (Panic ''Vector access overflow'') else Inr (vptr v + idx * ele_size))"

definition vec_begin :: "BaseVector \<Rightarrow> u64" where "vec_begin v = vptr v"
definition vec_end :: "u64 \<Rightarrow> BaseVector \<Rightarrow> u64" where "vec_end ele_size v = vptr v + len v * ele_size"

text \<open>\<^verbatim>\<open>new(p) T(x)\<close> for an element of the bytes \<open>x\<close>.\<close>

fun put_bytes :: "u8 list \<Rightarrow> u64 \<Rightarrow> mem \<Rightarrow> mem" where
  "put_bytes [] p m = m"
| "put_bytes (b # bs) p m = put_bytes bs (p + 1) (m(p := b))"

definition Insert :: "nat \<Rightarrow> int \<Rightarrow> u64 \<Rightarrow> u64 \<Rightarrow> u8 list \<Rightarrow> vec_state \<Rightarrow> vec_state result" where
  "Insert ctz0 clz0 ele_size pos xref = (\<lambda>(v, km, m).
     ebind (EnsureSpace ctz0 clz0 (len v) ele_size (v, km, m)) (\<lambda>(v, km, m).
     let arr = vptr v;
         m = memmove m (arr + (pos + 1) * ele_size) (arr + pos * ele_size) (i32 (uint ((len v - pos) * ele_size)));
         m = put_bytes xref (arr + pos * ele_size) m
     in Inr (v\<lparr>len := len v + 1\<rparr>, km, m)))"

definition Remove :: "u64 \<Rightarrow> u64 \<Rightarrow> vec_state \<Rightarrow> vec_state" where
  "Remove ele_size pos = (\<lambda>(v, km, m).
     let arr = vptr v;
         m = memmove m (arr + pos * ele_size) (arr + (pos + 1) * ele_size) (i32 (uint ((len v - pos - 1) * ele_size)))
     in (v\<lparr>len := len v - 1\<rparr>, km, m))"

definition PushBack :: "nat \<Rightarrow> int \<Rightarrow> u64 \<Rightarrow> u8 list \<Rightarrow> vec_state \<Rightarrow> vec_state result" where
  "PushBack ctz0 clz0 ele_size xref = (\<lambda>(v, km, m). Insert ctz0 clz0 ele_size (len v) xref (v, km, m))"

definition PopBack :: "u64 \<Rightarrow> vec_state \<Rightarrow> vec_state" where
  "PopBack ele_size = (\<lambda>(v, km, m). Remove ele_size (len v) (v, km, m))"

section \<open>Bytes\<close>

definition bytes_at :: "mem \<Rightarrow> u64 \<Rightarrow> u8 list \<Rightarrow> bool" where
  "bytes_at m p bs \<longleftrightarrow> (\<forall>i < length bs. m (at p i) = bs ! i)"

lemma bytes_at_append: "bytes_at m p (xs @ ys) \<longleftrightarrow> bytes_at m p xs \<and> bytes_at m (at p (length xs)) ys"
proof -
  have "(\<forall>i < length xs + length ys. m (at p i) = (xs @ ys) ! i) \<longleftrightarrow>
      (\<forall>i < length xs. m (at p i) = xs ! i) \<and> (\<forall>j < length ys. m (at p (length xs + j)) = ys ! j)"
    by (auto simp: nth_append all_less_add)
  then show ?thesis by (simp add: bytes_at_def at_at)
qed

lemma put_bytes_other: "(\<forall>i < length bs. a \<noteq> at p i) \<Longrightarrow> put_bytes bs p m a = m a"
  by (induction bs p m rule: put_bytes.induct) (auto simp: at_Suc dest: spec [of _ 0])

lemma put_bytes_at: "length bs < 2 ^ 64 \<Longrightarrow> bytes_at (put_bytes bs p m) p bs"
proof (induction bs p m rule: put_bytes.induct)
  case (2 b bs p m)
  have "put_bytes bs (p + 1) (m(p := b)) p = b"
    using put_bytes_other [of bs p "p + 1" "m(p := b)"] 2(2) at_inj [of 0 "Suc _" p] by (auto simp: at_Suc)
  then show ?case using 2 by (auto simp: bytes_at_def at_Suc less_Suc_eq_0_disj fun_upd_def)
qed (simp add: bytes_at_def)

lemma memmove_moved:
  assumes "n < 2 ^ 31" and "\<And>i j. i < j \<Longrightarrow> j < n \<Longrightarrow> at d j \<noteq> at s i"
  shows "moved n m d s (memmove m d s (int n))"
proof (cases "n = 0")
  case True
  then show ?thesis by (simp add: moved_def memmove_def int_count_def)
next
  case False
  then show ?thesis using memmove_down [OF assms(1)] copy_down_moved [of n d s m] assms by simp
qed

lemma gap_moved:
  assumes "k \<le> n" and "n + l < 2 ^ 31"
  shows "moved (n - k) m (at p (k + l)) (at p k) (memmove m (at p (k + l)) (at p k) (int (n - k)))"
proof (rule memmove_moved)
  show "n - k < 2 ^ 31" using assms(2) by linarith
next
  fix i j assume "i < j" "j < n - k"
  then show "at (at p (k + l)) j \<noteq> at (at p k) i" using assms(2) at_inj [of "k + l + j" "k + i" p] by (simp add: at_at)
qed

text \<open>Opening a gap of the size of an element and filling it.\<close>

lemma insert_bytes:
  assumes "bytes_at m p bs" and "k \<le> length bs" and "length bs + length x < 2 ^ 31"
  defines "m1 \<equiv> memmove m (at p (k + length x)) (at p k) (int (length bs - k))"
  shows "bytes_at (put_bytes x (at p k) m1) p (take k bs @ x @ drop k bs)"
    and "(\<forall>i < length bs + length x. a \<noteq> at p i) \<Longrightarrow> put_bytes x (at p k) m1 a = m a"
proof -
  define l where "l = length x"
  have mv: "moved (length bs - k) m (at p (k + l)) (at p k) m1"
    unfolding m1_def l_def using assms(2,3) by (rule gap_moved)
  have far: "at p i \<noteq> at (at p (k + l)) j" if "i < k + l" "j < length bs - k" for i j
    using that assms(2,3) at_inj [of i "k + l + j" p] by (simp add: at_at l_def)
  have put: "put_bytes x (at p k) m1 (at p i) = m1 (at p i)" if "i < length bs + l" "i < k \<or> k + l \<le> i" for i
    using that assms(2,3) at_inj [of i "k + _" p] by (intro put_bytes_other) (auto simp: at_at l_def)
  have "bytes_at (put_bytes x (at p k) m1) p (take k bs)"
    unfolding bytes_at_def
  proof (intro allI impI)
    fix i assume i: "i < length (take k bs)"
    then have "m1 (at p i) = m (at p i)" using mv far [of i] unfolding moved_def by auto
    then show "put_bytes x (at p k) m1 (at p i) = take k bs ! i" using put [of i] i assms(1,2) by (simp add: bytes_at_def)
  qed
  moreover have "bytes_at (put_bytes x (at p k) m1) (at p k) x" using assms(3) by (intro put_bytes_at) simp
  moreover have "bytes_at (put_bytes x (at p k) m1) (at p (k + l)) (drop k bs)"
    unfolding bytes_at_def
  proof (intro allI impI)
    fix i assume i: "i < length (drop k bs)"
    then have "m1 (at (at p (k + l)) i) = m (at (at p k) i)" using mv by (auto simp: moved_def)
    then show "put_bytes x (at p k) m1 (at (at p (k + l)) i) = drop k bs ! i"
      using put [of "k + l + i"] i assms(1,2) by (simp add: bytes_at_def at_at)
  qed
  ultimately show "bytes_at (put_bytes x (at p k) m1) p (take k bs @ x @ drop k bs)"
    using assms(2) by (simp add: bytes_at_append at_at l_def min_absorb2)
next
  assume a: "\<forall>i < length bs + length x. a \<noteq> at p i"
  then have "put_bytes x (at p k) m1 a = m1 a" using assms(2) by (intro put_bytes_other) (auto simp: at_at)
  also have "\<dots> = m a" using gap_moved [OF assms(2,3), of m p, folded m1_def] a assms(2) by (auto simp: moved_def at_at)
  finally show "put_bytes x (at p k) m1 a = m a" .
qed

section \<open>Vectors on the heap\<close>

text \<open>
  \<open>vec_ok e xs v B m\<close>: the vector holds the elements \<open>xs\<close> of \<open>e\<close> bytes each, in a block of the heap large enough for its capacity;
  \<open>others_same\<close>: the other blocks of the heap and their bytes are as they were.
\<close>

definition vec_ok :: "nat \<Rightarrow> u8 list list \<Rightarrow> BaseVector \<Rightarrow> (u64 \<times> nat) set \<Rightarrow> mem \<Rightarrow> bool" where
  "vec_ok e xs v B m \<longleftrightarrow> (\<forall>x \<in> set xs. length x = e) \<and> len v = of_nat (length xs) \<and> bytes_at m (vptr v) (concat xs) \<and>
     (if capacity v = 0 then vptr v = 0 \<and> xs = []
      else length xs \<le> unat (capacity v) \<and> unat (capacity v) * e < 2 ^ 31 \<and> (\<exists>sz. (vptr v, sz) \<in> B \<and> unat (capacity v) * e \<le> sz))"

definition others_same :: "BaseVector \<Rightarrow> (u64 \<times> nat) set \<Rightarrow> mem \<Rightarrow> (u64 \<times> nat) set \<Rightarrow> mem \<Rightarrow> bool" where
  "others_same v B m B' m' \<longleftrightarrow> (\<forall>b \<in> B. fst b \<noteq> vptr v \<longrightarrow> b \<in> B' \<and> (\<forall>a \<in> block b. m' a = m a))"

text \<open>The addresses of the pages the heap stays away from, and that they keep their bytes.\<close>

definition kpages :: "nat set \<Rightarrow> u64 set" where
  "kpages R = {kaddr p off |p off. p \<in> R \<and> p < 2 ^ 52 \<and> off < 4096}"

definition pages_same :: "nat set \<Rightarrow> mem \<Rightarrow> mem \<Rightarrow> bool" where
  "pages_same R m m' \<longleftrightarrow> (\<forall>a \<in> kpages R. m' a = m a)"

lemma pages_same_trans: "pages_same R m1 m2 \<Longrightarrow> pages_same R m2 m3 \<Longrightarrow> pages_same R m1 m3"
  by (simp add: pages_same_def)

lemma heap_res_apart: "heap_res R km B \<Longrightarrow> b \<in> B \<Longrightarrow> block b \<inter> kpages R = {}"
  using heap_res_block by (fastforce simp: kpages_def)

text \<open>Writes inside one block of the heap.\<close>

lemma block_write_apart:
  assumes "heap_res R km B" and "b \<in> B" and "\<forall>a. a \<notin> block b \<longrightarrow> m' a = m a"
  shows "pages_same R m m'" and "c \<in> B \<Longrightarrow> c \<noteq> b \<Longrightarrow> \<forall>a \<in> block c. m' a = m a"
proof -
  show "pages_same R m m'" using heap_res_apart [OF assms(1,2)] assms(3) unfolding pages_same_def by blast
  show "c \<in> B \<Longrightarrow> c \<noteq> b \<Longrightarrow> \<forall>a \<in> block c. m' a = m a" using heap_blocks_disjoint [OF assms(1), of c b] assms(2,3) by blast
qed

definition next_capacity :: "BaseVector \<Rightarrow> nat" where
  "next_capacity v = (if capacity v = 0 then 16 else unat (capacity v) * 2)"

lemma length_concat_elems: "\<forall>x \<in> set xs. length x = e \<Longrightarrow> length (concat xs) = length xs * e"
  by (induction xs) auto

lemma take_concat_elems: "\<forall>x \<in> set xs. length x = e \<Longrightarrow> take (k * e) (concat xs) = concat (take k xs)"
  by (induction xs arbitrary: k) (auto simp: take_Cons split: nat.split)

lemma drop_concat_elems: "\<forall>x \<in> set xs. length x = e \<Longrightarrow> drop (k * e) (concat xs) = concat (drop k xs)"
  by (induction xs arbitrary: k) (auto simp: drop_Cons split: nat.split)

lemma block_size_ge: "2 \<le> sz \<Longrightarrow> sz \<le> int (block_size sz)"
  by (auto simp: block_size_def nr_page_of_def)

lemma at_block: "i < sz \<Longrightarrow> at p i \<in> block (p, sz)"
  by (simp add: at_def block_def)

lemma i32_of_nat: "n < 2 ^ 31 \<Longrightarrow> i32 (uint (of_nat n :: u64)) = int n"
  by (simp add: i32_def uint_word_of_int_eq unsigned_of_nat take_bit_nat_eq_self uint_nat)

lemma vec_ok_bounds:
  assumes "vec_ok e xs v B m" and "0 < e"
  shows "length xs * e < 2 ^ 31" and "length xs \<le> unat (capacity v)" and "length xs < 2 ^ 31" and "unat (len v) = length xs"
proof -
  show l: "length xs \<le> unat (capacity v)" using assms(1) by (auto simp: vec_ok_def split: if_splits)
  have "unat (capacity v) * e < 2 ^ 31" using assms(1) by (auto simp: vec_ok_def split: if_splits)
  moreover have "length xs * e \<le> unat (capacity v) * e" using l by (rule mult_le_mono1)
  ultimately show m: "length xs * e < 2 ^ 31" by linarith
  moreover have "length xs * 1 \<le> length xs * e" using assms(2) by (intro mult_le_mono2) simp
  ultimately show b: "length xs < 2 ^ 31" by linarith
  then show "unat (len v) = length xs" using assms(1) by (simp add: vec_ok_def unat_of_nat take_bit_nat_eq_self)
qed

lemma heap_block_start:
  assumes "heap_res R km B" and "b \<in> B" and "c \<in> B" and "fst b = fst c"
  shows "b = c"
proof (rule ccontr)
  assume "b \<noteq> c"
  then have d: "block b \<inter> block c = {}" by (rule heap_blocks_disjoint [OF assms(1-3)])
  have "0 < snd x" if "x \<in> B" for x
    using assms(1) that ObjSize_pos by (auto simp: heap_res_def live_def used_objs_def dest: run_size)
  then have "fst b \<in> block b" "fst c \<in> block c" 
    using assms(2,3) at_block [of 0 "snd b" "fst b"] at_block [of 0 "snd c" "fst c"] by simp_all
  then show False using d assms(4) by auto
qed

lemma ResetPtr_grows:
  assumes "heap_res R km B" and "ctz_safe ctz0 (int (c * e))" and "vec_ok e xs v B m" and "0 < e" and "unat (capacity v) \<le> c" and "0 < c" and "size_ok km (int (c * e))"
  shows "ResetPtr ctz0 clz0 (of_nat c) (of_nat e) (v, km, m) = Inl NullDeref \<and> no_room km (int (c * e)) \<or>
    (\<exists>v' km' m' B'. ResetPtr ctz0 clz0 (of_nat c) (of_nat e) (v, km, m) = Inr (v', km', m') \<and> heap_res R km' B' \<and>
      vec_ok e xs v' B' m' \<and> unat (capacity v') = c \<and> others_same v B m B' m' \<and> (\<forall>b \<in> B. fst b \<noteq> vptr v') \<and> pages_same R m m' \<and> nr_pgs km' = nr_pgs km \<and>
      (c * e \<le> 2048 \<longrightarrow> free_pages km \<le> free_pages km' + 2))"
proof -
  let ?sz = "int (c * e)" and ?L = "length xs * e"
  have "?sz \<le> 2 ^ 31 - 4096" and ce2: "2 \<le> ?sz" using assms(7) unfolding size_ok_def by blast+
  then have "int (c * e) < int (2 ^ 31)" by simp
  then have "c * e < 2 ^ 31" by (simp only: of_nat_less_iff)
  note ce = this ce2
  have "c * 1 \<le> c * e" using assms(4) by (intro mult_le_mono2) simp
  then have c: "c < 2 ^ 31" using ce by linarith
  have uc: "unat (of_nat c :: u64) = c" "(of_nat c :: u64) \<noteq> 0"
    using c assms(6) by (auto simp: unat_of_nat take_bit_nat_eq_self dest: arg_cong [of _ 0 unat])
  have L: "?L < 2 ^ 31" "length xs \<le> c" using vec_ok_bounds [OF assms(3,4)] assms(5) by linarith+
  then have Lc: "?L \<le> c * e" by (intro mult_le_mono1)
  have sz: "i32 (uint (of_nat c * of_nat e :: u64)) = ?sz" using i32_of_nat [OF ce(1)] by simp
  have n: "i32 (uint (len v * of_nat e)) = int ?L" using i32_of_nat [OF L(1)] assms(3) by (simp add: vec_ok_def)
  have sm: "Alloc ctz0 clz0 ?sz km = Inr (p, km') \<longrightarrow> free_pages km \<le> free_pages km' + 2" if "c * e \<le> 2048" for p km'
    using Alloc_small_pages [OF assms(1,2) ce(2), of clz0] that by (simp del: of_nat_mult)
  from Alloc_heap [OF assms(1,2,7), of clz0] show ?thesis
  proof
    assume "Alloc ctz0 clz0 ?sz km = Inl NullDeref \<and> no_room km ?sz"
    then show ?thesis using uc(2) sz by (simp add: ResetPtr_def)
  next
    assume "\<exists>p km1. Alloc ctz0 clz0 ?sz km = Inr (p, km1) \<and> (p, block_size ?sz) \<notin> B \<and> heap_res R km1 (insert (p, block_size ?sz) B)"
    then obtain p km1 where a: "Alloc ctz0 clz0 ?sz km = Inr (p, km1)" "(p, block_size ?sz) \<notin> B" "heap_res R km1 (insert (p, block_size ?sz) B)" by blast
    define B1 where "B1 = insert (p, block_size ?sz) B"
    define m1 where "m1 = memcpy m p (vptr v) (int ?L)"
    have bs: "c * e \<le> block_size ?sz" using block_size_ge [OF ce(2)] by (simp only: of_nat_le_iff)
    have apart: "block (p, block_size ?sz) \<inter> block b = {}" if "b \<in> B" for b
      using heap_blocks_disjoint [OF a(3), of "(p, block_size ?sz)" b] a(2) that by auto
    have mv: "moved ?L m p (vptr v) m1"
    proof -
      have "at p j \<noteq> at (vptr v) i" if ij: "j < i" "i < ?L" for i j
      proof -
        have "xs \<noteq> []" using ij(2) by auto
        then obtain z where z: "(vptr v, z) \<in> B" "unat (capacity v) * e \<le> z" using assms(3) by (auto simp: vec_ok_def split: if_splits)
        have "?L \<le> unat (capacity v) * e" using vec_ok_bounds(2) [OF assms(3,4)] by (rule mult_le_mono1)
        then have "i < z" "j < block_size ?sz" using ij z(2) bs Lc by linarith+
        then have "at (vptr v) i \<in> block (vptr v, z)" "at p j \<in> block (p, block_size ?sz)" by (auto intro!: at_block)
        then show ?thesis using apart [OF z(1)] by auto
      qed
      then have "moved ?L m p (vptr v) (copy_up ?L m p (vptr v))" using L(1) by (intro copy_up_moved) auto
      moreover have "int_count (int ?L) = ?L" using int_count_id [of "int ?L"] L(1) by (simp del: of_nat_mult)
      ultimately show ?thesis unfolding m1_def memcpy_def by (simp only:)
    qed
    obtain km2 B2 where f: "Free ctz0 clz0 (vptr v) km1 = Inr km2" "heap_res R km2 B2" "(p, block_size ?sz) \<in> B2"
      "\<forall>b \<in> B. fst b \<noteq> vptr v \<longrightarrow> b \<in> B2"
    proof (cases "capacity v = 0")
      case True
      then have "vptr v = 0" using assms(3) by (simp add: vec_ok_def)
      then show ?thesis using that [of km1 B1] a(3) by (simp add: Free_def B1_def)
    next
      case False
      then obtain z where z: "(vptr v, z) \<in> B" using assms(3) by (auto simp: vec_ok_def)
      then obtain km2 where "Free ctz0 clz0 (vptr v) km1 = Inr km2" "heap_res R km2 (B1 - {(vptr v, z)})"
        using Free_heap [OF a(3), of "(vptr v, z)" ctz0 clz0] by (auto simp: B1_def)
      moreover have "(p, block_size ?sz) \<in> B1 - {(vptr v, z)}" using z a(2) unfolding B1_def by blast
      moreover have "\<forall>b \<in> B. fst b \<noteq> vptr v \<longrightarrow> b \<in> B1 - {(vptr v, z)}" by (auto simp: B1_def)
      ultimately show ?thesis by (rule that)
    qed
    have v: "vec_ok e xs (v\<lparr>vptr := p, capacity := of_nat c\<rparr>) B2 m1"
      using assms(3) mv f(3) bs ce(1) uc L length_concat_elems [of xs e] unfolding vec_ok_def bytes_at_def moved_def by auto
    have o: "others_same v B m B2 m1"
      unfolding others_same_def
    proof (intro ballI impI conjI)
      fix b assume b: "b \<in> B" "fst b \<noteq> vptr v"
      then show "b \<in> B2" using f(4) by blast
      fix x assume x: "x \<in> block b"
      have "x \<noteq> at p i" if "i < ?L" for i
      proof -
        have "i < block_size ?sz" using that bs Lc by linarith
        then show ?thesis using apart [OF b(1)] at_block [of i "block_size ?sz" p] x by auto
      qed
      then show "m1 x = m x" using mv by (simp add: moved_def)
    qed
    have k: "pages_same R m m1"
      unfolding pages_same_def
    proof
      fix a assume "a \<in> kpages R"
      then have "a \<notin> block (p, block_size ?sz)" using heap_res_apart [OF a(3), of "(p, block_size ?sz)"] by auto
      moreover have "at p i \<in> block (p, block_size ?sz)" if "i < ?L" for i by (rule at_block) (use that bs Lc in linarith)
      ultimately have "\<forall>i < ?L. a \<noteq> at p i" by blast
      then show "m1 a = m a" using mv by (simp add: moved_def)
    qed
    have fp: "c * e \<le> 2048 \<longrightarrow> free_pages km \<le> free_pages km2 + 2"
      using sm [of p km1] a(1) Free_keeps_pages [OF f(1)] by (meson add_le_mono1 order_trans)
    have nr: "nr_pgs km2 = nr_pgs km" using nr_pgs_same_phys [OF Alloc_phys [OF a(1)]] nr_pgs_same_phys [OF Free_phys [OF f(1)]] by simp
    have r: "ResetPtr ctz0 clz0 (of_nat c) (of_nat e) (v, km, m) = Inr (v\<lparr>vptr := p, capacity := of_nat c\<rparr>, km2, m1)"
      using a(1) f(1) uc(2) sz n by (simp add: ResetPtr_def m1_def)
    have q: "fst b \<noteq> p" if "b \<in> B" for b
      using heap_block_start [OF a(3), of b "(p, block_size ?sz)"] that a(2) by auto
    show ?thesis using r f(2) v o uc(1) q k nr fp by (intro disjI2 exI conjI ballI impI) (assumption | simp)+
  qed
qed

lemma store_element:
  assumes "heap_res R km B" and "vec_ok e xs v B m" and "0 < e" and "length xs < unat (capacity v)" and "pos \<le> length xs" and "length x = e"
  defines "m' \<equiv> put_bytes x (vptr v + of_nat pos * of_nat e)
    (memmove m (vptr v + (of_nat pos + 1) * of_nat e) (vptr v + of_nat pos * of_nat e) (i32 (uint ((len v - of_nat pos) * of_nat e))))"
  shows "vec_ok e (take pos xs @ x # drop pos xs) (v\<lparr>len := len v + 1\<rparr>) B m'" and "others_same v B m B m'" and "pages_same R m m'"
proof -
  let ?L = "length xs * e"
  have el: "\<forall>x \<in> set xs. length x = e" and lv: "len v = of_nat (length xs)" and by_: "bytes_at m (vptr v) (concat xs)"
    using assms(2) by (simp_all add: vec_ok_def)
  obtain sz where sz: "(vptr v, sz) \<in> B" "unat (capacity v) * e \<le> sz" "unat (capacity v) * e < 2 ^ 31"
    using assms(2,4) by (auto simp: vec_ok_def split: if_splits)
  have "Suc (length xs) * e \<le> unat (capacity v) * e" using assms(4) by (intro mult_le_mono1) simp
  then have Le: "?L + e \<le> sz" "?L + e < 2 ^ 31" using sz(2,3) by simp_all
  have lc: "length (concat xs) = ?L" using el by (rule length_concat_elems)
  have pe: "pos * e \<le> ?L" using assms(5) by (rule mult_le_mono1)
  have d: "(len v - of_nat pos) * of_nat e = (of_nat ((length xs - pos) * e) :: u64)" using lv assms(5) by (simp add: of_nat_diff)
  have "(length xs - pos) * e = ?L - pos * e" by (simp add: diff_mult_distrib)
  then have n: "i32 (uint ((len v - of_nat pos) * of_nat e)) = int (length (concat xs) - pos * e)"
    unfolding d lc using Le(2) by (subst i32_of_nat) auto
  have a: "vptr v + of_nat pos * of_nat e = at (vptr v) (pos * e)" "vptr v + (of_nat pos + 1) * of_nat e = at (vptr v) (pos * e + length x)"
    using assms(6) by (simp_all add: at_def distrib_right)
  have m': "m' = put_bytes x (at (vptr v) (pos * e)) (memmove m (at (vptr v) (pos * e + length x)) (at (vptr v) (pos * e)) (int (length (concat xs) - pos * e)))"
    unfolding m'_def a n by (rule refl)
  have i: "pos * e \<le> length (concat xs)" "length (concat xs) + length x < 2 ^ 31" using lc pe Le(2) assms(6) by simp_all
  have "bytes_at m' (vptr v) (concat (take pos xs @ x # drop pos xs))"
    using insert_bytes(1) [OF by_ i] take_concat_elems [OF el, of pos] drop_concat_elems [OF el, of pos] unfolding m' by simp
  moreover have "length (take pos xs @ x # drop pos xs) = length xs + 1" using assms(5) by simp
  moreover have "\<forall>y \<in> set (take pos xs @ x # drop pos xs). length y = e" using el assms(6) by (auto dest: in_set_takeD in_set_dropD)
  ultimately show "vec_ok e (take pos xs @ x # drop pos xs) (v\<lparr>len := len v + 1\<rparr>) B m'"
    using assms(4) lv sz unfolding vec_ok_def by auto
  have "m' a = m a" if "a \<notin> block (vptr v, sz)" for a
  proof -
    have "\<forall>i < length (concat xs) + length x. a \<noteq> at (vptr v) i" using that lc assms(6) Le(1) at_block [of _ sz "vptr v"] by fastforce
    then show ?thesis unfolding m' by (rule insert_bytes(2) [OF by_ i])
  qed
  then have out: "\<forall>a. a \<notin> block (vptr v, sz) \<longrightarrow> m' a = m a" by blast
  show "others_same v B m B m'" unfolding others_same_def using block_write_apart(2) [OF assms(1) sz(1) out] by auto
  show "pages_same R m m'" using block_write_apart(1) [OF assms(1) sz(1) out] .
qed

lemma Insert_run:
  assumes "heap_res R km B" and "vec_ok e xs v B m" and "0 < e" and "pos \<le> length xs" and "length x = e"
    and "length xs < unat (capacity v) \<or> size_ok km (int (next_capacity v * e)) \<and> ctz_safe ctz0 (int (next_capacity v * e))"
  shows "Insert ctz0 clz0 (of_nat e) (of_nat pos) x (v, km, m) = Inl NullDeref \<and> length xs = unat (capacity v) \<and> no_room km (int (next_capacity v * e)) \<or>
    (\<exists>v' km' m' B'. Insert ctz0 clz0 (of_nat e) (of_nat pos) x (v, km, m) = Inr (v', km', m') \<and> heap_res R km' B' \<and>
      vec_ok e (take pos xs @ x # drop pos xs) v' B' m' \<and> others_same v B m B' m' \<and>
      (vptr v' = vptr v \<or> (\<forall>b \<in> B. fst b \<noteq> vptr v')) \<and> pages_same R m m' \<and> nr_pgs km' = nr_pgs km \<and>
      ((length xs = unat (capacity v) \<longrightarrow> next_capacity v * e \<le> 2048) \<longrightarrow> free_pages km \<le> free_pages km' + 2))"
proof -
  define stored where "stored = (\<lambda>(v :: BaseVector) m. put_bytes x (vptr v + of_nat pos * of_nat e)
    (memmove m (vptr v + (of_nat pos + 1) * of_nat e) (vptr v + of_nat pos * of_nat e) (i32 (uint ((len v - of_nat pos) * of_nat e)))))"
  have ins: "Insert ctz0 clz0 (of_nat e) (of_nat pos) x (v, km, m) =
      ebind (EnsureSpace ctz0 clz0 (len v) (of_nat e) (v, km, m)) (\<lambda>(v, km, m). Inr (v\<lparr>len := len v + 1\<rparr>, km, stored v m))"
    by (simp add: Insert_def stored_def Let_def)
  have lv: "unat (len v) = length xs" "length xs \<le> unat (capacity v)" using vec_ok_bounds [OF assms(2,3)] by simp_all
  show ?thesis
  proof (cases "length xs < unat (capacity v)")
    case True
    then have "\<not> capacity v \<le> len v" using lv by (simp add: word_le_nat_alt)
    then have "Insert ctz0 clz0 (of_nat e) (of_nat pos) x (v, km, m) = Inr (v\<lparr>len := len v + 1\<rparr>, km, stored v m)"
      unfolding ins EnsureSpace_def by simp
    then show ?thesis using store_element [OF assms(1,2,3) True assms(4,5)] assms(1) unfolding stored_def
      by (intro disjI2 exI [of _ "v\<lparr>len := len v + 1\<rparr>"] exI [of _ km] exI [of _ "stored v m"] exI [of _ B]) (simp add: stored_def)
  next
    case False
    define c where "c = next_capacity v"
    have eq: "length xs = unat (capacity v)" and sk: "size_ok km (int (c * e))" and sc: "ctz_safe ctz0 (int (c * e))" using False lv(2) assms(6) by (auto simp: c_def)
    have cc: "unat (capacity v) \<le> c" "0 < c" "length xs < c" using eq 
      using unat_gt_0 [of "capacity v"] by (auto simp: c_def next_capacity_def)
    have "EnsureSpace ctz0 clz0 (len v) (of_nat e) (v, km, m) = ResetPtr ctz0 clz0 (of_nat c) (of_nat e) (v, km, m)"
      using eq lv(1) by (simp add: EnsureSpace_def Extend_def c_def next_capacity_def word_le_nat_alt)
    note ins = ins [unfolded this]
    from ResetPtr_grows [OF assms(1) sc assms(2,3) cc(1,2) sk, of clz0] show ?thesis
    proof
      assume "ResetPtr ctz0 clz0 (of_nat c) (of_nat e) (v, km, m) = Inl NullDeref \<and> no_room km (int (c * e))"
      then show ?thesis using ins eq by (simp add: c_def)
    next
      assume "\<exists>v' km' m' B'. ResetPtr ctz0 clz0 (of_nat c) (of_nat e) (v, km, m) = Inr (v', km', m') \<and> heap_res R km' B' \<and>
        vec_ok e xs v' B' m' \<and> unat (capacity v') = c \<and> others_same v B m B' m' \<and> (\<forall>b \<in> B. fst b \<noteq> vptr v') \<and> pages_same R m m' \<and> nr_pgs km' = nr_pgs km \<and>
        (c * e \<le> 2048 \<longrightarrow> free_pages km \<le> free_pages km' + 2)"
      then obtain v' km' m' B' where r: "ResetPtr ctz0 clz0 (of_nat c) (of_nat e) (v, km, m) = Inr (v', km', m')" "heap_res R km' B'"
        "vec_ok e xs v' B' m'" "unat (capacity v') = c" "others_same v B m B' m'" "\<forall>b \<in> B. fst b \<noteq> vptr v'" "pages_same R m m'" "nr_pgs km' = nr_pgs km"
        "c * e \<le> 2048 \<longrightarrow> free_pages km \<le> free_pages km' + 2" by blast
      have st: "vec_ok e (take pos xs @ x # drop pos xs) (v'\<lparr>len := len v' + 1\<rparr>) B' (stored v' m')" "others_same v' B' m' B' (stored v' m')" "pages_same R m' (stored v' m')"
        using store_element [OF r(2,3) assms(3) _ assms(4,5)] cc(3) r(4) unfolding stored_def by simp_all
      have "others_same v B m B' (stored v' m')" using r(5,6) st(2) by (auto simp: others_same_def)
      moreover have "Insert ctz0 clz0 (of_nat e) (of_nat pos) x (v, km, m) = Inr (v'\<lparr>len := len v' + 1\<rparr>, km', stored v' m')" using ins r(1) by simp
      ultimately show ?thesis using eq st(1) r(2,6,8) r(9) [unfolded c_def] pages_same_trans [OF r(7) st(3)]
        by (intro disjI2 exI [of _ "v'\<lparr>len := len v' + 1\<rparr>"] exI [of _ km'] exI [of _ "stored v' m'"] exI [of _ B']) simp
    qed
  qed
qed

section \<open>Removal\<close>

lemma copy_down_frame: "(\<forall>i < n. a \<noteq> d - of_nat i) \<Longrightarrow> copy_down n m d s a = m a"
proof (induction n arbitrary: m d s)
  case (Suc n)
  have "a \<noteq> d - 1 - of_nat i" if "i < n" for i using Suc.prems [rule_format, of "Suc i"] that by (simp add: diff_diff_eq add.commute)
  then show ?case using Suc.IH [of "d - 1"] Suc.prems [rule_format, of 0] by simp
qed simp

lemma memmove_frame:
  assumes "n < 2 ^ 31" and "\<forall>i < n. a \<noteq> at dst i"
  shows "memmove m dst src (int n) a = m a"
proof (cases "n = 0")
  case True
  then show ?thesis by (simp add: memmove_def int_count_def)
next
  case False
  have "a \<noteq> dst + of_nat (n - 1) - of_nat i" if "i < n" for i
    using assms(2) [rule_format, of "n - 1 - i"] that by (simp add: at_def of_nat_diff algebra_simps)
  then show ?thesis unfolding memmove_down [OF assms(1) neq0_conv [THEN iffD1, OF False]] by (intro copy_down_frame) blast
qed

lemma bytes_at_concat:
  "\<forall>y \<in> set ys. length y = e \<Longrightarrow> bytes_at m p (concat ys) \<longleftrightarrow> (\<forall>j < length ys. bytes_at m (at p (j * e)) (ys ! j))"
proof (induction ys arbitrary: p)
  case (Cons y ys)
  have "(\<forall>j < Suc (length ys). bytes_at m (at p (j * e)) ((y # ys) ! j)) \<longleftrightarrow>
      bytes_at m p y \<and> (\<forall>j < length ys. bytes_at m (at (at p e) (j * e)) (ys ! j))"
    by (auto simp: less_Suc_eq_0_disj at_at)
  then show ?case using Cons by (simp add: bytes_at_append)
qed (simp add: bytes_at_def)

text \<open>\<^verbatim>\<open>PopBack\<close> removes at the index \<^verbatim>\<open>len\<close>, one past the end: the length of the move wraps to almost 4 GiB.\<close>

lemma PopBack_runs_off:
  assumes "0 < e" and "e < 2 ^ 31"
  shows "PopBack (of_nat e) (v, km, m) =
      (v\<lparr>len := len v - 1\<rparr>, km, memmove m (vec_end (of_nat e) v) (vec_end (of_nat e) v + of_nat e) (- int e))"
    and "int_count (- int e) = 2 ^ 32 - e"
proof -
  have "i32 (uint (- of_nat e :: u64)) = - int e"
  proof -
    have "(- of_nat e :: u64) = word_of_int (- int e)" by simp
    then have "uint (- of_nat e :: u64) = (- int e) mod 2 ^ 64" by (simp only: uint_word_of_int) simp
    then have "uint (- of_nat e :: u64) = 2 ^ 64 - int e" using assms by (simp add: zmod_zminus1_eq_if)
    moreover have "(2 ^ 64 - int e + 2 ^ 31) mod 2 ^ 32 = 2 ^ 31 - int e"
      using mod_mult_self1 [of "2 ^ 31 - int e" "2 ^ 32" "2 ^ 32"] assms by simp
    ultimately show ?thesis by (simp add: i32_def)
  qed
  moreover have "(len v - len v - 1) * of_nat e = - of_nat e" by simp
  ultimately show "PopBack (of_nat e) (v, km, m) =
      (v\<lparr>len := len v - 1\<rparr>, km, memmove m (vec_end (of_nat e) v) (vec_end (of_nat e) v + of_nat e) (- int e))"
    unfolding PopBack_def Remove_def vec_end_def Let_def prod.case by (simp only: distrib_right mult_1 add.assoc)
  show "int_count (- int e) = 2 ^ 32 - e" using assms by (simp add: int_count_def zmod_zminus1_eq_if nat_diff_distrib)
qed

lemma elements_length: "pos < length xs \<Longrightarrow> pos * e + e + (length xs - pos - 1) * e = length xs * e" for xs :: "'a list"
proof -
  assume "pos < length xs"
  then have "pos + 1 + (length xs - pos - 1) = length xs" by simp
  then have "(pos + 1 + (length xs - pos - 1)) * e = length xs * e" by (simp only:)
  then show ?thesis by (simp only: distrib_right mult_1)
qed

text \<open>Closing the gap of the element \<open>pos\<close>: what every later element becomes.\<close>

lemma smeared_element:
  assumes "\<forall>x \<in> set xs. length x = e" and "bytes_at m p (concat xs)" and "0 < e" and "pos < length xs" and "length xs * e < 2 ^ 31"
    and "j < length xs - pos - 1" and "k < e"
  shows "memmove m (at p (pos * e)) (at p (pos * e) + of_nat e) (int ((length xs - pos - 1) * e)) (at (at p (pos * e)) (j * e + k)) = last xs ! k"
proof -
  let ?n = "(length xs - pos - 1) * e" and ?d = "at p (pos * e)"
  have L: "pos * e + e + ?n = length xs * e" using assms(4) by (rule elements_length)
  have "Suc j * e \<le> ?n" "1 * e \<le> ?n" using assms(6) by (intro mult_le_mono1, simp)+
  then have b: "j * e + k < ?n" "e \<le> ?n" "?n + e < 2 ^ 31" using assms(5,7) L by (simp, simp, linarith)
  have s: "memmove m ?d (?d + of_nat e) (int ?n) (at ?d (j * e + k)) = m (at (?d + of_nat e) (?n - e + (j * e + k) mod e))"
    using assms(3) b by (intro memmove_down_smears) (auto simp: mult.commute)
  have "(length xs - 1) * e = length xs * e - e" by (simp only: diff_mult_distrib mult_1)
  then have "pos * e + e + (?n - e + k) = (length xs - 1) * e + k" using L b(2) by linarith
  moreover have "?d + of_nat e = at p (pos * e + e)" by (simp add: at_def add.assoc)
  ultimately have "at (?d + of_nat e) (?n - e + (j * e + k) mod e) = at p ((length xs - 1) * e + k)"
    using mod_mult_self3 [of j e k] mod_less [OF assms(7)] by (simp only: at_at)
  moreover have "m (at (at p ((length xs - 1) * e)) k) = xs ! (length xs - 1) ! k"
    using assms(1,2,4,7) bytes_at_concat [OF assms(1)] by (auto simp: bytes_at_def)
  moreover have "xs ! (length xs - 1) = last xs" using assms(4) by (intro last_conv_nth [symmetric]) auto
  ultimately show ?thesis using s by (simp add: at_at)
qed

lemma remove_bytes:
  assumes "\<forall>x \<in> set xs. length x = e" and "bytes_at m p (concat xs)" and "0 < e" and "pos < length xs" and "length xs * e < 2 ^ 31"
  defines "m' \<equiv> memmove m (at p (pos * e)) (at p (pos * e) + of_nat e) (int ((length xs - pos - 1) * e))"
  shows "bytes_at m' p (concat (take pos xs @ replicate (length xs - pos - 1) (last xs)))"
    and "(\<forall>k < (length xs - pos - 1) * e. a \<noteq> at (at p (pos * e)) k) \<Longrightarrow> m' a = m a"
proof -
  let ?n = "(length xs - pos - 1) * e" and ?d = "at p (pos * e)"
  have L: "pos * e + e + ?n = length xs * e" using assms(4) by (rule elements_length)
  have frame: "m' a = m a" if "\<forall>k < ?n. a \<noteq> at ?d k" for a
    unfolding m'_def using assms(5) L that by (intro memmove_frame) auto
  then show "(\<forall>k < ?n. a \<noteq> at ?d k) \<Longrightarrow> m' a = m a" .
  have le: "length (last xs) = e" using assms(1,4) by (metis last_in_set length_0_conv less_nat_zero_code)
  have "bytes_at m' p (concat (take pos xs))"
    unfolding take_concat_elems [OF assms(1), symmetric] bytes_at_def
  proof (intro allI impI)
    fix k assume k: "k < length (take (pos * e) (concat xs))"
    have "at p k \<noteq> at ?d j" if "j < ?n" for j using k that assms(5) L at_inj [of k "pos * e + j" p] by (simp add: at_at)
    then show "m' (at p k) = take (pos * e) (concat xs) ! k" using frame [of "at p k"] k assms(2) by (simp add: bytes_at_def)
  qed
  moreover have "length (concat (take pos xs)) = pos * e"
    using assms(1,4) by (subst length_concat_elems [of _ e]) (auto dest: in_set_takeD)
  moreover have "bytes_at m' ?d (concat (replicate (length xs - pos - 1) (last xs)))"
    using smeared_element [OF assms(1-5), folded m'_def] le by (subst bytes_at_concat [of _ e]) (auto simp: bytes_at_def at_at add.assoc)
  ultimately show "bytes_at m' p (concat (take pos xs @ replicate (length xs - pos - 1) (last xs)))" by (simp add: bytes_at_append)
qed

lemma Remove_run:
  assumes "heap_ok km B" and "vec_ok e xs v B m" and "0 < e" and "pos < length xs"
  shows "\<exists>v' m'. Remove (of_nat e) (of_nat pos) (v, km, m) = (v', km, m') \<and>
    vec_ok e (take pos xs @ replicate (length xs - pos - 1) (last xs)) v' B m' \<and> others_same v B m B m'"
proof -
  let ?n = "(length xs - pos - 1) * e" and ?d = "at (vptr v) (pos * e)" and ?ys = "take pos xs @ replicate (length xs - pos - 1) (last xs)"
  have el: "\<forall>x \<in> set xs. length x = e" and lv: "len v = of_nat (length xs)" and ba: "bytes_at m (vptr v) (concat xs)"
    using assms(2) by (simp_all add: vec_ok_def)
  obtain sz where sz: "(vptr v, sz) \<in> B" "unat (capacity v) * e \<le> sz" "unat (capacity v) * e < 2 ^ 31" "length xs \<le> unat (capacity v)" "capacity v \<noteq> 0"
    using assms(2,4) by (auto simp: vec_ok_def split: if_splits)
  have "length xs * e \<le> unat (capacity v) * e" using sz(4) by (rule mult_le_mono1)
  then have n: "?n < 2 ^ 31" "pos * e + ?n \<le> sz" "length xs * e < 2 ^ 31" using sz(2,3) elements_length [OF assms(4), of e] by linarith+
  have "(len v - of_nat pos - 1) * of_nat e = (of_nat ?n :: u64)" using lv assms(4) by (simp add: of_nat_diff diff_diff_eq add.commute)
  then have i: "i32 (uint ((len v - of_nat pos - 1) * of_nat e)) = int ?n" using i32_of_nat [OF n(1)] by simp
  define m' where "m' = memmove m ?d (?d + of_nat e) (int ?n)"
  note rb = remove_bytes [OF el ba assms(3,4) n(3), folded m'_def]
  have r: "Remove (of_nat e) (of_nat pos) (v, km, m) = (v\<lparr>len := len v - 1\<rparr>, km, m')"
    unfolding Remove_def Let_def prod.case i m'_def by (simp add: at_def distrib_right add.assoc)
  have "length (last xs) = e" using el assms(4) by (metis last_in_set length_0_conv less_nat_zero_code)
  then have "\<forall>y \<in> set ?ys. length y = e" using el by (auto dest: in_set_takeD)
  moreover have "length ?ys = length xs - 1" "len v - 1 = of_nat (length xs - 1)" using lv assms(4) by (auto simp: of_nat_diff)
  ultimately have "vec_ok e ?ys (v\<lparr>len := len v - 1\<rparr>) B m'" using sz rb(1) unfolding vec_ok_def by auto
  moreover have "others_same v B m B m'"
    unfolding others_same_def
  proof (intro ballI impI conjI)
    fix b y assume b: "b \<in> B" "fst b \<noteq> vptr v" "y \<in> block b"
    then have "block b \<inter> block (vptr v, sz) = {}" by (intro heap_blocks_disjoint [OF assms(1) b(1) sz(1)]) auto
    then have "\<forall>k < ?n. y \<noteq> at ?d k" using b(3) n(2) at_block [of _ sz "vptr v"] by (fastforce simp: at_at)
    then show "m' y = m y" by (rule rb(2))
  qed
  ultimately show ?thesis using r by blast
qed

section \<open>Properties\<close>

text \<open>
  C10. \<^verbatim>\<open>Insert\<close> refines list insertion on the kernel heap. On a vector that holds \<open>xs\<close>, inserting \<open>x\<close> at \<open>pos\<close>, growing the
  block where the vector is full, ends with a vector that holds \<open>x\<close> between the first \<open>pos\<close> elements of \<open>xs\<close> and the rest, in a well-formed heap
  in which every other block is still there with the same bytes. The only other outcome is that the vector is full and the heap has not enough free
  pages for the larger block. Where the vector grows, its new size is one \<^verbatim>\<open>Alloc\<close> is specified for (\<open>size_ok\<close>: it fits an \<^verbatim>\<open>int\<close> and the page array), and
  more than 32 bytes unless the compiler's \<^verbatim>\<open>ctzl(0)\<close> is at least 32 (\<open>ctz_safe\<close>).
\<close>

theorem Insert_refines:
  assumes "heap_ok km B" and "vec_ok e xs v B m" and "0 < e" and "pos \<le> length xs" and "length x = e"
    and "length xs < unat (capacity v) \<or> size_ok km (int (next_capacity v * e)) \<and> ctz_safe ctz0 (int (next_capacity v * e))"
  shows "Insert ctz0 clz0 (of_nat e) (of_nat pos) x (v, km, m) = Inl NullDeref \<and> length xs = unat (capacity v) \<and>
      no_room km (int (next_capacity v * e)) \<or>
    (\<exists>v' km' m' B'. Insert ctz0 clz0 (of_nat e) (of_nat pos) x (v, km, m) = Inr (v', km', m') \<and> heap_ok km' B' \<and>
      vec_ok e (take pos xs @ x # drop pos xs) v' B' m' \<and>
      (\<forall>b \<in> B. fst b \<noteq> vptr v \<longrightarrow> b \<in> B' \<and> (\<forall>a \<in> block b. m' a = m a)))"
  using Insert_run [OF assms] unfolding others_same_def by blast

lemma Vector_ctor_ok: "vec_ok e [] Vector_ctor B m"
  by (simp add: vec_ok_def Vector_ctor_def BaseVector_ctor_def bytes_at_def)

theorem Insert_refines_witness:
  "\<exists>v' km' m' B'. Insert 0 32 8 0 [1, 2, 3, 4, 5, 6, 7, 8] (Vector_ctor, InitSlab demo_kmem, \<lambda>_. 0) = Inr (v', km', m') \<and>
     heap_ok km' B' \<and> vec_ok 8 [[1, 2, 3, 4, 5, 6, 7, 8]] v' B' m'"
proof -
  have n: "int (next_capacity Vector_ctor * 8) = 128" by (simp add: next_capacity_def Vector_ctor_def BaseVector_ctor_def)
  have "size_ok (InitSlab demo_kmem) 128" "ctz_safe 0 128" by (simp_all add: size_ok_def ctz_safe_def)
  moreover have "\<not> no_room (InitSlab demo_kmem) 128" using demo_heap(2) by (simp add: no_room_def)
  ultimately show ?thesis
    using Insert_refines [OF demo_heap(1) Vector_ctor_ok [of 8], of 0 "[1, 2, 3, 4, 5, 6, 7, 8]" 0 32 "\<lambda>_. 0"]
    unfolding n by auto
qed

text \<open>
  C40. \<^verbatim>\<open>Remove\<close> does not remove: it closes the gap with a backwards copying \<^verbatim>\<open>memmove\<close>, so that every element behind the removed one becomes
  a copy of the last element.
\<close>

theorem Remove_smears:
  assumes "heap_ok km B" and "vec_ok e xs v B m" and "0 < e" and "pos < length xs"
  shows "\<exists>v' m'. Remove (of_nat e) (of_nat pos) (v, km, m) = (v', km, m') \<and>
    vec_ok e (take pos xs @ replicate (length xs - pos - 1) (last xs)) v' B m' \<and>
    (\<forall>b \<in> B. fst b \<noteq> vptr v \<longrightarrow> b \<in> B \<and> (\<forall>a \<in> block b. m' a = m a))"
  using Remove_run [OF assms] unfolding others_same_def .

text \<open>A vector of the three one-byte elements 1, 2 and 3 in a block of 16 bytes.\<close>

lemma demo_vec:
  assumes "heap_ok km B" and "(p, 128) \<in> B"
  shows "vec_ok 1 [[1], [2], [3]] \<lparr>capacity = 16, len = 3, vptr = p\<rparr> B (put_bytes [1, 2, 3] p (\<lambda>_. 0))"
  using assms put_bytes_at [of "[1, 2, 3]" p "\<lambda>_. 0"] by (auto simp: vec_ok_def)

theorem Remove_smears_witness:
  "\<exists>km B p v' m'. heap_ok km B \<and> Remove 1 0 (\<lparr>capacity = 16, len = 3, vptr = p\<rparr>, km, put_bytes [1, 2, 3] p (\<lambda>_. 0)) = (v', km, m') \<and>
    vec_ok 1 [[3], [3]] v' B m'"
proof -
  obtain p km where h: "heap_ok km {(p, 128)}" using demo_alloc by blast
  have "\<exists>v' m'. Remove (of_nat 1) (of_nat 0) (\<lparr>capacity = 16, len = 3, vptr = p\<rparr>, km, put_bytes [1, 2, 3] p (\<lambda>_. 0)) = (v', km, m') \<and>
      vec_ok 1 (take 0 [[1], [2], [3]] @ replicate (length [[1 :: u8], [2], [3]] - 0 - 1) (last [[1], [2], [3]])) v' {(p, 128)} m' \<and>
      (\<forall>b \<in> {(p, 128)}. fst b \<noteq> vptr \<lparr>capacity = 16, len = 3, vptr = p\<rparr> \<longrightarrow> b \<in> {(p, 128)} \<and> (\<forall>a \<in> block b. m' a = put_bytes [1, 2, 3] p (\<lambda>_. 0) a))"
    by (rule Remove_smears [OF h demo_vec [OF h]]) simp_all
  then obtain v' m' where "Remove 1 0 (\<lparr>capacity = 16, len = 3, vptr = p\<rparr>, km, put_bytes [1, 2, 3] p (\<lambda>_. 0)) = (v', km, m')"
    "vec_ok 1 [[3], [3]] v' {(p, 128)} m'" by (auto simp: numeral_2_eq_2)
  then show ?thesis using h by blast
qed

end
