(* ===== verification/Cpu_Platform.thy ===== *)
theory Cpu_Platform
  imports Word_Bits Libc_String
begin

text \<open>
  Processor access: \<^verbatim>\<open>CpuPlatform\<close> of \<^verbatim>\<open>kern/cpu.h\<close> and \<^verbatim>\<open>kern/cpu.cc\<close>. The assembler statements read
  and write the registers of \<open>cpu\<close>; the time stamp counter is an input.
\<close>

section \<open>Registers\<close>

record CpuMSRValue =
  lo :: u32
  hi :: u32

definition CpuMSRValue_ctor :: "u64 \<Rightarrow> CpuMSRValue" where
  "CpuMSRValue_ctor val = \<lparr>lo = ucast val, hi = ucast (drop_bit 32 val)\<rparr>"

text \<open>
  The processor as far as the kernel looks at it: the model specific registers as 64-bit values, the flags register and the
  selector in \<^verbatim>\<open>gs\<close>, which holds the number of the processor.
\<close>

record cpu =
  msrs :: "u32 \<Rightarrow> u64"
  rflags :: u64
  gs :: u16
  halted :: bool

text \<open>
  \<^verbatim>\<open>rdtsc\<close>, \<^verbatim>\<open>rdmsr\<close> and \<^verbatim>\<open>wrmsr\<close> pass 64 bits as the pair of \<^verbatim>\<open>edx\<close> (upper half) and \<^verbatim>\<open>eax\<close>.
\<close>

definition edx_eax :: "u64 \<Rightarrow> u32 \<times> u32" where
  "edx_eax v = (ucast (drop_bit 32 v), ucast v)"

definition ReadTimeStamp :: "u64 \<Rightarrow> u64" where
  "ReadTimeStamp tsc =
     (let (hi, lo) = edx_eax tsc; res = ucast hi; res = push_bit 32 res in res OR ucast lo)"

definition GetMSR :: "u32 \<Rightarrow> cpu \<Rightarrow> CpuMSRValue" where
  "GetMSR msr c = (let (edx, eax) = edx_eax (msrs c msr) in \<lparr>lo = eax, hi = edx\<rparr>)"

definition SetMSR :: "u32 \<Rightarrow> CpuMSRValue \<Rightarrow> cpu \<Rightarrow> cpu" where
  "SetMSR msr v c = c\<lparr>msrs := (msrs c)(msr := push_bit 32 (ucast (hi v)) OR ucast (lo v))\<rparr>"

definition cpu_id :: "cpu \<Rightarrow> u32" where
  "cpu_id c = ucast (gs c)"

text \<open>Bit 9 of the flags register is the interrupt flag.\<close>

definition DisableInterrupts :: "cpu \<Rightarrow> cpu" where
  "DisableInterrupts c = c\<lparr>rflags := rflags c AND NOT 0x200\<rparr>"

definition EnableInterrupts :: "cpu \<Rightarrow> cpu" where
  "EnableInterrupts c = c\<lparr>rflags := rflags c OR 0x200\<rparr>"

definition IsInterruptsEnabled :: "cpu \<Rightarrow> bool" where
  "IsInterruptsEnabled c = (let eflags = ucast (rflags c) :: u32 in 1 = (eflags AND 0x200))"

definition Halt :: "cpu \<Rightarrow> cpu" where
  "Halt c = c\<lparr>halted := True\<rparr>"

text \<open>\<^verbatim>\<open>pause\<close> is a hint to the processor and changes no register; \<^verbatim>\<open>HangSystem\<close> never returns.\<close>

definition WaitPause :: "cpu \<Rightarrow> cpu" where
  "WaitPause c = c"

partial_function (option) pause_loop :: "cpu \<Rightarrow> cpu option" where
  "pause_loop c = pause_loop (WaitPause c)"

definition HangSystem :: "cpu \<Rightarrow> cpu option" where
  "HangSystem c = pause_loop (DisableInterrupts c)"

section \<open>Start-up code of the other processors\<close>

definition kLoadAddress :: u64 where "kLoadAddress = 0x8000"

text \<open>
  The addresses of the linker symbols \<^verbatim>\<open>_smp_start\<close> and \<^verbatim>\<open>_smp_boot_code_end\<close> are parameters; the length is
  kept in 16 bits.
\<close>

definition SetupSMPBootCode :: "u64 \<Rightarrow> u64 \<Rightarrow> mem \<Rightarrow> mem result" where
  "SetupSMPBootCode smp_start smp_boot_code_end m =
     kassert ''&_smp_boot_code_end > &_smp_start'' (smp_boot_code_end > smp_start)
     (let startup_loc = smp_start; startup_len = ucast (smp_boot_code_end - smp_start) :: u16
      in kassert ''startup_loc'' (startup_loc \<noteq> 0)
        (Inr (memcpy m (PADDR_TO_KPTR kLoadAddress) startup_loc (uint startup_len))))"

text \<open>The counter \<^verbatim>\<open>_smp_cpu_counter\<close> is two bytes of memory, lower byte first.\<close>

definition ReceiveCpuCounter :: "u64 \<Rightarrow> mem \<Rightarrow> u16" where
  "ReceiveCpuCounter smp_cpu_counter m = ucast (m smp_cpu_counter) OR push_bit 8 (ucast (m (smp_cpu_counter + 1)))"

section \<open>Lemmas\<close>

lemma join_halves: "push_bit 32 (ucast (ucast (drop_bit 32 v) :: u32)) OR ucast (ucast v :: u32) = v" for v :: u64
  by (rule bit_word_eqI) (auto simp: bit_simps)

lemma ReadTimeStamp_id [simp]: "ReadTimeStamp tsc = tsc"
  by (simp add: ReadTimeStamp_def edx_eax_def join_halves)

lemma SetMSR_value [simp]: "msrs (SetMSR msr (CpuMSRValue_ctor v) c) = (msrs c)(msr := v)"
  by (simp add: SetMSR_def CpuMSRValue_ctor_def join_halves)

lemma GetMSR_SetMSR [simp]: "GetMSR msr (SetMSR msr v c) = v"
  by (cases v) (simp add: GetMSR_def SetMSR_def edx_eax_def, simp add: word_bits bit_simps)

lemma SetMSR_GetMSR [simp]: "SetMSR msr (GetMSR msr c) c = c"
  by (simp add: GetMSR_def SetMSR_def edx_eax_def join_halves)

text \<open>The comparison with 1 can never hold: the query answers that interrupts are off, whatever the flags.\<close>

lemma IsInterruptsEnabled_False [simp]: "\<not> IsInterruptsEnabled c"
proof
  assume "IsInterruptsEnabled c"
  then have "bit (1 :: u32) 0 = bit (ucast (rflags c) AND 0x200 :: u32) 0" by (simp add: IsInterruptsEnabled_def)
  then show False by (simp add: bit_simps)
qed

lemma HangSystem_never: "HangSystem c = None"
proof -
  have "\<not> pause_loop c = Some r" for c r
  proof
    assume "pause_loop c = Some r"
    then show False by (rule pause_loop.raw_induct [where P = "\<lambda>_ _. False", rotated])
  qed
  then show ?thesis by (cases "pause_loop (DisableInterrupts c)") (simp_all add: HangSystem_def)
qed

lemma EnableInterrupts_flag: "bit (rflags (EnableInterrupts c)) n \<longleftrightarrow> n = 9 \<or> bit (rflags c) n"
proof -
  have "bit (0x200 :: u64) n \<longleftrightarrow> n = 9" using bit_exp_iff [of 9 n, where ?'a = "64 word"] by auto
  then show ?thesis by (auto simp: EnableInterrupts_def bit_simps)
qed

lemma SetupSMPBootCode_copies:
  assumes "smp_start \<noteq> 0" and "end = smp_start + of_nat n" and "0 < n" and "n < 2 ^ 16" and "unat smp_start + n < 2 ^ 64"
    and "PADDR_TO_KPTR kLoadAddress \<le> smp_start \<or> unat smp_start + n \<le> unat (PADDR_TO_KPTR kLoadAddress)"
  shows "\<exists>m'. SetupSMPBootCode smp_start end m = Inr m' \<and> moved n m (PADDR_TO_KPTR kLoadAddress) smp_start m'"
proof -
  have u: "unat (of_nat n :: u64) = n" using assms(4) by (simp add: unat_of_nat take_bit_nat_eq_self)
  have e: "unat end = unat smp_start + n" using assms(2,5) u by (simp add: unat_word_ariths)
  have "unat (ucast (of_nat n :: u64) :: u16) = n" using assms(4) by (simp add: unat_of_nat take_bit_nat_eq_self unsigned_ucast_eq)
  then have l: "uint (ucast (end - smp_start) :: u16) = int n" using assms(2) by (metis add_diff_cancel_left' uint_nat)
  have k: "unat (PADDR_TO_KPTR kLoadAddress) = 0xFFFFFF0000008000" by (simp add: PADDR_TO_KPTR_def kLoadAddress_def KERN_OFFSET_def)
  have "moved n m (PADDR_TO_KPTR kLoadAddress) smp_start (copy_up n m (PADDR_TO_KPTR kLoadAddress) smp_start)"
  proof (rule copy_up_moved)
    show "n < 2 ^ 64" using assms(5) by linarith
  next
    fix i j assume "j < i" "i < n"
    then show "at (PADDR_TO_KPTR kLoadAddress) j \<noteq> at smp_start i"
      by (intro at_ordered [of _ n]) (use assms k in \<open>auto simp: word_le_nat_alt\<close>)
  qed
  moreover have "SetupSMPBootCode smp_start end m = Inr (memcpy m (PADDR_TO_KPTR kLoadAddress) smp_start (int n))"
    using assms(1,3) e l by (simp add: SetupSMPBootCode_def word_less_nat_alt kassert_def)
  ultimately show ?thesis using assms(4) by (simp add: memcpy_def int_count_id)
qed

end
