(* ===== verification/Kvm_Clock.thy ===== *)
theory Kvm_Clock
  imports Cpu_Platform
begin

text \<open>
  The paravirtual clocks of KVM (\<^verbatim>\<open>kern/kvm-clock.h\<close>, \<^verbatim>\<open>kern/kvm-clock.cc\<close>): the hypervisor writes time records into
  guest memory, under a version number that is odd during an update, while the guest reads them field by field.
  Time is counted in loads: \<open>h t\<close> is the record the load number \<open>t\<close> sees.
\<close>

section \<open>Data\<close>

record KvmWallClockInfo =
  wc_version :: u32
  sec :: u32
  nsec :: u32

record KvmCpuTimeInfo =
  ti_version :: u32
  tsc_ts :: u64
  sys_time :: u64
  tsc_to_sys_mul :: u32
  tsc_shift :: "8 word"
  flags :: u8

definition kKvmClockMSR :: u32 where "kKvmClockMSR = 0x4b564d00"
definition kKvmSystemTimeMSR :: u32 where "kKvmSystemTimeMSR = 0x4b564d01"
definition kTscStableBit :: u8 where "kTscStableBit = push_bit 0 1"

section \<open>Set-up\<close>

definition KvmWallClock :: "u64 \<Rightarrow> cpu \<Rightarrow> KvmWallClockInfo \<times> cpu" where
  "KvmWallClock info_addr c =
     (\<lparr>wc_version = 0, sec = 0, nsec = 0\<rparr>, SetMSR kKvmClockMSR (CpuMSRValue_ctor (KPTR_TO_PADDR info_addr)) c)"

text \<open>The \<^verbatim>\<open>memset\<close> has the size of the whole object: it clears \<^verbatim>\<open>last_boot_time\<close> once more, too.\<close>

definition KvmSystemTime :: "u64 \<Rightarrow> cpu \<Rightarrow> KvmCpuTimeInfo \<times> u64 \<times> cpu" where
  "KvmSystemTime info_addr c =
     (\<lparr>ti_version = 0, tsc_ts = 0, sys_time = 0, tsc_to_sys_mul = 0x804efb06, tsc_shift = -1, flags = kTscStableBit\<rparr>, 0,
      SetMSR kKvmSystemTimeMSR (CpuMSRValue_ctor (KPTR_TO_PADDR info_addr OR 1)) c)"

section \<open>Reading the clocks\<close>

text \<open>One round of the loop of \<^verbatim>\<open>BootClock\<close>: four loads, and a fifth for the loop condition.\<close>

definition clock_attempt :: "(nat \<Rightarrow> KvmWallClockInfo) \<Rightarrow> nat \<Rightarrow> u64 \<times> bool" where
  "clock_attempt h t =
     (let v1 = wc_version (h t); res = ucast (sec (h (t + 1))); res = res * 1000000000;
          res = res + ucast (nsec (h (t + 2))); v2 = wc_version (h (t + 3))
      in (res, wc_version (h (t + 4)) AND 1 \<noteq> 0 \<or> v1 \<noteq> v2))"

partial_function (option) BootClock :: "(nat \<Rightarrow> KvmWallClockInfo) \<Rightarrow> nat \<Rightarrow> (u64 \<times> nat) option" where
  "BootClock h t = (let (res, again) = clock_attempt h t in if again then BootClock h (t + 5) else Some (res, t + 5))"

text \<open>
  A shift of a 64-bit register uses the lower six bits of the count. \<^verbatim>\<open>mulq\<close> leaves the 128-bit product in
  \<^verbatim>\<open>rdx:rax\<close>, and \<^verbatim>\<open>shrd\<close> shifts \<^verbatim>\<open>rax\<close> right by 32, filling it from \<^verbatim>\<open>rdx\<close>.
\<close>

definition shift_count :: "int \<Rightarrow> nat" where "shift_count n = nat (n mod 64)"

definition mulq :: "u64 \<Rightarrow> u64 \<Rightarrow> u64 \<times> u64" where
  "mulq a b = (of_nat (unat a * unat b div 2 ^ 64), of_nat (unat a * unat b))"

definition shrd :: "nat \<Rightarrow> u64 \<Rightarrow> u64 \<Rightarrow> u64" where
  "shrd n rdx rax = drop_bit n rax OR push_bit (64 - n) rdx"

text \<open>
  \<^verbatim>\<open>ProcessorNano\<close> loads the shift for each of the two comparisons and once more to shift, then the multiplier; the result comes with the
  number of the next load.
\<close>

definition ProcessorNano :: "(nat \<Rightarrow> KvmCpuTimeInfo) \<Rightarrow> nat \<Rightarrow> u64 \<Rightarrow> u64 \<times> nat" where
  "ProcessorNano h t time =
     (let shift = (\<lambda>t. sint (tsc_shift (h t)));
          (time, t) = (if 0 < shift t then (push_bit (shift_count (shift (t + 1))) time, t + 2)
                       else if shift (t + 1) < 0 then (drop_bit (shift_count (- shift (t + 2))) time, t + 3)
                       else (time, t + 2));
          (rdx, rax) = mulq time (ucast (tsc_to_sys_mul (h t)))
      in (shrd 32 rdx rax, t + 1))"

text \<open>One round of the loop of \<^verbatim>\<open>BootTime\<close>: time, flags, whether to try again, and the next load. The counter \<open>tsc\<close> is read once.\<close>

definition time_attempt :: "(nat \<Rightarrow> KvmCpuTimeInfo) \<Rightarrow> (nat \<Rightarrow> u64) \<Rightarrow> nat \<Rightarrow> u64 \<times> u8 \<times> bool \<times> nat" where
  "time_attempt h tsc t =
     (let v1 = ti_version (h t); base = sys_time (h (t + 1));
          (nano, t) = ProcessorNano h (t + 3) (ReadTimeStamp (tsc (t + 2)) - tsc_ts (h (t + 2)));
          time = base + nano; fl = flags (h t); v2 = ti_version (h (t + 1))
      in (time, fl, ti_version (h (t + 2)) AND 1 \<noteq> 0 \<or> v1 \<noteq> v2, t + 3))"

partial_function (option) read_time :: "(nat \<Rightarrow> KvmCpuTimeInfo) \<Rightarrow> (nat \<Rightarrow> u64) \<Rightarrow> nat \<Rightarrow> (u64 \<times> u8 \<times> nat) option" where
  "read_time h tsc t =
     (let (time, fl, again, t) = time_attempt h tsc t in if again then read_time h tsc t else Some (time, fl, t))"

text \<open>
  The last part of \<^verbatim>\<open>BootTime\<close>, on one processor: with no other caller the compare-and-swap succeeds at once. The interleaved version
  is the step relation below.
\<close>

definition BootTime :: "bool \<Rightarrow> (nat \<Rightarrow> KvmCpuTimeInfo) \<Rightarrow> (nat \<Rightarrow> u64) \<Rightarrow> nat \<Rightarrow> u64 \<Rightarrow> (u64 \<times> nat \<times> u64) option" where
  "BootTime use_hw_stable h tsc t last_boot_time =
     (case read_time h tsc t of None \<Rightarrow> None
      | Some (time, fl, t) \<Rightarrow> Some (
          if use_hw_stable \<and> fl AND kTscStableBit \<noteq> 0 then (time, t, last_boot_time)
          else if time \<le> last_boot_time then (last_boot_time, t, last_boot_time)
          else (time, t, time)))"

section \<open>Concurrent callers\<close>

text \<open>
  Callers on several processors. A call is on its way to a \<open>time\<close> (\<open>Reading\<close>, the loop above), has its \<open>time\<close> (\<open>Computed\<close>), has
  loaded \<^verbatim>\<open>last_boot_time\<close> (\<open>Loaded\<close>), or holds its result and has not yet returned it (\<open>Returning\<close>). Every access to the shared
  variable is a step of its own, and so are the comparison behind the load and the return. \<open>events\<close> lists what callers did, latest
  first: the beginning of a call, the time it computed, and its return with that time and the result.
\<close>

datatype caller = Idle | Reading | Computed u64 | Loaded u64 u64 | Returning u64 u64

datatype clock_event = Call nat | Time nat u64 | Ret nat u64 u64

record clock_state =
  last_boot_time :: u64
  callers :: "nat \<Rightarrow> caller"
  events :: "clock_event list"

inductive cas_step :: "clock_state \<Rightarrow> clock_state \<Rightarrow> bool" where
  call: "callers s i = Idle \<Longrightarrow>
    cas_step s (s\<lparr>callers := (callers s)(i := Reading), events := Call i # events s\<rparr>)"
| compute: "callers s i = Reading \<Longrightarrow>
    cas_step s (s\<lparr>callers := (callers s)(i := Computed time), events := Time i time # events s\<rparr>)"
| load: "callers s i = Computed time \<Longrightarrow>
    cas_step s (s\<lparr>callers := (callers s)(i := Loaded time (last_boot_time s))\<rparr>)"
| keep: "callers s i = Loaded time old \<Longrightarrow> time \<le> old \<Longrightarrow>
    cas_step s (s\<lparr>callers := (callers s)(i := Returning time old)\<rparr>)"
| swap: "callers s i = Loaded time old \<Longrightarrow> \<not> time \<le> old \<Longrightarrow> last_boot_time s = old \<Longrightarrow>
    cas_step s (s\<lparr>last_boot_time := time, callers := (callers s)(i := Returning time time)\<rparr>)"
| swap_fails: "callers s i = Loaded time old \<Longrightarrow> \<not> time \<le> old \<Longrightarrow> last_boot_time s \<noteq> old \<Longrightarrow>
    cas_step s (s\<lparr>callers := (callers s)(i := Computed time)\<rparr>)"
| return: "callers s i = Returning time r \<Longrightarrow>
    cas_step s (s\<lparr>callers := (callers s)(i := Idle), events := Ret i time r # events s\<rparr>)"

definition clock_start :: clock_state where
  "clock_start = \<lparr>last_boot_time = 0, callers = \<lambda>_. Idle, events = []\<rparr>"

section \<open>What the hypervisor promises\<close>

text \<open>
  \<open>n t\<close> counts the version changes up to load \<open>t\<close>. The version word is that count, it is odd while the
  record is being written, and under an even version the record does not change.
\<close>

definition host_writes :: "('r \<Rightarrow> u32) \<Rightarrow> (nat \<Rightarrow> 'r) \<Rightarrow> (nat \<Rightarrow> nat) \<Rightarrow> bool" where
  "host_writes version h n \<longleftrightarrow> (\<forall>t. version (h t) = of_nat (n t) \<and> n t \<le> n (Suc t) \<and>
     (even (n t) \<and> n (Suc t) = n t \<longrightarrow> h (Suc t) = h t))"

lemma host_mono: "host_writes version h n \<Longrightarrow> s \<le> t \<Longrightarrow> n s \<le> n t"
  by (induction t) (auto simp: host_writes_def le_Suc_eq intro: order_trans)

lemma host_stable:
  assumes "host_writes version h n" and "even (n s)" and "n (s + k) = n s"
  shows "h (s + k) = h s"
  using assms(3)
proof (induction k)
  case (Suc k)
  have "n s \<le> n (s + k)" "n (s + k) \<le> n (s + Suc k)" using host_mono [OF assms(1)] by simp_all
  then have "n (s + k) = n s" using Suc.prems by simp
  then show ?case using Suc assms(1,2) by (simp add: host_writes_def)
qed simp

lemma version_eq:
  assumes "host_writes version h n" and "version (h s) = version (h t)" and "s \<le> t" and "n t < n s + 2 ^ 32"
  shows "n s = n t"
proof -
  have "unat (of_nat (n s) :: u32) = unat (of_nat (n t) :: u32)" using assms(1,2) by (simp add: host_writes_def)
  then have "n t mod 2 ^ 32 = n s mod 2 ^ 32" by (simp add: unat_of_nat take_bit_eq_mod)
  then have "2 ^ 32 dvd n t - n s" using host_mono [OF assms(1,3)] by (simp only: mod_eq_dvd_iff_nat)
  then have "\<not> 0 < n t - n s" using assms(4) nat_dvd_not_less [of "n t - n s" "2 ^ 32"] by linarith
  then show ?thesis using host_mono [OF assms(1,3)] by simp
qed

lemma odd_version: "version (h t) AND 1 \<noteq> 0 \<longleftrightarrow> odd (n t)" if "host_writes version h n"
proof -
  have "version (h t) = of_nat (n t)" using that by (simp add: host_writes_def)
  moreover have "bit (of_nat (n t) :: u32) 0 \<longleftrightarrow> odd (n t)" 
    using bit_unsigned_iff [of "of_nat (n t) :: u32" 0, where ?'a = nat] by (simp add: unat_of_nat bit_take_bit_iff bit_0)
  ultimately show ?thesis by (simp add: and_one_eq mod_2_eq_odd bit_0)
qed

text \<open>What the checks of a round show: the records from the first to the second version load agree, unless the round began within an update.\<close>

lemma round_checked:
  assumes "host_writes version h n" and "version (h s) = version (h (s + k))" and "n (s + k) < n s + 2 ^ 32"
  shows "(even (n s) \<and> (\<forall>i \<le> k. h (s + i) = h s)) \<or> (odd (n s) \<and> n (s + k) = n s)"
proof -
  have e: "n s = n (s + k)" by (rule version_eq [OF assms(1,2) _ assms(3)]) simp
  have "n (s + i) = n s" if "i \<le> k" for i
    using host_mono [OF assms(1), of s "s + i"] host_mono [OF assms(1), of "s + i" "s + k"] e that by simp
  then have "\<forall>i \<le> k. h (s + i) = h s" if "even (n s)" using host_stable [OF assms(1) that] by blast
  then show ?thesis using e by metis
qed

section \<open>The time in a record\<close>

definition nano :: "KvmCpuTimeInfo \<Rightarrow> u64 \<Rightarrow> nat" where
  "nano r x = (let s = sint (tsc_shift r) in
     (if 0 \<le> s then unat x * 2 ^ nat s mod 2 ^ 64 else unat x div 2 ^ nat (- s)) * unat (tsc_to_sys_mul r) div 2 ^ 32)"

definition time_at :: "KvmCpuTimeInfo \<Rightarrow> u64 \<Rightarrow> u64" where
  "time_at r tsc = sys_time r + of_nat (nano r (tsc - tsc_ts r))"

definition shift_ok :: "KvmCpuTimeInfo \<Rightarrow> bool" where
  "shift_ok r \<longleftrightarrow> - 64 < sint (tsc_shift r) \<and> sint (tsc_shift r) < 64"

lemma bit_of_nat_u64: "bit (of_nat p :: u64) i \<longleftrightarrow> i < 64 \<and> bit p i"
proof -
  have "bit (of_nat p :: u64) i \<longleftrightarrow> bit (unat (of_nat p :: u64)) i" by (simp add: bit_unsigned_iff)
  also have "\<dots> \<longleftrightarrow> bit (take_bit 64 p) i" by (simp only: unsigned_of_nat) simp
  finally show ?thesis by (simp only: bit_take_bit_iff)
qed

lemma shrd_product: "shrd 32 (fst (mulq a b)) (snd (mulq a b)) = of_nat (unat a * unat b div 2 ^ 32)"
proof (rule bit_word_eqI)
  fix i assume i: "i < LENGTH(64)"
  have d: "bit (p div 2 ^ k) j \<longleftrightarrow> bit p (k + j)" for p k j :: nat
    by (simp add: bit_drop_bit_eq flip: drop_bit_eq_div)
  show "bit (shrd 32 (fst (mulq a b)) (snd (mulq a b))) i = bit (of_nat (unat a * unat b div 2 ^ 32) :: u64) i"
    using i unfolding shrd_def mulq_def fst_conv snd_conv bit_or_iff bit_drop_bit_eq bit_push_bit_iff bit_of_nat_u64 comp_def d
    by auto
qed

lemma unat_ucast_32 [simp]: "unat (ucast (w :: u32) :: u64) = unat w"
  using unsigned_less [of w, where ?'a = nat] by (simp add: unsigned_ucast_eq take_bit_nat_eq_self)

lemma ProcessorNano_next: "snd (ProcessorNano h t x) = t + 3 \<or> snd (ProcessorNano h t x) = t + 4"
  by (simp add: ProcessorNano_def Let_def split: prod.split)

lemma ProcessorNano_agree:
  assumes "\<And>i. i < 4 \<Longrightarrow> h (t + i) = r" and "shift_ok r"
  shows "fst (ProcessorNano h t x) = of_nat (nano r x)"
proof -
  have h: "h t = r" "h (t + 1) = r" "h (t + 2) = r" "h (t + 3) = r"
    using assms(1) [of 0] assms(1) [of 1] assms(1) [of 2] assms(1) [of 3] by simp_all
  define s where "s = sint (tsc_shift r)"
  have s: "- 64 < s" "s < 64" using assms(2) by (simp_all add: s_def shift_ok_def)
  have c: "shift_count s = nat s" if "0 < s" using that s by (simp add: shift_count_def)
  have c': "shift_count (- s) = nat (- s)" if "s < 0" using that s by (simp add: shift_count_def)
  define y where "y = (if 0 < s then push_bit (nat s) x else if s < 0 then drop_bit (nat (- s)) x else x)"
  have y: "unat y = (if 0 \<le> s then unat x * 2 ^ nat s mod 2 ^ 64 else unat x div 2 ^ nat (- s))"
  proof -
    have "unat (push_bit k x) = unat x * 2 ^ k mod 2 ^ 64" for k
      by (simp only: unsigned_push_bit_eq) (simp add: take_bit_eq_mod push_bit_eq_mult)
    moreover have "unat (drop_bit k x) = unat x div 2 ^ k" for k 
      by (simp only: unat_drop_bit_eq) (simp only: drop_bit_eq_div)
    ultimately show ?thesis using unat_u64_less [of x] by (auto simp: y_def)
  qed
  have "fst (ProcessorNano h t x) = shrd 32 (fst (mulq y (ucast (tsc_to_sys_mul r)))) (snd (mulq y (ucast (tsc_to_sys_mul r))))"
    using c c' h unfolding ProcessorNano_def Let_def y_def by (auto simp: s_def split: prod.splits)
  also have "\<dots> = of_nat (nano r x)" unfolding shrd_product nano_def Let_def s_def [symmetric] y [symmetric] by simp
  finally show ?thesis .
qed

section \<open>Rounds of the loops\<close>

text \<open>A round ends in at most ten loads, and retries exactly when its version loads differ or the last one is odd.\<close>

lemma time_attempt_round:
  obtains k where "7 \<le> k" and "k \<le> 8"
    and "snd (snd (snd (time_attempt h tsc s))) = s + k + 2"
    and "fst (snd (snd (time_attempt h tsc s))) \<longleftrightarrow> ti_version (h (s + k + 1)) AND 1 \<noteq> 0 \<or> ti_version (h s) \<noteq> ti_version (h (s + k))"
    and "fst (snd (time_attempt h tsc s)) = flags (h (s + k - 1))"
    and "fst (time_attempt h tsc s) = sys_time (h (s + 1)) + fst (ProcessorNano h (s + 3) (tsc (s + 2) - tsc_ts (h (s + 2))))"
proof -
  let ?q = "ProcessorNano h (s + 3) (tsc (s + 2) - tsc_ts (h (s + 2)))"
  define k where "k = snd ?q + 1 - s"
  have "snd ?q = s + 6 \<or> snd ?q = s + 7" using ProcessorNano_next [of h "s + 3" "tsc (s + 2) - tsc_ts (h (s + 2))"] by linarith
  then have e: "snd ?q = s + k - 1" "s + k - 1 + 1 = s + k" "s + k - 1 + 2 = s + k + 1" "s + k - 1 + 3 = s + k + 2" "7 \<le> k" "k \<le> 8"
    unfolding k_def by linarith+
  show ?thesis
    by (rule that [OF e(5,6)]) (simp_all only: time_attempt_def Let_def ReadTimeStamp_id split_beta fst_conv snd_conv e(1-4))
qed

text \<open>A round that ends with the checks passed shows the time of one record, or began within an update that ended with its last load.\<close>

definition good_round :: "(nat \<Rightarrow> KvmCpuTimeInfo) \<Rightarrow> (nat \<Rightarrow> nat) \<Rightarrow> (nat \<Rightarrow> u64) \<Rightarrow> nat \<Rightarrow> u64 \<Rightarrow> u8 \<Rightarrow> nat \<Rightarrow> bool" where
  "good_round h n tsc s time fl t' \<longleftrightarrow> s < t' \<and>
     (even (n s) \<and> time = time_at (h s) (tsc (s + 2)) \<and> fl = flags (h s) \<or>
      odd (n s) \<and> n (t' - 2) = n s \<and> n s < n (t' - 1))"

lemma time_attempt_good:
  assumes "host_writes ti_version h n" and "time_attempt h tsc s = (time, fl, False, t')" and "n t' < n s + 2 ^ 32" and "shift_ok (h s)"
  shows "good_round h n tsc s time fl t'"
proof -
  obtain k where k: "7 \<le> k" "k \<le> 8" "t' = s + k + 2" "ti_version (h (s + k + 1)) AND 1 = 0" "ti_version (h s) = ti_version (h (s + k))"
    "fl = flags (h (s + k - 1))" "time = sys_time (h (s + 1)) + fst (ProcessorNano h (s + 3) (tsc (s + 2) - tsc_ts (h (s + 2))))"
    using time_attempt_round [of h tsc s] assms(2) by (metis fst_conv snd_conv)
  have m: "n (s + k) \<le> n (s + k + 1)" "n (s + k) \<le> n t'" using host_mono [OF assms(1)] k(3) by simp_all
  have "even (n (s + k + 1))" using odd_version [OF assms(1), of "s + k + 1"] k(4) by blast
  have "(even (n s) \<and> (\<forall>i \<le> k. h (s + i) = h s)) \<or> (odd (n s) \<and> n (s + k) = n s)"
    by (rule round_checked [OF assms(1) k(5)]) (use m assms(3) in simp)
  then show ?thesis
  proof
    assume e: "even (n s) \<and> (\<forall>i \<le> k. h (s + i) = h s)"
    then have i: "h (s + i) = h s" if "i \<le> k" for i using that by blast
    have "h (s + 1) = h s" "h (s + 2) = h s" "h (s + k - 1) = h s"
      using i [of 1] i [of 2] i [of "k - 1"] k(1) by (simp_all del: One_nat_def)
    moreover have "h (s + 3 + j) = h s" if "j < 4" for j using i [of "3 + j"] that k(1) by (simp add: add.assoc)
    ultimately have "time = time_at (h s) (tsc (s + 2))" "fl = flags (h s)"
      using ProcessorNano_agree [where h = h and t = "s + 3" and r = "h s", OF _ assms(4)] unfolding k(6,7) time_at_def by simp_all
    then show ?thesis using e k(3) unfolding good_round_def by simp
  next
    assume "odd (n s) \<and> n (s + k) = n s"
    moreover from this have "n s \<noteq> n (s + k + 1)" using \<open>even (n (s + k + 1))\<close> by auto
    ultimately show ?thesis using k(3) m(1) by (simp add: good_round_def)
  qed
qed

lemma time_attempt_quiet:
  assumes "host_writes ti_version h n" and "\<forall>u \<ge> T. n u = n T" and "even (n T)" and "T \<le> s"
  shows "\<not> fst (snd (snd (time_attempt h tsc s)))"
proof -
  have n: "n u = n T" if "s \<le> u" for u using assms(2,4) that by (meson order_trans)
  then have v: "ti_version (h u) = of_nat (n T)" if "s \<le> u" for u using assms(1) that by (simp add: host_writes_def)
  have "ti_version (h (s + k)) AND 1 = 0" for k
    using odd_version [OF assms(1), of "s + k"] assms(3) n [of "s + k"] by simp
  then have "ti_version (h (s + k + 1)) AND 1 = 0" for k by (simp only: add.assoc)
  moreover obtain k where "fst (snd (snd (time_attempt h tsc s))) \<longleftrightarrow> ti_version (h (s + k + 1)) AND 1 \<noteq> 0 \<or> ti_version (h s) \<noteq> ti_version (h (s + k))"
    by (rule time_attempt_round)
  ultimately show ?thesis using v [of s] v [of "s + k"] by simp
qed

lemma read_time_returns:
  assumes "host_writes ti_version h n" and "\<forall>u \<ge> T. n u = n T" and "even (n T)"
  shows "\<exists>s time fl t'. read_time h tsc t = Some (time, fl, t') \<and> t \<le> s \<and> time_attempt h tsc s = (time, fl, False, t')"
proof (induction "T - t" arbitrary: t rule: less_induct)
  case less
  obtain time fl again t2 where a: "time_attempt h tsc t = (time, fl, again, t2)" by (metis prod_cases4)
  obtain k where t2: "t2 = t + k + 2" using time_attempt_round [of h tsc t] a by (metis snd_conv)
  show ?case
  proof (cases again)
    case True
    then have "\<not> T \<le> t" using time_attempt_quiet [OF assms, of t tsc] a by auto
    then have "T - t2 < T - t" using t2 by simp
    from less [OF this] obtain s time fl t' where
      "read_time h tsc t2 = Some (time, fl, t')" "t2 \<le> s" "time_attempt h tsc s = (time, fl, False, t')" by blast
    moreover from this have "t \<le> s" using t2 by simp
    moreover have "read_time h tsc t = read_time h tsc t2" using a True by (subst read_time.simps) simp
    ultimately show ?thesis by auto
  next
    case False
    then show ?thesis using a by (subst read_time.simps) auto
  qed
qed

section \<open>Properties\<close>

text \<open>
  C18. \<^verbatim>\<open>BootTime\<close> returns once the hypervisor stops updating, and its result comes from one round of loads. If that round began under an even
  version, the result is the time of one consistent record: the system time plus the scaled counter difference, computed without
  overflow in the 64 by 32 bit product. With the stable flag that time is returned as it is, otherwise the later of it and the last result.
  The only other case is a round that began within an update which ended between its last two version loads.
\<close>

theorem BootTime_snapshot:
  assumes "host_writes ti_version h n" and "\<forall>u \<ge> T. n u = n T" and "even (n T)" and "n T < n t + 2 ^ 32" and "\<forall>u. shift_ok (h u)"
  shows "\<exists>s time fl t'. BootTime hw h tsc t l =
      Some (if hw \<and> fl AND kTscStableBit \<noteq> 0 then (time, t', l) else (max time l, t', max time l)) \<and> t \<le> s \<and> s < t' \<and>
    (even (n s) \<and> time = time_at (h s) (tsc (s + 2)) \<and> fl = flags (h s) \<or> odd (n s) \<and> n (t' - 2) = n s \<and> n s < n (t' - 1))"
proof -
  from read_time_returns [OF assms(1-3), of tsc t] obtain s time fl t' where r:
    "read_time h tsc t = Some (time, fl, t')" "t \<le> s" "time_attempt h tsc s = (time, fl, False, t')" by blast
  have "n t' \<le> n T" using host_mono [OF assms(1), of t' T] assms(2) by (metis le_refl nat_le_linear)
  moreover have "n t \<le> n s" using host_mono [OF assms(1) r(2)] .
  ultimately have "n t' < n s + 2 ^ 32" using assms(4) by linarith
  then have "good_round h n tsc s time fl t'" using time_attempt_good [OF assms(1) r(3)] assms(5) by blast
  moreover have "BootTime hw h tsc t l =
      Some (if hw \<and> fl AND kTscStableBit \<noteq> 0 then (time, t', l) else (max time l, t', max time l))"
    using r(1) by (simp add: BootTime_def max_def)
  ultimately show ?thesis using r(2) unfolding good_round_def by blast
qed

theorem BootTime_snapshot_witness:
  "\<exists>s time fl t'. BootTime False (\<lambda>_. fst (KvmSystemTime 0 \<lparr>msrs = \<lambda>_. 0, rflags = 0, gs = 0, halted = False\<rparr>)) (\<lambda>_. 1000) 0 0 =
      Some (max time 0, t', max time 0) \<and> s < t' \<and> time = 250 \<and> fl = 1"
proof -
  let ?r = "fst (KvmSystemTime 0 \<lparr>msrs = \<lambda>_. 0, rflags = 0, gs = 0, halted = False\<rparr>)"
  have "host_writes ti_version (\<lambda>_. ?r) (\<lambda>_. 0)" by (simp add: host_writes_def KvmSystemTime_def)
  moreover have "shift_ok ?r" by (simp add: shift_ok_def KvmSystemTime_def)
  ultimately have "\<exists>s time fl t'. BootTime False (\<lambda>_. ?r) (\<lambda>_. 1000) 0 0 = Some (max time 0, t', max time 0) \<and> s < t' \<and> time = time_at ?r 1000 \<and> fl = flags ?r"
    using BootTime_snapshot [of "\<lambda>_. ?r" "\<lambda>_. 0" 0 0 False "\<lambda>_. 1000" 0] by simp
  moreover have "time_at ?r 1000 = 250" "flags ?r = 1"
    by (simp_all add: time_at_def nano_def KvmSystemTime_def kTscStableBit_def)
  ultimately show ?thesis by metis
qed

text \<open>
  C39. The loops re-read the version instead of testing the value they compared: a round that begins within an update and sees its end only in the last
  load is accepted. A hypervisor that follows the protocol can so make \<^verbatim>\<open>BootClock\<close> return a time mixed from two records, here one second ahead of every time ever published.
\<close>

theorem BootClock_torn:
  "\<exists>h n res t'. host_writes wc_version h n \<and> BootClock h 1 = Some (res, t') \<and>
    \<not> (\<exists>t. even (n t) \<and> res \<le> ucast (sec (h t)) * 1000000000 + ucast (nsec (h t)))"
proof -
  define h where "h t = (if t = 0 then \<lparr>wc_version = 0, sec = 10, nsec = 999999999\<rparr>
    else if t \<le> 4 then \<lparr>wc_version = 1, sec = 11, nsec = 999999999\<rparr> else \<lparr>wc_version = 2, sec = 11, nsec = 0\<rparr>)" for t :: nat
  define n where "n t = (if t = 0 then 0 else if t \<le> 4 then 1 else 2 :: nat)" for t :: nat
  have "clock_attempt h 1 = (11999999999, False)" by (simp add: clock_attempt_def h_def)
  then have "BootClock h 1 = Some (11999999999, 6)" by (subst BootClock.simps) simp
  moreover have "host_writes wc_version h n" by (auto simp: host_writes_def h_def n_def)
  moreover have "\<not> (11999999999 :: u64) \<le> ucast (sec (h t)) * 1000000000 + ucast (nsec (h t))" if "even (n t)" for t
    using that by (auto simp: h_def n_def split: if_splits)
  ultimately show ?thesis by blast
qed

text \<open>The results returned before the latest call of \<open>i\<close> began, and whether a value was computed by some caller.\<close>

fun results :: "clock_event list \<Rightarrow> u64 set" where
  "results [] = {}"
| "results (Ret i time r # h) = insert r (results h)"
| "results (e # h) = results h"

fun results_before :: "nat \<Rightarrow> clock_event list \<Rightarrow> u64 set" where
  "results_before i [] = {}"
| "results_before i (Call j # h) = (if i = j then results h else results_before i h)"
| "results_before i (e # h) = results_before i h"

definition some_time :: "clock_event list \<Rightarrow> u64 \<Rightarrow> bool" where
  "some_time h r \<longleftrightarrow> r = 0 \<or> (\<exists>k. Time k r \<in> set h)"

lemma some_time_Cons [simp]: "some_time h r \<Longrightarrow> some_time (e # h) r" by (auto simp: some_time_def)

lemma results_before_results: "results_before i h \<subseteq> results h"
  by (induction i h rule: results_before.induct) auto

lemma results_Ret: "Ret i time r \<in> set h \<Longrightarrow> r \<in> results h"
  by (induction h rule: results.induct) auto

text \<open>What a caller knows in each state of its call, given the shared variable and the events.\<close>

fun caller_ok :: "u64 \<Rightarrow> clock_event list \<Rightarrow> nat \<Rightarrow> caller \<Rightarrow> bool" where
  "caller_ok l h i (Computed time) \<longleftrightarrow> some_time h time"
| "caller_ok l h i (Loaded time old) \<longleftrightarrow> some_time h time \<and> some_time h old \<and> old \<le> l \<and> (\<forall>q \<in> results_before i h. q \<le> old)"
| "caller_ok l h i (Returning time r) \<longleftrightarrow> some_time h r \<and> time \<le> r \<and> r \<le> l \<and> (\<forall>q \<in> results_before i h. q \<le> r)"
| "caller_ok l h i c \<longleftrightarrow> True"

text \<open>What the events say when no return is below one that came before its call.\<close>

fun returns_ok :: "u64 \<Rightarrow> clock_event list \<Rightarrow> bool" where
  "returns_ok l [] \<longleftrightarrow> True"
| "returns_ok l (Ret i time r # h) \<longleftrightarrow> time \<le> r \<and> r \<le> l \<and> some_time h r \<and> (\<forall>q \<in> results_before i h. q \<le> r) \<and> returns_ok l h"
| "returns_ok l (e # h) \<longleftrightarrow> returns_ok l h"

definition clock_ok :: "clock_state \<Rightarrow> bool" where
  "clock_ok s \<longleftrightarrow> some_time (events s) (last_boot_time s) \<and> returns_ok (last_boot_time s) (events s) \<and>
     (\<forall>i. caller_ok (last_boot_time s) (events s) i (callers s i))"

lemma returns_ok_results: "returns_ok l h \<Longrightarrow> q \<in> results h \<Longrightarrow> q \<le> l"
  by (induction h rule: results.induct) auto

lemma returns_ok_le: "returns_ok l h \<Longrightarrow> l \<le> l' \<Longrightarrow> returns_ok l' h"
  by (induction h rule: results.induct) (auto intro: order_trans)

lemma returns_ok_append: "returns_ok l (xs @ h) \<Longrightarrow> returns_ok l h"
  by (induction xs rule: results.induct) auto

lemma caller_ok_le: "caller_ok l h i c \<Longrightarrow> l \<le> l' \<Longrightarrow> caller_ok l' h i c"
  by (cases c) auto

lemma caller_ok_event: "caller_ok l h i c \<Longrightarrow> (\<forall>j. e = Call j \<longrightarrow> i \<noteq> j) \<Longrightarrow> caller_ok l (e # h) i c"
  by (cases c; cases e) auto

lemma cas_step_ok:
  assumes "cas_step s s'" and "clock_ok s"
  shows "clock_ok s'"
  using assms
proof (cases rule: cas_step.cases)
  case (load i time)
  have "\<forall>q \<in> results_before i (events s). q \<le> last_boot_time s"
    using assms(2) returns_ok_results results_before_results unfolding clock_ok_def by blast
  then show ?thesis using assms(2) load by (auto simp: clock_ok_def dest: spec [of _ i])
next
  case (swap i time old)
  have up: "last_boot_time s \<le> time" using swap by simp
  have i: "caller_ok (last_boot_time s) (events s) i (Loaded time old)" using assms(2) swap(2) by (metis clock_ok_def)
  then have "caller_ok time (events s) i (Returning time time)" using swap(3) by (auto intro: order_trans)
  then show ?thesis using assms(2) up i swap by (auto simp: clock_ok_def intro: returns_ok_le caller_ok_le)
next
  case (return i time r)
  then have "caller_ok (last_boot_time s) (events s) i (Returning time r)" using assms(2) by (metis clock_ok_def)
  then show ?thesis using assms(2) return by (auto simp: clock_ok_def intro: caller_ok_event)
next
  case (compute i time)
  then show ?thesis using assms(2) by (auto simp: clock_ok_def some_time_def [of "_ # _" time] intro!: caller_ok_event)
next
  case (call i)
  then show ?thesis using assms(2) by (auto simp: clock_ok_def intro!: caller_ok_event)
next
  case (keep i time old)
  then have "caller_ok (last_boot_time s) (events s) i (Loaded time old)" using assms(2) by (metis clock_ok_def)
  then show ?thesis using assms(2) keep by (auto simp: clock_ok_def)
next
  case (swap_fails i time old)
  then have "caller_ok (last_boot_time s) (events s) i (Loaded time old)" using assms(2) by (metis clock_ok_def)
  then show ?thesis using assms(2) swap_fails by (auto simp: clock_ok_def)
qed

lemma clock_reachable_ok: "cas_step\<^sup>*\<^sup>* clock_start s \<Longrightarrow> clock_ok s"
proof (induction rule: rtranclp_induct)
  case base
  show ?case by (simp add: clock_ok_def clock_start_def some_time_def)
qed (blast intro: cas_step_ok)

lemma cas_steps_last: "cas_step\<^sup>*\<^sup>* s s' \<Longrightarrow> last_boot_time s \<le> last_boot_time s'"
proof (induction rule: rtranclp_induct)
  case (step s s')
  from step.hyps(2) have "last_boot_time s \<le> last_boot_time s'" by (cases rule: cas_step.cases) auto
  then show ?case using step.IH by simp
qed simp

lemma results_before_call: "Ret j u q \<in> set zs \<Longrightarrow> Call i \<notin> set ys \<Longrightarrow> q \<in> results_before i (ys @ Call i # zs)"
proof (induction ys)
  case (Cons e ys)
  then show ?case by (cases e) auto
qed (simp add: results_Ret)

text \<open>
  C17. Without the stable flag the clock never runs backwards for any observer: however the loads, the compare-and-swap
  instructions and the returns of concurrent calls interleave, a call returns at least the time it computed itself and at
  least every result that was returned before the call began, and what it returns is 0 or a time that some call computed before;
  \<^verbatim>\<open>last_boot_time\<close> is never below a result, and it never decreases. (Two calls that overlap may return in either order.)
\<close>

theorem BootTime_monotone:
  assumes "cas_step\<^sup>*\<^sup>* clock_start s" and "cas_step\<^sup>*\<^sup>* s s'"
  shows "last_boot_time s \<le> last_boot_time s' \<and>
    (\<forall>xs i time r h. events s = xs @ Ret i time r # h \<longrightarrow>
      time \<le> r \<and> r \<le> last_boot_time s \<and> (r = 0 \<or> (\<exists>k. Time k r \<in> set h))) \<and>
    (\<forall>xs i time r ys zs j u q. events s = xs @ Ret i time r # ys @ Call i # zs \<longrightarrow> Call i \<notin> set ys \<longrightarrow>
      Ret j u q \<in> set zs \<longrightarrow> q \<le> r)"
proof (intro conjI allI impI)
  have ok: "returns_ok (last_boot_time s) h" if "events s = xs @ h" for xs h
    using clock_reachable_ok [OF assms(1)] that returns_ok_append by (auto simp: clock_ok_def)
  show "time \<le> r" "r \<le> last_boot_time s" "r = 0 \<or> (\<exists>k. Time k r \<in> set h)" if "events s = xs @ Ret i time r # h" for xs i time r h
    using ok [OF that] by (auto simp: some_time_def)
  show "q \<le> r" if "events s = xs @ Ret i time r # ys @ Call i # zs" "Call i \<notin> set ys" "Ret j u q \<in> set zs" for xs i time r ys zs j u q
    using ok [OF that(1)] results_before_call [OF that(3,2)] by simp
qed (rule cas_steps_last [OF assms(2)])

text \<open>
  Two calls overlap: the first loads 0, the second swaps in 10 and returns it, then the first returns 0. A third call, which begins
  behind both, computes 3 and returns 10.
\<close>

theorem BootTime_monotone_witness:
  "\<exists>s zs. cas_step\<^sup>*\<^sup>* clock_start s \<and> events s = Ret 0 3 10 # [Time 0 3] @ Call 0 # Ret 0 0 0 # Ret 1 10 10 # zs \<and>
     last_boot_time s = 10 \<and> (\<exists>k. Time k 10 \<in> set zs)"
proof -
  let ?s = "\<lambda>a b l h. \<lparr>last_boot_time = l, callers = (\<lambda>_. Idle)(0 := a, Suc 0 := b), events = h\<rparr>"
  let ?h1 = "[Call 0]" let ?h2 = "Time 0 0 # ?h1" let ?h3 = "Call 1 # ?h2" let ?h4 = "Time 1 10 # ?h3"
  let ?h5 = "Ret 1 10 10 # ?h4" let ?h6 = "Ret 0 0 0 # ?h5" let ?h7 = "Call 0 # ?h6" let ?h8 = "Time 0 3 # ?h7"
  have start: "clock_start = ?s Idle Idle 0 []" by (auto simp: clock_start_def)
  note twist = fun_upd_twist [of 0 "Suc 0"]
  have "cas_step\<^sup>*\<^sup>* clock_start (?s Idle Idle 0 [])" by (simp add: start)
  also have "cas_step (?s Idle Idle 0 []) (?s Reading Idle 0 ?h1)" using call [of "?s Idle Idle 0 []" 0] by (simp add: twist)
  also have "cas_step (?s Reading Idle 0 ?h1) (?s (Computed 0) Idle 0 ?h2)" using compute [of "?s Reading Idle 0 ?h1" 0 0] by (simp add: twist)
  also have "cas_step (?s (Computed 0) Idle 0 ?h2) (?s (Loaded 0 0) Idle 0 ?h2)" using load [of "?s (Computed 0) Idle 0 ?h2" 0 0] by (simp add: twist)
  also have "cas_step (?s (Loaded 0 0) Idle 0 ?h2) (?s (Returning 0 0) Idle 0 ?h2)" using keep [of "?s (Loaded 0 0) Idle 0 ?h2" 0 0 0] by (simp add: twist)
  also have "cas_step (?s (Returning 0 0) Idle 0 ?h2) (?s (Returning 0 0) Reading 0 ?h3)" using call [of "?s (Returning 0 0) Idle 0 ?h2" 1] by simp
  also have "cas_step (?s (Returning 0 0) Reading 0 ?h3) (?s (Returning 0 0) (Computed 10) 0 ?h4)"
    using compute [of "?s (Returning 0 0) Reading 0 ?h3" 1 10] by simp
  also have "cas_step (?s (Returning 0 0) (Computed 10) 0 ?h4) (?s (Returning 0 0) (Loaded 10 0) 0 ?h4)"
    using load [of "?s (Returning 0 0) (Computed 10) 0 ?h4" 1 10] by simp
  also have "cas_step (?s (Returning 0 0) (Loaded 10 0) 0 ?h4) (?s (Returning 0 0) (Returning 10 10) 10 ?h4)"
    using swap [of "?s (Returning 0 0) (Loaded 10 0) 0 ?h4" 1 10 0] by simp
  also have "cas_step (?s (Returning 0 0) (Returning 10 10) 10 ?h4) (?s (Returning 0 0) Idle 10 ?h5)"
    using return [of "?s (Returning 0 0) (Returning 10 10) 10 ?h4" 1 10 10] by simp
  also have "cas_step (?s (Returning 0 0) Idle 10 ?h5) (?s Idle Idle 10 ?h6)"
    using return [of "?s (Returning 0 0) Idle 10 ?h5" 0 0 0] by (simp add: twist)
  also have "cas_step (?s Idle Idle 10 ?h6) (?s Reading Idle 10 ?h7)" using call [of "?s Idle Idle 10 ?h6" 0] by (simp add: twist)
  also have "cas_step (?s Reading Idle 10 ?h7) (?s (Computed 3) Idle 10 ?h8)" using compute [of "?s Reading Idle 10 ?h7" 0 3] by (simp add: twist)
  also have "cas_step (?s (Computed 3) Idle 10 ?h8) (?s (Loaded 3 10) Idle 10 ?h8)" using load [of "?s (Computed 3) Idle 10 ?h8" 0 3] by (simp add: twist)
  also have "cas_step (?s (Loaded 3 10) Idle 10 ?h8) (?s (Returning 3 10) Idle 10 ?h8)" using keep [of "?s (Loaded 3 10) Idle 10 ?h8" 0 3 10] by (simp add: twist)
  also have "cas_step (?s (Returning 3 10) Idle 10 ?h8) (?s Idle Idle 10 (Ret 0 3 10 # ?h8))" using return [of "?s (Returning 3 10) Idle 10 ?h8" 0 3 10] by (simp add: twist)
  finally have run: "cas_step\<^sup>*\<^sup>* clock_start (?s Idle Idle 10 (Ret 0 3 10 # ?h8))" .
  have "\<exists>k. Time k 10 \<in> set (Time 0 3 # ?h7)"
    using BootTime_monotone [OF run rtranclp.rtrancl_refl, THEN conjunct2, THEN conjunct1, rule_format, of "[]" 0 3 10] by simp
  with run show ?thesis by (intro exI [of _ "?s Idle Idle 10 (Ret 0 3 10 # ?h8)"] exI [of _ "?h4"]) auto
qed

end
