(* ===== verification/Apic.thy ===== *)
theory Apic
  imports Kvm_Clock Kernel_Map Io_Ports
begin

text \<open>
  The interrupt controllers: local APIC and I/O APIC (\<^verbatim>\<open>kern/apic.h\<close>, \<^verbatim>\<open>kern/apic.cc\<close>). Their registers are mapped into
  memory; the machine is the history of accesses to them, latest first, and what a register answers is a parameter, a function of that history.
\<close>

section \<open>Registers\<close>

datatype mmio_event = MmioRead u64 | MmioWrite u64 u32

type_synonym mmio_log = "mmio_event list"
type_synonym mmio_answers = "mmio_log \<Rightarrow> u64 \<Rightarrow> u32"

datatype LocalApicRegister =
    Lapic_ID | Lapic_VERSION | TASK_PRIORITY | ARBITRATION_PRIORITY | PROCESSOR_PRIORITY | Lapic_EOI | RRD
  | LOGICAL_DESTINATION | DESTINATION_FORMAT | SPURIOUS_INTERRUPT_VECTOR | ISR | TMR | IRR | ERROR_STATUS
  | INTERRUPT_COMMAND_LO | INTERRUPT_COMMAND_HI | TIMER | THERMAL | PERF | LINT0 | LINT1 | Lapic_ERROR
  | TIMER_INITIAL_COUNT | TIMER_CURRENT_COUNT | TIMER_DIVIDE_CONFIG

primrec lapic_offset :: "LocalApicRegister \<Rightarrow> u32" where
  "lapic_offset Lapic_ID = 0x0020"
| "lapic_offset Lapic_VERSION = 0x0030"
| "lapic_offset TASK_PRIORITY = 0x0080"
| "lapic_offset ARBITRATION_PRIORITY = 0x0090"
| "lapic_offset PROCESSOR_PRIORITY = 0x00a0"
| "lapic_offset Lapic_EOI = 0x00b0"
| "lapic_offset RRD = 0x00c0"
| "lapic_offset LOGICAL_DESTINATION = 0x00d0"
| "lapic_offset DESTINATION_FORMAT = 0x00e0"
| "lapic_offset SPURIOUS_INTERRUPT_VECTOR = 0x00f0"
| "lapic_offset ISR = 0x0100"
| "lapic_offset TMR = 0x0180"
| "lapic_offset IRR = 0x0200"
| "lapic_offset ERROR_STATUS = 0x0280"
| "lapic_offset INTERRUPT_COMMAND_LO = 0x0300"
| "lapic_offset INTERRUPT_COMMAND_HI = 0x0310"
| "lapic_offset TIMER = 0x0320"
| "lapic_offset THERMAL = 0x0330"
| "lapic_offset PERF = 0x0340"
| "lapic_offset LINT0 = 0x0350"
| "lapic_offset LINT1 = 0x0360"
| "lapic_offset Lapic_ERROR = 0x0370"
| "lapic_offset TIMER_INITIAL_COUNT = 0x0380"
| "lapic_offset TIMER_CURRENT_COUNT = 0x0390"
| "lapic_offset TIMER_DIVIDE_CONFIG = 0x03e0"

datatype IoApicAccessorRegister = IOREGSEL | IOWIN

primrec accessor_offset :: "IoApicAccessorRegister \<Rightarrow> u64" where
  "accessor_offset IOREGSEL = 0x00"
| "accessor_offset IOWIN = 0x10"

datatype IoApicRegister = IoApic_ID | IoApic_VER | IoApic_ARB | REDTBL

primrec ioapic_index :: "IoApicRegister \<Rightarrow> u32" where
  "ioapic_index IoApic_ID = 0x00"
| "ioapic_index IoApic_VER = 0x01"
| "ioapic_index IoApic_ARB = 0x02"
| "ioapic_index REDTBL = 0x10"

section \<open>Interrupt commands\<close>

datatype DeliveryMode = FIXED | LOWEST_PRIORITY | SMI | NMI | INIT | STARTUP

primrec delivery_value :: "DeliveryMode \<Rightarrow> u32" where
  "delivery_value FIXED = 0"
| "delivery_value LOWEST_PRIORITY = 1"
| "delivery_value SMI = 2"
| "delivery_value NMI = 4"
| "delivery_value INIT = 5"
| "delivery_value STARTUP = 6"

datatype DestinationMode = PHYSICAL | LOGICAL

primrec destination_value :: "DestinationMode \<Rightarrow> u32" where
  "destination_value PHYSICAL = 0"
| "destination_value LOGICAL = 1"

datatype DestinationShorthand = SH_NONE | SH_SELF | SH_ALL | SH_ALL_EXCEPT_SELF

primrec shorthand_value :: "DestinationShorthand \<Rightarrow> u32" where
  "shorthand_value SH_NONE = 0"
| "shorthand_value SH_SELF = 1"
| "shorthand_value SH_ALL = 2"
| "shorthand_value SH_ALL_EXCEPT_SELF = 3"

record LocalApicInterruptCommand =
  cmd_hi :: u32
  cmd_lo :: u32

definition LocalApicInterruptCommand_ctor ::
    "u8 \<Rightarrow> DeliveryMode \<Rightarrow> DestinationMode \<Rightarrow> bool \<Rightarrow> bool \<Rightarrow> DestinationShorthand \<Rightarrow> u8 \<Rightarrow> LocalApicInterruptCommand" where
  "LocalApicInterruptCommand_ctor vector_num dmode destmode is_no_deassert trigger_mode dshort dest =
     \<lparr>cmd_hi = push_bit 24 (ucast dest),
      cmd_lo = ucast vector_num OR push_bit 8 (delivery_value dmode) OR push_bit 11 (destination_value destmode)
        OR push_bit 14 (of_bool is_no_deassert) OR push_bit 15 (of_bool trigger_mode) OR push_bit 18 (shorthand_value dshort)\<rparr>"

section \<open>The local APIC\<close>

record LocalApic =
  local_apic_address :: u64
  bus_freq :: u32

definition LocalApicRegisterAccessor_ctor :: "u64 \<Rightarrow> u64 result" where
  "LocalApicRegisterAccessor_ctor local_base = kassert ''local_apic_base'' (local_base \<noteq> 0) (Inr local_base)"

text \<open>\<^verbatim>\<open>registers\<close> is made from \<^verbatim>\<open>local_apic_address\<close>, and has the same address for good.\<close>

definition LocalApic_ctor :: "u64 \<Rightarrow> LocalApic result" where
  "LocalApic_ctor local_apic_addr = ebind (LocalApicRegisterAccessor_ctor local_apic_addr) (\<lambda>registers.
     Inr \<lparr>local_apic_address = local_apic_addr, bus_freq = 0\<rparr>)"

definition lapic_Read :: "mmio_answers \<Rightarrow> LocalApic \<Rightarrow> LocalApicRegister \<Rightarrow> mmio_log \<Rightarrow> u32 \<times> mmio_log" where
  "lapic_Read dev la reg h = (let a = local_apic_address la + ucast (lapic_offset reg) in (dev h a, MmioRead a # h))"

definition lapic_Write :: "LocalApic \<Rightarrow> LocalApicRegister \<Rightarrow> u32 \<Rightarrow> mmio_log \<Rightarrow> mmio_log" where
  "lapic_Write la reg v h = MmioWrite (local_apic_address la + ucast (lapic_offset reg)) v # h"

definition InterruptCommand :: "LocalApic \<Rightarrow> LocalApicInterruptCommand \<Rightarrow> mmio_log \<Rightarrow> mmio_log" where
  "InterruptCommand la command h =
     lapic_Write la INTERRUPT_COMMAND_LO (cmd_lo command) (lapic_Write la INTERRUPT_COMMAND_HI (cmd_hi command) h)"

definition SendApicInit :: "LocalApic \<Rightarrow> u8 \<Rightarrow> mmio_log \<Rightarrow> mmio_log" where
  "SendApicInit la apicid = InterruptCommand la (LocalApicInterruptCommand_ctor 0 INIT PHYSICAL True False SH_NONE apicid)"

definition SendApicStartup :: "LocalApic \<Rightarrow> u8 \<Rightarrow> u8 \<Rightarrow> mmio_log \<Rightarrow> mmio_log" where
  "SendApicStartup la apicid vector_num =
     InterruptCommand la (LocalApicInterruptCommand_ctor vector_num STARTUP PHYSICAL True False SH_NONE apicid)"

definition LocalApic_EOI :: "LocalApic \<Rightarrow> mmio_log \<Rightarrow> mmio_log" where
  "LocalApic_EOI la = lapic_Write la Lapic_EOI 0"

definition LocalApic_Id :: "mmio_answers \<Rightarrow> LocalApic \<Rightarrow> mmio_log \<Rightarrow> u32 \<times> mmio_log" where
  "LocalApic_Id dev la = lapic_Read dev la Lapic_ID"

definition kApicBaseMSR :: u32 where "kApicBaseMSR = 0x1b"
definition kApicBaseMSREnable :: u32 where "kApicBaseMSREnable = 0x800"

definition CpuSetAPICBase :: "u64 \<Rightarrow> cpu \<Rightarrow> cpu" where
  "CpuSetAPICBase apic c =
     (let edx = ucast (drop_bit 32 apic AND 0x0f); eax = ucast (apic AND 0xfffff100) OR kApicBaseMSREnable
      in SetMSR kApicBaseMSR \<lparr>lo = eax, hi = edx\<rparr> c)"

definition CpuGetAPICBase :: "cpu \<Rightarrow> u64" where
  "CpuGetAPICBase c =
     (let v = GetMSR kApicBaseMSR c in ucast (lo v AND 0xfffff100) OR push_bit 32 (ucast (hi v AND 0x0f)))"

text \<open>
  The machine as \<^verbatim>\<open>InitCpu\<close> sees it: page tables, processor, register accesses, port accesses, and the number of
  loads of the time record so far with the last time returned.
\<close>

record machine =
  mc_pt :: pt_state
  mc_cpu :: cpu
  mc_mmio :: mmio_log
  mc_ports :: io_log
  mc_loads :: nat
  mc_last :: u64

text \<open>\<^verbatim>\<open>while (systime->BootTime() - start < 10000 * 1000) WaitPause()\<close>\<close>

partial_function (option) calibrate_wait :: "(nat \<Rightarrow> KvmCpuTimeInfo) \<Rightarrow> (nat \<Rightarrow> u64) \<Rightarrow> u64 \<Rightarrow> nat \<Rightarrow> u64 \<Rightarrow> (nat \<times> u64) option" where
  "calibrate_wait host tsc start t l =
     (case BootTime True host tsc t l of None \<Rightarrow> None
      | Some (time, t, l) \<Rightarrow> if time - start < 10000 * 1000 then calibrate_wait host tsc start t l else Some (t, l))"

definition calibrate :: "mmio_answers \<Rightarrow> (nat \<Rightarrow> KvmCpuTimeInfo) \<Rightarrow> (nat \<Rightarrow> u64) \<Rightarrow> LocalApic \<Rightarrow> machine \<Rightarrow> (LocalApic \<times> machine) result option" where
  "calibrate dev host tsc la mc =
     (if cpu_id (mc_cpu mc) \<noteq> 0 then Some (Inl (Panic ''0 == CpuPlatform::id()''))
      else
        let h = lapic_Write la TIMER_DIVIDE_CONFIG 0x03 (lapic_Write la TIMER 32 (mc_mmio mc)) in
        case BootTime True host tsc (mc_loads mc) (mc_last mc) of None \<Rightarrow> None
        | Some (start, t, l) \<Rightarrow>
            let h = lapic_Write la TIMER_INITIAL_COUNT 0xffffffff h in
            (case calibrate_wait host tsc start t l of None \<Rightarrow> None
             | Some (t, l) \<Rightarrow>
                let h = lapic_Write la TIMER (push_bit 16 1) h;
                    (curr_count, h) = lapic_Read dev la TIMER_CURRENT_COUNT h;
                    cpubusfreq = ((0xFFFFFFFF - curr_count) + 1) * 16 * 100
                in Some (Inr (la\<lparr>bus_freq := cpubusfreq\<rparr>, mc\<lparr>mc_mmio := h, mc_loads := t, mc_last := l\<rparr>))))"

definition InitCpu :: "mmio_answers \<Rightarrow> (nat \<Rightarrow> KvmCpuTimeInfo) \<Rightarrow> (nat \<Rightarrow> u64) \<Rightarrow> LocalApic \<Rightarrow> machine \<Rightarrow> (LocalApic \<times> machine) result option" where
  "InitCpu dev host tsc la mc =
     (case MapPage (KPTR_TO_PADDR (local_apic_address la)) False True (mc_pt mc) of Inl e \<Rightarrow> Some (Inl e)
      | Inr pt \<Rightarrow>
        let c = CpuSetAPICBase (CpuGetAPICBase (mc_cpu mc)) (mc_cpu mc); h = mc_mmio mc;
            h = lapic_Write la TASK_PRIORITY 0 h;
            h = lapic_Write la LINT0 (push_bit 16 1) h;
            h = lapic_Write la LINT1 (push_bit 16 1) h;
            h = lapic_Write la TIMER (push_bit 16 1) h;
            h = lapic_Write la PERF (push_bit 8 4) h;
            h = lapic_Write la DESTINATION_FORMAT 0xffffffff h;
            h = lapic_Write la LOGICAL_DESTINATION 1 h;
            h = lapic_Write la SPURIOUS_INTERRUPT_VECTOR (0x100 OR 0xff) h;
            mc = mc\<lparr>mc_pt := pt, mc_cpu := c, mc_mmio := h\<rparr>
        in case (if bus_freq la = 0 then calibrate dev host tsc la mc else Some (Inr (la, mc))) of None \<Rightarrow> None
        | Some (Inl e) \<Rightarrow> Some (Inl e)
        | Some (Inr (la, mc)) \<Rightarrow>
            if bus_freq la = 0 then Some (Inl (Panic ''bus_freq''))
            else
              let quantum = 32; init_count = bus_freq la div quantum div 16;
                  init_count = if init_count < 0x1000 then 0x1000 else init_count;
                  h = lapic_Write la TIMER_INITIAL_COUNT init_count (mc_mmio mc);
                  h = lapic_Write la TIMER (32 OR 0x20000) h;
                  h = lapic_Write la TIMER_DIVIDE_CONFIG 0x03 h;
                  (_, h) = lapic_Read dev la SPURIOUS_INTERRUPT_VECTOR h;
                  h = LocalApic_EOI la h
              in Some (Inr (la, mc\<lparr>mc_mmio := h\<rparr>)))"

section \<open>The I/O APIC\<close>

record IoApic =
  ioapic_id :: u32
  ioapic_addr :: u64
  interrupt_base :: u32

definition IoApicRegistersAccessor_ctor :: "u64 \<Rightarrow> u64 result" where
  "IoApicRegistersAccessor_ctor address = kassert ''addr'' (address \<noteq> 0) (Inr address)"

definition IoApic_ctor :: "u32 \<Rightarrow> u64 \<Rightarrow> u32 \<Rightarrow> IoApic result" where
  "IoApic_ctor idn address intr_base = ebind (IoApicRegistersAccessor_ctor address) (\<lambda>registers.
     Inr \<lparr>ioapic_id = idn, ioapic_addr = address, interrupt_base = intr_base\<rparr>)"

definition interrupt_base_address :: "IoApic \<Rightarrow> u32" where "interrupt_base_address ioa = interrupt_base ioa"

definition ioapic_Read :: "mmio_answers \<Rightarrow> u64 \<Rightarrow> IoApicRegister \<Rightarrow> mmio_log \<Rightarrow> (u32 \<times> mmio_log) result" where
  "ioapic_Read dev addr reg h = kassert ''addr'' (addr \<noteq> 0)
     (let h = MmioWrite (addr + accessor_offset IOREGSEL) (ioapic_index reg) # h; a = addr + accessor_offset IOWIN
      in Inr (dev h a, MmioRead a # h))"

text \<open>The value is a \<^verbatim>\<open>u8\<close>: the callers' 32-bit values lose their upper bytes on the way.\<close>

definition ioapic_Write :: "u64 \<Rightarrow> IoApicRegister \<Rightarrow> u8 \<Rightarrow> u8 \<Rightarrow> mmio_log \<Rightarrow> mmio_log result" where
  "ioapic_Write addr reg reg_offset v h = kassert ''addr'' (addr \<noteq> 0)
     (Inr (MmioWrite (addr + accessor_offset IOWIN) (ucast v)
       # MmioWrite (addr + accessor_offset IOREGSEL) (ioapic_index reg + ucast reg_offset) # h))"

definition SetEntry :: "u64 \<Rightarrow> u8 \<Rightarrow> u64 \<Rightarrow> mmio_log \<Rightarrow> mmio_log result" where
  "SetEntry addr index data h =
     ebind (ioapic_Write addr REDTBL (index * 2) (ucast (ucast data :: u32)) h) (\<lambda>h.
     ioapic_Write addr REDTBL (index * 2 + 1) (ucast (ucast (drop_bit 32 data) :: u32)) h)"

definition EnableIrq :: "IoApic \<Rightarrow> u32 \<Rightarrow> u32 \<Rightarrow> mmio_log \<Rightarrow> mmio_log result" where
  "EnableIrq ia first_irq_offset irq h =
     SetEntry (ioapic_addr ia) (ucast irq) (ucast (first_irq_offset + irq + interrupt_base ia)) h"

fun enable_loop :: "IoApic \<Rightarrow> nat list \<Rightarrow> mmio_log \<Rightarrow> mmio_log result" where
  "enable_loop ia [] h = Inr h"
| "enable_loop ia (i # is) h =
     ebind (if interrupt_base ia = 0 \<and> i = 0 then SetEntry (ioapic_addr ia) (of_nat i) (ucast (push_bit 16 1 OR (32 + of_nat i) :: u32)) h
            else EnableIrq ia 32 (of_nat i) h) (enable_loop ia is)"

definition IoApic_Init :: "mmio_answers \<Rightarrow> devices \<Rightarrow> IoApic \<Rightarrow> machine \<Rightarrow> machine result" where
  "IoApic_Init dev ports ia mc =
     ebind (MapPage (KPTR_TO_PADDR (ioapic_addr ia)) False True (mc_pt mc)) (\<lambda>pt.
     kassert ''addr'' (ioapic_addr ia \<noteq> 0) (
     ebind (ioapic_Read dev (ioapic_addr ia) IoApic_ID (mc_mmio mc)) (\<lambda>(r, h).
     let id_reg = drop_bit 24 r AND 0xF in
     ebind (if id_reg \<noteq> ioapic_id ia then ioapic_Write (ioapic_addr ia) IoApic_ID 0 (ucast (push_bit 24 (ioapic_id ia))) h else Inr h) (\<lambda>h.
     ebind (ioapic_Read dev (ioapic_addr ia) IoApic_VER h) (\<lambda>(r, h).
     let max_value = drop_bit 16 r AND 0xFF in
     kassert ''max_value'' (max_value \<noteq> 0) (
     let max_interrupts = max_value + 1 in
     kassert ''max_interrupts < IrqVector::kMaxInterrupt'' (max_interrupts < 256) (
     let (nmi, p) = InB ports 0x70 (mc_ports mc); p = OutB 0x70 (nmi OR 0x80) p in
     ebind (enable_loop ia [0..<unat max_interrupts] h) (\<lambda>h.
     Inr (mc\<lparr>mc_pt := pt, mc_mmio := h, mc_ports := p\<rparr>)))))))))"

section \<open>Devices\<close>

text \<open>
  What an I/O APIC at \<open>a\<close> with the registers \<open>r\<close> at first holds after some accesses: a write to its first dword selects a register, a write to
  the dword at offset 16 sets the selected register. A read gives the selection at the first address, the selected register at the second,
  and all ones elsewhere.
\<close>

fun ioapic_after :: "u64 \<Rightarrow> u32 \<times> (u32 \<Rightarrow> u32) \<Rightarrow> mmio_log \<Rightarrow> u32 \<times> (u32 \<Rightarrow> u32)" where
  "ioapic_after a s [] = s"
| "ioapic_after a s (MmioRead x # h) = ioapic_after a s h"
| "ioapic_after a s (MmioWrite x v # h) =
     (let (sel, r) = ioapic_after a s h in
      if x = a then (v, r) else if x = a + 0x10 then (sel, r(sel := v)) else (sel, r))"

definition ioapic_answers :: "u64 \<Rightarrow> u32 \<times> (u32 \<Rightarrow> u32) \<Rightarrow> mmio_answers" where
  "ioapic_answers a s h x = (let (sel, r) = ioapic_after a s h in if x = a then sel else if x = a + 0x10 then r sel else 0xffffffff)"

lemma offsets_differ [simp]: "a + accessor_offset IOWIN \<noteq> a + accessor_offset IOREGSEL" "a + 0x10 \<noteq> (a :: u64)"
  by simp_all

lemma ioapic_Write_after:
  assumes "a \<noteq> 0" and "ioapic_after a s h = (sel, r)"
  shows "\<exists>h'. ioapic_Write a reg off v h = Inr h' \<and>
    ioapic_after a s h' = (ioapic_index reg + ucast off, r(ioapic_index reg + ucast off := ucast v))"
  using assms by (simp add: ioapic_Write_def)

lemma ioapic_Read_after:
  assumes "a \<noteq> 0" and "ioapic_after a s h = (sel, r)"
  shows "\<exists>h'. ioapic_Read (ioapic_answers a s) a reg h = Inr (r (ioapic_index reg), h') \<and>
    ioapic_after a s h' = (ioapic_index reg, r)"
  using assms by (simp add: ioapic_Read_def ioapic_answers_def)

lemma SetEntry_after:
  assumes "a \<noteq> 0" and "ioapic_after a s h = (sel, r)"
  shows "\<exists>h' sel'. SetEntry a i d h = Inr h' \<and> ioapic_after a s h' =
    (sel', r(0x10 + ucast (i * 2) := ucast (ucast d :: u8), 0x10 + ucast (i * 2 + 1) := ucast (ucast (drop_bit 32 d) :: u8)))"
proof -
  obtain h1 where h1: "ioapic_Write a REDTBL (i * 2) (ucast (ucast d :: u32)) h = Inr h1"
    "ioapic_after a s h1 = (0x10 + ucast (i * 2), r(0x10 + ucast (i * 2) := ucast (ucast (ucast d :: u32) :: u8)))"
    using ioapic_Write_after [OF assms, of REDTBL "i * 2" "ucast (ucast d :: u32)"] by auto
  obtain h2 where h2: "ioapic_Write a REDTBL (i * 2 + 1) (ucast (ucast (drop_bit 32 d) :: u32)) h1 = Inr h2"
    "fst (ioapic_after a s h2) = 0x10 + ucast (i * 2 + 1)"
    "snd (ioapic_after a s h2) = (r(0x10 + ucast (i * 2) := ucast (ucast (ucast d :: u32) :: u8)))(0x10 + ucast (i * 2 + 1) := ucast (ucast (ucast (drop_bit 32 d) :: u32) :: u8))"
    using ioapic_Write_after [OF assms(1) h1(2), of REDTBL "i * 2 + 1" "ucast (ucast (drop_bit 32 d) :: u32)"] by auto
  have "ucast (ucast x :: u32) = (ucast x :: u8)" for x :: u64 by (rule bit_word_eqI) (auto simp: bit_simps)
  then show ?thesis using h1(1) h2 by (auto simp: SetEntry_def prod_eq_iff)
qed

definition redtbl :: "nat \<Rightarrow> u32" where "redtbl k = of_nat (16 + k)"

lemma redtbl_inj: "j < 240 \<Longrightarrow> k < 240 \<Longrightarrow> redtbl j = redtbl k \<longleftrightarrow> j = k"
proof -
  assume b: "j < 240" "k < 240"
  have "unat (redtbl j) = 16 + j" "unat (redtbl k) = 16 + k"
    unfolding redtbl_def unsigned_of_nat using b by (simp_all add: take_bit_nat_eq_self)
  then show ?thesis by (metis add_left_cancel)
qed

lemma redtbl_index: "i < 120 \<Longrightarrow> 0x10 + ucast (of_nat i * 2 :: u8) = redtbl (2 * i)" "i < 120 \<Longrightarrow> 0x10 + ucast (of_nat i * 2 + 1 :: u8) = redtbl (2 * i + 1)"
proof -
  have u: "ucast (of_nat k :: u8) = (of_nat k :: u32)" if "k < 256" for k
    using that by (intro word_unat_eq_iff [THEN iffD2]) (simp add: unsigned_ucast_eq unsigned_of_nat take_bit_nat_eq_self)
  assume i: "i < 120"
  have e: "of_nat i * 2 = (of_nat (2 * i) :: u8)" "of_nat i * 2 + 1 = (of_nat (2 * i + 1) :: u8)" by simp_all
  show "0x10 + ucast (of_nat i * 2 :: u8) = redtbl (2 * i)" using i unfolding e(1) by (subst u) (simp_all add: redtbl_def)
  show "0x10 + ucast (of_nat i * 2 + 1 :: u8) = redtbl (2 * i + 1)" using i unfolding e(2) by (subst u) (simp_all add: redtbl_def)
qed

text \<open>The lower byte of the redirection entry \<open>i\<close>, which is all that \<^verbatim>\<open>Init\<close> writes of it.\<close>

definition irq_vector :: "IoApic \<Rightarrow> nat \<Rightarrow> u8" where
  "irq_vector ia i = (if interrupt_base ia = 0 \<and> i = 0 then 32 else ucast (32 + of_nat i + interrupt_base ia))"

lemma enable_step:
  assumes "ioapic_addr ia \<noteq> 0" and "ioapic_after (ioapic_addr ia) s h = (sel, r)" and "i < 120"
  shows "\<exists>h' sel'. (if interrupt_base ia = 0 \<and> i = 0 then SetEntry (ioapic_addr ia) (of_nat i) (ucast (push_bit 16 1 OR (32 + of_nat i) :: u32)) h
      else EnableIrq ia 32 (of_nat i) h) = Inr h' \<and>
    ioapic_after (ioapic_addr ia) s h' = (sel', r(redtbl (2 * i) := ucast (irq_vector ia i), redtbl (2 * i + 1) := 0))"
proof -
  have hi: "ucast (drop_bit 32 (ucast (w :: u32) :: u64)) = (0 :: u8)" for w by (rule bit_word_eqI) (auto simp: bit_simps dest: bit_imp_le_length)
  have lo: "ucast (ucast (w :: u32) :: u64) = (ucast w :: u8)" for w by (rule bit_word_eqI) (auto simp: bit_simps)
  have ci: "ucast (of_nat i :: u32) = (of_nat i :: u8)"
    using assms(3) by (intro word_unat_eq_iff [THEN iffD2]) (simp add: unsigned_ucast_eq unsigned_of_nat take_bit_nat_eq_self)
  show ?thesis
  proof (cases "interrupt_base ia = 0 \<and> i = 0")
    case True
    then show ?thesis
      using SetEntry_after [OF assms(1,2), of "of_nat i" "ucast (push_bit 16 1 OR (32 + of_nat i) :: u32)"] redtbl_index [OF assms(3)]
      by (simp add: hi lo irq_vector_def)
  next
    case False
    then show ?thesis
      using SetEntry_after [OF assms(1,2), of "of_nat i" "ucast (32 + of_nat i + interrupt_base ia)"] redtbl_index [OF assms(3)]
      by (simp only: EnableIrq_def hi lo ci irq_vector_def if_False) simp
  qed
qed

lemma enable_loop_after:
  assumes "ioapic_addr ia \<noteq> 0" and "ioapic_after (ioapic_addr ia) s h = (sel, r)" and "distinct is" and "\<forall>i \<in> set is. i < 120"
  shows "\<exists>h' sel' r'. enable_loop ia is h = Inr h' \<and> ioapic_after (ioapic_addr ia) s h' = (sel', r') \<and>
    (\<forall>i \<in> set is. r' (redtbl (2 * i)) = ucast (irq_vector ia i) \<and> r' (redtbl (2 * i + 1)) = 0) \<and>
    (\<forall>k. (\<forall>i \<in> set is. k \<noteq> redtbl (2 * i) \<and> k \<noteq> redtbl (2 * i + 1)) \<longrightarrow> r' k = r k)"
  using assms(2-4)
proof (induction "is" arbitrary: h sel r)
  case (Cons i "is")
  define r1 where "r1 = r(redtbl (2 * i) := ucast (irq_vector ia i), redtbl (2 * i + 1) := 0)"
  obtain h1 sel1 where h1: "(if interrupt_base ia = 0 \<and> i = 0 then SetEntry (ioapic_addr ia) (of_nat i) (ucast (push_bit 16 1 OR (32 + of_nat i) :: u32)) h
      else EnableIrq ia 32 (of_nat i) h) = Inr h1" "ioapic_after (ioapic_addr ia) s h1 = (sel1, r1)"
    using enable_step [OF assms(1) Cons.prems(1), of i] Cons.prems(3) unfolding r1_def by auto
  obtain h' sel' r' where r': "enable_loop ia is h1 = Inr h'" "ioapic_after (ioapic_addr ia) s h' = (sel', r')"
    "\<forall>i \<in> set is. r' (redtbl (2 * i)) = ucast (irq_vector ia i) \<and> r' (redtbl (2 * i + 1)) = 0"
    "\<forall>k. (\<forall>i \<in> set is. k \<noteq> redtbl (2 * i) \<and> k \<noteq> redtbl (2 * i + 1)) \<longrightarrow> r' k = r1 k"
    using Cons.IH [OF h1(2)] Cons.prems(2,3) by auto
  have far: "redtbl (2 * i) \<noteq> redtbl (2 * j)" "redtbl (2 * i) \<noteq> redtbl (2 * j + 1)" "redtbl (2 * i + 1) \<noteq> redtbl (2 * j)" "redtbl (2 * i + 1) \<noteq> redtbl (2 * j + 1)"
    if "j \<in> set is" for j
  proof -
    have "j < 120" "i < 120" "i \<noteq> j" using that Cons.prems(2,3) by auto
    moreover from this have "2 * i \<noteq> 2 * j + 1" "2 * i + 1 \<noteq> 2 * j" by presburger+
    ultimately show "redtbl (2 * i) \<noteq> redtbl (2 * j)" "redtbl (2 * i) \<noteq> redtbl (2 * j + 1)" "redtbl (2 * i + 1) \<noteq> redtbl (2 * j)"
      "redtbl (2 * i + 1) \<noteq> redtbl (2 * j + 1)" using redtbl_inj by simp_all
  qed
  have "r' (redtbl (2 * i)) = ucast (irq_vector ia i)" "r' (redtbl (2 * i + 1)) = 0"
    using r'(4) far Cons.prems(3) redtbl_inj [of "2 * i" "2 * i + 1"] by (auto simp: r1_def)
  moreover have "r' k = r k" if "\<forall>j \<in> set (i # is). k \<noteq> redtbl (2 * j) \<and> k \<noteq> redtbl (2 * j + 1)" for k
    using r'(4) that by (simp add: r1_def)
  ultimately show ?case using h1(1) r'(1-3) by (intro exI [of _ h'] exI [of _ sel'] exI [of _ r']) auto
qed simp

section \<open>Lemmas on the local APIC\<close>

text \<open>The fields of an interrupt command, as the local APIC decodes the two words.\<close>

record icr_fields =
  icr_vector :: u8
  icr_delivery :: u32
  icr_logical :: bool
  icr_assert :: bool
  icr_level :: bool
  icr_shorthand :: u32
  icr_dest :: u8

definition icr_decode :: "u32 \<Rightarrow> u32 \<Rightarrow> icr_fields" where
  "icr_decode h l = \<lparr>icr_vector = ucast l, icr_delivery = drop_bit 8 l AND 7, icr_logical = bit l 11, icr_assert = bit l 14, icr_level = bit l 15,
     icr_shorthand = drop_bit 18 l AND 3, icr_dest = ucast (drop_bit 24 h)\<rparr>"

lemma command_fields:
  fixes v d :: u8 and dm :: DeliveryMode and ds :: DestinationMode and nd tm :: bool and sh :: DestinationShorthand
  defines "c \<equiv> LocalApicInterruptCommand_ctor v dm ds nd tm sh d"
  shows "icr_decode (cmd_hi c) (cmd_lo c) = \<lparr>icr_vector = v, icr_delivery = delivery_value dm, icr_logical = (ds = LOGICAL), icr_assert = nd, icr_level = tm,
     icr_shorthand = shorthand_value sh, icr_dest = d\<rparr>"
proof -
  have dv: "k < 3" if "bit (delivery_value dm) k" for k
  proof (rule ccontr)
    assume "\<not> k < 3"
    moreover have "unat (delivery_value dm) < 2 ^ 3" by (cases dm) simp_all
    ultimately show False using bit_below [of "delivery_value dm" 3 k] that by simp
  qed
  have sv: "k < 2" if "bit (shorthand_value sh) k" for k
  proof (rule ccontr)
    assume "\<not> k < 2"
    moreover have "unat (shorthand_value sh) < 2 ^ 2" by (cases sh) simp_all
    ultimately show False using bit_below [of "shorthand_value sh" 2 k] that by simp
  qed
  have de: "bit (destination_value ds) k \<longleftrightarrow> k = 0 \<and> ds = LOGICAL" for k by (cases ds) (auto simp: bit_1_iff)
  have l: "bit (cmd_lo c) k \<longleftrightarrow> bit v k \<or> 8 \<le> k \<and> bit (delivery_value dm) (k - 8) \<or> k = 11 \<and> ds = LOGICAL \<or> k = 14 \<and> nd \<or> k = 15 \<and> tm \<or>
      18 \<le> k \<and> bit (shorthand_value sh) (k - 18)" for k
  proof -
    have "bit (ucast v :: u32) k \<longleftrightarrow> bit v k" using bit_imp_le_length [of v k] by (auto simp: bit_simps)
    moreover have "bit (push_bit 8 (delivery_value dm)) k \<longleftrightarrow> 8 \<le> k \<and> bit (delivery_value dm) (k - 8)" using dv [of "k - 8"] by (auto simp: bit_simps)
    moreover have "bit (push_bit 11 (destination_value ds)) k \<longleftrightarrow> k = 11 \<and> ds = LOGICAL" by (auto simp: bit_simps de)
    moreover have "bit (push_bit j (of_bool b) :: u32) k \<longleftrightarrow> k = j \<and> b" if "j < 32" for j b using that by (cases b) (auto simp: bit_simps)
    moreover have "bit (push_bit 18 (shorthand_value sh)) k \<longleftrightarrow> 18 \<le> k \<and> bit (shorthand_value sh) (k - 18)" using sv [of "k - 18"] by (auto simp: bit_simps)
    ultimately show ?thesis by (simp add: c_def LocalApicInterruptCommand_ctor_def bit_or_iff disj_assoc)
  qed
  have m: "bit (7 :: u32) k \<longleftrightarrow> k < 3" "bit (3 :: u32) k \<longleftrightarrow> k < 2" for k
    using bit_mask_iff [of 3 k, where ?'a = "32 word"] bit_mask_iff [of 2 k, where ?'a = "32 word"] by (auto simp: mask_eq_exp_minus_1)
  have vb: "\<not> bit v k" if "8 \<le> k" for k using bit_imp_le_length [of v k] that by auto
  have "ucast (drop_bit 24 (cmd_hi c)) = d" by (rule bit_word_eqI) (auto simp: c_def LocalApicInterruptCommand_ctor_def bit_simps)
  moreover have "ucast (cmd_lo c) = v" by (rule bit_word_eqI) (auto simp: bit_simps l)
  moreover have "drop_bit 8 (cmd_lo c) AND 7 = delivery_value dm"
    by (rule bit_word_eqI) (auto simp only: bit_and_iff bit_drop_bit_eq comp_def l m, auto simp: vb dest: dv)
  moreover have "drop_bit 18 (cmd_lo c) AND 3 = shorthand_value sh"
    by (rule bit_word_eqI) (auto simp only: bit_and_iff bit_drop_bit_eq comp_def l m, auto simp: vb dest: dv sv)
  moreover have "bit (cmd_lo c) 11 = (ds = LOGICAL)" "bit (cmd_lo c) 14 = nd" "bit (cmd_lo c) 15 = tm"
    using l vb dv by (auto dest: dv)
  ultimately show ?thesis by (simp add: icr_decode_def)
qed

section \<open>Properties\<close>

text \<open>
  C34. \<^verbatim>\<open>IoApic::Init\<close> on an I/O APIC with up to 120 inputs: it succeeds, and afterwards each redirection entry consists of the lower byte of the
  intended value only, because \<^verbatim>\<open>Write\<close> takes a \<^verbatim>\<open>u8\<close>. Input \<open>i\<close> is delivered as vector \<open>32 + i\<close> plus the interrupt base, modulo 256; the mask bit
  the code sets for the timer entry is lost, so that no entry is masked; and where the identification differs, zero is written instead of it.
  Non-maskable interrupts are switched off through port \<^verbatim>\<open>0x70\<close>.
\<close>

theorem IoApic_Init_entries:
  assumes "ioapic_addr ia \<noteq> 0" and "MapPage (KPTR_TO_PADDR (ioapic_addr ia)) False True (mc_pt mc) = Inr pt"
    and "ioapic_after (ioapic_addr ia) s (mc_mmio mc) = (sel, r)" and "drop_bit 16 (r 1) AND 0xFF = of_nat n" and "0 < n" and "n < 120"
  shows "\<exists>mc' sel' r'. IoApic_Init (ioapic_answers (ioapic_addr ia) s) ports ia mc = Inr mc' \<and> mc_pt mc' = pt \<and>
    ioapic_after (ioapic_addr ia) s (mc_mmio mc') = (sel', r') \<and>
    (\<forall>i \<le> n. r' (redtbl (2 * i)) = ucast (irq_vector ia i) \<and> r' (redtbl (2 * i + 1)) = 0 \<and> \<not> bit (r' (redtbl (2 * i))) 16) \<and>
    r' 0 = (if drop_bit 24 (r 0) AND 0xF = ioapic_id ia then r 0 else 0) \<and>
    mc_ports mc' = Out8 0x70 (answer8 ports (mc_ports mc) 0x70 OR 0x80) # In8 0x70 # mc_ports mc"
proof -
  let ?a = "ioapic_addr ia" and ?dev = "ioapic_answers (ioapic_addr ia) s"
  obtain h1 where h1: "ioapic_Read ?dev ?a IoApic_ID (mc_mmio mc) = Inr (r 0, h1)" "ioapic_after ?a s h1 = (0, r)"
    using ioapic_Read_after [OF assms(1,3), of IoApic_ID] by auto
  define r0 where "r0 = (if drop_bit 24 (r 0) AND 0xF \<noteq> ioapic_id ia then r(0 := 0) else r)"
  have z: "ucast (ucast (push_bit 24 w) :: u8) = (0 :: u32)" for w :: u32 by (rule bit_word_eqI) (auto simp: bit_simps)
  obtain h2 where h2: "(if drop_bit 24 (r 0) AND 0xF \<noteq> ioapic_id ia then ioapic_Write ?a IoApic_ID 0 (ucast (push_bit 24 (ioapic_id ia))) h1 else Inr h1) = Inr h2"
    "ioapic_after ?a s h2 = (0, r0)"
  proof (cases "drop_bit 24 (r 0) AND 0xF = ioapic_id ia")
    case True
    then show ?thesis using that [of h1] h1(2) by (simp add: r0_def)
  next
    case False
    then show ?thesis using ioapic_Write_after [OF assms(1) h1(2), of IoApic_ID 0 "ucast (push_bit 24 (ioapic_id ia))"] that by (auto simp: r0_def z)
  qed
  obtain h3 where h3: "ioapic_Read ?dev ?a IoApic_VER h2 = Inr (r 1, h3)" "ioapic_after ?a s h3 = (1, r0)"
    using ioapic_Read_after [OF assms(1) h2(2), of IoApic_VER] by (auto simp: r0_def)
  have n: "unat (of_nat n + 1 :: u32) = n + 1" "(of_nat n :: u32) \<noteq> 0" "(of_nat n + 1 :: u32) < 256"
  proof -
    have e: "(of_nat n + 1 :: u32) = of_nat (n + 1)" by simp
    show "unat (of_nat n + 1 :: u32) = n + 1" unfolding e unsigned_of_nat using assms(6) by (simp add: take_bit_nat_eq_self)
    then show "(of_nat n + 1 :: u32) < 256" using assms(6) by (simp add: word_less_nat_alt)
    have "unat (of_nat n :: u32) = n" unfolding unsigned_of_nat using assms(6) by (simp add: take_bit_nat_eq_self)
    then show "(of_nat n :: u32) \<noteq> 0" using assms(5) by auto
  qed
  obtain h4 sel' r' where h4: "enable_loop ia [0..<n + 1] h3 = Inr h4" "ioapic_after ?a s h4 = (sel', r')"
    "\<forall>i \<in> set [0..<n + 1]. r' (redtbl (2 * i)) = ucast (irq_vector ia i) \<and> r' (redtbl (2 * i + 1)) = 0"
    "\<forall>k. (\<forall>i \<in> set [0..<n + 1]. k \<noteq> redtbl (2 * i) \<and> k \<noteq> redtbl (2 * i + 1)) \<longrightarrow> r' k = r0 k"
    using enable_loop_after [OF assms(1) h3(2), of "[0..<n + 1]"] assms(6) by auto
  have "(0 :: u32) \<noteq> redtbl k" if "k < 240" for k
  proof -
    have "unat (redtbl k) = 16 + k" unfolding redtbl_def unsigned_of_nat using that by (simp add: take_bit_nat_eq_self)
    then show ?thesis by auto
  qed
  then have "\<forall>i \<in> set [0..<n + 1]. 0 \<noteq> redtbl (2 * i) \<and> 0 \<noteq> redtbl (2 * i + 1)" using assms(6) by simp
  then have "r' 0 = r0 0" using h4(4) by blast
  then have z0: "r' 0 = (if drop_bit 24 (r 0) AND 0xF = ioapic_id ia then r 0 else 0)" by (simp add: r0_def)
  have "\<not> bit (ucast (w :: u8) :: u32) 16" for w by (auto simp: bit_simps dest: bit_imp_le_length)
  then have e: "\<forall>i \<le> n. r' (redtbl (2 * i)) = ucast (irq_vector ia i) \<and> r' (redtbl (2 * i + 1)) = 0 \<and> \<not> bit (r' (redtbl (2 * i))) 16"
    using h4(3) by (simp del: upt_Suc add: less_Suc_eq_le)
  define mc' where "mc' = mc\<lparr>mc_pt := pt, mc_mmio := h4, mc_ports := Out8 0x70 (answer8 ports (mc_ports mc) 0x70 OR 0x80) # In8 0x70 # mc_ports mc\<rparr>"
  have "IoApic_Init ?dev ports ia mc = Inr mc'"
    using assms(1,2,4) h1(1) h2(1) h3(1) h4(1) n unfolding IoApic_Init_def mc'_def by (simp add: Let_def InB_def OutB_def kassert_def)
  moreover have "mc_pt mc' = pt" "ioapic_after ?a s (mc_mmio mc') = (sel', r')"
    "mc_ports mc' = Out8 0x70 (answer8 ports (mc_ports mc) 0x70 OR 0x80) # In8 0x70 # mc_ports mc" using h4(2) by (simp_all add: mc'_def)
  ultimately show ?thesis using e z0 by blast
qed

lemma demo_map: "\<exists>pt. MapPage 0xFEC00000 False True demo_pt = Inr pt"
  using MapPage_view [OF demo_pt_inv, where p = "0xFEC00000" and wt = False and cd = True] by (auto simp: stores_def free_path_def demo_unmapped)

theorem IoApic_Init_entries_witness:
  "\<exists>mc' sel' r'. IoApic_Init (ioapic_answers (PADDR_TO_KPTR 0xFEC00000) (0, (\<lambda>_. 0)(1 := 0x170000))) \<lparr>answer8 = \<lambda>_ _. 0, answer16 = \<lambda>_ _. 0, answer32 = \<lambda>_ _. 0\<rparr>
      \<lparr>ioapic_id = 0, ioapic_addr = PADDR_TO_KPTR 0xFEC00000, interrupt_base = 0\<rparr>
      \<lparr>mc_pt = demo_pt, mc_cpu = \<lparr>msrs = \<lambda>_. 0, rflags = 0, gs = 0, halted = False\<rparr>, mc_mmio = [], mc_ports = [], mc_loads = 0, mc_last = 0\<rparr> = Inr mc' \<and>
    ioapic_after (PADDR_TO_KPTR 0xFEC00000) (0, (\<lambda>_. 0)(1 := 0x170000)) (mc_mmio mc') = (sel', r') \<and> r' 0x10 = 32 \<and> r' 0x3E = 32 + 23"
proof -
  let ?ia = "\<lparr>ioapic_id = 0, ioapic_addr = PADDR_TO_KPTR 0xFEC00000, interrupt_base = 0\<rparr> :: IoApic" and ?r = "(\<lambda>_. 0)(1 := 0x170000) :: u32 \<Rightarrow> u32"
  let ?mc = "\<lparr>mc_pt = demo_pt, mc_cpu = \<lparr>msrs = \<lambda>_. 0, rflags = 0, gs = 0, halted = False\<rparr>, mc_mmio = [], mc_ports = [], mc_loads = 0, mc_last = 0\<rparr>"
  obtain pt where "MapPage (KPTR_TO_PADDR (ioapic_addr ?ia)) False True (mc_pt ?mc) = Inr pt"
    using demo_map by (auto simp: KPTR_TO_PADDR_def PADDR_TO_KPTR_def)
  then obtain mc' sel' r' where m: "IoApic_Init (ioapic_answers (ioapic_addr ?ia) (0, ?r)) \<lparr>answer8 = \<lambda>_ _. 0, answer16 = \<lambda>_ _. 0, answer32 = \<lambda>_ _. 0\<rparr> ?ia ?mc = Inr mc'"
    "ioapic_after (ioapic_addr ?ia) (0, ?r) (mc_mmio mc') = (sel', r')" "\<forall>i \<le> 23. r' (redtbl (2 * i)) = ucast (irq_vector ?ia i)"
    using IoApic_Init_entries [of ?ia ?mc pt "(0, ?r)" 0 ?r 23 "\<lparr>answer8 = \<lambda>_ _. 0, answer16 = \<lambda>_ _. 0, answer32 = \<lambda>_ _. 0\<rparr>"] by (auto simp: PADDR_TO_KPTR_def KERN_OFFSET_def)
  moreover have "r' 0x10 = 32" "r' 0x3E = 32 + 23"
    using m(3) [rule_format, of 0] m(3) [rule_format, of 23] by (simp_all add: redtbl_def irq_vector_def)
  ultimately show ?thesis by auto
qed

end
