(* ===== verification/Irqs.thy ===== *)
theory Irqs
  imports Apic
begin

text \<open>
  Interrupts (\<^verbatim>\<open>kern/irqs.h\<close>, \<^verbatim>\<open>kern/irqs.cc\<close>): the interrupt descriptor table, the chains of handlers, and the wrapper that saves and restores the
  interrupted context (\<^verbatim>\<open>Context\<close> of \<^verbatim>\<open>kern/thread.h\<close>).
\<close>

section \<open>Vectors and handlers\<close>

definition kMaxInterrupt :: nat where "kMaxInterrupt = 256"

definition gExceptionIrq :: "nat list" where
  "gExceptionIrq = [0x08, 0x10, 0x11, 0x12, 0x13, 0x14, 0x17, 0x30]"

text \<open>
  \<open>is_exception\<close> is the array of 32 flags with the memory behind it; \<open>handlers\<close> and \<open>handler_next\<close> are the chains, \<open>None\<close> the null pointer.
\<close>

record IrqVector =
  base_irq_addr :: u64
  handlers :: "nat \<Rightarrow> nat option"
  handler_next :: "nat \<Rightarrow> nat option"
  is_exception :: "nat \<Rightarrow> bool"

definition InstallChainHandler :: "nat \<Rightarrow> nat \<Rightarrow> IrqVector \<Rightarrow> IrqVector" where
  "InstallChainHandler irq_number p v =
     v\<lparr>handler_next := (handler_next v)(p := handlers v irq_number), handlers := (handlers v)(irq_number := Some p)\<rparr>"

text \<open>\<^verbatim>\<open>Run\<close> is virtual: what handler \<open>p\<close> does with frame, context and the rest of the state is the parameter \<open>run\<close>.\<close>

partial_function (option) run_chain :: "(nat \<Rightarrow> 's \<Rightarrow> 's) \<Rightarrow> (nat \<Rightarrow> nat option) \<Rightarrow> nat option \<Rightarrow> 's \<Rightarrow> 's option" where
  "run_chain run nxt p s = (case p of None \<Rightarrow> Some s | Some q \<Rightarrow> run_chain run nxt (nxt q) (run q s))"

definition InvokeChainHandlers :: "(nat \<Rightarrow> u64 \<Rightarrow> u64 \<Rightarrow> 's \<Rightarrow> 's) \<Rightarrow> IrqVector \<Rightarrow> nat \<Rightarrow> u64 \<Rightarrow> u64 \<Rightarrow> 's \<Rightarrow> 's option" where
  "InvokeChainHandlers run v irq_number f saved_ctx s =
     run_chain (\<lambda>p. run p f saved_ctx) (handler_next v) (handlers v irq_number) s"

section \<open>The descriptor table\<close>

definition gate_bytes :: "u64 \<Rightarrow> u8 \<Rightarrow> u8 list" where
  "gate_bytes func type =
     [ucast (func AND 0x00000000000000FF), ucast (drop_bit 8 (func AND 0x000000000000FF00)),
      0x08, 0, 0, type,
      ucast (drop_bit 16 (func AND 0x0000000000FF0000)), ucast (drop_bit 24 (func AND 0x00000000FF000000)),
      ucast (drop_bit 32 (func AND 0x000000FF00000000)), ucast (drop_bit 40 (func AND 0x0000FF0000000000)),
      ucast (drop_bit 48 (func AND 0x00FF000000000000)), ucast (drop_bit 56 (func AND 0xFF00000000000000)),
      0, 0, 0, 0]"

definition InstallIrqFunction :: "u8 \<Rightarrow> u64 \<Rightarrow> u8 \<Rightarrow> IrqVector \<Rightarrow> mem \<Rightarrow> mem" where
  "InstallIrqFunction irq_id func type v m =
     (let idt_table = base_irq_addr v; b = gate_bytes func type in
      fold (\<lambda>i m. m(PADDR_TO_KPTR (idt_table + ucast irq_id * 16 + of_nat i) := b ! i)) [0..<16] m)"

text \<open>The address of \<^verbatim>\<open>InterruptWrapper<N>\<close> is the parameter \<open>wrapper N\<close>.\<close>

fun HandlerInstaller :: "(nat \<Rightarrow> u64) \<Rightarrow> nat \<Rightarrow> IrqVector \<Rightarrow> mem \<Rightarrow> mem" where
  "HandlerInstaller wrapper 0 v m = InstallIrqFunction 0 (wrapper 0) 0x8E v m"
| "HandlerInstaller wrapper (Suc n) v m =
     InstallIrqFunction (of_nat (Suc n)) (wrapper (Suc n)) 0x8E v (HandlerInstaller wrapper n v m)"

text \<open>
  The two instructions at the end of \<^verbatim>\<open>Setup\<close>, in AT&T order: \<^verbatim>\<open>mov %rax, %0\<close> overwrites the register that holds \<open>idt_ptr\<close> with the old contents of \<^verbatim>\<open>rax\<close>,
  and \<^verbatim>\<open>lidt (%rax)\<close> loads the table register from there. The result is the operand register and the address given to \<^verbatim>\<open>lidt\<close>.
\<close>

definition load_idt :: "u64 \<Rightarrow> u64 \<Rightarrow> u64 \<times> u64" where
  "load_idt rax idt_ptr = (let operand = idt_ptr; operand = rax in (operand, rax))"

text \<open>
  \<^verbatim>\<open>memset(handlers, 0, sizeof(IrqHandler *))\<close> clears the first chain only. What the compiled code left in \<^verbatim>\<open>rax\<close> is the parameter \<open>rax\<close>; the second
  component of the result is the address given to \<^verbatim>\<open>lidt\<close>.
\<close>

definition IrqVector_Setup ::
    "(nat \<Rightarrow> u64) \<Rightarrow> u64 \<Rightarrow> u64 \<Rightarrow> u64 \<Rightarrow> IrqVector \<times> mem \<times> io_log \<Rightarrow> (IrqVector \<times> mem \<times> io_log) \<times> u64" where
  "IrqVector_Setup wrapper rax idt64 base_addr = (\<lambda>(v, m, p).
     let v = v\<lparr>base_irq_addr := base_addr\<rparr>;
         p = OutB 0xA0 0x11 (OutB 0x20 0x11 p);
         p = OutB 0xA1 0x28 (OutB 0x21 0x20 p);
         p = OutB 0xA1 0x02 (OutB 0x21 0x04 p);
         p = OutB 0xA1 0x01 (OutB 0x21 0x01 p);
         p = OutB 0xA1 0xFF (OutB 0x21 0xFF p);
         v = v\<lparr>handlers := (handlers v)(0 := None)\<rparr>;
         v = v\<lparr>is_exception := fold (\<lambda>i e. e(i := True)) gExceptionIrq (is_exception v)\<rparr>;
         m = HandlerInstaller wrapper 0xFF v m
     in ((v, m, p), snd (load_idt rax (PADDR_TO_KPTR idt64))))"

section \<open>Saving and restoring the context\<close>

datatype reg = RAX | RBX | RCX | RDX | RDI | RSI | RBP | RSP | R8 | R9 | R10 | R11 | R12 | R13 | R14 | R15

text \<open>The offsets of the fields of \<^verbatim>\<open>Context\<close>.\<close>

primrec ctx_offset :: "reg \<Rightarrow> u64" where
  "ctx_offset RAX = 0" | "ctx_offset RBX = 8" | "ctx_offset RCX = 16" | "ctx_offset RDX = 24" | "ctx_offset RDI = 32" | "ctx_offset RSI = 40"
| "ctx_offset RBP = 48" | "ctx_offset RSP = 56" | "ctx_offset R8 = 64" | "ctx_offset R9 = 72" | "ctx_offset R10 = 80" | "ctx_offset R11 = 88"
| "ctx_offset R12 = 96" | "ctx_offset R13 = 104" | "ctx_offset R14 = 112" | "ctx_offset R15 = 120"

definition ctx_rip :: u64 where "ctx_rip = 128"

text \<open>
  The registers, the quadwords of the stack, the instruction pointer, the seven dwords of the x87 environment (control, status and
  tag word, instruction and operand pointers) and the \<^verbatim>\<open>mxcsr\<close> register. The data registers of the floating point unit are not
  part of the model: the wrapper does not touch them.
\<close>

record icpu =
  regs :: "reg \<Rightarrow> u64"
  stk :: "u64 \<Rightarrow> u64"
  rip :: u64
  fenv :: "nat \<Rightarrow> u32"
  mxcsr :: u32

text \<open>The dwords of a quadword, and the \<open>i\<close>-th dword from address \<open>p\<close> on.\<close>

definition lo32 :: "u64 \<Rightarrow> u32" where "lo32 q = ucast q"
definition hi32 :: "u64 \<Rightarrow> u32" where "hi32 q = ucast (drop_bit 32 q)"
definition qword :: "u32 \<Rightarrow> u32 \<Rightarrow> u64" where "qword l h = ucast l OR push_bit 32 (ucast h)"
definition dword_at :: "(u64 \<Rightarrow> u64) \<Rightarrow> u64 \<Rightarrow> nat \<Rightarrow> u32" where
  "dword_at k p i = (let q = k (p + 8 * of_nat (i div 2)) in if even i then lo32 q else hi32 q)"

text \<open>
  \<^verbatim>\<open>fnstenv\<close> stores 28 bytes, the last dword of them in the lower half of the fourth quadword, and then masks the six floating point
  exceptions in the control word; \<^verbatim>\<open>stmxcsr\<close> stores four bytes; \<^verbatim>\<open>fldenv\<close> and \<^verbatim>\<open>ldmxcsr\<close> load what is in memory then.
\<close>

datatype instr = Push reg | Pop reg | SubRsp u64 | AddRsp u64 | Fnstenv | Stmxcsr u64 | Fldenv | Ldmxcsr u64

fun exec :: "instr \<Rightarrow> icpu \<Rightarrow> icpu" where
  "exec (Push r) c = c\<lparr>regs := (regs c)(RSP := regs c RSP - 8), stk := (stk c)(regs c RSP - 8 := regs c r)\<rparr>"
| "exec (Pop r) c = c\<lparr>regs := (regs c)(RSP := regs c RSP + 8, r := stk c (regs c RSP))\<rparr>"
| "exec (SubRsp n) c = c\<lparr>regs := (regs c)(RSP := regs c RSP - n)\<rparr>"
| "exec (AddRsp n) c = c\<lparr>regs := (regs c)(RSP := regs c RSP + n)\<rparr>"
| "exec Fnstenv c = (let p = regs c RSP; e = fenv c in
     c\<lparr>stk := (stk c)(p := qword (e 0) (e 1), p + 8 := qword (e 2) (e 3), p + 16 := qword (e 4) (e 5),
          p + 24 := qword (e 6) (hi32 (stk c (p + 24)))),
       fenv := e(0 := e 0 OR 0x3F)\<rparr>)"
| "exec (Stmxcsr off) c = (let p = regs c RSP + off in c\<lparr>stk := (stk c)(p := qword (mxcsr c) (hi32 (stk c p)))\<rparr>)"
| "exec Fldenv c = c\<lparr>fenv := (\<lambda>i. if i < 7 then dword_at (stk c) (regs c RSP) i else fenv c i)\<rparr>"
| "exec (Ldmxcsr off) c = c\<lparr>mxcsr := lo32 (stk c (regs c RSP + off))\<rparr>"

definition save_context :: "instr list" where
  "save_context = [SubRsp 0x200, Fnstenv, Stmxcsr 0x18, SubRsp 8, Push R15, Push R14, Push R13, Push R12, Push R11, Push R10, Push R9, Push R8,
     SubRsp 0x10, Push RSI, Push RDI, Push RDX, Push RCX, Push RBX, Push RAX]"

definition restore_context :: "instr list" where
  "restore_context = [Pop RAX, Pop RBX, Pop RCX, Pop RDX, Pop RDI, Pop RSI, AddRsp 0x10,
     Pop R8, Pop R9, Pop R10, Pop R11, Pop R12, Pop R13, Pop R14, Pop R15, AddRsp 8, Fldenv, Ldmxcsr 0x18, AddRsp 0x200]"

text \<open>Both structs begin with the frame: the error code comes last, and the two branches give the same address.\<close>

definition frame_of :: "bool \<Rightarrow> u64 \<Rightarrow> u64" where
  "frame_of exception frame_ptr = (if exception then frame_ptr + 8 else let ef = frame_ptr + 8 in ef)"

text \<open>\<^verbatim>\<open>leave; iretq\<close>: of the interrupt frame \<open>rip\<close>, \<open>cs\<close>, \<open>eflags\<close>, \<open>rsp\<close> the instruction and stack pointers are kept here.\<close>

definition leave_iretq :: "icpu \<Rightarrow> icpu" where
  "leave_iretq c = (let rbp = regs c RBP; sp = rbp + 8 in
     c\<lparr>regs := (regs c)(RBP := stk c rbp, RSP := stk c (sp + 24)), rip := stk c sp\<rparr>)"

definition InterruptWrapper ::
    "(nat \<Rightarrow> u64 \<Rightarrow> u64 \<Rightarrow> (u64 \<Rightarrow> u64) \<times> 's \<Rightarrow> (u64 \<Rightarrow> u64) \<times> 's) \<Rightarrow> LocalApic \<Rightarrow> IrqVector \<Rightarrow> nat \<Rightarrow> icpu \<times> 's \<times> mmio_log \<Rightarrow>
     (icpu \<times> 's \<times> mmio_log) option" where
  "InterruptWrapper run la v IrqNumber = (\<lambda>(c, s, h).
     let c = fold exec save_context c; frame_ptr = regs c RBP; stack_ptr = regs c RSP;
         f = frame_of (is_exception v IrqNumber) frame_ptr; ctx = stack_ptr;
         k = stk c; k = k(ctx + ctx_offset RBP := k frame_ptr); k = k(ctx + ctx_offset RSP := k (f + 24)); k = k(ctx + ctx_rip := k f)
     in case InvokeChainHandlers run v IrqNumber f ctx (k, s) of None \<Rightarrow> None
        | Some (k, s) \<Rightarrow>
            let h = LocalApic_EOI la h; c = c\<lparr>stk := k, regs := (regs c)(RSP := stack_ptr)\<rparr>
            in Some (leave_iretq (fold exec restore_context c), s, h))"

section \<open>Lemmas on the descriptor table\<close>

text \<open>The handler address, selector and type the processor reads from the sixteen bytes of a gate.\<close>

definition gate_offset :: "(nat \<Rightarrow> u8) \<Rightarrow> u64" where
  "gate_offset b = ucast (b 0) OR push_bit 8 (ucast (b 1)) OR push_bit 16 (ucast (b 6)) OR push_bit 24 (ucast (b 7))
     OR push_bit 32 (ucast (b 8)) OR push_bit 40 (ucast (b 9)) OR push_bit 48 (ucast (b 10)) OR push_bit 56 (ucast (b 11))"

definition gate_selector :: "(nat \<Rightarrow> u8) \<Rightarrow> u16" where "gate_selector b = ucast (b 2) OR push_bit 8 (ucast (b 3))"

definition gate_at :: "mem \<Rightarrow> u64 \<Rightarrow> u64 \<times> u16 \<times> u8" where
  "gate_at m p = (let b = (\<lambda>i. m (at p i)) in (gate_offset b, gate_selector b, b 5))"

lemma byte_of: "ucast (drop_bit k (x AND push_bit k 0xFF)) = (ucast (drop_bit k x) :: u8)" for x :: u64
proof (rule bit_word_eqI)
  fix n assume "n < LENGTH(8)"
  then have n: "n < 8" by simp
  have "bit (0xFF :: u64) n" using n bit_mask_iff [of 8 n, where ?'a = "64 word"] by (simp add: mask_eq_exp_minus_1)
  moreover have "bit x (k + n) \<Longrightarrow> k + n < 64" using bit_imp_le_length [of x "k + n"] by simp
  ultimately show "bit (ucast (drop_bit k (x AND push_bit k 0xFF)) :: u8) n = bit (ucast (drop_bit k x) :: u8) n"
    using n unfolding bit_unsigned_iff bit_drop_bit_eq bit_and_iff bit_push_bit_iff comp_def by auto
qed

lemma gate_bytes_drop:
  "gate_bytes func t = [ucast func, ucast (drop_bit 8 func), 8, 0, 0, t, ucast (drop_bit 16 func), ucast (drop_bit 24 func),
     ucast (drop_bit 32 func), ucast (drop_bit 40 func), ucast (drop_bit 48 func), ucast (drop_bit 56 func), 0, 0, 0, 0]"
  using byte_of [of 0 func] byte_of [of 8 func] byte_of [of 16 func] byte_of [of 24 func] byte_of [of 32 func] byte_of [of 40 func]
    byte_of [of 48 func] byte_of [of 56 func] by (simp add: gate_bytes_def)

lemma join_bytes:
  "ucast (ucast x :: u8) OR push_bit 8 (ucast (ucast (drop_bit 8 x) :: u8)) OR push_bit 16 (ucast (ucast (drop_bit 16 x) :: u8))
     OR push_bit 24 (ucast (ucast (drop_bit 24 x) :: u8)) OR push_bit 32 (ucast (ucast (drop_bit 32 x) :: u8))
     OR push_bit 40 (ucast (ucast (drop_bit 40 x) :: u8)) OR push_bit 48 (ucast (ucast (drop_bit 48 x) :: u8))
     OR push_bit 56 (ucast (ucast (drop_bit 56 x) :: u8)) = x" (is "?l = x") for x :: u64
proof (rule bit_word_eqI)
  fix n assume n: "n < LENGTH(64)"
  have b: "bit (push_bit k (ucast (ucast (drop_bit k x) :: u8)) :: u64) n \<longleftrightarrow> k \<le> n \<and> n < k + 8 \<and> bit x n" for k
    using n unfolding bit_push_bit_iff bit_unsigned_iff bit_drop_bit_eq comp_def by auto
  have "bit (ucast (ucast x :: u8) :: u64) n \<longleftrightarrow> n < 8 \<and> bit x n" using b [of 0] by simp
  then show "bit ?l n = bit x n"
    using n unfolding bit_or_iff b by auto
qed

lemma fold_store:
  assumes "n < 2 ^ 64"
  shows "i < n \<Longrightarrow> fold (\<lambda>i m. m(at p i := b i)) [0..<n] m (at p i) = b i"
    and "(\<And>i. i < n \<Longrightarrow> a \<noteq> at p i) \<Longrightarrow> fold (\<lambda>i m. m(at p i := b i)) [0..<n] m a = m a"
proof -
  have "(\<forall>i < n. fold (\<lambda>i m. m(at p i := b i)) [0..<n] m (at p i) = b i) \<and>
      ((\<forall>i < n. a \<noteq> at p i) \<longrightarrow> fold (\<lambda>i m. m(at p i := b i)) [0..<n] m a = m a)"
    using assms
  proof (induction n)
    case (Suc n)
    then show ?case using at_inj [of _ n p] by (auto simp: less_Suc_eq)
  qed simp
  then show "i < n \<Longrightarrow> fold (\<lambda>i m. m(at p i := b i)) [0..<n] m (at p i) = b i"
    "(\<And>i. i < n \<Longrightarrow> a \<noteq> at p i) \<Longrightarrow> fold (\<lambda>i m. m(at p i := b i)) [0..<n] m a = m a" by auto
qed

lemma InstallIrqFunction_gate:
  fixes k :: nat and v :: IrqVector
  assumes "k < 256"
  defines "p \<equiv> at (PADDR_TO_KPTR (base_irq_addr v)) (16 * k)"
  shows "gate_at (InstallIrqFunction (of_nat k) func t v m) p = (func, 8, t)"
    and "(\<And>i. i < 16 \<Longrightarrow> a \<noteq> at p i) \<Longrightarrow> InstallIrqFunction (of_nat k) func t v m a = m a"
proof -
  have "ucast (of_nat k :: u8) = (of_nat k :: u64)"
    using assms(1) by (intro word_unat_eq_iff [THEN iffD2]) (simp add: unsigned_ucast_eq unsigned_of_nat take_bit_nat_eq_self)
  then have e: "PADDR_TO_KPTR (base_irq_addr v + ucast (of_nat k :: u8) * 16 + of_nat i) = at p i" for i
    by (simp add: PADDR_TO_KPTR_def p_def at_def add.commute add.left_commute mult.commute)
  have s: "InstallIrqFunction (of_nat k) func t v m = fold (\<lambda>i m. m(at p i := gate_bytes func t ! i)) [0..<16] m"
    by (simp only: InstallIrqFunction_def Let_def e)
  have "InstallIrqFunction (of_nat k) func t v m (at p i) = gate_bytes func t ! i" if "i < 16" for i
    unfolding s by (rule fold_store(1)) (use that in simp_all)
  note b = this
  show "gate_at (InstallIrqFunction (of_nat k) func t v m) p = (func, 8, t)"
    using join_bytes [of func] b [of 0] by (simp add: b gate_at_def Let_def gate_offset_def gate_selector_def gate_bytes_drop)
  show "(\<And>i. i < 16 \<Longrightarrow> a \<noteq> at p i) \<Longrightarrow> InstallIrqFunction (of_nat k) func t v m a = m a"
    unfolding s by (rule fold_store(2)) simp_all
qed

lemma gate_at_cong: "(\<And>i. i < 16 \<Longrightarrow> m (at p i) = m' (at p i)) \<Longrightarrow> gate_at m p = gate_at m' p"
proof -
  assume e: "\<And>i. i < 16 \<Longrightarrow> m (at p i) = m' (at p i)"
  show ?thesis using e [of 0] by (simp add: e gate_at_def gate_offset_def gate_selector_def Let_def)
qed

lemma HandlerInstaller_gates:
  fixes v :: IrqVector
  assumes "n < 256"
  defines "b \<equiv> PADDR_TO_KPTR (base_irq_addr v)"
  shows "(\<forall>k \<le> n. gate_at (HandlerInstaller wrapper n v m) (at b (16 * k)) = (wrapper k, 8, 0x8E)) \<and>
    (\<forall>a. (\<forall>i < 16 * Suc n. a \<noteq> at b i) \<longrightarrow> HandlerInstaller wrapper n v m a = m a)"
  using assms(1)
proof (induction n)
  case 0
  then show ?case using InstallIrqFunction_gate [where k = 0 and v = v and func = "wrapper 0" and t = "0x8E" and m = m] by (auto simp: b_def at_at)
next
  case (Suc n)
  let ?m = "HandlerInstaller wrapper n v m"
  have far: "at (at b (16 * k)) i \<noteq> at (at b (16 * Suc n)) j" if "k \<le> n" "i < 16" "j < 16" for k i j
    using that Suc.prems at_inj [of "16 * k + i" "16 * Suc n + j" b] by (simp add: at_at)
  have "gate_at (HandlerInstaller wrapper (Suc n) v m) (at b (16 * k)) = (wrapper k, 8, 0x8E)" if "k \<le> Suc n" for k
  proof (cases "k = Suc n")
    case True
    then show ?thesis using InstallIrqFunction_gate(1) [OF Suc.prems, where v = v and func = "wrapper (Suc n)" and t = "0x8E" and m = ?m] by (simp add: b_def)
  next
    case False
    then have "k \<le> n" using that by simp
    then have "HandlerInstaller wrapper (Suc n) v m (at (at b (16 * k)) i) = ?m (at (at b (16 * k)) i)" if "i < 16" for i
      using InstallIrqFunction_gate(2) [OF Suc.prems, where a = "at (at b (16 * k)) i" and v = v and func = "wrapper (Suc n)" and t = "0x8E" and m = ?m] far [OF _ that] by (simp add: b_def)
    then have "gate_at (HandlerInstaller wrapper (Suc n) v m) (at b (16 * k)) = gate_at ?m (at b (16 * k))" by (rule gate_at_cong)
    then show ?thesis using Suc \<open>k \<le> n\<close> by simp
  qed
  moreover have "HandlerInstaller wrapper (Suc n) v m a = m a" if "\<forall>i < 16 * Suc (Suc n). a \<noteq> at b i" for a
  proof -
    have "HandlerInstaller wrapper (Suc n) v m a = ?m a"
      using InstallIrqFunction_gate(2) [OF Suc.prems, where a = a and v = v and func = "wrapper (Suc n)" and t = "0x8E" and m = ?m] that by (simp add: b_def at_at)
    then show ?thesis using Suc that by simp
  qed
  ultimately show ?case by blast
qed

text \<open>The descriptor that gets loaded does not depend on \<^verbatim>\<open>IDT64\<close>: it is whatever \<^verbatim>\<open>rax\<close> points to.\<close>

lemma Setup_loads_rax: "snd (IrqVector_Setup wrapper rax idt64 base_addr s) = rax"
  by (simp add: IrqVector_Setup_def load_idt_def Let_def split: prod.split)

section \<open>Lemmas on chains\<close>

fun handler_chain :: "(nat \<Rightarrow> nat option) \<Rightarrow> nat option \<Rightarrow> nat list \<Rightarrow> bool" where
  "handler_chain nxt p [] \<longleftrightarrow> p = None"
| "handler_chain nxt p (q # qs) \<longleftrightarrow> p = Some q \<and> handler_chain nxt (nxt q) qs"

lemma run_chain_all: "handler_chain nxt p qs \<Longrightarrow> run_chain run nxt p s = Some (fold run qs s)"
proof (induction qs arbitrary: p s)
  case Nil
  then show ?case by (subst run_chain.simps) simp
next
  case (Cons q qs)
  then show ?case by (subst run_chain.simps) simp
qed

lemma handler_chain_upd: "p \<notin> set qs \<Longrightarrow> handler_chain (nxt(p := x)) a qs = handler_chain nxt a qs"
  by (induction qs arbitrary: a) auto

lemma Install_chain:
  assumes "handler_chain (handler_next v) (handlers v irq) qs" and "p \<notin> set qs"
  shows "handler_chain (handler_next (InstallChainHandler irq p v)) (handlers (InstallChainHandler irq p v) irq) (p # qs)"
  using assms handler_chain_upd [of p qs "handler_next v"] by (simp add: InstallChainHandler_def del: fun_upd_apply) (simp add: fun_upd_def)

lemma Install_all_chain:
  assumes "handler_chain (handler_next v) (handlers v irq) qs" and "distinct ps" and "set ps \<inter> set qs = {}"
  shows "handler_chain (handler_next (fold (InstallChainHandler irq) ps v)) (handlers (fold (InstallChainHandler irq) ps v) irq) (rev ps @ qs)"
  using assms
proof (induction ps arbitrary: v qs)
  case (Cons p ps)
  then have "handler_chain (handler_next (InstallChainHandler irq p v)) (handlers (InstallChainHandler irq p v) irq) (p # qs)"
    using Install_chain by simp
  then show ?case using Cons.IH [of "InstallChainHandler irq p v" "p # qs"] Cons.prems by simp
qed simp

text \<open>A handler installed twice in a row is its own successor: the walk does not end.\<close>

lemma run_chain_cycle:
  assumes "run_chain run nxt q s = Some r"
  shows "\<not> (q = Some p \<and> nxt p = Some p)"
  by (rule run_chain.raw_induct [where P = "\<lambda>run nxt q s r. \<not> (q = Some p \<and> nxt p = Some p)", OF _ assms]) (auto split: option.splits)

section \<open>Lemmas on the wrapper\<close>

definition saved :: "reg set" where "saved = - {RBP, RSP}"

lemma saved_cases: "r \<in> saved \<Longrightarrow> r = RAX \<or> r = RBX \<or> r = RCX \<or> r = RDX \<or> r = RDI \<or> r = RSI \<or> r = R8 \<or> r = R9 \<or> r = R10 \<or> r = R11 \<or>
    r = R12 \<or> r = R13 \<or> r = R14 \<or> r = R15"
  by (cases r) (auto simp: saved_def)

lemma save_context_regs: "regs (fold exec save_context c) = (regs c)(RSP := regs c RSP - 0x288)"
  by (simp add: save_context_def fun_eq_iff diff_diff_eq Let_def)

lemma save_context_slots: "r \<in> saved \<Longrightarrow> stk (fold exec save_context c) (regs c RSP - 0x288 + ctx_offset r) = regs c r"
  by (drule saved_cases) (elim disjE; simp add: save_context_def diff_diff_eq Let_def)

lemma save_context_stk:
  assumes "\<And>k. k < 21 \<Longrightarrow> a \<noteq> regs c RSP - 0x288 + 8 * of_nat k"
  shows "stk (fold exec save_context c) a = stk c a"
  using assms [of 0] assms [of 1] assms [of 2] assms [of 3] assms [of 4] assms [of 5] assms [of 6] assms [of 7] assms [of 8] assms [of 9] assms [of 10]
    assms [of 11] assms [of 12] assms [of 13] assms [of 14] assms [of 15] assms [of 16] assms [of 17] assms [of 18] assms [of 19] assms [of 20]
  by (simp add: save_context_def diff_diff_eq Let_def)

text \<open>The \<^verbatim>\<open>fp_state\<close> of the context: six dwords of the environment, and \<^verbatim>\<open>mxcsr\<close> where the seventh was.\<close>

definition ctx_fp :: u64 where "ctx_fp = 0x88"

lemma qword_halves [simp]: "lo32 (qword a b) = a" "hi32 (qword a b) = b"
  by (simp_all add: lo32_def hi32_def qword_def word_bits bit_simps)

lemma save_context_fp:
  "i < 6 \<Longrightarrow> dword_at (stk (fold exec save_context c)) (regs c RSP - 0x288 + ctx_fp) i = fenv c i"
  "dword_at (stk (fold exec save_context c)) (regs c RSP - 0x288 + ctx_fp) 6 = mxcsr c"
proof -
  define k where "k = stk (fold exec save_context c)"
  define p where "p = regs c RSP - 0x288 + ctx_fp"
  have q: "k p = qword (fenv c 0) (fenv c 1)" "k (p + 8) = qword (fenv c 2) (fenv c 3)" "k (p + 16) = qword (fenv c 4) (fenv c 5)"
    "lo32 (k (p + 24)) = mxcsr c"
    unfolding k_def p_def by (simp_all add: save_context_def Let_def diff_diff_eq ctx_fp_def add.assoc)
  have "dword_at k p i = fenv c i" if "i < 6" for i
  proof -
    from that consider "i = 0" | "i = 1" | "i = 2" | "i = 3" | "i = 4" | "i = 5" by linarith
    then show ?thesis by cases (simp_all add: dword_at_def q)
  qed
  moreover have "dword_at k p 6 = mxcsr c" using q(4) by (simp add: dword_at_def)
  ultimately show "i < 6 \<Longrightarrow> dword_at (stk (fold exec save_context c)) (regs c RSP - 0x288 + ctx_fp) i = fenv c i"
    "dword_at (stk (fold exec save_context c)) (regs c RSP - 0x288 + ctx_fp) 6 = mxcsr c" by (simp_all only: k_def p_def)
qed

lemma restore_context_regs:
  "r \<in> saved \<Longrightarrow> regs (fold exec restore_context c) r = stk c (regs c RSP + ctx_offset r)"
  "regs (fold exec restore_context c) RBP = regs c RBP" "stk (fold exec restore_context c) = stk c"
  "i < 7 \<Longrightarrow> fenv (fold exec restore_context c) i = dword_at (stk c) (regs c RSP + ctx_fp) i"
  "mxcsr (fold exec restore_context c) = dword_at (stk c) (regs c RSP + ctx_fp) 6"
  by ((drule saved_cases, elim disjE; simp add: restore_context_def add.assoc),
      simp_all add: restore_context_def add.assoc ctx_fp_def dword_at_def)

lemma frame_of_same [simp]: "frame_of e fp = fp + 8"
  by (simp add: frame_of_def)

text \<open>A frame that lies above the stack pointer, neither of them near the ends of the address space.\<close>

definition frame_above :: "icpu \<Rightarrow> bool" where
  "frame_above c \<longleftrightarrow> 0x288 \<le> unat (regs c RSP) \<and> regs c RSP \<le> regs c RBP \<and> unat (regs c RBP) + 40 < 2 ^ 64"

lemma frame_untouched:
  assumes "frame_above c" and "j < 5" and "k < 21"
  shows "regs c RBP + 8 * of_nat j \<noteq> regs c RSP - 0x288 + 8 * of_nat k"
proof
  assume e: "regs c RBP + 8 * of_nat j = regs c RSP - 0x288 + 8 * of_nat k"
  have j: "unat (8 * of_nat j :: u64) = 8 * j" and k: "unat (8 * of_nat k :: u64) = 8 * k"
    using assms(2,3) by (simp_all add: unat_word_ariths unsigned_of_nat take_bit_nat_eq_self)
  have "unat (regs c RBP + 8 * of_nat j) = unat (regs c RBP) + 8 * j"
    using assms(1,2) j by (subst unat_plus_simple [THEN iffD1]) (auto simp: frame_above_def no_olen_add_nat)
  moreover have "unat (regs c RSP - 0x288) = unat (regs c RSP) - 0x288"
    using assms(1) by (subst unat_sub) (auto simp: frame_above_def word_le_nat_alt)
  then have "unat (regs c RSP - 0x288 + 8 * of_nat k) = unat (regs c RSP) - 0x288 + 8 * k"
    using assms(1,3) k unat_u64_less [of "regs c RSP"] by (subst unat_plus_simple [THEN iffD1]) (auto simp: no_olen_add_nat)
  ultimately have "unat (regs c RBP) + 8 * j = unat (regs c RSP) - 0x288 + 8 * k" using e by (simp only:)
  moreover have "unat (regs c RSP) \<le> unat (regs c RBP)" "0x288 \<le> unat (regs c RSP)" using assms(1) by (simp_all add: frame_above_def word_le_nat_alt)
  ultimately show False using assms(3) by linarith
qed

section \<open>Properties\<close>


text \<open>
  C4. An interrupt without error code is transparent but for its handlers and one dword of the x87 environment. With the interrupt frame above the stack pointer, the handlers of the
  chain run once each, from the one installed last to the first, on a context that holds all general registers of the interrupted code, the frame's instruction and stack pointers, the
  first six dwords of the x87 environment and, where the seventh was, the \<^verbatim>\<open>mxcsr\<close>; then the end of the interrupt is signalled, and registers, environment and \<^verbatim>\<open>mxcsr\<close> are loaded from the
  context and the frame as the handlers left them. So with handlers that write neither, the interrupted code goes on with the registers, stack, \<^verbatim>\<open>mxcsr\<close> and environment it had, but for
  the operand segment in the last dword of the environment, which is the \<^verbatim>\<open>mxcsr\<close> then.
\<close>

theorem InterruptWrapper_transparent:
  fixes c :: icpu
  defines "ctx \<equiv> regs c RSP - 0x288" and "f \<equiv> regs c RBP + 8"
  assumes "frame_above c" and "handler_chain (handler_next v) (handlers v irq) ps"
  shows "\<exists>k c' k' s'. (k', s') = fold (\<lambda>p. run p f ctx) ps (k, s) \<and>
    InterruptWrapper run la v irq (c, s, h) = Some (c', s', MmioWrite (local_apic_address la + 0xb0) 0 # h) \<and>
    (\<forall>r \<in> - {RBP, RSP}. k (ctx + ctx_offset r) = regs c r \<and> regs c' r = k' (ctx + ctx_offset r)) \<and>
    k (ctx + ctx_offset RBP) = stk c (regs c RBP) \<and> k (ctx + ctx_offset RSP) = stk c (f + 24) \<and> k (ctx + ctx_rip) = stk c f \<and>
    k (regs c RBP) = stk c (regs c RBP) \<and> k f = stk c f \<and> k (f + 24) = stk c (f + 24) \<and>
    regs c' RBP = k' (regs c RBP) \<and> rip c' = k' f \<and> regs c' RSP = k' (f + 24) \<and>
    (\<forall>i < 6. dword_at k (ctx + ctx_fp) i = fenv c i) \<and> dword_at k (ctx + ctx_fp) 6 = mxcsr c \<and>
    (\<forall>i < 7. fenv c' i = dword_at k' (ctx + ctx_fp) i) \<and> mxcsr c' = dword_at k' (ctx + ctx_fp) 6"
proof -
  define c1 where "c1 = fold exec save_context c"
  have fr: "stk c1 (regs c RBP + 8 * of_nat j) = stk c (regs c RBP + 8 * of_nat j)" if "j < 5" for j
    unfolding c1_def using frame_untouched [OF assms(3) that] by (rule save_context_stk)
  have f0: "stk c1 (regs c RBP) = stk c (regs c RBP)" "stk c1 f = stk c f" "stk c1 (f + 24) = stk c (f + 24)"
    using fr [of 0] fr [of 1] fr [of 4] by (simp_all add: f_def add.assoc)
  have ne: "ctx + 48 \<noteq> f" "ctx + 48 \<noteq> f + 24" "ctx + 56 \<noteq> f" "ctx + 56 \<noteq> f + 24" "ctx + 128 \<noteq> f" "ctx + 128 \<noteq> f + 24"
    "regs c RBP \<noteq> ctx + 48" "regs c RBP \<noteq> ctx + 56" "regs c RBP \<noteq> ctx + 128"
    using frame_untouched [OF assms(3), of 0 6] frame_untouched [OF assms(3), of 0 7] frame_untouched [OF assms(3), of 0 16]
      frame_untouched [OF assms(3), of 1 6] frame_untouched [OF assms(3), of 1 7] frame_untouched [OF assms(3), of 1 16]
      frame_untouched [OF assms(3), of 4 6] frame_untouched [OF assms(3), of 4 7] frame_untouched [OF assms(3), of 4 16]
    unfolding ctx_def f_def by (simp_all add: add.assoc eq_commute)
  define k where "k = (stk c1)(ctx + ctx_offset RBP := stk c (regs c RBP), ctx + ctx_offset RSP := stk c (f + 24), ctx + ctx_rip := stk c f)"
  obtain k' s' where r: "(k', s') = fold (\<lambda>p. run p f ctx) ps (k, s)" by (metis surj_pair)
  define c2 where "c2 = c1\<lparr>stk := k', regs := (regs c1)(RSP := ctx)\<rparr>"
  have g: "regs c1 RBP = regs c RBP" "regs c1 RSP = ctx" by (simp_all add: c1_def save_context_regs ctx_def)
  have kk: "(let k = stk c1; k = k(ctx + ctx_offset RBP := k (regs c RBP)); k = k(ctx + ctx_offset RSP := k (f + 24)) in k(ctx + ctx_rip := k f)) = k"
    using f0 ne by (simp add: k_def Let_def ctx_rip_def)
  have w: "InterruptWrapper run la v irq (c, s, h) = Some (leave_iretq (fold exec restore_context c2), s', MmioWrite (local_apic_address la + 0xb0) 0 # h)"
  proof -
    have "InvokeChainHandlers run v irq f ctx (k, s) = Some (k', s')" using run_chain_all [OF assms(4)] r by (simp add: InvokeChainHandlers_def)
    then show ?thesis using g kk unfolding InterruptWrapper_def prod.case c1_def [symmetric] Let_def
      by (simp add: f_def c2_def LocalApic_EOI_def lapic_Write_def)
  qed
  have sl: "k (ctx + ctx_offset r) = regs c r" if "r \<in> saved" for r
  proof -
    have "ctx_offset r \<noteq> 48" "ctx_offset r \<noteq> 56" "ctx_offset r \<noteq> 128" using that by (cases r; simp add: saved_def)+
    then show ?thesis using save_context_slots [OF that, of c] by (simp add: k_def c1_def ctx_def ctx_rip_def)
  qed
  have re: "regs (fold exec restore_context c2) r = k' (ctx + ctx_offset r)" if "r \<in> saved" for r
    using restore_context_regs(1) [OF that, of c2] by (simp add: c2_def)
  have fin: "regs (leave_iretq (fold exec restore_context c2)) r = k' (ctx + ctx_offset r)" if "r \<in> saved" for r
    using re [OF that] that by (simp add: leave_iretq_def Let_def saved_def)
  have rest: "regs (leave_iretq (fold exec restore_context c2)) RBP = k' (regs c RBP)" "rip (leave_iretq (fold exec restore_context c2)) = k' f"
    "regs (leave_iretq (fold exec restore_context c2)) RSP = k' (f + 24)" "mxcsr (leave_iretq (fold exec restore_context c2)) = dword_at k' (ctx + ctx_fp) 6"
    using restore_context_regs(2,3,5) [of c2] g by (simp_all add: leave_iretq_def Let_def c2_def f_def)
  have env: "fenv (leave_iretq (fold exec restore_context c2)) i = dword_at k' (ctx + ctx_fp) i" if "i < 7" for i
    using restore_context_regs(4) [OF that, of c2] by (simp add: leave_iretq_def Let_def c2_def)
  have fp: "dword_at k (ctx + ctx_fp) i = dword_at (stk c1) (ctx + ctx_fp) i" if "i < 7" for i
  proof -
    have "i div 2 = 0 \<or> i div 2 = 1 \<or> i div 2 = 2 \<or> i div 2 = 3" using that by linarith
    then have "k (ctx + ctx_fp + 8 * of_nat (i div 2)) = stk c1 (ctx + ctx_fp + 8 * of_nat (i div 2))"
      by (elim disjE) (simp_all add: k_def ctx_fp_def ctx_rip_def add.assoc)
    then show ?thesis by (simp add: dword_at_def)
  qed
  have fps: "\<forall>i < 6. dword_at k (ctx + ctx_fp) i = fenv c i" "dword_at k (ctx + ctx_fp) 6 = mxcsr c"
    using fp save_context_fp [where c = c] by (simp_all add: c1_def ctx_def)
  have "k (regs c RBP) = stk c (regs c RBP)" "k f = stk c f" "k (f + 24) = stk c (f + 24)" "k (ctx + ctx_offset RBP) = stk c (regs c RBP)"
    "k (ctx + ctx_offset RSP) = stk c (f + 24)" "k (ctx + ctx_rip) = stk c f" using f0 ne by (auto simp: k_def ctx_rip_def)
  then show ?thesis using r w sl fin rest env fps unfolding saved_def by blast
qed

definition demo_icpu :: icpu where
  "demo_icpu = \<lparr>regs = (\<lambda>r. if r = RSP then 0x8000 else if r = RBP then 0x9000 else 7 + ctx_offset r), stk = \<lambda>a. a + 1, rip = 0,
     fenv = (\<lambda>i. 0xFFFF0000 + of_nat i), mxcsr = 0x1F80\<rparr>"

theorem InterruptWrapper_transparent_witness:
  "\<exists>c'. InterruptWrapper (\<lambda>p f ctx (k, s). (k, p # s)) \<lparr>local_apic_address = 0xFEE00000, bus_freq = 0\<rparr>
      (fold (InstallChainHandler 33) [1, 2] \<lparr>base_irq_addr = 0, handlers = \<lambda>_. None, handler_next = \<lambda>_. None, is_exception = \<lambda>_. False\<rparr>) 33
      (demo_icpu, [], []) = Some (c', [1, 2], [MmioWrite 0xFEE000b0 0]) \<and> regs c' R15 = 127 \<and> rip c' = 0x9009 \<and> regs c' RSP = 0x9021 \<and>
      fenv c' 5 = 0xFFFF0005 \<and> fenv c' 6 = 0x1F80 \<and> mxcsr c' = 0x1F80"
proof -
  let ?run = "\<lambda>p f ctx (k, s). (k, p # s)" and ?la = "\<lparr>local_apic_address = 0xFEE00000, bus_freq = 0\<rparr> :: LocalApic"
  let ?v0 = "\<lparr>base_irq_addr = 0, handlers = \<lambda>_. None, handler_next = \<lambda>_. None, is_exception = \<lambda>_. False\<rparr> :: IrqVector"
  let ?v = "fold (InstallChainHandler 33) [1, 2] ?v0"
  have fa: "frame_above demo_icpu" by (simp add: frame_above_def demo_icpu_def)
  have ch: "handler_chain (handler_next ?v) (handlers ?v 33) [2, 1]" by (simp add: InstallChainHandler_def)
  from InterruptWrapper_transparent [OF fa ch, where run = ?run and s = "[]" and la = ?la and h = "[]"]
  show ?thesis by (auto simp: demo_icpu_def dest!: bspec [of _ _ R15])
qed

end
