(* ===== verification/Apic_Timer.thy ===== *)
theory Apic_Timer
  imports Apic
begin

text \<open>
  \<^verbatim>\<open>LocalApic::InitCpu\<close> (\<^verbatim>\<open>kern/apic.cc\<close>): the calibration of the timer against the clock of the hypervisor ends, and what it leaves in the registers.
\<close>

section \<open>The clock during the calibration\<close>

text \<open>A hypervisor that has published a stable record and does not touch it.\<close>

definition steady :: "(nat \<Rightarrow> KvmCpuTimeInfo) \<Rightarrow> KvmCpuTimeInfo \<Rightarrow> nat \<Rightarrow> bool" where
  "steady host r t \<longleftrightarrow> (\<forall>u \<ge> t. host u = r) \<and> ti_version r AND 1 = 0 \<and> shift_ok r \<and> flags r AND kTscStableBit \<noteq> 0"

lemma BootTime_steady:
  assumes "steady host r t"
  obtains t' where "t + 2 < t'" and "BootTime True host tsc t l = Some (time_at r (tsc (t + 2)), t', l)"
proof -
  have h: "host u = r" if "t \<le> u" for u using assms that by (simp add: steady_def)
  obtain k where k: "7 \<le> k" "snd (snd (snd (time_attempt host tsc t))) = t + k + 2"
    "fst (snd (snd (time_attempt host tsc t))) \<longleftrightarrow> ti_version (host (t + k + 1)) AND 1 \<noteq> 0 \<or> ti_version (host t) \<noteq> ti_version (host (t + k))"
    "fst (snd (time_attempt host tsc t)) = flags (host (t + k - 1))"
    "fst (time_attempt host tsc t) = sys_time (host (t + 1)) + fst (ProcessorNano host (t + 3) (tsc (t + 2) - tsc_ts (host (t + 2))))"
    by (rule time_attempt_round)
  have s: "ti_version r AND 1 = 0" "shift_ok r" "flags r AND kTscStableBit \<noteq> 0" using assms by (simp_all add: steady_def)
  have n: "fst (ProcessorNano host (t + 3) x) = of_nat (nano r x)" for x by (rule ProcessorNano_agree [OF _ s(2)]) (simp add: h)
  have "time_attempt host tsc t = (time_at r (tsc (t + 2)), flags r, False, t + k + 2)"
    using k s(1) h n by (intro prod_eqI) (simp_all add: time_at_def)
  then have "read_time host tsc t = Some (time_at r (tsc (t + 2)), flags r, t + k + 2)" by (subst read_time.simps) simp
  then show thesis using s(3) that [of "t + k + 2"] k(1) by (simp add: BootTime_def)
qed

lemma calibrate_wait_steady:
  assumes "steady host r t" and "\<forall>u \<ge> N. 10000000 \<le> time_at r (tsc u) - start"
  shows "\<exists>u t'. t \<le> u \<and> u < t' \<and> 10000000 \<le> time_at r (tsc u) - start \<and> calibrate_wait host tsc start t l = Some (t', l)"
  using assms(1)
proof (induction "N - t" arbitrary: t rule: less_induct)
  case less
  obtain t1 where b: "t + 2 < t1" "BootTime True host tsc t l = Some (time_at r (tsc (t + 2)), t1, l)" by (rule BootTime_steady [OF less.prems])
  show ?case
  proof (cases "10000000 \<le> time_at r (tsc (t + 2)) - start")
    case True
    then have "calibrate_wait host tsc start t l = Some (t1, l)" using b(2) by (subst calibrate_wait.simps) (simp add: linorder_not_le [symmetric])
    then show ?thesis using True b(1) by (intro exI [of _ "t + 2"] exI [of _ t1]) simp
  next
    case False
    then have "t + 2 < N" using assms(2) linorder_not_less by blast
    then have "N - t1 < N - t" using b(1) by linarith
    moreover have "steady host r t1" using less.prems b(1) by (simp add: steady_def)
    ultimately obtain u t' where "t1 \<le> u" "u < t'" "10000000 \<le> time_at r (tsc u) - start" "calibrate_wait host tsc start t1 l = Some (t', l)" using less.hyps by blast
    moreover have "calibrate_wait host tsc start t l = calibrate_wait host tsc start t1 l"
      using b(2) False by (subst calibrate_wait.simps) (simp add: linorder_not_le [symmetric])
    ultimately show ?thesis using b(1) by (intro exI [of _ u] exI [of _ t']) simp
  qed
qed

section \<open>Registers\<close>

text \<open>The value last written to a register, and the registers as \<^verbatim>\<open>InitCpu\<close> is to leave them for a bus frequency.\<close>

fun last_write :: "mmio_log \<Rightarrow> u64 \<Rightarrow> u32 option" where
  "last_write [] a = None"
| "last_write (MmioRead b # h) a = last_write h a"
| "last_write (MmioWrite b v # h) a = (if a = b then Some v else last_write h a)"

definition lapic_value :: "LocalApic \<Rightarrow> LocalApicRegister \<Rightarrow> mmio_log \<Rightarrow> u32 option" where
  "lapic_value la reg h = last_write h (local_apic_address la + ucast (lapic_offset reg))"

lemma lapic_offset_inj: "(ucast (lapic_offset x) :: u64) = ucast (lapic_offset y) \<longleftrightarrow> x = y"
  by (cases x; cases y; simp)

lemma lapic_value_Write [simp]: "lapic_value la reg (lapic_Write la reg' v h) = (if reg = reg' then Some v else lapic_value la reg h)"
  by (simp add: lapic_value_def lapic_Write_def lapic_offset_inj)

lemma lapic_value_Read [simp]: "lapic_value la reg (snd (lapic_Read dev la reg' h)) = lapic_value la reg h"
  by (simp add: lapic_value_def lapic_Read_def Let_def)

lemma lapic_value_event [simp]: "lapic_value la reg (MmioRead a # h) = lapic_value la reg h"
  by (simp add: lapic_value_def)

lemma lapic_bus_freq [simp]: "lapic_value (la\<lparr>bus_freq := f\<rparr>) = lapic_value la" "lapic_Write (la\<lparr>bus_freq := f\<rparr>) = lapic_Write la"
  "lapic_Read dev (la\<lparr>bus_freq := f\<rparr>) = lapic_Read dev la"
  by (intro ext; simp add: lapic_value_def lapic_Write_def lapic_Read_def)+

definition lapic_setup :: "u32 \<Rightarrow> (LocalApicRegister \<times> u32) list" where
  "lapic_setup freq = [(TASK_PRIORITY, 0), (LINT0, 0x10000), (LINT1, 0x10000), (PERF, 0x400), (DESTINATION_FORMAT, 0xFFFFFFFF), (LOGICAL_DESTINATION, 1),
     (SPURIOUS_INTERRUPT_VECTOR, 0x1FF), (TIMER_INITIAL_COUNT, max 0x1000 (freq div 512)), (TIMER, 0x20020), (TIMER_DIVIDE_CONFIG, 3), (Lapic_EOI, 0)]"

text \<open>The base register keeps its address and the flag of the boot processor, and gets the enable flag.\<close>

lemma bit_field: "bit (push_bit a (mask k) OR push_bit b 1 :: 'a :: len word) n \<longleftrightarrow> n < LENGTH('a) \<and> (a \<le> n \<and> n < a + k \<or> n = b)"
  by (auto simp: bit_or_iff bit_push_bit_iff bit_mask_iff bit_exp_iff)

lemma base_mask:
  "bit (0xFFFFF100 :: u32) n \<longleftrightarrow> n = 8 \<or> 12 \<le> n \<and> n < 32" "bit (0xFFFFF100 :: u64) n \<longleftrightarrow> n = 8 \<or> 12 \<le> n \<and> n < 32"
  "bit (0xFFFFFF100 :: u64) n \<longleftrightarrow> n = 8 \<or> 12 \<le> n \<and> n < 36" "bit (0x0F :: u32) n \<longleftrightarrow> n < 4" "bit (0x0F :: u64) n \<longleftrightarrow> n < 4"
  "bit (0x800 :: u32) n \<longleftrightarrow> n = 11" "bit (0x800 :: u64) n \<longleftrightarrow> n = 11"
proof -
  show "bit (0xFFFFF100 :: u32) n \<longleftrightarrow> n = 8 \<or> 12 \<le> n \<and> n < 32" using bit_field [of 12 20 8 n, where ?'a = 32] by (auto simp: mask_eq_exp_minus_1)
  show "bit (0xFFFFF100 :: u64) n \<longleftrightarrow> n = 8 \<or> 12 \<le> n \<and> n < 32" using bit_field [of 12 20 8 n, where ?'a = 64] by (auto simp: mask_eq_exp_minus_1)
  show "bit (0xFFFFFF100 :: u64) n \<longleftrightarrow> n = 8 \<or> 12 \<le> n \<and> n < 36" using bit_field [of 12 24 8 n, where ?'a = 64] by (auto simp: mask_eq_exp_minus_1)
  show "bit (0x0F :: u32) n \<longleftrightarrow> n < 4" using bit_field [of 0 4 0 n, where ?'a = 32] by (auto simp: mask_eq_exp_minus_1)
  show "bit (0x0F :: u64) n \<longleftrightarrow> n < 4" using bit_field [of 0 4 0 n, where ?'a = 64] by (auto simp: mask_eq_exp_minus_1)
  show "bit (0x800 :: u32) n \<longleftrightarrow> n = 11" using bit_field [of 0 0 11 n, where ?'a = 32] by (auto simp: mask_eq_exp_minus_1)
  show "bit (0x800 :: u64) n \<longleftrightarrow> n = 11" using bit_field [of 0 0 11 n, where ?'a = 64] by (auto simp: mask_eq_exp_minus_1)
qed

lemma CpuGetAPICBase_bits: "CpuGetAPICBase c = msrs c kApicBaseMSR AND 0xFFFFFF100"
proof (rule bit_word_eqI)
  fix n assume "n < LENGTH(64)"
  then show "bit (CpuGetAPICBase c) n = bit (msrs c kApicBaseMSR AND 0xFFFFFF100) n"
    unfolding CpuGetAPICBase_def GetMSR_def edx_eax_def Let_def prod.case CpuMSRValue.select_convs bit_or_iff bit_and_iff bit_push_bit_iff bit_unsigned_iff bit_drop_bit_eq base_mask comp_def
    by (cases "n < 32") auto
qed

lemma CpuSetAPICBase_bits: "msrs (CpuSetAPICBase a c) kApicBaseMSR = a AND 0xFFFFFF100 OR 0x800"
proof (rule bit_word_eqI)
  have e: "msrs (CpuSetAPICBase a c) kApicBaseMSR =
      push_bit 32 (ucast (ucast (drop_bit 32 a AND 0x0F) :: u32)) OR ucast (ucast (a AND 0xFFFFF100) OR 0x800 :: u32)"
    unfolding CpuSetAPICBase_def SetMSR_def kApicBaseMSREnable_def Let_def by simp
  fix n assume "n < LENGTH(64)"
  then show "bit (msrs (CpuSetAPICBase a c) kApicBaseMSR) n = bit (a AND 0xFFFFFF100 OR 0x800) n"
    unfolding e bit_or_iff bit_and_iff bit_push_bit_iff bit_unsigned_iff bit_drop_bit_eq base_mask comp_def
    by (cases "n < 32") auto
qed

lemma APIC_base: "msrs (CpuSetAPICBase (CpuGetAPICBase c) c) kApicBaseMSR = msrs c kApicBaseMSR AND 0xFFFFFF100 OR 0x800"
  by (simp add: CpuSetAPICBase_bits CpuGetAPICBase_bits and.assoc)

lemma bus_frequency_eq: "((0xFFFFFFFF - w) + 1) * 16 * 100 = 1600 * (- w)" for w :: u32
proof -
  have "(0xFFFFFFFF :: u32) = - 1" by simp
  then show ?thesis by (simp only: mult.assoc) simp
qed

lemma init_count_eq: "(if f div 32 div 16 < 0x1000 then 0x1000 else f div 32 div 16) = max 0x1000 (f div 512)" for f :: u32
proof -
  have "f div 32 div 16 = f div 512" by (simp add: word_unat_eq_iff unat_div_distrib div_mult2_eq [symmetric])
  then show ?thesis by (auto simp: max_def)
qed

section \<open>Properties\<close>

text \<open>
  C19. \<^verbatim>\<open>InitCpu\<close> ends and sets up the local APIC. On the boot processor, with a clock record the hypervisor has published as stable and a time stamp counter that goes on for ten milliseconds,
  the wait ends, at least ten milliseconds after it began; the counter is read with the timer stopped, started from its highest value. The bus frequency is sixteen hundred times the ticks counted,
  modulo \<open>2\<^sup>3\<^sup>2\<close>. If that is zero the kernel panics; otherwise the processor's APIC is enabled at its address, and every register has the value that the frequency asks for, the timer periodic on vector 32.
\<close>
theorem InitCpu_calibrates:
  assumes "steady host r (mc_loads mc)" and "\<forall>u \<ge> N. 10000000 \<le> time_at r (tsc u) - time_at r (tsc (mc_loads mc + 2))"
    and "bus_freq la = 0" and "cpu_id (mc_cpu mc) = 0" and "MapPage (KPTR_TO_PADDR (local_apic_address la)) False True (mc_pt mc) = Inr pt"
  shows "\<exists>u t h count freq. mc_loads mc + 2 < u \<and> u < t \<and> 10000000 \<le> time_at r (tsc u) - time_at r (tsc (mc_loads mc + 2)) \<and>
    lapic_value la TIMER h = Some 0x10000 \<and> lapic_value la TIMER_INITIAL_COUNT h = Some 0xFFFFFFFF \<and>
    count = dev h (local_apic_address la + ucast (lapic_offset TIMER_CURRENT_COUNT)) \<and> unat freq = 1600 * unat (- count) mod 2 ^ 32 \<and>
    (if freq = 0 then InitCpu dev host tsc la mc = Some (Inl (Panic ''bus_freq''))
     else \<exists>mc'. InitCpu dev host tsc la mc = Some (Inr (la\<lparr>bus_freq := freq\<rparr>, mc')) \<and> mc_pt mc' = pt \<and> mc_loads mc' = t \<and>
       msrs (mc_cpu mc') kApicBaseMSR = msrs (mc_cpu mc) kApicBaseMSR AND 0xFFFFFF100 OR 0x800 \<and>
       (\<forall>(reg, v) \<in> set (lapic_setup freq). lapic_value la reg (mc_mmio mc') = Some v))"
proof -
  let ?t = "mc_loads mc" and ?la = "\<lambda>f. la\<lparr>bus_freq := f\<rparr>"
  let ?start = "time_at r (tsc (?t + 2))" and ?cc = "local_apic_address la + ucast (lapic_offset TIMER_CURRENT_COUNT)"
  obtain t1 where b: "?t + 2 < t1" "BootTime True host tsc ?t (mc_last mc) = Some (?start, t1, mc_last mc)" by (rule BootTime_steady [OF assms(1)])
  have "steady host r t1" using assms(1) b(1) by (simp add: steady_def)
  from calibrate_wait_steady [OF this assms(2)] obtain u t where w: "t1 \<le> u" "u < t" "10000000 \<le> time_at r (tsc u) - ?start"
    "calibrate_wait host tsc ?start t1 (mc_last mc) = Some (t, mc_last mc)" by blast
  define h0 where "h0 = lapic_Write la SPURIOUS_INTERRUPT_VECTOR 0x1FF (lapic_Write la LOGICAL_DESTINATION 1 (lapic_Write la DESTINATION_FORMAT 0xFFFFFFFF (lapic_Write la PERF 0x400
    (lapic_Write la TIMER 0x10000 (lapic_Write la LINT1 0x10000 (lapic_Write la LINT0 0x10000 (lapic_Write la TASK_PRIORITY 0 (mc_mmio mc))))))))"
  define h where "h = lapic_Write la TIMER 0x10000 (lapic_Write la TIMER_INITIAL_COUNT 0xFFFFFFFF (lapic_Write la TIMER_DIVIDE_CONFIG 3 (lapic_Write la TIMER 32 h0)))"
  define freq where "freq = ((0xFFFFFFFF - dev h ?cc) + 1) * 16 * 100"
  define c where "c = CpuSetAPICBase (CpuGetAPICBase (mc_cpu mc)) (mc_cpu mc)"
  have "cpu_id c = 0" using assms(4) by (simp add: c_def cpu_id_def CpuSetAPICBase_def SetMSR_def Let_def)
  then have cal: "calibrate dev host tsc la (mc\<lparr>mc_pt := pt, mc_cpu := c, mc_mmio := h0\<rparr>) =
      Some (Inr (?la freq, mc\<lparr>mc_pt := pt, mc_cpu := c, mc_mmio := MmioRead ?cc # h, mc_loads := t, mc_last := mc_last mc\<rparr>))"
    using b(2) w(4) by (simp add: calibrate_def Let_def lapic_Read_def h_def freq_def)
  have f: "freq = 1600 * (- dev h ?cc)" unfolding freq_def bus_frequency_eq ..
  have "unat freq = 1600 * unat (- dev h ?cc) mod 2 ^ 32" unfolding f unat_word_ariths(2) by simp
  moreover have "lapic_value la TIMER h = Some 0x10000" "lapic_value la TIMER_INITIAL_COUNT h = Some 0xFFFFFFFF" by (simp_all add: h_def)
  moreover define h2 where "h2 = LocalApic_EOI la (snd (lapic_Read dev la SPURIOUS_INTERRUPT_VECTOR (lapic_Write la TIMER_DIVIDE_CONFIG 3 (lapic_Write la TIMER 0x20020
    (lapic_Write la TIMER_INITIAL_COUNT (max 0x1000 (freq div 512)) (MmioRead ?cc # h))))))"
  have "InitCpu dev host tsc la mc = (if freq = 0 then Some (Inl (Panic ''bus_freq''))
      else Some (Inr (?la freq, mc\<lparr>mc_pt := pt, mc_cpu := c, mc_mmio := h2, mc_loads := t, mc_last := mc_last mc\<rparr>)))"
    using cal assms(3,5) unfolding InitCpu_def Let_def init_count_eq by (simp add: h0_def c_def h2_def LocalApic_EOI_def split_beta)
  moreover have "\<forall>(reg, v) \<in> set (lapic_setup freq). lapic_value la reg h2 = Some v"
    by (simp add: lapic_setup_def h2_def LocalApic_EOI_def h_def h0_def)
  moreover have "msrs c kApicBaseMSR = msrs (mc_cpu mc) kApicBaseMSR AND 0xFFFFFF100 OR 0x800" unfolding c_def by (rule APIC_base)
  ultimately show ?thesis using b(1) w(1-3) by (intro exI [of _ u] exI [of _ t] exI [of _ h] exI [of _ "dev h ?cc"] exI [of _ freq]) simp
qed

text \<open>A counter that stands at zero for a while, and a timer that has counted \<open>2\<^sup>2\<^sup>0\<close> ticks when it is read.\<close>

definition example_record :: KvmCpuTimeInfo where
  "example_record = \<lparr>ti_version = 2, tsc_ts = 0, sys_time = 0, tsc_to_sys_mul = 0x80000000, tsc_shift = 0, flags = 1\<rparr>"

definition example_tsc :: "nat \<Rightarrow> u64" where
  "example_tsc u = (if u < 20 then 0 else 40000000)"

definition example_lapic :: LocalApic where
  "example_lapic = \<lparr>local_apic_address = PADDR_TO_KPTR 0xFEE00000, bus_freq = 0\<rparr>"

definition example_machine :: machine where
  "example_machine = \<lparr>mc_pt = demo_pt, mc_cpu = \<lparr>msrs = \<lambda>_. 0xFEE00100, rflags = 0, gs = 0, halted = False\<rparr>, mc_mmio = [], mc_ports = [], mc_loads = 0, mc_last = 0\<rparr>"

theorem InitCpu_calibrates_witness:
  "\<exists>mc'. InitCpu (\<lambda>_ _. 0xFFF00000) (\<lambda>_. example_record) example_tsc example_lapic example_machine = Some (Inr (example_lapic\<lparr>bus_freq := 1677721600\<rparr>, mc')) \<and>
     msrs (mc_cpu mc') kApicBaseMSR = 0xFEE00900 \<and> lapic_value example_lapic TIMER (mc_mmio mc') = Some 0x20020 \<and> lapic_value example_lapic TIMER_INITIAL_COUNT (mc_mmio mc') = Some 3276800"
proof -
  have s: "steady (\<lambda>_. example_record) example_record (mc_loads example_machine)" by (simp add: steady_def example_record_def shift_ok_def kTscStableBit_def)
  have n: "\<forall>u \<ge> 20. 10000000 \<le> time_at example_record (example_tsc u) - time_at example_record (example_tsc (mc_loads example_machine + 2))"
    by (simp add: time_at_def nano_def example_record_def example_tsc_def example_machine_def)
  have l: "bus_freq example_lapic = 0" "cpu_id (mc_cpu example_machine) = 0" "KPTR_TO_PADDR (local_apic_address example_lapic) = 0xFEE00000" "mc_pt example_machine = demo_pt"
    by (simp_all add: example_lapic_def example_machine_def cpu_id_def PADDR_TO_KPTR_def KPTR_TO_PADDR_def)
  obtain pt where m: "MapPage (KPTR_TO_PADDR (local_apic_address example_lapic)) False True (mc_pt example_machine) = Inr pt"
    unfolding l using MapPage_view [OF demo_pt_inv, where p = "0xFEE00000" and wt = False and cd = True] by (auto simp: stores_def free_path_def demo_unmapped)
  have f: "freq = 1677721600" if "unat freq = 1600 * unat (- (0xFFF00000 :: u32)) mod 2 ^ 32" for freq :: u32
    using that by (simp add: word_unat_eq_iff)
  obtain freq where "unat freq = 1600 * unat (- (0xFFF00000 :: u32)) mod 2 ^ 32" "if freq = 0 then InitCpu (\<lambda>_ _. 0xFFF00000) (\<lambda>_. example_record) example_tsc example_lapic example_machine = Some (Inl (Panic ''bus_freq''))
     else \<exists>mc'. InitCpu (\<lambda>_ _. 0xFFF00000) (\<lambda>_. example_record) example_tsc example_lapic example_machine = Some (Inr (example_lapic\<lparr>bus_freq := freq\<rparr>, mc')) \<and>
       msrs (mc_cpu mc') kApicBaseMSR = msrs (mc_cpu example_machine) kApicBaseMSR AND 0xFFFFFF100 OR 0x800 \<and>
       (\<forall>(reg, v) \<in> set (lapic_setup freq). lapic_value example_lapic reg (mc_mmio mc') = Some v)"
    using InitCpu_calibrates [where dev = "\<lambda>_ _. 0xFFF00000", OF s n l(1,2) m] by metis
  then show ?thesis using f [of freq] by (auto simp: lapic_setup_def example_machine_def max_def)
qed

end
