(* ===== verification/Memory_Loads.thy ===== *)
theory Memory_Loads
  imports Io_Ports Libc_String
begin

text \<open>
  Loads of little-endian words from the bytes of memory, as the packed structures of the boot loader and of the firmware are read.
\<close>

definition load16 :: "mem \<Rightarrow> u64 \<Rightarrow> u16" where
  "load16 m a = le16 (m a) (m (a + 1))"

definition load32 :: "mem \<Rightarrow> u64 \<Rightarrow> u32" where
  "load32 m a = le32 (m a) (m (a + 1)) (m (a + 2)) (m (a + 3))"

definition load64 :: "mem \<Rightarrow> u64 \<Rightarrow> u64" where
  "load64 m a = ucast (load32 m a) OR push_bit 32 (ucast (load32 m (a + 4)))"

end
