(* ===== verification/Heap_Objects.thy ===== *)
theory Heap_Objects
  imports Vector Memory_Loads
begin

text \<open>
  Objects on the heap: the little-endian bytes of their fields, the result of \<^verbatim>\<open>new\<close>, and what stays the same when
  one block is written. The laws of \<^verbatim>\<open>new\<close> and \<^verbatim>\<open>PushBack\<close> are stated over the blocks handed out (\<open>heap_res\<close>).
\<close>

section \<open>Bytes of words\<close>

definition bytes32 :: "u32 \<Rightarrow> u8 list" where
  "bytes32 w = [ucast w, ucast (drop_bit 8 w), ucast (drop_bit 16 w), ucast (drop_bit 24 w)]"

definition bytes64 :: "u64 \<Rightarrow> u8 list" where
  "bytes64 w = bytes32 (ucast w) @ bytes32 (ucast (drop_bit 32 w))"

lemma length_bytes [simp]: "length (bytes32 w) = 4" "length (bytes64 v) = 8"
  by (simp_all add: bytes32_def bytes64_def)

lemma le32_join: "le32 (ucast w) (ucast (drop_bit 8 w)) (ucast (drop_bit 16 w)) (ucast (drop_bit 24 w)) = w"
  by (simp add: word_bits le32_def bit_simps)

lemma load32_bytes: "bytes_at m p (bytes32 w) \<Longrightarrow> load32 m p = w"
proof -
  assume "bytes_at m p (bytes32 w)"
  then have "m p = ucast w \<and> m (p + 1) = ucast (drop_bit 8 w) \<and> m (p + 2) = ucast (drop_bit 16 w) \<and> m (p + 3) = ucast (drop_bit 24 w)"
    by (simp add: bytes_at_def bytes32_def numeral_eq_Suc All_less_Suc at_def)
  then show ?thesis by (simp add: load32_def le32_join)
qed

lemma load64_bytes: "bytes_at m p (bytes64 w) \<Longrightarrow> load64 m p = w"
proof -
  assume "bytes_at m p (bytes64 w)"
  then have "load32 m p = ucast w" "load32 m (p + 4) = ucast (drop_bit 32 w)"
    by (auto simp: bytes64_def bytes_at_append at_def intro: load32_bytes)
  moreover have "ucast (ucast w :: u32) OR push_bit 32 (ucast (ucast (drop_bit 32 w) :: u32)) = w"
    by (rule bit_word_eqI) (auto simp: bit_simps)
  ultimately show ?thesis by (simp add: load64_def)
qed

lemma bytes64_inj: "bytes64 p = bytes64 q \<longleftrightarrow> p = q"
proof
  assume e: "bytes64 p = bytes64 q"
  have "bytes_at (put_bytes (bytes64 p) 0 (\<lambda>_. 0)) 0 (bytes64 p)" by (rule put_bytes_at) simp
  then show "p = q" using load64_bytes [of _ 0 p] load64_bytes [of _ 0 q] e by metis
qed simp

section \<open>Blocks\<close>

text \<open>An object of \<open>n\<close> bytes at \<open>p\<close>, in a block of its own.\<close>

definition object_in :: "(u64 \<times> nat) set \<Rightarrow> u64 \<Rightarrow> nat \<Rightarrow> bool" where
  "object_in B p n \<longleftrightarrow> (\<exists>z. (p, z) \<in> B \<and> n \<le> z)"

lemma operator_new_run:
  assumes "heap_res R km B" and "ctz_safe ctz0 (int n)" and "2 \<le> n" and "n \<le> 2048"
  shows "operator_new ctz0 clz0 (of_nat n) km = Inl NullDeref \<and> free_pages km \<le> 2 \<or>
    (\<exists>p z km'. operator_new ctz0 clz0 (of_nat n) km = Inr (p, km') \<and> heap_res R km' (insert (p, z) B) \<and> n \<le> z \<and>
      p \<noteq> 0 \<and> (\<forall>b \<in> B. fst b \<noteq> p) \<and> nr_pgs km' = nr_pgs km \<and> free_pages km \<le> free_pages km' + 2)"
proof -
  have n: "i32 (uint (of_nat n :: u64)) = int n" using assms(4) by (intro i32_of_nat) simp
  have sz: "2 \<le> int n" "int n \<le> 2048" using assms(3,4) by simp_all
  note pg = Alloc_small_pages [OF assms(1,2) sz, of clz0]
  have "size_ok km (int n)" using assms(3,4) by (simp add: size_ok_def)
  from Alloc_heap [OF assms(1,2) this, of clz0] show ?thesis
  proof (elim disjE exE conjE)
    fix p km' assume a: "Alloc ctz0 clz0 (int n) km = Inr (p, km')" "(p, block_size (int n)) \<notin> B" "heap_res R km' (insert (p, block_size (int n)) B)"
    have "p \<noteq> 0" using heap_nonzero [OF a(3), of "(p, block_size (int n))"] by simp
    moreover have "fst b \<noteq> p" if "b \<in> B" for b using heap_block_start [OF a(3), of b "(p, block_size (int n))"] that a(2) by auto
    moreover have "n \<le> block_size (int n)" using block_size_ge [of "int n"] assms(3) by simp
    ultimately show ?thesis using a(1,3) n nr_pgs_same_phys [OF Alloc_phys [OF a(1)]] pg(2) [OF a(1)] by (auto simp: operator_new_def)
  qed (use pg(1) in \<open>simp add: operator_new_def n\<close>)
qed

text \<open>
  The step every owner of heap objects relies on: the blocks in \<open>K\<close> are still there with their bytes, the reserved pages too.
\<close>

definition kept :: "nat set \<Rightarrow> u64 set \<Rightarrow> (u64 \<times> nat) set \<Rightarrow> mem \<Rightarrow> (u64 \<times> nat) set \<Rightarrow> mem \<Rightarrow> bool" where
  "kept R K B m B' m' \<longleftrightarrow> pages_same R m m' \<and> (\<forall>b \<in> B. fst b \<in> K \<longrightarrow> b \<in> B' \<and> (\<forall>a \<in> block b. m' a = m a))"

lemma kept_refl [simp]: "kept R K B m B m"
  by (simp add: kept_def pages_same_def)

lemma kept_trans:
  assumes "kept R K B m B1 m1" and "kept R K B1 m1 B2 m2"
  shows "kept R K B m B2 m2"
  using assms pages_same_trans unfolding kept_def by metis

lemma kept_mono: "kept R K B m B' m' \<Longrightarrow> K' \<subseteq> K \<Longrightarrow> kept R K' B m B' m'"
  by (auto simp: kept_def)

lemma kept_object: "kept R K B m B' m' \<Longrightarrow> object_in B p n \<Longrightarrow> p \<in> K \<Longrightarrow> object_in B' p n"
  by (fastforce simp: kept_def object_in_def)

lemma kept_bytes:
  assumes "kept R K B m B' m'" and "object_in B p n" and "p \<in> K" and "bytes_at m (at p k) bs" and "k + length bs \<le> n"
  shows "bytes_at m' (at p k) bs"
proof -
  obtain z where z: "(p, z) \<in> B" "n \<le> z" using assms(2) by (auto simp: object_in_def)
  then have "m' (at p (k + i)) = m (at p (k + i))" if "i < length bs" for i
    using assms(1,3,5) that at_block [of "k + i" z p] by (fastforce simp: kept_def)
  then show ?thesis using assms(4) by (simp add: bytes_at_def at_at)
qed

lemma kept_vec:
  assumes "kept R K B m B' m'" and "vec_ok e xs v B m" and "capacity v = 0 \<or> vptr v \<in> K"
  shows "vec_ok e xs v B' m'"
proof (cases "capacity v = 0")
  case True
  then show ?thesis using assms(2) by (simp add: vec_ok_def bytes_at_def)
next
  case False
  then have K: "vptr v \<in> K" using assms(3) by simp
  obtain z where z: "(vptr v, z) \<in> B" "unat (capacity v) * e \<le> z" "length xs \<le> unat (capacity v)" using assms(2) False by (auto simp: vec_ok_def)
  have "length xs * e \<le> unat (capacity v) * e" using z(3) by (rule mult_le_mono1)
  moreover have "length (concat xs) = length xs * e" using assms(2) by (intro length_concat_elems) (simp add: vec_ok_def)
  ultimately have "length (concat xs) \<le> z" using z(2) by linarith
  then have "bytes_at m' (vptr v) (concat xs)"
    using kept_bytes [OF assms(1), of "vptr v" z 0 "concat xs"] z(1) K assms(2) by (auto simp: object_in_def vec_ok_def)
  moreover have "\<exists>y. (vptr v, y) \<in> B' \<and> unat (capacity v) * e \<le> y" using assms(1) z(1,2) K by (fastforce simp: kept_def)
  ultimately show ?thesis using assms(2) False by (simp add: vec_ok_def)
qed

lemma no_room_small: "no_room km (int n) \<Longrightarrow> n \<le> 2048 \<Longrightarrow> free_pages km \<le> 2"
  by (simp add: no_room_def)

lemma PushBack_run:
  assumes "heap_res R km B" and "vec_ok e xs v B m" and "0 < e" and "length x = e"
    and "length xs < unat (capacity v) \<or> size_ok km (int (next_capacity v * e)) \<and> ctz_safe ctz0 (int (next_capacity v * e))"
  defines "small \<equiv> length xs = unat (capacity v) \<longrightarrow> next_capacity v * e \<le> 2048"
  shows "PushBack ctz0 clz0 (of_nat e) x (v, km, m) = Inl NullDeref \<and> (small \<longrightarrow> free_pages km \<le> 2) \<or>
    (\<exists>v' km' m' B'. PushBack ctz0 clz0 (of_nat e) x (v, km, m) = Inr (v', km', m') \<and> heap_res R km' B' \<and> vec_ok e (xs @ [x]) v' B' m' \<and>
      kept R (- {vptr v}) B m B' m' \<and> capacity v' \<noteq> 0 \<and> (vptr v' = vptr v \<or> (\<forall>b \<in> B. fst b \<noteq> vptr v')) \<and> nr_pgs km' = nr_pgs km \<and>
      (small \<longrightarrow> free_pages km \<le> free_pages km' + 2))"
proof -
  have l: "len v = of_nat (length xs)" using assms(2) by (simp add: vec_ok_def)
  have c: "capacity v' \<noteq> 0" if "vec_ok e (xs @ [x]) v' B' m'" for v' B' m' using that by (auto simp: vec_ok_def)
  let ?ins = "Insert ctz0 clz0 (of_nat e) (of_nat (length xs)) x (v, km, m)"
  have p: "PushBack ctz0 clz0 (of_nat e) x (v, km, m) = ?ins" by (simp add: PushBack_def l)
  consider "?ins = Inl NullDeref" "small \<longrightarrow> free_pages km \<le> 2"
    | (ok) v' km' m' B' where "?ins = Inr (v', km', m')" "heap_res R km' B'" "vec_ok e (xs @ [x]) v' B' m'" "others_same v B m B' m'" "vptr v' = vptr v \<or> (\<forall>b \<in> B. fst b \<noteq> vptr v')"
        "pages_same R m m'" "nr_pgs km' = nr_pgs km" "small \<longrightarrow> free_pages km \<le> free_pages km' + 2"
    using Insert_run [OF assms(1-3) le_refl assms(4,5), of clz0] no_room_small [of km "next_capacity v * e"]
    unfolding small_def take_all [OF le_refl] drop_all [OF le_refl] by blast
  then show ?thesis
  proof cases
    case (ok v' km' m' B')
    have "kept R (- {vptr v}) B m B' m'" using ok(4,6) by (auto simp: kept_def others_same_def)
    then show ?thesis unfolding p using ok c [OF ok(3)] by blast
  qed (simp add: p)
qed

text \<open>Writing inside one block leaves the others as they are.\<close>

lemma kept_write:
  assumes "heap_res R km B" and "(p, z) \<in> B" and "\<forall>a. a \<notin> block (p, z) \<longrightarrow> m' a = m a"
  shows "kept R (- {p}) B m B m'"
  using block_write_apart [OF assms(1,2), where m' = m' and m = m] assms(3) by (auto simp: kept_def)

lemma put_bytes_block: "k + length bs \<le> z \<Longrightarrow> a \<notin> block (p, z) \<Longrightarrow> put_bytes bs (at p k) m a = m a"
  using at_block [of _ z p] by (intro put_bytes_other) (fastforce simp: at_at)

end
