(* ===== verification/Acpi_Objects.thy ===== *)
theory Acpi_Objects
  imports Apic Heap_Objects
begin

text \<open>
  The objects the ACPI code keeps on the heap (\<^verbatim>\<open>kern/acpi.h\<close>, \<^verbatim>\<open>kern/apic.h\<close>): the local APIC, the I/O APICs and the vectors of processors and of pointers to I/O APICs,
  with their layout in bytes, and what adding an element or an object does to all of them.
\<close>

section \<open>Data\<close>

record AcpiCPU =
  acpi_cpu_id :: u32
  local_apic_id :: u32
  enabled :: bool

text \<open>The members of the class; \<^verbatim>\<open>local_apic_\<close> is a pointer to a heap object.\<close>

record Acpi =
  local_apic :: u64
  acpi_lapic_address :: u64
  cpus :: BaseVector
  io_apics :: BaseVector
  cpu_count :: u32

definition Acpi_members :: Acpi where
  "Acpi_members = \<lparr>local_apic = 0, acpi_lapic_address = 0, cpus = Vector_ctor, io_apics = Vector_ctor, cpu_count = 0\<rparr>"

definition cpus_count :: "Acpi \<Rightarrow> u32" where "cpus_count a = cpu_count a"

text \<open>What the language leaves open: the results of the bit-scan built-ins at zero, and the padding of the local \<^verbatim>\<open>AcpiCPU\<close> made from the table entry at an address.\<close>

record unspecified =
  ctz_zero :: nat
  clz_zero :: int
  padding :: "u64 \<Rightarrow> u8 \<times> u8 \<times> u8"

section \<open>Layout\<close>

definition sizeof_AcpiCPU :: nat where "sizeof_AcpiCPU = 12"

definition AcpiCPU_bytes :: "u8 \<times> u8 \<times> u8 \<Rightarrow> AcpiCPU \<Rightarrow> u8 list" where
  "AcpiCPU_bytes = (\<lambda>(x, y, z) c. bytes32 (acpi_cpu_id c) @ bytes32 (local_apic_id c) @ [of_bool (enabled c), x, y, z])"

definition load_AcpiCPU :: "mem \<Rightarrow> u64 \<Rightarrow> AcpiCPU" where
  "load_AcpiCPU m p = \<lparr>acpi_cpu_id = load32 m p, local_apic_id = load32 m (p + 4), enabled = (m (p + 8) \<noteq> 0)\<rparr>"

text \<open>\<^verbatim>\<open>local_apic_address\<close>, the base in \<^verbatim>\<open>registers\<close>, and \<^verbatim>\<open>bus_freq\<close>.\<close>

definition sizeof_LocalApic :: nat where "sizeof_LocalApic = 24"

definition store_LocalApic :: "LocalApic \<Rightarrow> u64 \<Rightarrow> mem \<Rightarrow> mem" where
  "store_LocalApic la p m =
     put_bytes (bytes32 (bus_freq la)) (at p 16) (put_bytes (bytes64 (local_apic_address la)) (at p 8) (put_bytes (bytes64 (local_apic_address la)) (at p 0) m))"

definition load_LocalApic :: "mem \<Rightarrow> u64 \<Rightarrow> LocalApic" where
  "load_LocalApic m p = \<lparr>local_apic_address = load64 m p, bus_freq = load32 m (p + 16)\<rparr>"

text \<open>\<^verbatim>\<open>id_\<close>, \<^verbatim>\<open>addr\<close>, \<^verbatim>\<open>interrupt_base\<close> and the address in \<^verbatim>\<open>registers\<close>.\<close>

definition sizeof_IoApic :: nat where "sizeof_IoApic = 32"

definition store_IoApic :: "IoApic \<Rightarrow> u64 \<Rightarrow> mem \<Rightarrow> mem" where
  "store_IoApic ioa p m =
     put_bytes (bytes64 (ioapic_addr ioa)) (at p 24) (put_bytes (bytes32 (interrupt_base ioa)) (at p 16)
       (put_bytes (bytes64 (ioapic_addr ioa)) (at p 8) (put_bytes (bytes32 (ioapic_id ioa)) (at p 0) m)))"

definition load_IoApic :: "mem \<Rightarrow> u64 \<Rightarrow> IoApic" where
  "load_IoApic m p = \<lparr>ioapic_id = load32 m p, ioapic_addr = load64 m (p + 8), interrupt_base = load32 m (p + 16)\<rparr>"

section \<open>New objects\<close>

definition new_LocalApic :: "unspecified \<Rightarrow> u64 \<Rightarrow> kmem \<times> mem \<Rightarrow> (u64 \<times> kmem \<times> mem) result" where
  "new_LocalApic u addr = (\<lambda>(km, m).
     ebind (operator_new (ctz_zero u) (clz_zero u) (of_nat sizeof_LocalApic) km) (\<lambda>(p, km).
     ebind (LocalApic_ctor addr) (\<lambda>la. Inr (p, km, store_LocalApic la p m))))"

definition new_IoApic :: "unspecified \<Rightarrow> u32 \<Rightarrow> u64 \<Rightarrow> u32 \<Rightarrow> kmem \<times> mem \<Rightarrow> (u64 \<times> kmem \<times> mem) result" where
  "new_IoApic u i addr base = (\<lambda>(km, m).
     ebind (operator_new (ctz_zero u) (clz_zero u) (of_nat sizeof_IoApic) km) (\<lambda>(p, km).
     ebind (IoApic_ctor i addr base) (\<lambda>ioa. Inr (p, km, store_IoApic ioa p m))))"

text \<open>The addresses a range-based \<^verbatim>\<open>for\<close> over a vector visits, from \<^verbatim>\<open>begin()\<close> to \<^verbatim>\<open>end()\<close>.\<close>

definition vec_addrs :: "nat \<Rightarrow> BaseVector \<Rightarrow> u64 list" where
  "vec_addrs e v = map (\<lambda>i. at (vec_begin v) (i * e)) [0..<unat (vec_size v)]"

section \<open>Objects in memory\<close>

definition LocalApic_at :: "(u64 \<times> nat) set \<Rightarrow> mem \<Rightarrow> u64 \<Rightarrow> LocalApic \<Rightarrow> bool" where
  "LocalApic_at B m p la \<longleftrightarrow> object_in B p 24 \<and> bytes_at m (at p 0) (bytes64 (local_apic_address la)) \<and>
     bytes_at m (at p 8) (bytes64 (local_apic_address la)) \<and> bytes_at m (at p 16) (bytes32 (bus_freq la))"

definition IoApic_at :: "(u64 \<times> nat) set \<Rightarrow> mem \<Rightarrow> u64 \<Rightarrow> IoApic \<Rightarrow> bool" where
  "IoApic_at B m p ioa \<longleftrightarrow> object_in B p 32 \<and> bytes_at m (at p 0) (bytes32 (ioapic_id ioa)) \<and> bytes_at m (at p 8) (bytes64 (ioapic_addr ioa)) \<and>
     bytes_at m (at p 16) (bytes32 (interrupt_base ioa)) \<and> bytes_at m (at p 24) (bytes64 (ioapic_addr ioa))"

lemma load_LocalApic_at: "LocalApic_at B m p la \<Longrightarrow> load_LocalApic m p = la"
  by (cases la) (simp add: LocalApic_at_def load_LocalApic_def load64_bytes load32_bytes at_def)

lemma load_IoApic_at: "IoApic_at B m p ioa \<Longrightarrow> load_IoApic m p = ioa"
  by (cases ioa) (simp add: IoApic_at_def load_IoApic_def load64_bytes load32_bytes at_def)

lemma AcpiCPU_bytes_length [simp]: "length (AcpiCPU_bytes pad c) = 12"
  by (cases pad) (simp add: AcpiCPU_bytes_def)

lemma load_AcpiCPU_at: "bytes_at m p (AcpiCPU_bytes pad c) \<Longrightarrow> load_AcpiCPU m p = c"
proof -
  obtain x y z where pad: "pad = (x, y, z)" by (cases pad)
  assume "bytes_at m p (AcpiCPU_bytes pad c)"
  then have b: "bytes_at m p (bytes32 (acpi_cpu_id c))" "bytes_at m (p + 4) (bytes32 (local_apic_id c))" "bytes_at m (p + 8) [of_bool (enabled c), x, y, z]"
    by (simp_all add: pad AcpiCPU_bytes_def bytes_at_append at_def add.commute)
  have "m (p + 8) = of_bool (enabled c)" using b(3) unfolding bytes_at_def by (auto dest: spec [of _ 0])
  then show ?thesis using load32_bytes [OF b(1)] load32_bytes [OF b(2)] by (simp add: load_AcpiCPU_def)
qed

lemma LocalApic_at_kept: "kept R K B m B' m' \<Longrightarrow> p \<in> K \<Longrightarrow> LocalApic_at B m p la \<Longrightarrow> LocalApic_at B' m' p la"
  unfolding LocalApic_at_def by (elim conjE, intro conjI) (auto intro: kept_object kept_bytes kept_bytes [where k = 0, simplified])

lemma IoApic_at_kept: "kept R K B m B' m' \<Longrightarrow> p \<in> K \<Longrightarrow> IoApic_at B m p ioa \<Longrightarrow> IoApic_at B' m' p ioa"
  unfolding IoApic_at_def by (elim conjE, intro conjI) (auto intro: kept_object kept_bytes kept_bytes [where k = 0, simplified])

lemma put_bytes_field:
  assumes "bytes_at m (at p i) bs" and "i + length bs \<le> k \<or> k + length bs' \<le> i" and "i + length bs < 2 ^ 64" and "k + length bs' < 2 ^ 64"
  shows "bytes_at (put_bytes bs' (at p k) m) (at p i) bs"
  unfolding bytes_at_def
proof (intro allI impI)
  fix j assume j: "j < length bs"
  have "at p (i + j) \<noteq> at p (k + l)" if "l < length bs'" for l using that j assms(2-4) at_inj [of "i + j" "k + l" p] by auto
  then have "put_bytes bs' (at p k) m (at p (i + j)) = m (at p (i + j))" by (intro put_bytes_other) (auto simp: at_at)
  then show "put_bytes bs' (at p k) m (at (at p i) j) = bs ! j" using assms(1) j by (simp add: bytes_at_def at_at)
qed

lemma put_bytes_fresh: "length bs < 2 ^ 64 \<Longrightarrow> bytes_at (put_bytes bs (at p k) m) (at p k) bs"
  by (rule put_bytes_at)

lemma store_LocalApic_at: "object_in B p 24 \<Longrightarrow> LocalApic_at B (store_LocalApic la p m) p la"
  unfolding LocalApic_at_def store_LocalApic_def by (intro conjI) (auto intro!: put_bytes_field put_bytes_fresh put_bytes_field [where i = 0, simplified] put_bytes_fresh [where k = 0, simplified])

lemma store_IoApic_at: "object_in B p 32 \<Longrightarrow> IoApic_at B (store_IoApic ioa p m) p ioa"
  unfolding IoApic_at_def store_IoApic_def by (intro conjI) (auto intro!: put_bytes_field put_bytes_fresh put_bytes_field [where i = 0, simplified] put_bytes_fresh [where k = 0, simplified])

lemma store_block:
  "24 \<le> z \<Longrightarrow> a \<notin> block (p, z) \<Longrightarrow> store_LocalApic la p m a = m a"
  "32 \<le> z \<Longrightarrow> a \<notin> block (p, z) \<Longrightarrow> store_IoApic ioa p m a = m a"
  by (simp_all add: store_LocalApic_def store_IoApic_def put_bytes_block [where z = z and p = p] put_bytes_block [where k = 0 and z = z, simplified])

section \<open>The objects of one Acpi\<close>

definition AcpiCPU_of :: "u8 list \<Rightarrow> AcpiCPU \<Rightarrow> bool" where
  "AcpiCPU_of x c \<longleftrightarrow> (\<exists>pad. x = AcpiCPU_bytes pad c)"

lemma AcpiCPU_of_bytes [simp]: "AcpiCPU_of (AcpiCPU_bytes pad c) c"
  unfolding AcpiCPU_of_def by blast

text \<open>The blocks an \<^verbatim>\<open>Acpi\<close> owns, given the I/O APICs its vector points to.\<close>

definition owned :: "Acpi \<Rightarrow> u64 list \<Rightarrow> u64 list" where
  "owned a ps = (if local_apic a = 0 then [] else [local_apic a]) @ (if capacity (cpus a) = 0 then [] else [vptr (cpus a)]) @
     (if capacity (io_apics a) = 0 then [] else [vptr (io_apics a)]) @ ps"

text \<open>
  \<open>acpi_rel K B m a la cs ios\<close>: on the heap of the blocks \<open>B\<close>, \<open>a\<close> stands for the local APIC \<open>la\<close>, the processors \<open>cs\<close> and the I/O APICs \<open>ios\<close>; its objects are in separate blocks, none of them
  one of the blocks \<open>K\<close> of somebody else.
\<close>

definition acpi_parts :: "(u64 \<times> nat) set \<Rightarrow> mem \<Rightarrow> Acpi \<Rightarrow> u8 list list \<Rightarrow> u8 list list \<Rightarrow> u64 list \<Rightarrow> LocalApic option \<Rightarrow> AcpiCPU list \<Rightarrow> IoApic list \<Rightarrow> bool" where
  "acpi_parts B m a xs ys ps la cs ios \<longleftrightarrow>
     (case la of None \<Rightarrow> local_apic a = 0 | Some l \<Rightarrow> local_apic a \<noteq> 0 \<and> LocalApic_at B m (local_apic a) l \<and> acpi_lapic_address a = local_apic_address l) \<and>
     vec_ok 12 xs (cpus a) B m \<and> list_all2 AcpiCPU_of xs cs \<and>
     vec_ok 8 ys (io_apics a) B m \<and> list_all2 (IoApic_at B m) ps ios \<and> cpu_count a = of_nat (length cs)"

definition acpi_rel :: "u64 set \<Rightarrow> (u64 \<times> nat) set \<Rightarrow> mem \<Rightarrow> Acpi \<Rightarrow> LocalApic option \<Rightarrow> AcpiCPU list \<Rightarrow> IoApic list \<Rightarrow> bool" where
  "acpi_rel K B m a la cs ios \<longleftrightarrow> (\<exists>xs ps. acpi_parts B m a xs (map bytes64 ps) ps la cs ios \<and> distinct (owned a ps) \<and> set (owned a ps) \<inter> K = {})"

lemma acpi_rel_start: "acpi_rel K B m Acpi_members None [] []"
  by (auto simp: acpi_rel_def acpi_parts_def owned_def Acpi_members_def Vector_ctor_ok Vector_ctor_def BaseVector_ctor_def
      intro!: exI [of _ "[]"] simp: Vector_ctor_ok [unfolded Vector_ctor_def BaseVector_ctor_def])

lemma owned_blocks:
  assumes "acpi_parts B m a xs ys ps la cs ios" and "p \<in> set (owned a ps)"
  shows "p \<in> fst ` B"
proof -
  have v: "\<exists>z. (vptr v, z) \<in> B" if "vec_ok e ys v B m" "capacity v \<noteq> 0" for e ys v using that by (auto simp: vec_ok_def)
  have "\<exists>z. (q, z) \<in> B" if "q \<in> set ps" for q
    using assms(1) that by (auto simp: acpi_parts_def list_all2_conv_all_nth in_set_conv_nth IoApic_at_def object_in_def)
  moreover have "\<exists>z. (local_apic a, z) \<in> B" if "local_apic a \<noteq> 0"
    using assms(1) that by (auto simp: acpi_parts_def LocalApic_at_def object_in_def split: option.splits)
  ultimately have "\<exists>z. (p, z) \<in> B" using assms v [of 12 xs "cpus a"] v [of 8 _ "io_apics a"] by (auto simp: owned_def acpi_parts_def split: if_splits)
  then show ?thesis by force
qed

text \<open>A step that keeps the blocks of an \<^verbatim>\<open>Acpi\<close> keeps what it stands for.\<close>

lemma acpi_parts_kept:
  assumes "acpi_parts B m a xs ys ps la cs ios" and "kept R K B m B' m'" and "set (owned a ps) \<subseteq> K"
  shows "acpi_parts B' m' a xs ys ps la cs ios"
proof -
  have "local_apic a \<noteq> 0 \<Longrightarrow> local_apic a \<in> K" "capacity (cpus a) = 0 \<or> vptr (cpus a) \<in> K" "capacity (io_apics a) = 0 \<or> vptr (io_apics a) \<in> K"
    and ps: "set ps \<subseteq> K" using assms(3) by (auto simp: owned_def split: if_splits)
  note k = this
  have "list_all2 (IoApic_at B' m') ps ios"
    using assms(1) ps IoApic_at_kept [OF assms(2)] unfolding acpi_parts_def list_all2_conv_all_nth by (meson nth_mem subsetD)
  then show ?thesis
    using assms(1) k kept_vec [OF assms(2)] LocalApic_at_kept [OF assms(2)] by (auto simp: acpi_parts_def split: option.splits)
qed

text \<open>A vector of the object with one more element: it is in the block it was in, or in a new one.\<close>

lemma pushed_apart:
  assumes "heap_res R km B" and "heap_res R km' B'" and "vec_ok e ys v' B' m'" and "capacity v' \<noteq> 0" and "vptr v' = vptr v \<or> (\<forall>b \<in> B. fst b \<noteq> vptr v')"
    and "S \<subseteq> fst ` B" and "capacity v \<noteq> 0 \<Longrightarrow> vptr v \<notin> S" and "capacity v = 0 \<Longrightarrow> vptr v = 0"
  shows "vptr v' \<notin> S" and "S \<subseteq> - {vptr v}"
proof -
  have nz: "p \<noteq> 0" if "p \<in> S" for p using heap_nonzero [OF assms(1)] assms(6) that by auto
  then show "S \<subseteq> - {vptr v}" using assms(7,8) by (cases "capacity v = 0") auto
  moreover have "vptr v' \<notin> S" if "\<forall>b \<in> B. fst b \<noteq> vptr v'" using that assms(6) by (metis (no_types) imageE subsetD)
  ultimately show "vptr v' \<notin> S" using assms(5) by auto
qed

text \<open>Enough page structures for vectors of \<open>n\<close> elements.\<close>

definition room :: "kmem \<Rightarrow> nat \<Rightarrow> bool" where
  "room km n \<longleftrightarrow> 24 * n \<le> 4096 * nr_pgs km \<and> n \<le> 2 ^ 26"

lemma vec_room:
  assumes "vec_ok e xs v B m" and "0 < e" and "e \<le> 12" and "length xs \<le> n" and "room km n"
  shows "length xs < unat (capacity v) \<or> size_ok km (int (next_capacity v * e))"
proof (cases "length xs < unat (capacity v)")
  case False
  then have l: "length xs = unat (capacity v)" using vec_ok_bounds(2) [OF assms(1,2)] by simp
  show ?thesis
  proof (cases "capacity v = 0")
    case True
    then show ?thesis using assms(2,3) by (simp add: size_ok_def next_capacity_def)
  next
    case False
    then have n: "next_capacity v * e = 2 * (length xs * e)" "1 \<le> length xs" using l unat_gt_0 [of "capacity v"] by (auto simp: next_capacity_def)
    have "length xs * e \<le> n * 12" using assms(3,4) by (intro mult_le_mono)
    then have b: "next_capacity v * e \<le> 24 * n" using n(1) by linarith
    moreover have "1 * 1 \<le> length xs * e" using n(2) assms(2) by (intro mult_le_mono) simp_all
    moreover have "nr_page_of (int (next_capacity v * e)) \<le> nr_pgs km"
      using b assms(5) unfolding nr_page_of_def room_def by linarith
    moreover have "2 \<le> next_capacity v * e" "next_capacity v * e \<le> 1610612736" using calculation n(1) assms(5) unfolding room_def by simp_all
    then have "2 \<le> int (next_capacity v * e)" "int (next_capacity v * e) \<le> 1610612736" by linarith+
    then have "2 \<le> int (next_capacity v * e)" "int (next_capacity v * e) \<le> 2 ^ 31 - 4096" by simp_all
    ultimately show ?thesis unfolding size_ok_def by blast
  qed
qed simp

text \<open>Vectors of at most 85 elements of at most 12 bytes stay within the size classes.\<close>

lemma vec_small:
  assumes "vec_ok e xs v B m" and "0 < e" and "e \<le> 12" and "length xs \<le> n" and "n \<le> 85"
  shows "length xs = unat (capacity v) \<longrightarrow> next_capacity v * e \<le> 2048"
proof
  assume l: "length xs = unat (capacity v)"
  have "length xs * e \<le> 85 * 12" using assms(3-5) by (intro mult_le_mono) simp_all
  then show "next_capacity v * e \<le> 2048" using assms(3) l by (auto simp: next_capacity_def mult.commute)
qed

lemma kept_starts: "kept R K B m B' m' \<Longrightarrow> K \<subseteq> fst ` B \<Longrightarrow> K \<subseteq> fst ` B'"
  by (force simp: kept_def)

lemma push_cpu:
  assumes "heap_res R km B" and "32 \<le> ctz0" and "acpi_rel K B m a la cs ios" and "K \<subseteq> fst ` B" and "length cs \<le> n" and "room km n"
  shows "PushBack ctz0 clz0 12 (AcpiCPU_bytes pad c) (cpus a, km, m) = Inl NullDeref \<and> (n \<le> 85 \<longrightarrow> free_pages km \<le> 2) \<or>
    (\<exists>v km' m' B'. PushBack ctz0 clz0 12 (AcpiCPU_bytes pad c) (cpus a, km, m) = Inr (v, km', m') \<and> heap_res R km' B' \<and>
      acpi_rel K B' m' (a\<lparr>cpus := v, cpu_count := cpu_count a + 1\<rparr>) la (cs @ [c]) ios \<and> kept R K B m B' m' \<and> nr_pgs km' = nr_pgs km \<and>
      (n \<le> 85 \<longrightarrow> free_pages km \<le> free_pages km' + 2))"
proof -
  obtain xs ps where a: "acpi_parts B m a xs (map bytes64 ps) ps la cs ios" "distinct (owned a ps)" "set (owned a ps) \<inter> K = {}"
    using assms(3) by (auto simp: acpi_rel_def)
  let ?x = "AcpiCPU_bytes pad c" and ?v = "cpus a"
  define a0 where "a0 = a\<lparr>cpus := Vector_ctor, cpu_count := 0\<rparr>"
  have p0: "acpi_parts B m a0 [] (map bytes64 ps) ps la [] ios" using a(1) by (auto simp: a0_def acpi_parts_def Vector_ctor_ok split: option.splits)
  have o: "set (owned a ps) = set (owned a0 ps) \<union> (if capacity ?v = 0 then {} else {vptr ?v})" "distinct (owned a0 ps)"
      "capacity ?v \<noteq> 0 \<Longrightarrow> vptr ?v \<notin> set (owned a0 ps)"
    using a(2) by (auto simp: owned_def a0_def Vector_ctor_def BaseVector_ctor_def)
  have v: "vec_ok 12 xs ?v B m" "length xs = length cs" using a(1) by (auto simp: acpi_parts_def dest: list_all2_lengthD)
  have z: "capacity ?v = 0 \<Longrightarrow> vptr ?v = 0" using v(1) by (simp add: vec_ok_def)
  have S: "set (owned a0 ps) \<union> K \<subseteq> fst ` B" using owned_blocks [OF p0] assms(4) by auto
  have n: "capacity ?v \<noteq> 0 \<Longrightarrow> vptr ?v \<notin> set (owned a0 ps) \<union> K" using o(1,3) a(3) by auto
  have r: "length xs < unat (capacity ?v) \<or> size_ok km (int (next_capacity ?v * 12)) \<and> ctz_safe ctz0 (int (next_capacity ?v * 12))"
    using vec_room [OF v(1) _ _ _ assms(6)] v(2) assms(2,5) by simp
  let ?push = "PushBack ctz0 clz0 12 ?x (?v, km, m)"
  have sm: "n \<le> 85 \<Longrightarrow> length xs = unat (capacity ?v) \<longrightarrow> next_capacity ?v * 12 \<le> 2048" using vec_small [OF v(1), of n] v(2) assms(5) by simp
  consider (fail) "?push = Inl NullDeref" "n \<le> 85 \<longrightarrow> free_pages km \<le> 2"
    | (ok) v' km' m' B' where "?push = Inr (v', km', m')" "heap_res R km' B'" "vec_ok 12 (xs @ [?x]) v' B' m'" "kept R (- {vptr ?v}) B m B' m'"
        "capacity v' \<noteq> 0" "vptr v' = vptr ?v \<or> (\<forall>b \<in> B. fst b \<noteq> vptr v')" "nr_pgs km' = nr_pgs km"
        "n \<le> 85 \<longrightarrow> free_pages km \<le> free_pages km' + 2"
    using PushBack_run [OF assms(1) v(1) zero_less_numeral AcpiCPU_bytes_length r, of clz0 pad c] sm unfolding of_nat_numeral by blast
  then show ?thesis
  proof cases
    case (ok v' km' m' B')
    note q = pushed_apart [OF assms(1) ok(2,3,5,6) S n z]
    have "acpi_parts B' m' a0 [] (map bytes64 ps) ps la [] ios" using acpi_parts_kept [OF p0 ok(4)] q(2) by blast
    then have "acpi_parts B' m' (a\<lparr>cpus := v', cpu_count := cpu_count a + 1\<rparr>) (xs @ [?x]) (map bytes64 ps) ps la (cs @ [c]) ios"
      using ok(3) a(1) by (auto simp: a0_def acpi_parts_def intro!: list_all2_appendI split: option.splits)
    moreover have "owned (a\<lparr>cpus := v', cpu_count := cpu_count a + 1\<rparr>) ps = (if local_apic a = 0 then [] else [local_apic a]) @ vptr v' #
        (if capacity (io_apics a) = 0 then [] else [vptr (io_apics a)]) @ ps" using ok(5) by (simp add: owned_def)
    then have "distinct (owned (a\<lparr>cpus := v', cpu_count := cpu_count a + 1\<rparr>) ps)" "set (owned (a\<lparr>cpus := v', cpu_count := cpu_count a + 1\<rparr>) ps) \<inter> K = {}"
      using q(1) o(1,2) a(3) by (auto simp: owned_def a0_def Vector_ctor_def BaseVector_ctor_def)
    moreover have "kept R K B m B' m'" using kept_mono [OF ok(4)] q(2) by blast
    ultimately show ?thesis using ok(1,2,7,8) unfolding acpi_rel_def by blast
  qed simp
qed

lemma new_object:
  assumes "heap_res R km B" and "32 \<le> ctz0" and "acpi_rel K B m a la cs ios" and "K \<subseteq> fst ` B" and "2 \<le> n" and "n \<le> 2048"
    and "\<forall>p z x. n \<le> z \<longrightarrow> x \<notin> block (p, z) \<longrightarrow> st p x = m x"
  shows "operator_new ctz0 clz0 (of_nat n) km = Inl NullDeref \<and> free_pages km \<le> 2 \<or>
    (\<exists>p km' B'. operator_new ctz0 clz0 (of_nat n) km = Inr (p, km') \<and> heap_res R km' B' \<and> object_in B' p n \<and> p \<noteq> 0 \<and> nr_pgs km' = nr_pgs km \<and>
      free_pages km \<le> free_pages km' + 2 \<and> kept R K B m B' (st p) \<and>
      (\<exists>xs ps. acpi_parts B' (st p) a xs (map bytes64 ps) ps la cs ios \<and> distinct (p # owned a ps) \<and> set (p # owned a ps) \<inter> K = {}))"
proof -
  obtain xs ps where a: "acpi_parts B m a xs (map bytes64 ps) ps la cs ios" "distinct (owned a ps)" "set (owned a ps) \<inter> K = {}"
    using assms(3) by (auto simp: acpi_rel_def)
  from operator_new_run [OF assms(1) ctz_safe_all [OF assms(2)] assms(5,6), of clz0] show ?thesis
  proof (elim disjE exE conjE)
    fix p z km' assume o: "operator_new ctz0 clz0 (of_nat n) km = Inr (p, km')" "heap_res R km' (insert (p, z) B)" "n \<le> z" "p \<noteq> 0" "\<forall>b \<in> B. fst b \<noteq> p"
      "nr_pgs km' = nr_pgs km" "free_pages km \<le> free_pages km' + 2"
    have f: "set (owned a ps) \<subseteq> - {p}" "K \<subseteq> - {p}" using owned_blocks [OF a(1)] assms(4) o(5) by blast+
    have "\<forall>x. x \<notin> block (p, z) \<longrightarrow> st p x = m x" using assms(7) o(3) by blast
    then have "kept R (- {p}) (insert (p, z) B) m (insert (p, z) B) (st p)" by (intro kept_write [OF o(2)]) auto
    then have k: "kept R (- {p}) B m (insert (p, z) B) (st p)" by (simp add: kept_def)
    have "acpi_parts (insert (p, z) B) (st p) a xs (map bytes64 ps) ps la cs ios" by (rule acpi_parts_kept [OF a(1) k f(1)])
    moreover have "distinct (p # owned a ps)" "set (p # owned a ps) \<inter> K = {}" using f a(2,3) by auto
    moreover have "object_in (insert (p, z) B) p n" using o(3) by (auto simp: object_in_def)
    ultimately show ?thesis using o(1,2,4,6,7) kept_mono [OF k f(2)] by blast
  qed simp
qed

lemma add_local_apic:
  assumes "heap_res R km B" and "32 \<le> ctz_zero u" and "acpi_rel K B m a None cs ios" and "K \<subseteq> fst ` B" and "addr \<noteq> 0"
  shows "new_LocalApic u addr (km, m) = Inl NullDeref \<and> free_pages km \<le> 2 \<or>
    (\<exists>p km' m' B'. new_LocalApic u addr (km, m) = Inr (p, km', m') \<and> heap_res R km' B' \<and> kept R K B m B' m' \<and> nr_pgs km' = nr_pgs km \<and>
      free_pages km \<le> free_pages km' + 2 \<and> acpi_rel K B' m' (a\<lparr>acpi_lapic_address := addr, local_apic := p\<rparr>) (Some \<lparr>local_apic_address = addr, bus_freq = 0\<rparr>) cs ios)"
proof -
  let ?la = "\<lparr>local_apic_address = addr, bus_freq = 0\<rparr>"
  have r: "new_LocalApic u addr (km, m) = ebind (operator_new (ctz_zero u) (clz_zero u) (of_nat 24) km) (\<lambda>(p, km). Inr (p, km, store_LocalApic ?la p m))"
    using assms(5) by (simp add: new_LocalApic_def sizeof_LocalApic_def LocalApic_ctor_def LocalApicRegisterAccessor_ctor_def kassert_def)
  have st: "\<forall>p z x. 24 \<le> z \<longrightarrow> x \<notin> block (p, z) \<longrightarrow> store_LocalApic ?la p m x = m x" using store_block(1) by blast
  have "2 \<le> (24 :: nat)" "24 \<le> (2048 :: nat)" by simp_all
  from new_object [where st = "\<lambda>p. store_LocalApic ?la p m", OF assms(1-4) this st, of "clz_zero u"] show ?thesis
  proof (elim disjE exE conjE)
    fix p km' B' xs ps
    assume o: "operator_new (ctz_zero u) (clz_zero u) (of_nat 24) km = Inr (p, km')" "heap_res R km' B'" "object_in B' p 24" "p \<noteq> 0" "nr_pgs km' = nr_pgs km"
      and fp: "free_pages km \<le> free_pages km' + 2" and o2:
      "kept R K B m B' (store_LocalApic ?la p m)" "acpi_parts B' (store_LocalApic ?la p m) a xs (map bytes64 ps) ps None cs ios"
      "distinct (p # owned a ps)" "set (p # owned a ps) \<inter> K = {}"
    note o = o o2
    let ?a = "a\<lparr>acpi_lapic_address := addr, local_apic := p\<rparr>"
    have "acpi_parts B' (store_LocalApic ?la p m) ?a xs (map bytes64 ps) ps (Some ?la) cs ios"
      using o(4,7) store_LocalApic_at [OF o(3)] by (simp add: acpi_parts_def)
    moreover have "owned ?a ps = p # owned a ps" using o(4,7) by (simp add: owned_def acpi_parts_def)
    ultimately have "acpi_rel K B' (store_LocalApic ?la p m) ?a (Some ?la) cs ios"
      unfolding acpi_rel_def using o(8,9) by (intro exI [of _ xs] exI [of _ ps]) simp
    moreover have "new_LocalApic u addr (km, m) = Inr (p, km', store_LocalApic ?la p m)" by (simp only: r o(1) ebind_Inr prod.case)
    ultimately show ?thesis using o(2,5,6) fp by blast
  qed (simp add: r)
qed

lemma add_io_apic:
  fixes i base :: u32
  assumes "heap_res R km B" and "32 \<le> ctz_zero u" and "acpi_rel K B m a la cs ios" and "K \<subseteq> fst ` B" and "addr \<noteq> 0"
    and "length ios \<le> n" and "room km n"
  defines "r \<equiv> ebind (new_IoApic u i addr base (km, m)) (\<lambda>(p, km, m). PushBack (ctz_zero u) (clz_zero u) 8 (bytes64 p) (io_apics a, km, m))"
  shows "r = Inl NullDeref \<and> (n \<le> 85 \<longrightarrow> free_pages km \<le> 4) \<or>
    (\<exists>v km' m' B'. r = Inr (v, km', m') \<and> heap_res R km' B' \<and> kept R K B m B' m' \<and> nr_pgs km' = nr_pgs km \<and>
      (n \<le> 85 \<longrightarrow> free_pages km \<le> free_pages km' + 4) \<and> acpi_rel K B' m' (a\<lparr>io_apics := v\<rparr>) la cs (ios @ [\<lparr>ioapic_id = i, ioapic_addr = addr, interrupt_base = base\<rparr>]))"
proof -
  let ?io = "\<lparr>ioapic_id = i, ioapic_addr = addr, interrupt_base = base\<rparr>"
  have st: "\<forall>p z x. 32 \<le> z \<longrightarrow> x \<notin> block (p, z) \<longrightarrow> store_IoApic ?io p m x = m x" using store_block(2) by blast
  have "2 \<le> (32 :: nat)" "32 \<le> (2048 :: nat)" by simp_all
  then consider (fail) "new_IoApic u i addr base (km, m) = Inl NullDeref" "free_pages km \<le> 2"
    | (ok) p km1 B1 xs ps where "new_IoApic u i addr base (km, m) = Inr (p, km1, store_IoApic ?io p m)" "heap_res R km1 B1" "object_in B1 p 32" "p \<noteq> 0" "nr_pgs km1 = nr_pgs km"
      "kept R K B m B1 (store_IoApic ?io p m)" "acpi_parts B1 (store_IoApic ?io p m) a xs (map bytes64 ps) ps la cs ios" "distinct (p # owned a ps)" "set (p # owned a ps) \<inter> K = {}"
      "free_pages km \<le> free_pages km1 + 2"
    using new_object [where st = "\<lambda>p. store_IoApic ?io p m", OF assms(1-4) _ _ st, of "clz_zero u"] assms(5)
    by (auto simp: new_IoApic_def sizeof_IoApic_def IoApic_ctor_def IoApicRegistersAccessor_ctor_def kassert_def)
  then show ?thesis
  proof cases
    case fail
    then show ?thesis by (simp add: r_def)
  next
    case (ok p km1 B1 xs ps)
    let ?v = "io_apics a" and ?m1 = "store_IoApic ?io p m"
    define a0 where "a0 = a\<lparr>io_apics := Vector_ctor\<rparr>"
    have p0: "acpi_parts B1 ?m1 a0 xs [] (ps @ [p]) la cs (ios @ [?io])"
      using ok(7) store_IoApic_at [OF ok(3), of ?io m] by (auto simp: a0_def acpi_parts_def Vector_ctor_ok intro!: list_all2_appendI split: option.splits)
    have o: "distinct (owned a0 (ps @ [p]))" "capacity ?v \<noteq> 0 \<Longrightarrow> vptr ?v \<notin> set (owned a0 (ps @ [p])) \<union> K" "set (owned a0 (ps @ [p])) \<inter> K = {}"
      using ok(8,9) by (auto simp: owned_def a0_def Vector_ctor_def BaseVector_ctor_def split: if_splits)
    have v: "vec_ok 8 (map bytes64 ps) ?v B1 ?m1" "length (map bytes64 ps) \<le> n" using ok(7) assms(6) by (auto simp: acpi_parts_def dest: list_all2_lengthD)
    have z: "capacity ?v = 0 \<Longrightarrow> vptr ?v = 0" using v(1) by (simp add: vec_ok_def)
    have S: "set (owned a0 (ps @ [p])) \<union> K \<subseteq> fst ` B1" using owned_blocks [OF p0] kept_starts [OF ok(6) assms(4)] by auto
    have "room km1 n" using assms(7) ok(5) by (simp add: room_def)
    then have ro: "length (map bytes64 ps) < unat (capacity ?v) \<or> size_ok km1 (int (next_capacity ?v * 8)) \<and> ctz_safe (ctz_zero u) (int (next_capacity ?v * 8))"
      using vec_room [OF v(1) _ _ v(2)] assms(2) by simp
    let ?push = "PushBack (ctz_zero u) (clz_zero u) 8 (bytes64 p) (?v, km1, ?m1)"
    have re: "r = ?push" by (simp add: r_def ok(1))
    have sm: "n \<le> 85 \<Longrightarrow> length (map bytes64 ps) = unat (capacity ?v) \<longrightarrow> next_capacity ?v * 8 \<le> 2048" using vec_small [OF v(1) _ _ v(2)] by simp
    consider (fail) "?push = Inl NullDeref" "n \<le> 85 \<longrightarrow> free_pages km1 \<le> 2"
      | (pushed) v' km' m' B' where "?push = Inr (v', km', m')" "heap_res R km' B'" "vec_ok 8 (map bytes64 ps @ [bytes64 p]) v' B' m'" "kept R (- {vptr ?v}) B1 ?m1 B' m'"
          "capacity v' \<noteq> 0" "vptr v' = vptr ?v \<or> (\<forall>b \<in> B1. fst b \<noteq> vptr v')" "nr_pgs km' = nr_pgs km1"
          "n \<le> 85 \<longrightarrow> free_pages km1 \<le> free_pages km' + 2"
      using PushBack_run [OF ok(2) v(1) zero_less_numeral length_bytes(2) ro, of "clz_zero u" p] sm unfolding of_nat_numeral by blast
    then show ?thesis
    proof cases
      case (pushed v' km' m' B')
      note q = pushed_apart [OF ok(2) pushed(2,3,5,6) S o(2) z]
      have "acpi_parts B' m' a0 xs [] (ps @ [p]) la cs (ios @ [?io])" using acpi_parts_kept [OF p0 pushed(4)] q(2) by blast
      then have "acpi_parts B' m' (a\<lparr>io_apics := v'\<rparr>) xs (map bytes64 (ps @ [p])) (ps @ [p]) la cs (ios @ [?io])"
        using pushed(3) by (auto simp: a0_def acpi_parts_def split: option.splits)
      moreover have "owned (a\<lparr>io_apics := v'\<rparr>) (ps @ [p]) = (if local_apic a = 0 then [] else [local_apic a]) @
          (if capacity (cpus a) = 0 then [] else [vptr (cpus a)]) @ vptr v' # ps @ [p]" using pushed(5) by (simp add: owned_def)
      then have "distinct (owned (a\<lparr>io_apics := v'\<rparr>) (ps @ [p]))" "set (owned (a\<lparr>io_apics := v'\<rparr>) (ps @ [p])) \<inter> K = {}"
        using q(1) o(1,3) by (auto simp: owned_def a0_def Vector_ctor_def BaseVector_ctor_def split: if_splits)
      ultimately have "acpi_rel K B' m' (a\<lparr>io_apics := v'\<rparr>) la cs (ios @ [?io])" unfolding acpi_rel_def by blast
      moreover have "kept R K B m B' m'" using kept_trans [OF ok(6) kept_mono [OF pushed(4)]] q(2) by blast
      moreover have "n \<le> 85 \<longrightarrow> free_pages km \<le> free_pages km' + 4" using pushed(8) ok(10) by auto
      ultimately show ?thesis using pushed(1,2,7) ok(5) re by auto
    qed (use ok(10) in \<open>auto simp: re\<close>)
  qed
qed

end
