(* ===== verification/Acpi.thy ===== *)
theory Acpi
  imports Acpi_Objects Memory_Loads
begin

text \<open>
  The ACPI tables and what the kernel does with them (\<^verbatim>\<open>kern/acpi.h\<close>, \<^verbatim>\<open>kern/acpi.cc\<close>). The tables are bytes of memory at kernel addresses; the parser
  builds its objects on the kernel heap, in the same memory. Its state is the \<^verbatim>\<open>Acpi\<close> object, the heap and the memory.
\<close>

section \<open>Tables\<close>

type_synonym acpi_state = "Acpi \<times> kmem \<times> mem"

text \<open>\<^verbatim>\<open>AcpiHeader\<close>, \<^verbatim>\<open>AcpiHeaderMADT\<close>, and the entries of the interrupt controller table, field by field at their packed offsets.\<close>

definition sizeof_AcpiHeader :: u64 where "sizeof_AcpiHeader = 36"
definition hdr_signature :: "mem \<Rightarrow> u64 \<Rightarrow> u32" where "hdr_signature m p = load32 m p"
definition hdr_length :: "mem \<Rightarrow> u64 \<Rightarrow> u32" where "hdr_length m p = load32 m (p + 4)"

definition sizeof_AcpiHeaderMADT :: u64 where "sizeof_AcpiHeaderMADT = 44"
definition madt_localApicAddr :: "mem \<Rightarrow> u64 \<Rightarrow> u32" where "madt_localApicAddr m p = load32 m (p + 36)"

datatype ApicType = LOCAL_APIC | IO_APIC | INTERRUPT_OVERRIDE | UnknownApicType u8

definition ApicType_of :: "u8 \<Rightarrow> ApicType" where
  "ApicType_of t = (if t = 0 then LOCAL_APIC else if t = 1 then IO_APIC else if t = 2 then INTERRUPT_OVERRIDE else UnknownApicType t)"

definition apic_type :: "mem \<Rightarrow> u64 \<Rightarrow> ApicType" where "apic_type m p = ApicType_of (m p)"
definition apic_length :: "mem \<Rightarrow> u64 \<Rightarrow> u8" where "apic_length m p = m (p + 1)"
definition lapic_acpiProcessorId :: "mem \<Rightarrow> u64 \<Rightarrow> u8" where "lapic_acpiProcessorId m p = m (p + 2)"
definition lapic_apicId :: "mem \<Rightarrow> u64 \<Rightarrow> u8" where "lapic_apicId m p = m (p + 3)"
definition lapic_flags :: "mem \<Rightarrow> u64 \<Rightarrow> u32" where "lapic_flags m p = load32 m (p + 4)"
definition io_ioApicId :: "mem \<Rightarrow> u64 \<Rightarrow> u8" where "io_ioApicId m p = m (p + 2)"
definition io_ioApicAddress :: "mem \<Rightarrow> u64 \<Rightarrow> u32" where "io_ioApicAddress m p = load32 m (p + 4)"
definition io_globalSystemInterrupt :: "mem \<Rightarrow> u64 \<Rightarrow> u32" where "io_globalSystemInterrupt m p = load32 m (p + 8)"

definition TableUint32 :: "u8 list \<Rightarrow> u32" where
  "TableUint32 s = push_bit 0 (scast (s ! 0)) OR push_bit 8 (scast (s ! 1)) OR push_bit 16 (scast (s ! 2)) OR push_bit 24 (scast (s ! 3))"

definition sig_APIC :: u32 where "sig_APIC = TableUint32 [65, 80, 73, 67]"

section \<open>Parsing\<close>

text \<open>One entry of the interrupt controller table.\<close>

definition parse_entry :: "unspecified \<Rightarrow> u64 \<Rightarrow> acpi_state \<Rightarrow> acpi_state result" where
  "parse_entry u p = (\<lambda>(a, km, m).
     case apic_type m p of
        LOCAL_APIC \<Rightarrow>
          let cpu = \<lparr>acpi_cpu_id = ucast (lapic_acpiProcessorId m p), local_apic_id = ucast (lapic_apicId m p), enabled = (1 = lapic_flags m p AND 1)\<rparr>
          in ebind (PushBack (ctz_zero u) (clz_zero u) (of_nat sizeof_AcpiCPU) (AcpiCPU_bytes (padding u p) cpu) (cpus a, km, m)) (\<lambda>(v, km, m).
             Inr (a\<lparr>cpus := v, cpu_count := cpu_count a + 1\<rparr>, km, m))
      | IO_APIC \<Rightarrow>
          ebind (new_IoApic u (ucast (io_ioApicId m p)) (PADDR_TO_KPTR (ucast (io_ioApicAddress m p))) (io_globalSystemInterrupt m p) (km, m)) (\<lambda>(ioa, km, m).
          ebind (PushBack (ctz_zero u) (clz_zero u) 8 (bytes64 ioa) (io_apics a, km, m)) (\<lambda>(v, km, m).
          Inr (a\<lparr>io_apics := v\<rparr>, km, m)))
      | INTERRUPT_OVERRIDE \<Rightarrow> Inr (a, km, m)
      | UnknownApicType _ \<Rightarrow> Inr (a, km, m))"

text \<open>The length of an entry is read before the entry is processed.\<close>

partial_function (option) parse_entries :: "unspecified \<Rightarrow> u64 \<Rightarrow> u64 \<Rightarrow> acpi_state \<Rightarrow> acpi_state result option" where
  "parse_entries u p e s =
     (if p < e then
        let length = apic_length (snd (snd s)) p
        in (case parse_entry u p s of Inl err \<Rightarrow> Some (Inl err) | Inr s \<Rightarrow> parse_entries u (p + ucast length) e s)
      else Some (Inr s))"

definition ParseTableAPIC :: "unspecified \<Rightarrow> u64 \<Rightarrow> acpi_state \<Rightarrow> acpi_state result option" where
  "ParseTableAPIC u header = (\<lambda>(a, km, m).
     if header = 0 then Some (Inl (Panic ''header''))
     else if madt_localApicAddr m header = 0 then Some (Inl (Panic ''header->localApicAddr''))
     else
       let addr = PADDR_TO_KPTR (ucast (madt_localApicAddr m header)); a = a\<lparr>acpi_lapic_address := addr\<rparr> in
       case new_LocalApic u addr (km, m) of Inl err \<Rightarrow> Some (Inl err)
       | Inr (la, km, m) \<Rightarrow> parse_entries u (header + sizeof_AcpiHeaderMADT) (header + ucast (hdr_length m header)) (a\<lparr>local_apic := la\<rparr>, km, m))"

definition ParseDT :: "unspecified \<Rightarrow> u64 \<Rightarrow> acpi_state \<Rightarrow> acpi_state result option" where
  "ParseDT u ptr s =
     (if ptr = 0 then Some (Inl (Panic ''ptr''))
      else if hdr_signature (snd (snd s)) ptr = sig_APIC then ParseTableAPIC u ptr s else Some (Inr s))"

partial_function (option) parse_tables :: "unspecified \<Rightarrow> u64 \<Rightarrow> u64 \<Rightarrow> acpi_state \<Rightarrow> acpi_state result option" where
  "parse_tables u p e s =
     (if p < e then
        (case ParseDT u (PADDR_TO_KPTR (ucast (load32 (snd (snd s)) p))) s of None \<Rightarrow> None
         | Some (Inl err) \<Rightarrow> Some (Inl err)
         | Some (Inr s) \<Rightarrow> parse_tables u (p + 4) e s)
      else Some (Inr s))"

definition ParseRSDT :: "unspecified \<Rightarrow> u64 \<Rightarrow> acpi_state \<Rightarrow> acpi_state result option" where
  "ParseRSDT u ptr s =
     (if ptr = 0 then Some (Inl (Panic ''ptr''))
      else parse_tables u (ptr + sizeof_AcpiHeader) (ptr + ucast (hdr_length (snd (snd s)) ptr)) s)"

definition ParseRSDP :: "unspecified \<Rightarrow> u64 \<Rightarrow> acpi_state \<Rightarrow> (bool \<times> acpi_state) result option" where
  "ParseRSDP u p s =
     (let m = snd (snd s); sum = fold (\<lambda>i s. s + m (p + of_nat i)) [0..<20] 0 in
      if sum \<noteq> 0 then Some (Inr (False, s))
      else
        let rev = m (p + 15) in
        if rev = 0 \<or> rev = 2 then
          let rsdt_addr = load32 m (p + 16) in
          if rsdt_addr = 0 then Some (Inl (Panic ''rsdt_addr''))
          else (case ParseRSDT u (PADDR_TO_KPTR (ucast rsdt_addr)) s of None \<Rightarrow> None
            | Some (Inl err) \<Rightarrow> Some (Inl err)
            | Some (Inr s) \<Rightarrow> Some (Inr (True, s)))
        else Some (Inr (False, s)))"

partial_function (option) scan_rsdp :: "unspecified \<Rightarrow> u64 \<Rightarrow> u64 \<Rightarrow> acpi_state \<Rightarrow> acpi_state result option" where
  "scan_rsdp u p e s =
     (if p < e then
        if load64 (snd (snd s)) p = 0x2052545020445352 then
          (case ParseRSDP u p s of None \<Rightarrow> None
           | Some (Inl err) \<Rightarrow> Some (Inl err)
           | Some (Inr (found, s)) \<Rightarrow> if found then Some (Inr s) else scan_rsdp u (p + 16) e s)
        else scan_rsdp u (p + 16) e s
      else Some (Inr s))"

text \<open>The pages from \<^verbatim>\<open>0xe0000\<close> to \<^verbatim>\<open>0x100000\<close> are mapped; the scan goes on to \<^verbatim>\<open>0x1000000\<close>.\<close>

fun map_bios :: "nat list \<Rightarrow> pt_state \<Rightarrow> pt_state result" where
  "map_bios [] st = Inr st"
| "map_bios (i # is) st = ebind (MapPage (0xe0000 + of_nat i * PAGESIZE) False True st) (map_bios is)"

text \<open>Page tables and heap take their pages from the same allocator: the copy in the page table state is handed to the heap after the mapping, and back at the end.\<close>

definition Acpi_Init :: "unspecified \<Rightarrow> acpi_state \<times> pt_state \<Rightarrow> (acpi_state \<times> pt_state) result option" where
  "Acpi_Init u = (\<lambda>((a, km, m), pt).
     case map_bios [0..<32] (pt\<lparr>pt_pages := km_pages km\<rparr>) of Inl err \<Rightarrow> Some (Inl err)
     | Inr pt \<Rightarrow> (case scan_rsdp u (PADDR_TO_KPTR 0xe0000) (PADDR_TO_KPTR 0x1000000) (a, km\<lparr>km_pages := pt_pages pt\<rparr>, m) of None \<Rightarrow> None
        | Some (Inl err) \<Rightarrow> Some (Inl err)
        | Some (Inr (a, km, m)) \<Rightarrow>
            if vec_size (io_apics a) = 0 then Some (Inl (Panic ''Unable to find IO APIC to setup interrupts.''))
            else Some (Inr ((a, km, m), pt\<lparr>pt_pages := km_pages km\<rparr>))))"

definition Acpi_ctor :: "unspecified \<Rightarrow> kmem \<times> mem \<times> pt_state \<Rightarrow> (acpi_state \<times> pt_state) result option" where
  "Acpi_ctor u = (\<lambda>(km, m, pt).
     case Acpi_Init u ((Acpi_members, km, m), pt) of None \<Rightarrow> None
      | Some (Inl err) \<Rightarrow> Some (Inl err)
      | Some (Inr ((a, km, m), pt)) \<Rightarrow> Some (kassert ''local_apic_'' (local_apic a \<noteq> 0) (Inr ((a, km, m), pt))))"

section \<open>Starting the other processors\<close>

text \<open>\<open>counter n\<close> is what the read number \<open>n\<close> of the counter of started processors returns.\<close>

partial_function (option) wait_started :: "(nat \<Rightarrow> u16) \<Rightarrow> u16 \<Rightarrow> nat \<Rightarrow> nat option" where
  "wait_started counter started n = (if counter n \<noteq> started then wait_started counter started (n + 1) else Some (n + 1))"

fun send_inits :: "LocalApic \<Rightarrow> u32 \<Rightarrow> AcpiCPU list \<Rightarrow> mmio_log \<Rightarrow> mmio_log" where
  "send_inits la bsp [] h = h"
| "send_inits la bsp (c # cs) h = (if local_apic_id c = bsp then send_inits la bsp cs h
     else send_inits la bsp cs (SendApicInit la (ucast (local_apic_id c)) h))"

fun start_cpus :: "(nat \<Rightarrow> u16) \<Rightarrow> LocalApic \<Rightarrow> u32 \<Rightarrow> AcpiCPU list \<Rightarrow> u16 \<Rightarrow> nat \<times> mmio_log \<Rightarrow> (nat \<times> mmio_log) option" where
  "start_cpus counter la bsp [] started (n, h) = Some (n, h)"
| "start_cpus counter la bsp (c # cs) started (n, h) =
     (if local_apic_id c = bsp then start_cpus counter la bsp cs started (n, h)
      else let h = SendApicStartup la (ucast (local_apic_id c)) 8 h in
        case wait_started counter (started + 1) n of None \<Rightarrow> None
        | Some n \<Rightarrow> start_cpus counter la bsp cs (started + 1) (n, h))"

text \<open>The processors and I/O APICs of the vectors, as the loops read them from memory.\<close>

definition cpu_elems :: "mem \<Rightarrow> Acpi \<Rightarrow> AcpiCPU list" where
  "cpu_elems m a = map (load_AcpiCPU m) (vec_addrs sizeof_AcpiCPU (cpus a))"

definition io_apic_elems :: "mem \<Rightarrow> Acpi \<Rightarrow> IoApic list" where
  "io_apic_elems m a = map (\<lambda>p. load_IoApic m (load64 m p)) (vec_addrs 8 (io_apics a))"

definition BootSmp :: "mmio_answers \<Rightarrow> (nat \<Rightarrow> u16) \<Rightarrow> u64 \<Rightarrow> u64 \<Rightarrow> Acpi \<Rightarrow> mem \<times> mmio_log \<Rightarrow> (mem \<times> mmio_log) result option" where
  "BootSmp dev counter smp_start smp_end a = (\<lambda>(m, h).
     case SetupSMPBootCode smp_start smp_end m of Inl err \<Rightarrow> Some (Inl err)
     | Inr m \<Rightarrow>
         if local_apic a = 0 then Some (Inl NullDeref)
         else
           let la = load_LocalApic m (local_apic a); (bsp_apic_id, h) = LocalApic_Id dev la h; h = send_inits la bsp_apic_id (cpu_elems m a) h
           in (case start_cpus counter la bsp_apic_id (cpu_elems m a) 0 (0, h) of None \<Rightarrow> None
               | Some (n, h) \<Rightarrow> Some (Inr (m, h))))"

fun InitIoApics_loop :: "mmio_answers \<Rightarrow> devices \<Rightarrow> IoApic list \<Rightarrow> machine \<Rightarrow> machine result" where
  "InitIoApics_loop dev ports [] mc = Inr mc"
| "InitIoApics_loop dev ports (ioa # is) mc = ebind (IoApic_Init dev ports ioa mc) (InitIoApics_loop dev ports is)"

definition InitIoApics :: "mmio_answers \<Rightarrow> devices \<Rightarrow> Acpi \<Rightarrow> mem \<Rightarrow> machine \<Rightarrow> machine result" where
  "InitIoApics dev ports a m mc = InitIoApics_loop dev ports (io_apic_elems m a) mc"

text \<open>\<^verbatim>\<open>local_apic()->InitCpu(&systime)\<close>: the object is on the heap, and \<^verbatim>\<open>bus_freq\<close> is written back to it.\<close>

definition acpi_InitCpu :: "mmio_answers \<Rightarrow> (nat \<Rightarrow> KvmCpuTimeInfo) \<Rightarrow> (nat \<Rightarrow> u64) \<Rightarrow> Acpi \<Rightarrow> mem \<times> machine \<Rightarrow> (mem \<times> machine) result option" where
  "acpi_InitCpu dev host tsc a = (\<lambda>(m, mc).
     if local_apic a = 0 then Some (Inl NullDeref)
     else case InitCpu dev host tsc (load_LocalApic m (local_apic a)) mc of None \<Rightarrow> None
       | Some (Inl err) \<Rightarrow> Some (Inl err)
       | Some (Inr (la, mc)) \<Rightarrow> Some (Inr (put_bytes (bytes32 (bus_freq la)) (local_apic a + 16) m, mc)))"

section \<open>Well-formed tables\<close>

datatype madt_entry =
    Cpu_Entry u8 u8 u8 u32       \<comment> \<open>length, processor, local APIC, flags\<close>
  | Io_Entry u8 u8 u32 u32       \<comment> \<open>length, I/O APIC, address, first interrupt\<close>
  | Other_Entry u8 u8            \<comment> \<open>length, type\<close>

primrec entry_length :: "madt_entry \<Rightarrow> u8" where
  "entry_length (Cpu_Entry l p i f) = l"
| "entry_length (Io_Entry l i d g) = l"
| "entry_length (Other_Entry l t) = l"

text \<open>\<open>A\<close> are the addresses the tables may occupy: \<open>n\<close> bytes at \<open>p\<close> lie among them.\<close>

definition bytes_in :: "u64 set \<Rightarrow> u64 \<Rightarrow> nat \<Rightarrow> bool" where
  "bytes_in A p n \<longleftrightarrow> (\<forall>i < n. p + of_nat i \<in> A)"

fun entry_at :: "u64 set \<Rightarrow> mem \<Rightarrow> u64 \<Rightarrow> madt_entry \<Rightarrow> bool" where
  "entry_at A m a (Cpu_Entry l p i f) \<longleftrightarrow> bytes_in A a 8 \<and> m a = 0 \<and> m (a + 1) = l \<and> m (a + 2) = p \<and> m (a + 3) = i \<and> load32 m (a + 4) = f"
| "entry_at A m a (Io_Entry l i d g) \<longleftrightarrow> bytes_in A a 12 \<and> m a = 1 \<and> m (a + 1) = l \<and> m (a + 2) = i \<and> load32 m (a + 4) = d \<and> load32 m (a + 8) = g"
| "entry_at A m a (Other_Entry l t) \<longleftrightarrow> bytes_in A a 2 \<and> m a = t \<and> m (a + 1) = l \<and> t \<noteq> 0 \<and> t \<noteq> 1"

fun entries_at :: "u64 set \<Rightarrow> mem \<Rightarrow> u64 \<Rightarrow> u64 \<Rightarrow> madt_entry list \<Rightarrow> u64 \<Rightarrow> bool" where
  "entries_at A m a e [] q \<longleftrightarrow> a = q"
| "entries_at A m a e (x # xs) q \<longleftrightarrow> a < e \<and> entry_at A m a x \<and> entries_at A m (a + ucast (entry_length x)) e xs q"

fun tables_at :: "u64 set \<Rightarrow> mem \<Rightarrow> u64 \<Rightarrow> u64 \<Rightarrow> u32 list \<Rightarrow> bool" where
  "tables_at A m a e [] \<longleftrightarrow> e \<le> a"
| "tables_at A m a e (t # ts) \<longleftrightarrow> a < e \<and> bytes_in A a 4 \<and> load32 m a = t \<and> tables_at A m (a + 4) e ts"

definition madt_at :: "u64 set \<Rightarrow> mem \<Rightarrow> u64 \<Rightarrow> u32 \<Rightarrow> madt_entry list \<Rightarrow> bool" where
  "madt_at A m p lapic es \<longleftrightarrow> bytes_in A p 44 \<and> hdr_signature m p = sig_APIC \<and> load32 m (p + 36) = lapic \<and> lapic \<noteq> 0 \<and>
     (\<exists>q. entries_at A m (p + 44) (p + ucast (load32 m (p + 4))) es q \<and> p + ucast (load32 m (p + 4)) \<le> q)"

definition rsdt_at :: "u64 set \<Rightarrow> mem \<Rightarrow> u64 \<Rightarrow> u32 list \<Rightarrow> bool" where
  "rsdt_at A m p ts \<longleftrightarrow> bytes_in A p 36 \<and> tables_at A m (p + 36) (p + ucast (load32 m (p + 4))) ts"

definition rsdp_at :: "mem \<Rightarrow> u64 \<Rightarrow> u32 \<Rightarrow> bool" where
  "rsdp_at m p rsdt \<longleftrightarrow> sum_list (map (\<lambda>i. m (p + of_nat i)) [0..<20]) = 0 \<and> m (p + 15) \<in> {0, 2} \<and> load32 m (p + 16) = rsdt \<and> rsdt \<noteq> 0"

text \<open>Another table than that of the interrupt controllers.\<close>

definition other_table :: "u64 set \<Rightarrow> mem \<Rightarrow> u32 \<Rightarrow> bool" where
  "other_table A m t \<longleftrightarrow> bytes_in A (PADDR_TO_KPTR (ucast t)) 4 \<and> hdr_signature m (PADDR_TO_KPTR (ucast t)) \<noteq> sig_APIC"

text \<open>The processors and I/O APICs a table lists.\<close>

fun madt_cpus :: "madt_entry list \<Rightarrow> AcpiCPU list" where
  "madt_cpus [] = []"
| "madt_cpus (Cpu_Entry l p i f # es) = \<lparr>acpi_cpu_id = ucast p, local_apic_id = ucast i, enabled = bit f 0\<rparr> # madt_cpus es"
| "madt_cpus (e # es) = madt_cpus es"

fun madt_io_apics :: "madt_entry list \<Rightarrow> IoApic list" where
  "madt_io_apics [] = []"
| "madt_io_apics (Io_Entry l i d g # es) = \<lparr>ioapic_id = ucast i, ioapic_addr = PADDR_TO_KPTR (ucast d), interrupt_base = g\<rparr> # madt_io_apics es"
| "madt_io_apics (e # es) = madt_io_apics es"

section \<open>Tables that keep their bytes\<close>

lemma bytes_in_same: "\<forall>x \<in> A. m' x = m x \<Longrightarrow> bytes_in A p n \<Longrightarrow> i < n \<Longrightarrow> m' (p + of_nat i) = m (p + of_nat i)"
  by (simp add: bytes_in_def)

lemma bytes_in_load32:
  assumes "\<forall>x \<in> A. m' x = m x" and "bytes_in A p n" and "k + 4 \<le> n"
  shows "load32 m' (p + of_nat k) = load32 m (p + of_nat k)"
proof -
  have "m' (p + of_nat k + of_nat i) = m (p + of_nat k + of_nat i)" if "i < 4" for i
    using bytes_in_same [OF assms(1,2), of "k + i"] that assms(3) by (simp add: add.assoc)
  from this [of 0] this [of 1] this [of 2] this [of 3] show ?thesis by (simp add: load32_def)
qed

lemma bytes_in_fields:
  assumes "\<forall>x \<in> A. m' x = m x" and "bytes_in A p n"
  shows "2 \<le> n \<Longrightarrow> m' p = m p" "2 \<le> n \<Longrightarrow> m' (p + 1) = m (p + 1)" "4 \<le> n \<Longrightarrow> m' (p + 2) = m (p + 2)" "4 \<le> n \<Longrightarrow> m' (p + 3) = m (p + 3)"
    "4 \<le> n \<Longrightarrow> load32 m' p = load32 m p" "8 \<le> n \<Longrightarrow> load32 m' (p + 4) = load32 m (p + 4)" "12 \<le> n \<Longrightarrow> load32 m' (p + 8) = load32 m (p + 8)"
    "40 \<le> n \<Longrightarrow> load32 m' (p + 36) = load32 m (p + 36)"
  using bytes_in_same [OF assms, of 0] bytes_in_same [OF assms, of 1] bytes_in_same [OF assms, of 2] bytes_in_same [OF assms, of 3]
    bytes_in_load32 [OF assms, of 0] bytes_in_load32 [OF assms, of 4] bytes_in_load32 [OF assms, of 8] bytes_in_load32 [OF assms, of 36]
  by simp_all

lemma entry_at_same:
  assumes "\<forall>x \<in> A. m' x = m x" and "entry_at A m p x"
  shows "entry_at A m' p x"
proof (cases x)
  case (Cpu_Entry l pr i f)
  then show ?thesis using assms(2) bytes_in_fields [OF assms(1), of p 8] by simp
next
  case (Io_Entry l i d g)
  then show ?thesis using assms(2) bytes_in_fields [OF assms(1), of p 12] by simp
next
  case (Other_Entry l t)
  then show ?thesis using assms(2) bytes_in_fields [OF assms(1), of p 2] by simp
qed

lemma entries_at_same: "\<forall>x \<in> A. m' x = m x \<Longrightarrow> entries_at A m p e es q \<Longrightarrow> entries_at A m' p e es q"
  by (induction es arbitrary: p) (auto intro: entry_at_same [where m = m])

lemma tables_at_same: "\<forall>x \<in> A. m' x = m x \<Longrightarrow> tables_at A m p e ts \<Longrightarrow> tables_at A m' p e ts"
proof (induction ts arbitrary: p)
  case (Cons t ts)
  then show ?case using bytes_in_fields(5) [OF Cons.prems(1), of p 4] by simp
qed simp

lemma other_table_same:
  assumes "\<forall>x \<in> A. m' x = m x" and "other_table A m t"
  shows "other_table A m' t"
  using assms(2) bytes_in_fields(5) [OF assms(1), of "PADDR_TO_KPTR (ucast t)" 4] by (simp add: other_table_def hdr_signature_def)

section \<open>What the parser builds\<close>

lemma KPTR_nonzero [simp]: "PADDR_TO_KPTR (ucast (w :: u32)) \<noteq> 0"
proof
  assume "PADDR_TO_KPTR (ucast w) = 0"
  then have "ucast w = - KERN_OFFSET" by (simp add: PADDR_TO_KPTR_def add_eq_0_iff2)
  then have "unat (ucast w :: u64) = unat (- KERN_OFFSET)" by simp
  then have "unat w = 2 ^ 40" by (simp add: KERN_OFFSET_def)
  then show False using unsigned_less [of w, where ?'a = nat] by simp
qed

lemma and_1_bit: "1 = w AND 1 \<longleftrightarrow> bit w 0" for w :: u32
  by (simp add: and_one_eq mod_2_eq_odd bit_0) 

text \<open>
  \<open>built R K n B la cs ios s\<close>: the heap is intact apart from the pages \<open>R\<close>, the parser's object stands for \<open>la\<close>, \<open>cs\<close> and \<open>ios\<close>, the blocks \<open>K\<close> are those of
  others, and there is room for \<open>n\<close> elements in either vector.
\<close>

definition built :: "nat set \<Rightarrow> u64 set \<Rightarrow> nat \<Rightarrow> (u64 \<times> nat) set \<Rightarrow> LocalApic option \<Rightarrow> AcpiCPU list \<Rightarrow> IoApic list \<Rightarrow> acpi_state \<Rightarrow> bool" where
  "built R K n B la cs ios = (\<lambda>(a, km, m). heap_res R km B \<and> acpi_rel K B m a la cs ios \<and> K \<subseteq> fst ` B \<and> room km n)"

lemma parse_entry_length: "entry_at A m p x \<Longrightarrow> apic_length m p = entry_length x"
  by (cases x) (simp_all add: apic_length_def)

lemma parse_entry_built:
  assumes "built R K n B la cs ios (a, km, m)" and "32 \<le> ctz_zero u" and "entry_at A m p x" and "length cs \<le> n" and "length ios \<le> n"
  shows "parse_entry u p (a, km, m) = Inl NullDeref \<and> (n \<le> 85 \<longrightarrow> free_pages km \<le> 4) \<or>
    (\<exists>a' km' m' B'. parse_entry u p (a, km, m) = Inr (a', km', m') \<and> built R K n B' la (cs @ madt_cpus [x]) (ios @ madt_io_apics [x]) (a', km', m') \<and> kept R K B m B' m' \<and>
      (n \<le> 85 \<longrightarrow> free_pages km \<le> free_pages km' + 4))"
proof -
  have h: "heap_res R km B" "acpi_rel K B m a la cs ios" "K \<subseteq> fst ` B" "room km n" using assms(1) by (simp_all add: built_def)
  have r: "nr_pgs km' = nr_pgs km \<Longrightarrow> room km' n" for km' using h(4) by (simp add: room_def)
  show ?thesis
  proof (cases x)
    case (Cpu_Entry l pr i f)
    let ?c = "\<lparr>acpi_cpu_id = ucast pr, local_apic_id = ucast i, enabled = bit f 0\<rparr>"
    let ?push = "PushBack (ctz_zero u) (clz_zero u) 12 (AcpiCPU_bytes (padding u p) ?c) (cpus a, km, m)"
    have e: "parse_entry u p (a, km, m) = ebind ?push (\<lambda>(v, km, m). Inr (a\<lparr>cpus := v, cpu_count := cpu_count a + 1\<rparr>, km, m))"
      using assms(3) Cpu_Entry by (simp add: parse_entry_def apic_type_def ApicType_of_def lapic_acpiProcessorId_def lapic_apicId_def lapic_flags_def and_1_bit sizeof_AcpiCPU_def)
    consider (fail) "?push = Inl NullDeref" "n \<le> 85 \<longrightarrow> free_pages km \<le> 2" | (ok) v km' m' B' where "?push = Inr (v, km', m')" "heap_res R km' B'"
        "acpi_rel K B' m' (a\<lparr>cpus := v, cpu_count := cpu_count a + 1\<rparr>) la (cs @ [?c]) ios" "kept R K B m B' m'" "nr_pgs km' = nr_pgs km"
        "n \<le> 85 \<longrightarrow> free_pages km \<le> free_pages km' + 2"
      using push_cpu [OF h(1) assms(2) h(2,3) assms(4) h(4), of "clz_zero u" "padding u p" ?c] by blast
    then show ?thesis
    proof cases
      case (ok v km' m' B')
      then have "built R K n B' la (cs @ madt_cpus [x]) (ios @ madt_io_apics [x]) (a\<lparr>cpus := v, cpu_count := cpu_count a + 1\<rparr>, km', m')"
        using Cpu_Entry r kept_starts [OF ok(4) h(3)] by (simp add: built_def)
      then show ?thesis using e ok(1,4,6) by fastforce
    qed (auto simp: e)
  next
    case (Io_Entry l i d g)
    let ?io = "\<lparr>ioapic_id = ucast i, ioapic_addr = PADDR_TO_KPTR (ucast d), interrupt_base = g\<rparr>"
    let ?push = "ebind (new_IoApic u (ucast i) (PADDR_TO_KPTR (ucast d)) g (km, m)) (\<lambda>(q, km, m). PushBack (ctz_zero u) (clz_zero u) 8 (bytes64 q) (io_apics a, km, m))"
    have e: "parse_entry u p (a, km, m) = ebind ?push (\<lambda>(v, km, m). Inr (a\<lparr>io_apics := v\<rparr>, km, m))"
      using assms(3) Io_Entry by (cases "new_IoApic u (ucast i) (PADDR_TO_KPTR (ucast d)) g (km, m)")
        (simp_all add: parse_entry_def apic_type_def ApicType_of_def io_ioApicId_def io_ioApicAddress_def io_globalSystemInterrupt_def split: prod.splits)
    consider (fail) "?push = Inl NullDeref" "n \<le> 85 \<longrightarrow> free_pages km \<le> 4" | (ok) v km' m' B' where "?push = Inr (v, km', m')" "heap_res R km' B'" "kept R K B m B' m'" "nr_pgs km' = nr_pgs km"
        "n \<le> 85 \<longrightarrow> free_pages km \<le> free_pages km' + 4"
        "acpi_rel K B' m' (a\<lparr>io_apics := v\<rparr>) la cs (ios @ [?io])"
      using add_io_apic [OF h(1) assms(2) h(2,3) KPTR_nonzero assms(5) h(4), of "ucast i" d g] by blast
    then show ?thesis
    proof cases
      case (ok v km' m' B')
      then have "built R K n B' la (cs @ madt_cpus [x]) (ios @ madt_io_apics [x]) (a\<lparr>io_apics := v\<rparr>, km', m')"
        using Io_Entry r kept_starts [OF ok(3) h(3)] by (simp add: built_def)
      then show ?thesis using e ok(1,3,5) by auto
    qed (simp add: e)
  next
    case (Other_Entry l t)
    then have "parse_entry u p (a, km, m) = Inr (a, km, m)" using assms(3) by (simp add: parse_entry_def apic_type_def ApicType_of_def)
    then show ?thesis using assms(1) Other_Entry kept_refl by (intro disjI2 exI [of _ a] exI [of _ km] exI [of _ m] exI [of _ B]) simp
  qed
qed

lemma madt_append: "madt_cpus (x # es) = madt_cpus [x] @ madt_cpus es" "madt_io_apics (x # es) = madt_io_apics [x] @ madt_io_apics es"
  by (cases x; simp)+

lemma madt_one: "length (madt_cpus [x]) \<le> 1" "length (madt_io_apics [x]) \<le> 1"
  by (cases x; simp)+

text \<open>The parser over well-formed entries, on pages the heap stays away from.\<close>

lemma parse_entries_built:
  assumes "entries_at (kpages R) m p e es q" and "32 \<le> ctz_zero u" and "built R K n B la cs ios (a, km, m)"
    and "length cs + length es \<le> n" and "length ios + length es \<le> n"
  shows "parse_entries u p e (a, km, m) = Some (Inl NullDeref) \<and> (n \<le> 85 \<longrightarrow> free_pages km \<le> 4 * length es) \<or>
    (\<exists>a' km' m' B'. parse_entries u p e (a, km, m) = parse_entries u q e (a', km', m') \<and>
      built R K n B' la (cs @ madt_cpus es) (ios @ madt_io_apics es) (a', km', m') \<and> kept R K B m B' m' \<and>
      (n \<le> 85 \<longrightarrow> free_pages km \<le> free_pages km' + 4 * length es))"
  using assms(1,3-)
proof (induction es arbitrary: p a km m B cs ios)
  case Nil
  then show ?case by (intro disjI2 exI [of _ a] exI [of _ km] exI [of _ m] exI [of _ B]) simp
next
  case (Cons x es)
  have x: "p < e" "entry_at (kpages R) m p x" "entries_at (kpages R) m (p + ucast (entry_length x)) e es q" using Cons.prems(1) by simp_all
  have st: "parse_entries u p e (a, km, m) =
      (case parse_entry u p (a, km, m) of Inl err \<Rightarrow> Some (Inl err) | Inr s \<Rightarrow> parse_entries u (p + ucast (entry_length x)) e s)"
    using x(1) parse_entry_length [OF x(2)] by (subst parse_entries.simps) (simp add: Let_def)
  have n: "length cs \<le> n" "length ios \<le> n" using Cons.prems(3,4) by simp_all
  consider (fail) "parse_entry u p (a, km, m) = Inl NullDeref" "n \<le> 85 \<longrightarrow> free_pages km \<le> 4"
    | (ok) a1 km1 m1 B1 where "parse_entry u p (a, km, m) = Inr (a1, km1, m1)" "built R K n B1 la (cs @ madt_cpus [x]) (ios @ madt_io_apics [x]) (a1, km1, m1)" "kept R K B m B1 m1"
      "n \<le> 85 \<longrightarrow> free_pages km \<le> free_pages km1 + 4"
    using parse_entry_built [OF Cons.prems(2) assms(2) x(2) n] by blast
  then show ?case
  proof cases
    case (ok a1 km1 m1 B1)
    have "\<forall>y \<in> kpages R. m1 y = m y" using ok(3) by (simp add: kept_def pages_same_def)
    then have "entries_at (kpages R) m1 (p + ucast (entry_length x)) e es q" using entries_at_same x(3) by blast
    moreover have "length (cs @ madt_cpus [x]) + length es \<le> n" "length (ios @ madt_io_apics [x]) + length es \<le> n"
      using Cons.prems(3,4) madt_one [of x] by simp_all
    ultimately consider (fail) "parse_entries u (p + ucast (entry_length x)) e (a1, km1, m1) = Some (Inl NullDeref)" "n \<le> 85 \<longrightarrow> free_pages km1 \<le> 4 * length es"
      | (more) a' km' m' B' where "parse_entries u (p + ucast (entry_length x)) e (a1, km1, m1) = parse_entries u q e (a', km', m')"
          "built R K n B' la ((cs @ madt_cpus [x]) @ madt_cpus es) ((ios @ madt_io_apics [x]) @ madt_io_apics es) (a', km', m')" "kept R K B1 m1 B' m'"
          "n \<le> 85 \<longrightarrow> free_pages km1 \<le> free_pages km' + 4 * length es"
      using Cons.IH ok(2) by blast
    then show ?thesis
    proof cases
      case fail
      then show ?thesis using st ok(1,4) by auto
    next
      case (more a' km' m' B')
      have "n \<le> 85 \<longrightarrow> free_pages km \<le> free_pages km' + 4 * length (x # es)" using more(4) ok(4) by auto
      moreover have "parse_entries u p e (a, km, m) = parse_entries u q e (a', km', m')" using st ok(1) more(1) by simp
      moreover have "built R K n B' la (cs @ madt_cpus (x # es)) (ios @ madt_io_apics (x # es)) (a', km', m')"
        using more(2) unfolding madt_append(1) [of x es] madt_append(2) [of x es] append_assoc .
      ultimately show ?thesis using kept_trans [OF ok(3) more(3)] by blast
    qed
  qed (auto simp: st)
qed

lemma ParseTableAPIC_start:
  assumes "p \<noteq> 0" and "madt_localApicAddr m p \<noteq> 0" and "bytes_in (kpages R) p 44" and "32 \<le> ctz_zero u" and "built R K n B None cs ios (a, km, m)"
  defines "la \<equiv> PADDR_TO_KPTR (ucast (madt_localApicAddr m p))" and "e \<equiv> p + ucast (hdr_length m p)"
  shows "ParseTableAPIC u p (a, km, m) = Some (Inl NullDeref) \<and> free_pages km \<le> 2 \<or>
    (\<exists>a' km' m' B'. ParseTableAPIC u p (a, km, m) = parse_entries u (p + 44) e (a', km', m') \<and>
      built R K n B' (Some \<lparr>local_apic_address = la, bus_freq = 0\<rparr>) cs ios (a', km', m') \<and> kept R K B m B' m' \<and> free_pages km \<le> free_pages km' + 2)"
proof -
  have h: "heap_res R km B" "acpi_rel K B m a None cs ios" "K \<subseteq> fst ` B" "room km n" using assms(5) by (simp_all add: built_def)
  have t: "ParseTableAPIC u p (a, km, m) = (case new_LocalApic u la (km, m) of Inl err \<Rightarrow> Some (Inl err)
      | Inr (q, km, m) \<Rightarrow> parse_entries u (p + 44) (p + ucast (hdr_length m p)) (a\<lparr>acpi_lapic_address := la, local_apic := q\<rparr>, km, m))"
    unfolding ParseTableAPIC_def Let_def la_def sizeof_AcpiHeaderMADT_def prod.case using assms(1,2) by simp
  consider (fail) "new_LocalApic u la (km, m) = Inl NullDeref" "free_pages km \<le> 2"
    | (ok) q km' m' B' where "new_LocalApic u la (km, m) = Inr (q, km', m')" "heap_res R km' B'" "kept R K B m B' m'" "nr_pgs km' = nr_pgs km"
      "free_pages km \<le> free_pages km' + 2" "acpi_rel K B' m' (a\<lparr>acpi_lapic_address := la, local_apic := q\<rparr>) (Some \<lparr>local_apic_address = la, bus_freq = 0\<rparr>) cs ios"
    using add_local_apic [OF h(1) assms(4) h(2,3), of la] unfolding la_def by (meson KPTR_nonzero)
  then show ?thesis
  proof cases
    case (ok q km' m' B')
    have "\<forall>y \<in> kpages R. m' y = m y" using ok(3) by (simp add: kept_def pages_same_def)
    then have "hdr_length m' p = hdr_length m p" using bytes_in_fields(6) [of "kpages R" m' m p 44] assms(3) by (simp add: hdr_length_def)
    moreover have "room km' n" using h(4) ok(4) by (simp add: room_def)
    ultimately show ?thesis using t ok kept_starts [OF ok(3) h(3)] unfolding built_def e_def by auto
  qed (simp add: t)
qed

lemma ParseTableAPIC_built:
  assumes "madt_at (kpages R) m p lapic es" and "p \<noteq> 0" and "32 \<le> ctz_zero u" and "built R K (length es) B None [] [] (a, km, m)"
  defines "la \<equiv> PADDR_TO_KPTR (ucast lapic)"
  shows "ParseTableAPIC u p (a, km, m) = Some (Inl NullDeref) \<and> (length es \<le> 85 \<longrightarrow> free_pages km \<le> 4 * length es + 2) \<or>
    (\<exists>a' km' m' B'. ParseTableAPIC u p (a, km, m) = Some (Inr (a', km', m')) \<and>
      built R K (length es) B' (Some \<lparr>local_apic_address = la, bus_freq = 0\<rparr>) (madt_cpus es) (madt_io_apics es) (a', km', m') \<and> kept R K B m B' m')"
proof -
  let ?e = "p + ucast (hdr_length m p)"
  have t: "bytes_in (kpages R) p 44" "madt_localApicAddr m p = lapic" "lapic \<noteq> 0" using assms(1) by (simp_all add: madt_at_def madt_localApicAddr_def)
  obtain q where q: "entries_at (kpages R) m (p + 44) ?e es q" "?e \<le> q" using assms(1) by (auto simp: madt_at_def hdr_length_def)
  consider (fail) "ParseTableAPIC u p (a, km, m) = Some (Inl NullDeref)" "free_pages km \<le> 2"
    | (ok) a1 km1 m1 B1 where "ParseTableAPIC u p (a, km, m) = parse_entries u (p + 44) ?e (a1, km1, m1)"
      "built R K (length es) B1 (Some \<lparr>local_apic_address = la, bus_freq = 0\<rparr>) [] [] (a1, km1, m1)" "kept R K B m B1 m1" "free_pages km \<le> free_pages km1 + 2"
    using ParseTableAPIC_start [OF assms(2) _ t(1) assms(3,4)] t(2,3) unfolding la_def by blast
  then show ?thesis
  proof cases
    case (ok a1 km1 m1 B1)
    have "\<forall>y \<in> kpages R. m1 y = m y" using ok(3) by (simp add: kept_def pages_same_def)
    then have "entries_at (kpages R) m1 (p + 44) ?e es q" using entries_at_same q(1) by blast
    from parse_entries_built [OF this assms(3) ok(2)]
    have "parse_entries u (p + 44) ?e (a1, km1, m1) = Some (Inl NullDeref) \<and> (length es \<le> 85 \<longrightarrow> free_pages km1 \<le> 4 * length es) \<or>
      (\<exists>a' km' m' B'. parse_entries u (p + 44) ?e (a1, km1, m1) = parse_entries u q ?e (a', km', m') \<and>
        built R K (length es) B' (Some \<lparr>local_apic_address = la, bus_freq = 0\<rparr>) (madt_cpus es) (madt_io_apics es) (a', km', m') \<and> kept R K B1 m1 B' m')" by auto
    moreover have "parse_entries u q ?e s = Some (Inr s)" for s using q(2) by (subst parse_entries.simps) auto
    moreover have "length es \<le> 85 \<longrightarrow> free_pages km \<le> 4 * length es + 2" if "length es \<le> 85 \<longrightarrow> free_pages km1 \<le> 4 * length es" using that ok(4) by auto
    ultimately show ?thesis unfolding ok(1) using kept_trans [OF ok(3)] by metis
  qed simp
qed

lemma parse_tables_skip:
  assumes "tables_at A (snd (snd s)) p e (pre @ post)" and "\<forall>t \<in> set pre. other_table A (snd (snd s)) t"
  shows "\<exists>q. parse_tables u p e s = parse_tables u q e s \<and> tables_at A (snd (snd s)) q e post"
  using assms
proof (induction pre arbitrary: p)
  case (Cons t pre)
  then obtain q where "parse_tables u (p + 4) e s = parse_tables u q e s" "tables_at A (snd (snd s)) q e post" by auto
  moreover have "parse_tables u p e s = parse_tables u (p + 4) e s"
    using Cons.prems by (subst parse_tables.simps) (simp add: ParseDT_def other_table_def)
  ultimately show ?case by auto
qed auto

lemma ParseRSDT_one:
  fixes u :: unspecified and a :: Acpi and km :: kmem
  assumes "rsdt_at A m p (pre @ t # post)" and "p \<noteq> 0" and "\<forall>v \<in> set pre \<union> set post. other_table A m v" and "hdr_signature m (PADDR_TO_KPTR (ucast t)) = sig_APIC"
  defines "r \<equiv> ParseTableAPIC u (PADDR_TO_KPTR (ucast t)) (a, km, m)"
  shows "(\<forall>err. r = Some (Inl err) \<longrightarrow> ParseRSDT u p (a, km, m) = Some (Inl err)) \<and>
    (\<forall>a' km' m'. r = Some (Inr (a', km', m')) \<longrightarrow> (\<forall>x \<in> A. m' x = m x) \<longrightarrow> ParseRSDT u p (a, km, m) = Some (Inr (a', km', m')))"
proof -
  let ?e = "p + ucast (hdr_length m p)"
  obtain q where q: "parse_tables u (p + 36) ?e (a, km, m) = parse_tables u q ?e (a, km, m)" "tables_at A m q ?e (t # post)"
    using parse_tables_skip [of A "(a, km, m)" "p + 36" ?e pre "t # post"] assms(1,3) by (auto simp: rsdt_at_def hdr_length_def)
  have s: "ParseRSDT u p (a, km, m) = parse_tables u q ?e (a, km, m)" using assms(2) q(1) by (simp add: ParseRSDT_def sizeof_AcpiHeader_def)
  have n: "parse_tables u q ?e (a, km, m) = (case r of None \<Rightarrow> None | Some (Inl err) \<Rightarrow> Some (Inl err) | Some (Inr s) \<Rightarrow> parse_tables u (q + 4) ?e s)"
    using q(2) assms(4) by (subst parse_tables.simps) (simp add: ParseDT_def r_def)
  have "parse_tables u (q + 4) ?e (a', km', m') = Some (Inr (a', km', m'))" if m': "\<forall>x \<in> A. m' x = m x" for a' km' m'
  proof -
    have "tables_at A m' (q + 4) ?e (post @ [])" using tables_at_same [OF m'] q(2) by simp
    moreover have "\<forall>v \<in> set post. other_table A m' v" using other_table_same [OF m'] assms(3) by blast
    ultimately obtain q' where "parse_tables u (q + 4) ?e (a', km', m') = parse_tables u q' ?e (a', km', m')" "tables_at A m' q' ?e []"
      using parse_tables_skip [of A "(a', km', m')" "q + 4" ?e post "[]"] by auto
    then show ?thesis by (subst (asm) parse_tables.simps [of u q']) auto
  qed
  then show ?thesis unfolding s n by auto
qed

lemma sum_bytes: "fold (\<lambda>i s. s + f i) is (c :: u8) = c + sum_list (map f is)"
  by (induction "is" arbitrary: c) (simp_all add: add.assoc)

lemma sum_bytes0: "fold (\<lambda>i s. s + f i) is (0 :: u8) = sum_list (map f is)"
  by (simp add: sum_bytes)

lemma ParseRSDP_rsdt:
  assumes "rsdp_at (snd (snd s)) p rsdt"
  shows "ParseRSDP u p s = (case ParseRSDT u (PADDR_TO_KPTR (ucast rsdt)) s of None \<Rightarrow> None | Some (Inl err) \<Rightarrow> Some (Inl err) | Some (Inr s) \<Rightarrow> Some (Inr (True, s)))"
  using assms by (auto simp: ParseRSDP_def rsdp_at_def sum_bytes0 Let_def simp del: upt_rec_numeral)

lemma ParseRSDP_bad_checksum:
  "sum_list (map (\<lambda>i. snd (snd s) (p + of_nat i)) [0..<20]) \<noteq> 0 \<Longrightarrow> ParseRSDP u p s = Some (Inr (False, s))"
  by (simp add: ParseRSDP_def sum_bytes0 Let_def del: upt_rec_numeral)

lemma ParseRSDP_built:
  assumes "rsdp_at m p rsdt" and "rsdt_at (kpages R) m (PADDR_TO_KPTR (ucast rsdt)) (pre @ t # post)" and "\<forall>v \<in> set pre \<union> set post. other_table (kpages R) m v"
    and "madt_at (kpages R) m (PADDR_TO_KPTR (ucast t)) lapic es" and "32 \<le> ctz_zero u" and "built R K (length es) B None [] [] (a, km, m)"
  shows "ParseRSDP u p (a, km, m) = Some (Inl NullDeref) \<and> (length es \<le> 85 \<longrightarrow> free_pages km \<le> 4 * length es + 2) \<or>
    (\<exists>a' km' m' B'. ParseRSDP u p (a, km, m) = Some (Inr (True, a', km', m')) \<and>
      built R K (length es) B' (Some \<lparr>local_apic_address = PADDR_TO_KPTR (ucast lapic), bus_freq = 0\<rparr>) (madt_cpus es) (madt_io_apics es) (a', km', m') \<and> kept R K B m B' m')"
proof -
  have "hdr_signature m (PADDR_TO_KPTR (ucast t)) = sig_APIC" using assms(4) by (simp add: madt_at_def)
  note o = ParseRSDT_one [OF assms(2) KPTR_nonzero assms(3) this, of u a km]
  from ParseTableAPIC_built [OF assms(4) KPTR_nonzero assms(5,6)] show ?thesis
  proof (elim disjE exE conjE)
    assume "ParseTableAPIC u (PADDR_TO_KPTR (ucast t)) (a, km, m) = Some (Inl NullDeref)" "length es \<le> 85 \<longrightarrow> free_pages km \<le> 4 * length es + 2"
    then show ?thesis using o ParseRSDP_rsdt [of "(a, km, m)" p rsdt u] assms(1) by simp
  next
    fix a' km' m' B' assume r: "ParseTableAPIC u (PADDR_TO_KPTR (ucast t)) (a, km, m) = Some (Inr (a', km', m'))"
      "built R K (length es) B' (Some \<lparr>local_apic_address = PADDR_TO_KPTR (ucast lapic), bus_freq = 0\<rparr>) (madt_cpus es) (madt_io_apics es) (a', km', m')" "kept R K B m B' m'"
    then have "\<forall>x \<in> kpages R. m' x = m x" by (simp add: kept_def pages_same_def)
    then have "ParseRSDT u (PADDR_TO_KPTR (ucast rsdt)) (a, km, m) = Some (Inr (a', km', m'))" using o r(1) by blast
    then show ?thesis using r ParseRSDP_rsdt [of "(a, km, m)" p rsdt u] assms(1) by auto
  qed
qed

section \<open>Reading the vectors back\<close>

lemma vec_addrs_elem:
  assumes "vec_ok e xs v B m" and "0 < e"
  shows "length (vec_addrs e v) = length xs" and "j < length xs \<Longrightarrow> bytes_at m (vec_addrs e v ! j) (xs ! j)"
proof -
  have l: "unat (len v) = length xs" by (rule vec_ok_bounds [OF assms])
  then show "length (vec_addrs e v) = length xs" by (simp add: vec_addrs_def vec_size_def)
  have "\<forall>j < length xs. bytes_at m (at (vptr v) (j * e)) (xs ! j)"
    using assms(1) bytes_at_concat [of xs e m "vptr v"] by (simp add: vec_ok_def)
  then show "j < length xs \<Longrightarrow> bytes_at m (vec_addrs e v ! j) (xs ! j)" using l by (simp add: vec_addrs_def vec_size_def vec_begin_def)
qed

lemma acpi_rel_cpus:
  assumes "acpi_rel K B m a la cs ios"
  shows "cpu_elems m a = cs"
proof -
  obtain xs where x: "vec_ok 12 xs (cpus a) B m" "list_all2 AcpiCPU_of xs cs" using assms by (auto simp: acpi_rel_def acpi_parts_def)
  note v = vec_addrs_elem [OF x(1), simplified]
  show ?thesis
  proof (rule nth_equalityI)
    show "length (cpu_elems m a) = length cs" using v(1) x(2) by (simp add: cpu_elems_def sizeof_AcpiCPU_def list_all2_lengthD)
    fix j assume "j < length (cpu_elems m a)"
    then have j: "j < length xs" "j < length (vec_addrs 12 (cpus a))" using v(1) by (simp_all add: cpu_elems_def sizeof_AcpiCPU_def)
    then have "AcpiCPU_of (xs ! j) (cs ! j)" using x(2) by (simp add: list_all2_nthD)
    then show "cpu_elems m a ! j = cs ! j" using v(2) [OF j(1)] j(2) load_AcpiCPU_at by (auto simp: cpu_elems_def sizeof_AcpiCPU_def AcpiCPU_of_def)
  qed
qed

lemma acpi_rel_io_apics:
  assumes "acpi_rel K B m a la cs ios"
  shows "io_apic_elems m a = ios"
proof -
  obtain ps where x: "vec_ok 8 (map bytes64 ps) (io_apics a) B m" "list_all2 (IoApic_at B m) ps ios" using assms by (auto simp: acpi_rel_def acpi_parts_def)
  note v = vec_addrs_elem [OF x(1), simplified]
  show ?thesis
  proof (rule nth_equalityI)
    show "length (io_apic_elems m a) = length ios" using v(1) x(2) by (simp add: io_apic_elems_def list_all2_lengthD)
    fix j assume "j < length (io_apic_elems m a)"
    then have j: "j < length ps" "j < length (vec_addrs 8 (io_apics a))" using v(1) by (simp_all add: io_apic_elems_def)
    then have "IoApic_at B m (ps ! j) (ios ! j)" "load64 m (vec_addrs 8 (io_apics a) ! j) = ps ! j" using x(2) v(2) [OF j(1)] by (simp_all add: list_all2_nthD load64_bytes)
    then show "io_apic_elems m a ! j = ios ! j" using j(2) load_IoApic_at by (simp add: io_apic_elems_def)
  qed
qed

lemma acpi_rel_read:
  assumes "acpi_rel K B m a (Some la) cs ios"
  shows "local_apic a \<noteq> 0" and "load_LocalApic m (local_apic a) = la" and "acpi_lapic_address a = local_apic_address la" and "cpus_count a = of_nat (length cs)"
  using assms load_LocalApic_at by (auto simp: acpi_rel_def acpi_parts_def cpus_count_def)

section \<open>Properties\<close>

text \<open>
  From a root pointer with a right checksum, on an intact heap away from the tables, the parser builds objects that lead to what the interrupt controller table lists, or runs out of memory.
\<close>

lemma ParseRSDP_builds:
  assumes "heap_res R km B" and "32 \<le> ctz_zero u" and "room km (length es)"
    and "rsdp_at m p rsdt" and "rsdt_at (kpages R) m (PADDR_TO_KPTR (ucast rsdt)) (pre @ t # post)" and "\<forall>v \<in> set pre \<union> set post. other_table (kpages R) m v"
    and "madt_at (kpages R) m (PADDR_TO_KPTR (ucast t)) lapic es"
  shows "ParseRSDP u p (Acpi_members, km, m) = Some (Inl NullDeref) \<and> (length es \<le> 85 \<longrightarrow> free_pages km \<le> 4 * length es + 2) \<or>
    (\<exists>a km' m' B'. ParseRSDP u p (Acpi_members, km, m) = Some (Inr (True, a, km', m')) \<and> heap_res R km' B' \<and> (\<forall>b \<in> B. b \<in> B' \<and> (\<forall>x \<in> block b. m' x = m x)) \<and>
      local_apic a \<noteq> 0 \<and> load_LocalApic m' (local_apic a) = \<lparr>local_apic_address = PADDR_TO_KPTR (ucast lapic), bus_freq = 0\<rparr> \<and>
      acpi_lapic_address a = PADDR_TO_KPTR (ucast lapic) \<and> cpu_elems m' a = madt_cpus es \<and> io_apic_elems m' a = madt_io_apics es \<and>
      cpus_count a = of_nat (length (madt_cpus es)))"
proof -
  have "built R (fst ` B) (length es) B None [] [] (Acpi_members, km, m)" using assms(1,3) acpi_rel_start by (simp add: built_def)
  from ParseRSDP_built [OF assms(4-7,2) this] show ?thesis
  proof (elim disjE exE conjE)
    fix a km' m' B' assume r: "ParseRSDP u p (Acpi_members, km, m) = Some (Inr (True, a, km', m'))" "kept R (fst ` B) B m B' m'"
      "built R (fst ` B) (length es) B' (Some \<lparr>local_apic_address = PADDR_TO_KPTR (ucast lapic), bus_freq = 0\<rparr>) (madt_cpus es) (madt_io_apics es) (a, km', m')"
    then have a: "heap_res R km' B'" "acpi_rel (fst ` B) B' m' a (Some \<lparr>local_apic_address = PADDR_TO_KPTR (ucast lapic), bus_freq = 0\<rparr>) (madt_cpus es) (madt_io_apics es)"
      by (simp_all add: built_def)
    have "\<forall>b \<in> B. b \<in> B' \<and> (\<forall>x \<in> block b. m' x = m x)" using r(2) by (simp add: kept_def)
    then show ?thesis using r(1) a(1) acpi_rel_cpus [OF a(2)] acpi_rel_io_apics [OF a(2)] acpi_rel_read [OF a(2)] by (intro disjI2 exI [of _ a] exI [of _ km'] exI [of _ m'] exI [of _ B']) simp
  qed simp
qed

text \<open>A memory with the tables of a machine of two processors and one I/O APIC: the root pointer at \<^verbatim>\<open>0xe0000\<close>, the root table at \<^verbatim>\<open>0x110000\<close>, another table at \<^verbatim>\<open>0x120000\<close>,
  and the interrupt controller table at \<^verbatim>\<open>0x130000\<close>.\<close>

definition rsdp_bytes :: "u8 list" where
  "rsdp_bytes = [82, 83, 68, 32, 80, 84, 82, 32, 0xD0, 0, 0, 0, 0, 0, 0, 0, 0, 0, 0x11, 0]"

definition rsdt_bytes :: "u8 list" where
  "rsdt_bytes = [82, 83, 68, 84, 44, 0, 0, 0] @ replicate 28 0 @ [0, 0, 0x12, 0, 0, 0, 0x13, 0]"

definition madt_bytes :: "u8 list" where
  "madt_bytes = [65, 80, 73, 67, 72, 0, 0, 0] @ replicate 28 0 @ [0, 0, 0xE0, 0xFE, 0, 0, 0, 0] @
     [0, 8, 0, 0, 1, 0, 0, 0] @ [0, 8, 1, 1, 1, 0, 0, 0] @ [1, 12, 2, 0, 0, 0, 0xC0, 0xFE, 0, 0, 0, 0]"

definition acpi_bytes :: "nat \<Rightarrow> u8" where
  "acpi_bytes n =
     (if n < 0xE0000 then 0 else if n < 0xE0000 + length rsdp_bytes then rsdp_bytes ! (n - 0xE0000)
      else if n < 0x110000 then 0 else if n < 0x110000 + length rsdt_bytes then rsdt_bytes ! (n - 0x110000)
      else if n < 0x130000 then 0 else if n < 0x130000 + length madt_bytes then madt_bytes ! (n - 0x130000) else 0)"

definition example_acpi :: mem where
  "example_acpi a = acpi_bytes (unat (a - KERN_OFFSET))"

definition example_unspecified :: unspecified where
  "example_unspecified = \<lparr>ctz_zero = 64, clz_zero = 32, padding = \<lambda>_. (0, 0, 0)\<rparr>"

abbreviation table_pages_ex :: "nat set" where "table_pages_ex \<equiv> {272, 288, 304}"

lemma bytes_in_page: "p \<in> R \<Longrightarrow> p < 2 ^ 52 \<Longrightarrow> off + n \<le> 4096 \<Longrightarrow> a = kaddr p off \<Longrightarrow> bytes_in (kpages R) a n"
  by (fastforce simp: bytes_in_def kpages_def kaddr_add simp del: of_nat_add of_nat_mult)

lemma madt_bytes_eq: "madt_bytes = [65, 80, 73, 67, 72, 0, 0, 0, 0, 0, 0, 0, 0, 0, 0, 0, 0, 0, 0, 0, 0, 0, 0, 0, 0, 0, 0, 0, 0, 0, 0, 0, 0, 0, 0, 0,
    0, 0, 0xE0, 0xFE, 0, 0, 0, 0, 0, 8, 0, 0, 1, 0, 0, 0, 0, 8, 1, 1, 1, 0, 0, 0, 1, 12, 2, 0, 0, 0, 0xC0, 0xFE, 0, 0, 0, 0]"
  by (simp add: madt_bytes_def numeral_eq_Suc)

lemma rsdt_bytes_eq: "rsdt_bytes = [82, 83, 68, 84, 44, 0, 0, 0, 0, 0, 0, 0, 0, 0, 0, 0, 0, 0, 0, 0, 0, 0, 0, 0, 0, 0, 0, 0, 0, 0, 0, 0, 0, 0, 0, 0,
    0, 0, 0x12, 0, 0, 0, 0x13, 0]"
  by (simp add: rsdt_bytes_def numeral_eq_Suc)

lemmas example_acpi_simps = example_acpi_def KERN_OFFSET_def acpi_bytes_def rsdp_bytes_def rsdt_bytes_eq madt_bytes_eq PADDR_TO_KPTR_def load32_def le32_def

lemma example_rsdp: "rsdp_at example_acpi (PADDR_TO_KPTR 0xE0000) 0x110000"
  by (simp add: rsdp_at_def example_acpi_simps upt_conv_Cons)

lemma example_pages_in:
  "bytes_in (kpages table_pages_ex) 0xFFFFFF0000110000 36" "bytes_in (kpages table_pages_ex) 0xFFFFFF0000110024 4" "bytes_in (kpages table_pages_ex) 0xFFFFFF0000110028 4"
  "bytes_in (kpages table_pages_ex) 0xFFFFFF0000120000 4" "bytes_in (kpages table_pages_ex) 0xFFFFFF0000130000 44" "bytes_in (kpages table_pages_ex) 0xFFFFFF000013002C 8"
  "bytes_in (kpages table_pages_ex) 0xFFFFFF0000130034 8" "bytes_in (kpages table_pages_ex) 0xFFFFFF000013003C 12" "bytes_in (kpages table_pages_ex) 0xFFFFFF0000130034 2"
  by (rule bytes_in_page [of 272 _ 0] bytes_in_page [of 272 _ 36] bytes_in_page [of 272 _ 40] bytes_in_page [of 288 _ 0] bytes_in_page [of 304 _ 0] bytes_in_page [of 304 _ 44]
      bytes_in_page [of 304 _ 52] bytes_in_page [of 304 _ 60]; simp add: kaddr_def PADDR_TO_KPTR_def KERN_OFFSET_def; fail)+

lemma example_rsdt: "rsdt_at (kpages table_pages_ex) example_acpi (PADDR_TO_KPTR 0x110000) ([0x120000] @ 0x130000 # [])"
  by (simp add: rsdt_at_def example_acpi_simps example_pages_in)

lemma example_madt:
  "madt_at (kpages table_pages_ex) example_acpi (PADDR_TO_KPTR 0x130000) 0xFEE00000 [Cpu_Entry 8 0 0 1, Cpu_Entry 8 1 1 1, Io_Entry 12 2 0xFEC00000 0]"
  by (simp add: madt_at_def hdr_signature_def sig_APIC_def TableUint32_def example_acpi_simps example_pages_in)

lemma example_other: "other_table (kpages table_pages_ex) example_acpi 0x120000"
  by (simp add: other_table_def hdr_signature_def sig_APIC_def TableUint32_def example_acpi_simps example_pages_in)

text \<open>A heap of 127 free pages below the tables.\<close>

definition acpi_mp0 :: mem_pages where
  "acpi_mp0 = demo_mp0\<lparr>nr_page_structs := 128\<rparr>"

definition acpi_kmem :: kmem where
  "acpi_kmem = demo_kmem\<lparr>km_pages := (case FreePages acpi_mp0 (PageAt 1) 127 of Inr mp \<Rightarrow> mp | Inl _ \<Rightarrow> acpi_mp0)\<rparr>"

lemma example_acpi_pages:
  "mp_inv (km_pages acpi_kmem) (rev [1..<128])" "nr_page_structs (km_pages acpi_kmem) = 128" "phys_ok (km_pages acpi_kmem) (set (rev [1..<128]))"
proof -
  have i: "mp_inv acpi_mp0 []" by (simp add: mp_inv_def page_list_def acpi_mp0_def demo_mp0_def zero_page_def links_def)
  obtain mp where mp: "FreePages acpi_mp0 (PageAt 1) (int 127) = Inr mp" "mp_inv mp (rev [1..<1 + 127] @ [])" "same_meta acpi_mp0 mp"
    using FreePages_inv [OF i, of 1 127] by (auto simp: acpi_mp0_def)
  then have k: "km_pages acpi_kmem = mp" by (simp add: acpi_kmem_def)
  show "mp_inv (km_pages acpi_kmem) (rev [1..<128])" using mp(2) by (simp add: k del: upt_rec_numeral)
  show "nr_page_structs (km_pages acpi_kmem) = 128" "phys_ok (km_pages acpi_kmem) (set (rev [1..<128]))"
    using same_metaD(1,2) [OF mp(3)] by (simp_all add: k phys_ok_def acpi_mp0_def demo_mp0_def del: upt_rec_numeral)
qed

lemma example_acpi_heap: "heap_res table_pages_ex (InitSlab acpi_kmem) {}" "room (InitSlab acpi_kmem) 3" "free_pages (InitSlab acpi_kmem) = 127"
proof -
  have b: "mp_inv (km_pages acpi_kmem) (rev [1..<128])" "unat (nr_page_structs (km_pages acpi_kmem)) \<le> 2 ^ 27" "phys_ok (km_pages acpi_kmem) (set (rev [1..<128]))"
    using example_acpi_pages(1,3) unfolding example_acpi_pages(2) by simp_all
  then show "heap_res table_pages_ex (InitSlab acpi_kmem) {}" by (rule InitSlab_heap_res) auto
  show "room (InitSlab acpi_kmem) 3" by (simp add: room_def nr_pgs_def InitSlab_def MemCacheBase_def example_acpi_pages(2))
  show "free_pages (InitSlab acpi_kmem) = 127" using free_pages_length [OF InitSlab_kinv [OF b]] by simp
qed

section \<open>Tables the parser does not get through\<close>

lemma parse_entries_stuck:
  assumes "p < e" and "apic_length (snd (snd s)) p = 0" and "snd (snd s) p \<noteq> 0" and "snd (snd s) p \<noteq> 1"
  shows "parse_entries u p e s = None"
proof -
  have stay: "parse_entry u p s = Inr s" if "snd (snd s) p \<noteq> 0" "snd (snd s) p \<noteq> 1" for u p s
    using that by (cases s) (simp add: parse_entry_def apic_type_def ApicType_of_def)
  have "\<not> (p < e \<and> apic_length (snd (snd s)) p = 0 \<and> snd (snd s) p \<noteq> 0 \<and> snd (snd s) p \<noteq> 1)" if "parse_entries u p e s = Some r" for r
  proof (rule parse_entries.raw_induct [where P = "\<lambda>u p e s r. \<not> (p < e \<and> apic_length (snd (snd s)) p = 0 \<and> snd (snd s) p \<noteq> 0 \<and> snd (snd s) p \<noteq> 1)", OF _ that])
    fix rec u p e s r
    assume IH: "\<And>u p e s r. rec u p e s = Some r \<Longrightarrow> \<not> (p < e \<and> apic_length (snd (snd s)) p = 0 \<and> snd (snd s) p \<noteq> 0 \<and> snd (snd s) p \<noteq> 1)"
      and eq: "(if p < e then let length = apic_length (snd (snd s)) p in (case parse_entry u p s of Inl err \<Rightarrow> Some (Inl err) | Inr s \<Rightarrow> rec u (p + ucast length) e s)
          else Some (Inr s)) = Some r"
    show "\<not> (p < e \<and> apic_length (snd (snd s)) p = 0 \<and> snd (snd s) p \<noteq> 0 \<and> snd (snd s) p \<noteq> 1)"
    proof
      assume a: "p < e \<and> apic_length (snd (snd s)) p = 0 \<and> snd (snd s) p \<noteq> 0 \<and> snd (snd s) p \<noteq> 1"
      then have "rec u p e s = Some r" using eq stay [of s p u] by (simp add: Let_def)
      then show False using IH a by blast
    qed
  qed
  then show ?thesis using assms by (cases "parse_entries u p e s") auto
qed

text \<open>
  C35. An entry of length zero, of a type other than processor (0) and I/O APIC (1), in the interrupt controller table stops the boot: after any well-formed entries, on an intact heap away from the table, the parser comes to it (unless
  it runs out of memory before), leaves it by no byte, and never returns. The page array covers at least 24 bytes for each of these entries (\<open>room\<close>), and the compiler's \<^verbatim>\<open>ctzl(0)\<close> is at least 32, since the APIC objects are of the 32-byte class. (An entry of the types 0 and 1 takes heap memory each time round.)
\<close>
theorem ParseTableAPIC_zero_length:
  assumes "heap_res R km B" and "32 \<le> ctz_zero u" and "room km (length es)"
    and "p \<noteq> 0" and "madt_localApicAddr m p \<noteq> 0" and "bytes_in (kpages R) p 44"
    and "entries_at (kpages R) m (p + 44) (p + ucast (hdr_length m p)) es q" and "q < p + ucast (hdr_length m p)"
    and "entry_at (kpages R) m q (Other_Entry 0 type)"
  shows "ParseTableAPIC u p (Acpi_members, km, m) = None \<or>
    ParseTableAPIC u p (Acpi_members, km, m) = Some (Inl NullDeref) \<and> (length es \<le> 85 \<longrightarrow> free_pages km \<le> 4 * length es + 2)"
proof -
  let ?e = "p + ucast (hdr_length m p)" and ?la = "\<lparr>local_apic_address = PADDR_TO_KPTR (ucast (madt_localApicAddr m p)), bus_freq = 0\<rparr>"
  have "built R (fst ` B) (length es) B None [] [] (Acpi_members, km, m)" using assms(1,3) acpi_rel_start by (simp add: built_def)
  from ParseTableAPIC_start [OF assms(4-6,2) this] show ?thesis
  proof (elim disjE exE conjE)
    fix a1 km1 m1 B1 assume s: "ParseTableAPIC u p (Acpi_members, km, m) = parse_entries u (p + 44) ?e (a1, km1, m1)"
      "built R (fst ` B) (length es) B1 (Some ?la) [] [] (a1, km1, m1)" "kept R (fst ` B) B m B1 m1" "free_pages km \<le> free_pages km1 + 2"
    have k1: "\<forall>y \<in> kpages R. m1 y = m y" using s(3) by (simp add: kept_def pages_same_def)
    then have "entries_at (kpages R) m1 (p + 44) ?e es q" using entries_at_same assms(7) by blast
    from parse_entries_built [OF this assms(2) s(2), simplified] show ?thesis
    proof (elim disjE exE conjE)
      fix a' km' m' B' assume r: "parse_entries u (p + 44) ?e (a1, km1, m1) = parse_entries u q ?e (a', km', m')" "kept R (fst ` B) B1 m1 B' m'"
      then have "\<forall>y \<in> kpages R. m' y = m y" using k1 by (simp add: kept_def pages_same_def)
      then have "entry_at (kpages R) m' q (Other_Entry 0 type)" by (rule entry_at_same [OF _ assms(9)])
      then have "parse_entries u q ?e (a', km', m') = None" using parse_entries_stuck [of q ?e "(a', km', m')" u] assms(8) by (auto simp: apic_length_def)
      then show ?thesis using s(1) r(1) by simp
    qed (use s(1,4) in auto)
  qed auto
qed

text \<open>The example memory with its second processor entry turned into an override of length zero.\<close>

theorem ParseTableAPIC_zero_length_witness:
  "ParseTableAPIC example_unspecified (PADDR_TO_KPTR 0x130000) (Acpi_members, InitSlab acpi_kmem, example_acpi(PADDR_TO_KPTR 0x130034 := 2, PADDR_TO_KPTR 0x130035 := 0)) = None"
proof -
  let ?m = "example_acpi(PADDR_TO_KPTR 0x130034 := 2, PADDR_TO_KPTR 0x130035 := 0)"
  have h: "32 \<le> ctz_zero example_unspecified" "room (InitSlab acpi_kmem) (length [Cpu_Entry 8 0 0 1])" using example_acpi_heap(2) by (simp_all add: example_unspecified_def room_def)
  have t: "PADDR_TO_KPTR 0x130000 \<noteq> 0" "madt_localApicAddr ?m (PADDR_TO_KPTR 0x130000) \<noteq> 0" "bytes_in (kpages table_pages_ex) (PADDR_TO_KPTR 0x130000) 44"
    by (simp_all add: madt_localApicAddr_def example_acpi_simps example_pages_in)
  have e: "entries_at (kpages table_pages_ex) ?m (PADDR_TO_KPTR 0x130000 + 44) (PADDR_TO_KPTR 0x130000 + ucast (hdr_length ?m (PADDR_TO_KPTR 0x130000))) [Cpu_Entry 8 0 0 1] (PADDR_TO_KPTR 0x130034)"
    "PADDR_TO_KPTR 0x130034 < PADDR_TO_KPTR 0x130000 + ucast (hdr_length ?m (PADDR_TO_KPTR 0x130000))" "entry_at (kpages table_pages_ex) ?m (PADDR_TO_KPTR 0x130034) (Other_Entry 0 2)"
    by (simp_all add: hdr_length_def example_acpi_simps example_pages_in)
  show ?thesis using ParseTableAPIC_zero_length [OF example_acpi_heap(1) h t e] example_acpi_heap(3) by simp
qed

section \<open>Starting processors\<close>

lemma wait_started_stuck:
  assumes "wait_started counter s n = Some r" and "\<And>k. counter k \<noteq> s"
  shows False
proof -
  have "(\<forall>k. counter k \<noteq> s) \<longrightarrow> False"
    by (rule wait_started.raw_induct [where P = "\<lambda>counter s n r. (\<forall>k. counter k \<noteq> s) \<longrightarrow> False", OF _ assms(1)]) (auto split: if_splits)
  then show False using assms(2) by simp
qed

lemma start_cpus_stuck:
  assumes "\<And>k. counter k = 0" and "c \<in> set cs" and "local_apic_id c \<noteq> bsp"
  shows "start_cpus counter la bsp cs 0 (n, h) = None"
  using assms(2)
proof (induction cs arbitrary: n h)
  case (Cons d cs)
  have "wait_started counter 1 n = None" using wait_started_stuck [of counter 1 n] assms(1) by (cases "wait_started counter 1 n") auto
  then show ?case using Cons assms(3) by (auto simp: Let_def)
qed simp

text \<open>The identification register has the number of the APIC in its upper byte, and \<^verbatim>\<open>Id\<close> returns the register: a boot processor with a number other than zero is not recognised and gets its own INIT.\<close>

lemma send_inits_self:
  assumes "0 < i" and "i < 256" and "local_apic_id c = i"
  shows "send_inits la (push_bit 24 i) (c # cs) h = send_inits la (push_bit 24 i) cs (SendApicInit la (ucast i) h)"
proof -
  have "unat i < 256" "0 < unat i" using assms(1,2) by (simp_all add: word_less_nat_alt)
  then have "unat (push_bit 24 i) = unat i * 2 ^ 24" by (simp only: push_bit_eq_mult unat_word_ariths(2)) simp
  then have "push_bit 24 i \<noteq> i" using \<open>0 < unat i\<close> by (auto simp: word_unat_eq_iff)
  then show ?thesis using assms(3) by simp
qed

text \<open>With a counter that no processor ever increments, starting any other processor hangs.\<close>

lemma BootSmp_hangs:
  assumes "\<And>k. counter k = 0" and "local_apic a \<noteq> 0" and "SetupSMPBootCode smp_start smp_end m = Inr m'"
    and "c \<in> set (cpu_elems m' a)" and "local_apic_id c \<noteq> fst (LocalApic_Id dev (load_LocalApic m' (local_apic a)) h)"
  shows "BootSmp dev counter smp_start smp_end a (m, h) = None"
  using assms(2,3) start_cpus_stuck [of counter, OF assms(1,4,5)] by (simp only: BootSmp_def Let_def case_prod_beta) simp

text \<open>On a machine with one processor there is nobody to wait for.\<close>

lemma BootSmp_single:
  assumes "local_apic a \<noteq> 0" and "SetupSMPBootCode smp_start smp_end m = Inr m'"
    and "\<forall>c \<in> set (cpu_elems m' a). local_apic_id c = fst (LocalApic_Id dev (load_LocalApic m' (local_apic a)) h)"
  shows "BootSmp dev counter smp_start smp_end a (m, h) = Some (Inr (m', snd (LocalApic_Id dev (load_LocalApic m' (local_apic a)) h)))"
proof -
  have "send_inits la bsp cs l = l" "start_cpus counter la bsp cs s (n, l) = Some (n, l)" if "\<forall>c \<in> set cs. local_apic_id c = bsp" for la bsp cs s n l
    using that by (induction cs) auto
  then show ?thesis using assms by (simp add: BootSmp_def Let_def case_prod_beta)
qed

end
