(* ===== verification/Acpi_Setup.thy ===== *)
theory Acpi_Setup
  imports Acpi Kernel_Map
begin

text \<open>
  The start of the ACPI code as a whole (\<^verbatim>\<open>Acpi::Acpi\<close> and \<^verbatim>\<open>Acpi::Init\<close>): page tables, heap and parser over one page allocator. The pages the page tables
  take leave the heap intact; mapping the firmware area is an update of the address translation; the scan finds the first acceptable root pointer.
\<close>

section \<open>Page tables beside the heap\<close>

lemma heap_res_AllocPage:
  assumes "heap_res R km B" and "AllocPage (km_pages km) = Inr (pg, mp)"
  shows "heap_res R (km\<lparr>km_pages := mp\<rparr>) B"
proof -
  obtain X fl Q L G where h: "kinv km X fl Q L {}" "big_ok X G" "B = live (slab_view km Q L) \<union> run_block ` G" "reserved km X G R"
    using assms(1) by (auto simp: heap_res_def)
  have po: "pages_ok km X fl" "mp_inv (km_pages km) fl" using kinvD(1) [OF h(1)] by (simp_all add: pages_ok_def)
  show ?thesis
  proof (cases "length fl \<le> 1")
    case True
    then show ?thesis using AllocPage_short [OF po(2)] assms by simp
  next
    case False
    then obtain x y r where fl: "fl = x # y # r" by (cases fl; cases "tl fl") auto
    obtain mp' where mp': "AllocPage (km_pages km) = Inr (PageAt x, mp')" "mp_inv mp' (y # r)" "same_meta (km_pages km) mp'"
      using AllocPage_inv po(2) fl by blast
    then have mp: "mp_inv mp (y # r)" "same_meta (km_pages km) mp" using assms(2) by simp_all
    have d: "x \<notin> set (y # r)" "X x = None" using mp_inv_distinct [OF po(2)] po(1) fl by (auto simp: pages_ok_def)
    let ?z = "slab_obj_size (page_structs mp x)"
    have id: "set_page mp x (\<lambda>p. p\<lparr>slab_obj_size := ?z\<rparr>) = mp" by (simp add: set_page_def)
    let ?km = "km\<lparr>km_pages := mp\<rparr>" and ?X = "\<lambda>q. if q \<in> {x} then Some (slab_obj_size (pgs (km\<lparr>km_pages := mp\<rparr>) q)) else X q"
    have k: "kinv ?km ?X (y # r) Q L {}" "slab_view ?km Q L = slab_view km Q L"
      using kinv_take_run [OF h(1), of "{x}" mp "y # r" x ?z, unfolded id] mp fl d(1) by simp_all
    have ext: "X q \<noteq> None \<Longrightarrow> ?X q = X q" "dom X \<subseteq> dom ?X" for q using d(2) by auto
    have "big_ok ?X G" unfolding big_ok_def
    proof (intro conjI ballI, goal_cases)
      case (1 g)
      then obtain p n where g: "g = (p, n)" "1 \<le> n" "X p = Some (int (4096 * n))" "{p..<p + n} \<subseteq> dom X" using h(2) by (auto simp: big_ok_def)
      then show ?case using ext(1) [of p] subset_trans [OF g(4) ext(2)] by simp
    next
      case (2 g)
      then show ?case using h(2) by (simp add: big_ok_def)
    qed
    moreover have "reserved ?km ?X G R" using reserved_same_phys [OF h(4), of ?km] AllocPage_phys [OF assms(2)] by (auto simp: reserved_def)
    ultimately show ?thesis unfolding heap_res_def using k h(3) by (intro exI [of _ ?X] exI [of _ "y # r"] exI [of _ Q] exI [of _ L] exI [of _ G]) simp
  qed
qed

text \<open>What building page tables keeps of the heap.\<close>

definition heap_beside :: "nat set \<Rightarrow> kmem \<Rightarrow> (u64 \<times> nat) set \<Rightarrow> pt_state \<Rightarrow> bool" where
  "heap_beside R km B st \<longleftrightarrow> heap_res R (km\<lparr>km_pages := pt_pages st\<rparr>) B \<and> nr_page_structs (pt_pages st) = nr_page_structs (km_pages km)"

lemma heap_beside_wr_entry [simp]: "heap_beside R km B (wr_entry r e st) = heap_beside R km B st"
  by (cases r) (simp_all add: heap_beside_def)

lemma Allocate_beside:
  assumes "heap_beside R km B st" and "Allocate r st = Inr st'"
  shows "heap_beside R km B st'"
proof -
  obtain pg mp where a: "AllocPage (pt_pages st) = Inr (pg, mp)" "pt_pages st' = mp"
    using assms(2) by (cases r) (auto simp: Allocate_def clear_frame_def ebind_eq_Inr Let_def)
  then show ?thesis using assms(1) heap_res_AllocPage [of R "km\<lparr>km_pages := pt_pages st\<rparr>" B pg mp] AllocPage_phys [OF a(1)]
    by (simp add: heap_beside_def same_phys_def)
qed

lemma descend_beside: "heap_beside R km B st \<Longrightarrow> descend l va (r, st) = Inr (r', st') \<Longrightarrow> heap_beside R km B st'"
  by (auto simp: descend_def AllocateOrPresent_def ebind_eq_Inr split: if_splits dest: Allocate_beside)

lemma MapPage_beside: "heap_beside R km B st \<Longrightarrow> MapPage p wt cd st = Inr st' \<Longrightarrow> heap_beside R km B st'"
  unfolding MapPage_def Let_def ebind_eq_Inr split_paired_Ex prod.case
  by (elim exE conjE) (simp only: sum.inject(2), drule (1) descend_beside, drule (1) descend_beside, drule (1) descend_beside, auto)

section \<open>The firmware area\<close>

text \<open>\<^verbatim>\<open>MapPage\<close> on the kernel addresses of the first 512 GiB.\<close>

lemma MapPage_kernel:
  assumes "pt_inv st KernelPgt 4 fl X" and "unat a < 2 ^ 39" and "unat a mod 4096 = 0" and "free_path st KernelPgt 4 (kva a) 1"
  shows "MapPage a wt cd st = Inl NullDeref \<and> length fl \<le> 3 \<or>
    (\<exists>st' fl'. MapPage a wt cd st = Inr st' \<and> pt_inv st' KernelPgt 4 fl' X \<and> length fl \<le> 3 + length fl' \<and> kernel_pgt st' = kernel_pgt st \<and>
      (\<forall>va l. free_path st KernelPgt 4 va (Suc l) \<longrightarrow> free_path st' KernelPgt 4 va (Suc l)) \<and>
      (\<forall>va. pagenum 0 va \<noteq> pagenum 0 (kva a) \<longrightarrow> translate (qmem st') (kernel_pgt st') va = translate (qmem st) (kernel_pgt st) va) \<and>
      (\<forall>q. unat q < 2 ^ 39 \<longrightarrow> translate (qmem st') (kernel_pgt st') (kva q) =
         (if unat q \<in> {unat a..<unat a + 4096} then Some q else translate (qmem st) (kernel_pgt st) (kva q))))"
proof -
  define e where "e = set_cache_disabled cd (set_write_through wt (CommonBaseEntry a))"
  have "stores (MapPage a wt cd st) st KernelPgt 4 0 fl X (kva a) e 3" unfolding e_def by (rule MapPage_view [OF assms(1,4)])
  then show ?thesis unfolding stores_def
  proof (elim disjE exE conjE)
    fix st' fl' assume s: "MapPage a wt cd st = Inr st'" "pt_inv st' KernelPgt 4 fl' X" "length fl \<le> 3 + length fl'" "kernel_pgt st' = kernel_pgt st"
      "\<forall>va'. view st' KernelPgt 4 va' = (if same_path 4 (4 - 0) va' (kva a) then Some (0, e) else view st KernelPgt 4 va')"
    have "translate (qmem st') (kernel_pgt st') (kva q) = (if unat q \<in> {unat a..<unat a + 4096} then Some q else translate (qmem st) (kernel_pgt st) (kva q))"
      if q: "unat q < 2 ^ 39" for q
    proof -
      have "same_path 4 4 (kva q) (kva a) \<longleftrightarrow> ix 4 (kva q) = ix 4 (kva a) \<and> same_path 3 3 (kva q) (kva a)"
        by (auto simp: same_path_def numeral_eq_Suc less_Suc_eq)
      then have sp: "same_path 4 4 (kva q) (kva a) \<longleftrightarrow> unat q \<in> {unat a..<unat a + 4096}"
        using same_page [OF q assms(2), of 0] assms(3) ix_kva [OF q] ix_kva [OF assms(2)] by simp
      have "phys_of 0 e (kva q) = q" if "unat q \<in> {unat a..<unat a + 4096}"
        using that assms(3) by (intro phys_of_page [OF q assms(2)]) (simp_all add: e_def leaf_bits)
      then show ?thesis using sp s(5) by (simp add: translate_view [OF s(2)] translate_view [OF assms(1)])
    qed
    moreover have "free_path st' KernelPgt 4 va (Suc l)" if "free_path st KernelPgt 4 va (Suc l)" for va l
      using that s(5) by (simp add: free_path_def)
    moreover have "translate (qmem st') (kernel_pgt st') va = translate (qmem st) (kernel_pgt st) va" if "pagenum 0 va \<noteq> pagenum 0 (kva a)" for va
      using that s(5) same_path_pagenum [of 0] by (simp add: translate_view [OF s(2)] translate_view [OF assms(1)])
    ultimately show ?thesis using s(1-4) by (intro disjI2 exI [of _ st'] exI [of _ fl']) simp
  qed simp
qed

abbreviation bios_page :: "nat \<Rightarrow> u64" where "bios_page i \<equiv> 0xe0000 + of_nat i * PAGESIZE"

lemma bios_page_unat: "i < 32 \<Longrightarrow> unat (bios_page i) = 0xe0000 + i * 4096"
proof -
  assume "i < 32"
  then have "bios_page i = of_nat (0xe0000 + i * 4096)" "0xe0000 + i * 4096 < 2 ^ 64" by (simp_all add: PAGESIZE_def)
  then show ?thesis using of_nat_inverse [of "0xe0000 + i * 4096" "bios_page i"] by simp
qed

lemma map_bios_run:
  assumes "pt_inv st KernelPgt 4 fl X" and "\<forall>i \<in> set is. i < 32 \<and> free_path st KernelPgt 4 (kva (bios_page i)) 1" and "heap_beside R km B st"
  shows "map_bios is st = Inl NullDeref \<and> length fl \<le> 3 * length is \<or>
    (\<exists>st' fl'. map_bios is st = Inr st' \<and> pt_inv st' KernelPgt 4 fl' X \<and> length fl \<le> length fl' + 3 * length is \<and> heap_beside R km B st' \<and> kernel_pgt st' = kernel_pgt st \<and>
      (\<forall>va. (\<forall>i \<in> set is. pagenum 0 va \<noteq> pagenum 0 (kva (bios_page i))) \<longrightarrow> translate (qmem st') (kernel_pgt st') va = translate (qmem st) (kernel_pgt st) va) \<and>
      (\<forall>q. unat q < 2 ^ 39 \<longrightarrow> translate (qmem st') (kernel_pgt st') (kva q) =
         (if \<exists>i \<in> set is. unat q \<in> {0xe0000 + i * 4096..<0xe0000 + i * 4096 + 4096} then Some q else translate (qmem st) (kernel_pgt st) (kva q))))"
  using assms
proof (induction "is" arbitrary: st fl)
  case Nil
  then show ?case by auto
next
  case (Cons i "is")
  have i: "unat (bios_page i) = 0xe0000 + i * 4096" "i < 32" "free_path st KernelPgt 4 (kva (bios_page i)) 1" using Cons.prems(2) bios_page_unat by simp_all
  have a: "unat (bios_page i) < 2 ^ 39" "unat (bios_page i) mod 4096 = 0" using i(1,2) by (simp_all only: i(1)) auto
  from MapPage_kernel [OF Cons.prems(1) a i(3), of False True] show ?case
  proof (elim disjE exE conjE)
    fix st1 fl1 assume s: "MapPage (bios_page i) False True st = Inr st1" "pt_inv st1 KernelPgt 4 fl1 X" "length fl \<le> 3 + length fl1" "kernel_pgt st1 = kernel_pgt st"
      "\<forall>va l. free_path st KernelPgt 4 va (Suc l) \<longrightarrow> free_path st1 KernelPgt 4 va (Suc l)"
      "\<forall>va. pagenum 0 va \<noteq> pagenum 0 (kva (bios_page i)) \<longrightarrow> translate (qmem st1) (kernel_pgt st1) va = translate (qmem st) (kernel_pgt st) va"
      "\<forall>q. unat q < 2 ^ 39 \<longrightarrow> translate (qmem st1) (kernel_pgt st1) (kva q) =
         (if unat q \<in> {unat (bios_page i)..<unat (bios_page i) + 4096} then Some q else translate (qmem st) (kernel_pgt st) (kva q))"
    have "\<forall>j \<in> set is. j < 32 \<and> free_path st1 KernelPgt 4 (kva (bios_page j)) 1" using Cons.prems(2) s(5) by simp
    from Cons.IH [OF s(2) this MapPage_beside [OF Cons.prems(3) s(1)]] show ?case
    proof (elim disjE exE conjE)
      fix st' fl' assume "map_bios is st1 = Inr st'" "pt_inv st' KernelPgt 4 fl' X" "length fl1 \<le> length fl' + 3 * length is" "heap_beside R km B st'" "kernel_pgt st' = kernel_pgt st1"
        "\<forall>va. (\<forall>i \<in> set is. pagenum 0 va \<noteq> pagenum 0 (kva (bios_page i))) \<longrightarrow> translate (qmem st') (kernel_pgt st') va = translate (qmem st1) (kernel_pgt st1) va"
        "\<forall>q. unat q < 2 ^ 39 \<longrightarrow> translate (qmem st') (kernel_pgt st') (kva q) =
         (if \<exists>i \<in> set is. unat q \<in> {0xe0000 + i * 4096..<0xe0000 + i * 4096 + 4096} then Some q else translate (qmem st1) (kernel_pgt st1) (kva q))"
      then show ?thesis using s(1,3,4,6,7) i(1) by (intro disjI2 exI [of _ st'] exI [of _ fl']) auto
    qed (use s(1,3) in simp)
  qed simp
qed

section \<open>The scan\<close>

text \<open>A root pointer the parser accepts.\<close>

definition rsdp_valid :: "mem \<Rightarrow> u64 \<Rightarrow> bool" where
  "rsdp_valid m p \<longleftrightarrow> load64 m p = 0x2052545020445352 \<and> sum_list (map (\<lambda>i. m (p + of_nat i)) [0..<20]) = 0 \<and> m (p + 15) \<in> {0, 2}"

lemma rsdp_sum: "fold (\<lambda>i s. s + m (p + of_nat i)) [0..<20] 0 = sum_list (map (\<lambda>i. m (p + of_nat i)) [0..<20])" for m :: mem
proof -
  have "fold (\<lambda>i s. s + f i) xs a = a + sum_list (map f xs)" for f :: "nat \<Rightarrow> u8" and xs a by (induction xs arbitrary: a) (simp_all add: add.assoc)
  then show ?thesis by simp
qed

lemma scan_rsdp_skip:
  assumes "p < e" and "\<not> rsdp_valid (snd (snd s)) p"
  shows "scan_rsdp u p e s = scan_rsdp u (p + 16) e s"
proof (cases "load64 (snd (snd s)) p = 0x2052545020445352")
  case True
  then have "ParseRSDP u p s = Some (Inr (False, s))" using assms(2) unfolding ParseRSDP_def rsdp_sum Let_def by (auto simp: rsdp_valid_def)
  then show ?thesis using assms(1) True by (subst scan_rsdp.simps) simp
qed (use assms(1) in \<open>subst scan_rsdp.simps, simp\<close>)

lemma scan_rsdp_to:
  assumes "unat b + 16 * n < unat e" and "\<forall>i < n. \<not> rsdp_valid (snd (snd s)) (b + of_nat (16 * i))"
  shows "scan_rsdp u b e s = scan_rsdp u (b + of_nat (16 * n)) e s"
  using assms
proof (induction n)
  case (Suc n)
  have "unat b + 16 * n < 2 ^ 64" using Suc.prems(1) unsigned_less [of e, where ?'a = nat] by simp
  then have "unat (b + of_nat (16 * n)) = unat b + 16 * n" by (intro of_nat_inverse) simp_all
  then have "b + of_nat (16 * n) < e" using Suc.prems(1) by (simp only: word_less_nat_alt) simp
  then have "scan_rsdp u (b + of_nat (16 * n)) e s = scan_rsdp u (b + of_nat (16 * n) + 16) e s" using Suc.prems(2) by (intro scan_rsdp_skip) simp_all
  then show ?case using Suc by (simp add: algebra_simps)
qed simp

lemma io_apics_empty: "vec_size (io_apics a) = 0 \<longleftrightarrow> io_apic_elems m a = []"
  by (simp add: io_apic_elems_def vec_addrs_def unat_eq_zero)

text \<open>What the whole start does to translations: the firmware area is mapped, and every virtual address on no page of it, in the whole address space, is translated as before.\<close>

definition bios_mapped :: "pt_state \<Rightarrow> pt_state \<Rightarrow> bool" where
  "bios_mapped pt pt' \<longleftrightarrow> kernel_pgt pt' = kernel_pgt pt \<and>
     (\<forall>q. unat q \<in> {0xe0000..<0x100000} \<longrightarrow> translate (qmem pt') (kernel_pgt pt') (KERN_OFFSET + q) = Some q) \<and>
     (\<forall>va. (\<forall>q. unat q \<in> {0xe0000..<0x100000} \<longrightarrow> pagenum 0 va \<noteq> pagenum 0 (KERN_OFFSET + q)) \<longrightarrow>
       translate (qmem pt') (kernel_pgt pt') va = translate (qmem pt) (kernel_pgt pt) va)"

lemma map_bios_all:
  assumes "pt_inv (pt\<lparr>pt_pages := km_pages km\<rparr>) KernelPgt 4 fl X" and "\<forall>i < 32. free_path pt KernelPgt 4 (KERN_OFFSET + bios_page i) 1" and "heap_res R km B"
  shows "map_bios [0..<32] (pt\<lparr>pt_pages := km_pages km\<rparr>) = Inl NullDeref \<and> free_pages km \<le> 96 \<or>
    (\<exists>pt'. map_bios [0..<32] (pt\<lparr>pt_pages := km_pages km\<rparr>) = Inr pt' \<and> bios_mapped pt pt' \<and> heap_res R (km\<lparr>km_pages := pt_pages pt'\<rparr>) B \<and>
      nr_pgs (km\<lparr>km_pages := pt_pages pt'\<rparr>) = nr_pgs km \<and> free_pages km \<le> free_pages (km\<lparr>km_pages := pt_pages pt'\<rparr>) + 96)"
proof -
  let ?st = "pt\<lparr>pt_pages := km_pages km\<rparr>"
  have fl: "free_pages km = length fl" using assms(1) by (intro free_pages_mp_inv) (simp add: pt_inv_def)
  have p: "\<forall>i \<in> set [0..<32]. i < 32 \<and> free_path ?st KernelPgt 4 (kva (bios_page i)) 1" using assms(2) by (simp add: free_path_def view_def)
  have "heap_beside R km B ?st" using assms(3) by (simp add: heap_beside_def)
  from map_bios_run [OF assms(1) p this] show ?thesis
  proof (elim disjE exE conjE)
    fix st' fl' assume s: "map_bios [0..<32] ?st = Inr st'" "pt_inv st' KernelPgt 4 fl' X" "length fl \<le> length fl' + 3 * length [0..<32]" "heap_beside R km B st'"
      "kernel_pgt st' = kernel_pgt ?st"
      "\<forall>va. (\<forall>i \<in> set [0..<32]. pagenum 0 va \<noteq> pagenum 0 (kva (bios_page i))) \<longrightarrow> translate (qmem st') (kernel_pgt st') va = translate (qmem ?st) (kernel_pgt ?st) va"
      "\<forall>q. unat q < 2 ^ 39 \<longrightarrow> translate (qmem st') (kernel_pgt st') (kva q) =
         (if \<exists>i \<in> set [0..<32]. unat q \<in> {0xe0000 + i * 4096..<0xe0000 + i * 4096 + 4096} then Some q else translate (qmem ?st) (kernel_pgt ?st) (kva q))"
    have "(\<exists>i \<in> set [0..<32]. n \<in> {0xe0000 + i * 4096..<0xe0000 + i * 4096 + 4096}) \<longleftrightarrow> n \<in> {0xe0000..<0x100000}" for n :: nat
    proof
      assume "n \<in> {0xe0000..<0x100000}"
      then have "(n - 0xe0000) div 4096 < 32" "0xe0000 + (n - 0xe0000) div 4096 * 4096 \<le> n" "n < 0xe0000 + (n - 0xe0000) div 4096 * 4096 + 4096" by auto
      then show "\<exists>i \<in> set [0..<32]. n \<in> {0xe0000 + i * 4096..<0xe0000 + i * 4096 + 4096}" by (intro bexI [of _ "(n - 0xe0000) div 4096"]) (simp_all only: set_upt atLeastLessThan_iff zero_le simp_thms)
    qed (auto simp del: upt_rec_numeral)
    then have "translate (qmem st') (kernel_pgt st') (kva q) = Some q" if "unat q \<in> {0xe0000..<0x100000}" for q
      using s(7) [rule_format, of q] that by (simp del: upt_rec_numeral)
    moreover have "translate (qmem st') (kernel_pgt st') va = translate (qmem pt) (kernel_pgt pt) va"
      if v: "\<forall>q. unat q \<in> {0xe0000..<0x100000} \<longrightarrow> pagenum 0 va \<noteq> pagenum 0 (kva q)" for va
    proof -
      have "pagenum 0 va \<noteq> pagenum 0 (kva (bios_page i))" if "i \<in> set [0..<32]" for i
        using v [rule_format, of "bios_page i"] bios_page_unat [of i] that by (simp del: upt_rec_numeral)
      then show ?thesis using s(6) by (simp del: upt_rec_numeral)
    qed
    ultimately have "bios_mapped pt st'" using s(5) by (simp add: bios_mapped_def)
    moreover have "free_pages (km\<lparr>km_pages := pt_pages st'\<rparr>) = length fl'" using s(2) by (intro free_pages_mp_inv) (simp add: pt_inv_def)
    ultimately show ?thesis using s(1,3,4) fl by (intro disjI2 exI [of _ st']) (simp add: heap_beside_def nr_pgs_def)
  qed (use fl in simp)
qed

lemma Acpi_Init_run:
  assumes "map_bios [0..<32] (pt\<lparr>pt_pages := km_pages km\<rparr>) = Inr pt1" and "j < 0xF2000" and "p = PADDR_TO_KPTR 0xe0000 + of_nat (16 * j)"
    and "\<forall>i < j. \<not> rsdp_valid m (PADDR_TO_KPTR 0xe0000 + of_nat (16 * i))" and "load64 m p = 0x2052545020445352"
  shows "Acpi_Init u ((a, km, m), pt) = (case ParseRSDP u p (a, km\<lparr>km_pages := pt_pages pt1\<rparr>, m) of None \<Rightarrow> None
     | Some (Inl err) \<Rightarrow> Some (Inl err)
     | Some (Inr (found, a, km, m)) \<Rightarrow>
         (case if found then Some (Inr (a, km, m)) else scan_rsdp u (p + 16) (PADDR_TO_KPTR 0x1000000) (a, km, m) of None \<Rightarrow> None
          | Some (Inl err) \<Rightarrow> Some (Inl err)
          | Some (Inr (a, km, m)) \<Rightarrow> if vec_size (io_apics a) = 0 then Some (Inl (Panic ''Unable to find IO APIC to setup interrupts.''))
              else Some (Inr ((a, km, m), pt1\<lparr>pt_pages := km_pages km\<rparr>))))"
proof -
  let ?s = "(a, km\<lparr>km_pages := pt_pages pt1\<rparr>, m)" and ?e = "PADDR_TO_KPTR 0x1000000"
  have b: "unat (PADDR_TO_KPTR 0xe0000) + 16 * j < unat ?e" using assms(2) by (simp add: PADDR_TO_KPTR_def KERN_OFFSET_def)
  then have "unat p = unat (PADDR_TO_KPTR 0xe0000) + 16 * j" unfolding assms(3) using unsigned_less [of ?e, where ?'a = nat] by (intro of_nat_inverse) simp_all
  then have "p < ?e" using b by (simp only: word_less_nat_alt)
  then have "scan_rsdp u p ?e ?s = (case ParseRSDP u p ?s of None \<Rightarrow> None | Some (Inl err) \<Rightarrow> Some (Inl err)
     | Some (Inr (found, s)) \<Rightarrow> if found then Some (Inr s) else scan_rsdp u (p + 16) ?e s)"
    using assms(5) by (subst scan_rsdp.simps) simp
  moreover have "scan_rsdp u (PADDR_TO_KPTR 0xe0000) ?e ?s = scan_rsdp u p ?e ?s" unfolding assms(3) by (rule scan_rsdp_to [OF b]) (use assms(4) in simp)
  ultimately show ?thesis using assms(1) by (simp add: Acpi_Init_def split: option.splits sum.splits prod.splits)
qed

section \<open>Properties\<close>

text \<open>
  C7. The ACPI object comes up as the firmware describes the machine. The heap is intact and stays away from the pages \<open>R\<close>, in which the tables lie; the page tables form a tree, with the firmware area unmapped or in 4 KiB pages;
  the page array covers at least 24 bytes for each entry, of which there are at most \<open>2 ^ 26\<close> (\<open>room\<close>), and the compiler's \<^verbatim>\<open>ctzl(0)\<close> is at least 32, since the APIC objects are of the 32-byte class (with a smaller value its slabs hand out objects in use, see \<open>Slab_Bodies\<close>);
  the first acceptable root pointer of the scanned memory leads to a root table with one interrupt controller table at any place among others. Then the constructor runs out of memory (for up to 85 entries only with at most
  four free pages for each of them and 98 more), or panics since the table lists no I/O APIC, or it ends with an intact heap on which every block of somebody else has its bytes, with the firmware area mapped and every virtual
  address on another page translated as before, and its object leads to the local APIC at the kernel address of the table's field, and to exactly the processors and I/O APICs the table lists, in order.
\<close>
theorem Acpi_ctor_correct:
  assumes "heap_res R km B" and "32 \<le> ctz_zero u" and "room km (length es)"
    and "pt_inv (pt\<lparr>pt_pages := km_pages km\<rparr>) KernelPgt 4 fl X" and "\<forall>i < 32. free_path pt KernelPgt 4 (KERN_OFFSET + bios_page i) 1"
    and "j < 0xF2000" and "p = PADDR_TO_KPTR 0xe0000 + of_nat (16 * j)" and "\<forall>i < j. \<not> rsdp_valid m (PADDR_TO_KPTR 0xe0000 + of_nat (16 * i))"
    and "load64 m p = 0x2052545020445352" and "rsdp_at m p rsdt"
    and "rsdt_at (kpages R) m (PADDR_TO_KPTR (ucast rsdt)) (pre @ t # post)" and "\<forall>v \<in> set pre \<union> set post. other_table (kpages R) m v"
    and "madt_at (kpages R) m (PADDR_TO_KPTR (ucast t)) lapic es"
  shows "Acpi_ctor u (km, m, pt) = Some (Inl NullDeref) \<and> (length es \<le> 85 \<longrightarrow> free_pages km \<le> 4 * length es + 98) \<or>
    Acpi_ctor u (km, m, pt) = Some (Inl (Panic ''Unable to find IO APIC to setup interrupts.'')) \<and> madt_io_apics es = [] \<or>
    (\<exists>a km' m' pt' B'. Acpi_ctor u (km, m, pt) = Some (Inr ((a, km', m'), pt')) \<and> heap_res R km' B' \<and> (\<forall>b \<in> B. b \<in> B' \<and> (\<forall>x \<in> block b. m' x = m x)) \<and>
      bios_mapped pt pt' \<and> pt_pages pt' = km_pages km' \<and>
      local_apic a \<noteq> 0 \<and> load_LocalApic m' (local_apic a) = \<lparr>local_apic_address = PADDR_TO_KPTR (ucast lapic), bus_freq = 0\<rparr> \<and>
      acpi_lapic_address a = PADDR_TO_KPTR (ucast lapic) \<and> cpu_elems m' a = madt_cpus es \<and> io_apic_elems m' a = madt_io_apics es \<and>
      cpus_count a = of_nat (length (madt_cpus es)))"
  using map_bios_all [OF assms(4,5,1)]
proof (elim disjE exE conjE)
  assume "map_bios [0..<32] (pt\<lparr>pt_pages := km_pages km\<rparr>) = Inl NullDeref" "free_pages km \<le> 96"
  then show ?thesis by (simp add: Acpi_ctor_def Acpi_Init_def del: upt_rec_numeral)
next
  fix pt1 assume s: "map_bios [0..<32] (pt\<lparr>pt_pages := km_pages km\<rparr>) = Inr pt1" "bios_mapped pt pt1" "heap_res R (km\<lparr>km_pages := pt_pages pt1\<rparr>) B"
    "nr_pgs (km\<lparr>km_pages := pt_pages pt1\<rparr>) = nr_pgs km" "free_pages km \<le> free_pages (km\<lparr>km_pages := pt_pages pt1\<rparr>) + 96"
  let ?km = "km\<lparr>km_pages := pt_pages pt1\<rparr>"
  note run = Acpi_Init_run [OF s(1) assms(6-9), of u Acpi_members]
  have "room ?km (length es)" using assms(3) s(4) by (simp add: room_def)
  from ParseRSDP_builds [OF s(3) assms(2) this assms(10-13)] show ?thesis
  proof (elim disjE exE conjE)
    assume "ParseRSDP u p (Acpi_members, ?km, m) = Some (Inl NullDeref)" "length es \<le> 85 \<longrightarrow> free_pages ?km \<le> 4 * length es + 2"
    then show ?thesis using run s(5) by (auto simp: Acpi_ctor_def)
  next
    fix a km' m' B' assume r: "ParseRSDP u p (Acpi_members, ?km, m) = Some (Inr (True, a, km', m'))" "heap_res R km' B'" "\<forall>b \<in> B. b \<in> B' \<and> (\<forall>x \<in> block b. m' x = m x)"
      "local_apic a \<noteq> 0" "load_LocalApic m' (local_apic a) = \<lparr>local_apic_address = PADDR_TO_KPTR (ucast lapic), bus_freq = 0\<rparr>"
      "acpi_lapic_address a = PADDR_TO_KPTR (ucast lapic)" "cpu_elems m' a = madt_cpus es" "io_apic_elems m' a = madt_io_apics es" "cpus_count a = of_nat (length (madt_cpus es))"
    show ?thesis
    proof (cases "madt_io_apics es = []")
      case True
      then show ?thesis using run r(1,8) io_apics_empty [of a m'] by (simp add: Acpi_ctor_def)
    next
      case False
      then have "Acpi_ctor u (km, m, pt) = Some (Inr ((a, km', m'), pt1\<lparr>pt_pages := km_pages km'\<rparr>))"
        using run r(1,4,8) io_apics_empty [of a m'] by (simp add: Acpi_ctor_def kassert_def)
      moreover have "bios_mapped pt (pt1\<lparr>pt_pages := km_pages km'\<rparr>)" using s(2) unfolding bios_mapped_def by auto
      ultimately show ?thesis using r(2-)
        by (intro disjI2 exI [of _ a] exI [of _ km'] exI [of _ m'] exI [of _ "pt1\<lparr>pt_pages := km_pages km'\<rparr>"] exI [of _ B']) simp
    qed
  qed
qed

lemma example_acpi_tables: "pt_inv (demo_pt\<lparr>pt_pages := km_pages (InitSlab acpi_kmem)\<rparr>) KernelPgt 4 (rev [1..<128]) {}"
proof -
  let ?pt = "demo_pt\<lparr>pt_pages := km_pages (InitSlab acpi_kmem)\<rparr>"
  have r: "root_of ?pt KernelPgt = Some 0x200000" "qmem ?pt = (\<lambda>_. 0)" using demo_root by (simp_all add: demo_pt_def)
  have k: "km_pages (InitSlab acpi_kmem) = km_pages acpi_kmem" by (simp add: InitSlab_def MemCacheBase_def upd_nodes_def upd_stat_def)
  have "0x200000 \<notin> frames (rev [1..<128])"
  proof
    assume "0x200000 \<in> frames (rev [1..<128])"
    then obtain i where i: "i < 128" "0x200000 = (of_nat (4096 * i) :: u64)" by (auto simp: frames_def simp del: upt_rec_numeral)
    then have "unat (of_nat (4096 * i) :: u64) = 4096 * i" by (intro of_nat_inverse [OF refl]) simp
    then have "unat (0x200000 :: u64) = 4096 * i" using i(2) by metis
    then show False using i(1) by simp
  qed
  then have "tree (qmem ?pt) (root_of ?pt KernelPgt) 4 (frames (rev [1..<128]) \<union> {})" unfolding r by (intro tree_empty) (use demo_root in simp_all)
  then show ?thesis using example_acpi_pages unfolding pt_inv_def phys_ok_def by (simp add: k del: upt_rec_numeral)
qed

theorem Acpi_ctor_correct_witness:
  "\<exists>a km' m' pt'. Acpi_ctor example_unspecified (InitSlab acpi_kmem, example_acpi, demo_pt) = Some (Inr ((a, km', m'), pt')) \<and>
     map local_apic_id (cpu_elems m' a) = [0, 1] \<and> map interrupt_base (io_apic_elems m' a) = [0] \<and> cpus_count a = 2 \<and>
     translate (qmem pt') (kernel_pgt pt') (KERN_OFFSET + 0xe0010) = Some 0xe0010"
proof -
  let ?es = "[Cpu_Entry 8 0 0 1, Cpu_Entry 8 1 1 1, Io_Entry 12 2 0xFEC00000 0]" and ?p = "PADDR_TO_KPTR 0xe0000 + of_nat (16 * 0)"
  have c: "32 \<le> ctz_zero example_unspecified" "room (InitSlab acpi_kmem) (length ?es)"
    using example_acpi_heap(2) by (simp_all add: example_unspecified_def numeral_3_eq_3)
  have f: "\<forall>i < 32. free_path demo_pt KernelPgt 4 (KERN_OFFSET + bios_page i) 1" by (simp add: free_path_def demo_unmapped)
  have p: "load64 example_acpi ?p = 0x2052545020445352" "rsdp_at example_acpi ?p 0x110000"
    using example_rsdp by (simp_all add: load64_def example_acpi_simps)
  from Acpi_ctor_correct [OF example_acpi_heap(1) c example_acpi_tables f _ refl _ p, of "[0x120000]" "0x130000" "[]" "0xFEE00000"]
  show ?thesis using example_rsdt example_madt example_other example_acpi_heap(3) by (auto simp: bios_mapped_def)
qed

end
