(* ===== verification/Boot_Info.thy ===== *)
theory Boot_Info
  imports Memory_Loads Multiboot
begin

text \<open>
  The information the boot loader leaves in memory (\<^verbatim>\<open>kern/multiboot2.h\<close>) and the loop of \<^verbatim>\<open>kern/main.cc\<close> that finds the tags the kernel uses in it.
\<close>

section \<open>Tags\<close>

unbundle bit_operations_syntax

definition MULTIBOOT_TAG_ALIGN :: u32 where "MULTIBOOT_TAG_ALIGN = 8"
definition MULTIBOOT_TAG_TYPE_END :: u32 where "MULTIBOOT_TAG_TYPE_END = 0"
definition MULTIBOOT_TAG_TYPE_MMAP :: u32 where "MULTIBOOT_TAG_TYPE_MMAP = 6"
definition MULTIBOOT_TAG_TYPE_VBE :: u32 where "MULTIBOOT_TAG_TYPE_VBE = 7"
definition MULTIBOOT_TAG_TYPE_FRAMEBUFFER :: u32 where "MULTIBOOT_TAG_TYPE_FRAMEBUFFER = 8"

text \<open>The two fields every tag starts with.\<close>

record multiboot_tag =
  tag_type :: u32
  tag_size :: u32

definition tag_at :: "mem \<Rightarrow> u64 \<Rightarrow> multiboot_tag" where
  "tag_at m p = \<lparr>tag_type = load32 m p, tag_size = load32 m (p + 4)\<rparr>"

text \<open>The memory map tag at an address: \<^verbatim>\<open>entries[i]\<close> is 24 bytes long whatever \<^verbatim>\<open>entry_size\<close> says.\<close>

definition mmap_entry_at :: "mem \<Rightarrow> u64 \<Rightarrow> multiboot_mmap_entry" where
  "mmap_entry_at m p = \<lparr>entry_addr = load64 m p, entry_len = load64 m (p + 8), entry_type = load32 m (p + 16)\<rparr>"

definition mmap_tag_at :: "mem \<Rightarrow> u64 \<Rightarrow> multiboot_tag_mmap" where
  "mmap_tag_at m p = \<lparr>mmap_size = load32 m (p + 4), mmap_entry_size = load32 m (p + 8), mmap_entries = (\<lambda>i. mmap_entry_at m (p + 16 + 24 * of_nat i))\<rparr>"

section \<open>Parsing\<close>

record MultibootInfo =
  boot_mem_map :: u64
  boot_vbe :: u64
  boot_framebuf :: u64

definition parse_tag :: "mem \<Rightarrow> u64 \<Rightarrow> MultibootInfo \<Rightarrow> MultibootInfo" where
  "parse_tag m p info =
     (let tag = tag_at m p in
      if tag_type tag = MULTIBOOT_TAG_TYPE_MMAP then info\<lparr>boot_mem_map := p\<rparr>
      else if tag_type tag = MULTIBOOT_TAG_TYPE_VBE then info\<lparr>boot_vbe := p\<rparr>
      else if tag_type tag = MULTIBOOT_TAG_TYPE_FRAMEBUFFER then info\<lparr>boot_framebuf := p\<rparr>
      else info)"

text \<open>\<^verbatim>\<open>(tag->size + 0x07) & (~0x07)\<close> in 32 bits.\<close>

definition tag_stride :: "u32 \<Rightarrow> u32" where
  "tag_stride sz = (sz + 7) AND NOT 7"

partial_function (option) parse_tags :: "mem \<Rightarrow> u64 \<Rightarrow> u64 \<Rightarrow> MultibootInfo \<Rightarrow> MultibootInfo option" where
  "parse_tags m tag_ptr e info =
     (if tag_ptr < e then parse_tags m (tag_ptr + ucast (tag_stride (tag_size (tag_at m tag_ptr)))) e (parse_tag m tag_ptr info)
      else Some info)"

text \<open>\<^verbatim>\<open>int info_size\<close> is sign-extended when it is added to the pointer.\<close>

definition ParseMultibootInfo :: "mem \<Rightarrow> u64 \<Rightarrow> MultibootInfo option" where
  "ParseMultibootInfo m mbi =
     (let info_size = load32 m mbi in
      parse_tags m (mbi + 8) (mbi + scast info_size) \<lparr>boot_mem_map = 0, boot_vbe = 0, boot_framebuf = 0\<rparr>)"

section \<open>A sequence of tags\<close>

text \<open>
  The layout of the boot loader's specification, independent of the parser: a tag is its type, its size in bytes and the rest of
  that size, padded with up to seven bytes to a multiple of eight, where the next tag starts. \<open>tags_at m p e ts q\<close> says that the
  tags \<open>ts\<close>, each given by its address and its type, lie one behind the other from \<open>p\<close> on, that each starts before the end \<open>e\<close> and
  that \<open>q\<close> is the address behind the last one. A size is at most 4 GiB less eight bytes.
\<close>

definition padded_size :: "nat \<Rightarrow> nat" where
  "padded_size n = (if n mod 8 = 0 then n else n + (8 - n mod 8))"

fun tags_at :: "mem \<Rightarrow> u64 \<Rightarrow> u64 \<Rightarrow> (u64 \<times> u32) list \<Rightarrow> u64 \<Rightarrow> bool" where
  "tags_at m p e [] q \<longleftrightarrow> p = q"
| "tags_at m p e ((a, t) # ts) q \<longleftrightarrow> p < e \<and> a = p \<and> load32 m p = t \<and> unat (load32 m (p + 4)) \<le> 2 ^ 32 - 8 \<and>
     tags_at m (p + of_nat (padded_size (unat (load32 m (p + 4))))) e ts q"

text \<open>The address of the last tag of a type, or the null pointer.\<close>

definition last_tag :: "u32 \<Rightarrow> (u64 \<times> u32) list \<Rightarrow> u64" where
  "last_tag t ts = fold (\<lambda>(a, u) r. if u = t then a else r) ts 0"

text \<open>The stride is the size rounded up to eight, except where that does not fit in 32 bits: there it is zero, as it is for size zero.\<close>

lemma tag_stride_value: "unat (tag_stride s) = (if unat s + 7 < 2 ^ 32 then (unat s + 7) div 8 * 8 else 0)"
proof -
  have "(s + 7) AND NOT 7 = (s + 7) AND NOT (mask 3)" by (simp add: mask_eq_exp_minus_1)
  also have "\<dots> = push_bit 3 (drop_bit 3 (s + 7))"
    by (rule bit_word_eqI) (auto simp: bit_and_iff bit_not_iff bit_mask_iff bit_push_bit_iff bit_drop_bit_eq)
  also have "unat \<dots> = unat (s + 7) div 8 * 8"
  proof -
    have "unat (s + 7) div 8 * 8 < 2 ^ 32" using unsigned_less [of "s + 7", where ?'a = nat] by (simp add: div_times_less_eq_dividend order_le_less_trans)
    then show ?thesis by (simp add: push_bit_eq_mult drop_bit_eq_div unat_mult_lem [symmetric] unat_word_ariths(2) unat_div_distrib)
  qed
  finally have *: "unat (tag_stride s) = unat (s + 7) div 8 * 8" by (simp add: tag_stride_def)
  show ?thesis
  proof (cases "unat s + 7 < 2 ^ 32")
    case False
    have "unat (s + 7) = (unat s + 7) mod 2 ^ 32" by (simp add: unat_word_ariths)
    moreover have "unat s < 2 ^ 32" using unsigned_less [of s, where ?'a = nat] by simp
    ultimately have "unat (s + 7) < 7" using False by (simp add: mod_if) linarith
    then show ?thesis using * False by simp
  qed (use * in \<open>simp add: unat_word_ariths\<close>)
qed

lemma padded_size_div: "padded_size n = (n + 7) div 8 * 8"
  unfolding padded_size_def by presburger

lemma next_tag:
  assumes "unat s \<le> 2 ^ 32 - 8"
  shows "(ucast (tag_stride s) :: u64) = of_nat (padded_size (unat s))"
proof -
  have "unat (tag_stride s) = padded_size (unat s)" using assms by (simp add: tag_stride_value padded_size_div)
  then show ?thesis by (metis of_nat_unat)
qed

lemma parse_tag_fold:
  assumes "tags_at m p e ts q"
  shows "parse_tags m p e info = parse_tags m q e \<lparr>boot_mem_map = fold (\<lambda>(a, u) r. if u = 6 then a else r) ts (boot_mem_map info),
    boot_vbe = fold (\<lambda>(a, u) r. if u = 7 then a else r) ts (boot_vbe info),
    boot_framebuf = fold (\<lambda>(a, u) r. if u = 8 then a else r) ts (boot_framebuf info)\<rparr>"
  using assms
proof (induction ts arbitrary: p info)
  case Nil
  then show ?case by (cases info) simp
next
  case (Cons x ts)
  obtain a t where x: "x = (a, t)" by (cases x)
  let ?q = "p + ucast (tag_stride (tag_size (tag_at m p)))"
  have "parse_tags m p e info = parse_tags m ?q e (parse_tag m p info)" using Cons.prems x by (subst parse_tags.simps) simp
  moreover have "tags_at m ?q e ts q" "a = p" "tag_type (tag_at m p) = t"
    using Cons.prems x by (simp_all add: tag_at_def next_tag)
  ultimately show ?case unfolding x
    using Cons.IH [of ?q "parse_tag m p info"]
    by (simp add: parse_tag_def Let_def MULTIBOOT_TAG_TYPE_MMAP_def MULTIBOOT_TAG_TYPE_VBE_def MULTIBOOT_TAG_TYPE_FRAMEBUFFER_def)
qed

lemma parse_tags_end: "e \<le> p \<Longrightarrow> parse_tags m p e info = Some info"
  by (subst parse_tags.simps) (simp add: leD)

lemma parse_tags_stuck:
  assumes "p < e" and "tag_stride (tag_size (tag_at m p)) = 0"
  shows "parse_tags m p e info = None"
proof -
  have "p < e \<longrightarrow> tag_stride (tag_size (tag_at m p)) = 0 \<longrightarrow> False" if "parse_tags m p e info = Some r" for r
    by (rule parse_tags.raw_induct [where P = "\<lambda>m p e info r. p < e \<longrightarrow> tag_stride (tag_size (tag_at m p)) = 0 \<longrightarrow> False", OF _ that])
      (auto split: if_splits)
  then show ?thesis using assms by (cases "parse_tags m p e info") auto
qed

lemma ParseMultibootInfo_tags:
  assumes "tags_at m (mbi + 8) (mbi + scast (load32 m mbi)) ts q" and "mbi + scast (load32 m mbi) \<le> q"
  shows "ParseMultibootInfo m mbi = Some \<lparr>boot_mem_map = last_tag MULTIBOOT_TAG_TYPE_MMAP ts, boot_vbe = last_tag MULTIBOOT_TAG_TYPE_VBE ts,
    boot_framebuf = last_tag MULTIBOOT_TAG_TYPE_FRAMEBUFFER ts\<rparr>"
  using parse_tag_fold [OF assms(1)] assms(2)
  by (simp add: ParseMultibootInfo_def parse_tags_end last_tag_def MULTIBOOT_TAG_TYPE_MMAP_def MULTIBOOT_TAG_TYPE_VBE_def MULTIBOOT_TAG_TYPE_FRAMEBUFFER_def)

section \<open>An example\<close>

text \<open>A boot information of a memory map with one entry, a command line and the end tag.\<close>

definition mbi_bytes :: "u8 list" where
  "mbi_bytes =
     [72, 0, 0, 0, 0, 0, 0, 0,
      1, 0, 0, 0, 9, 0, 0, 0, 0, 0, 0, 0, 0, 0, 0, 0,
      6, 0, 0, 0, 40, 0, 0, 0, 24, 0, 0, 0, 0, 0, 0, 0,
        0, 0, 0x40, 0, 0, 0, 0, 0, 0, 0, 0x20, 0, 0, 0, 0, 0, 1, 0, 0, 0, 0, 0, 0, 0,
      0, 0, 0, 0, 8, 0, 0, 0]"

definition bytes_from :: "u64 \<Rightarrow> u8 list \<Rightarrow> mem" where
  "bytes_from p bs a = (if unat (a - p) < length bs then bs ! unat (a - p) else 0)"

lemmas mbi_simps = bytes_from_def mbi_bytes_def tag_at_def load32_def le32_def padded_size_def

lemma mbi_tags: "tags_at (bytes_from 0x1000 mbi_bytes) (0x1000 + 8) (0x1000 + scast (load32 (bytes_from 0x1000 mbi_bytes) 0x1000)) [(0x1008, 1), (0x1018, 6), (0x1040, 0)] 0x1048"
  by (simp add: mbi_simps)

section \<open>Properties\<close>

text \<open>
  C22. For boot information laid out as the boot loader's specification has it, tags padded to multiples of eight that reach the
  total size or beyond it, none of them within seven bytes of 4 GiB, the parser returns the addresses of the last memory map, VBE
  and framebuffer tag, or null where there is none.
\<close>
theorem ParseMultibootInfo_correct:
  assumes "tags_at m (mbi + 8) (mbi + scast (load32 m mbi)) ts q" and "mbi + scast (load32 m mbi) \<le> q"
  shows "ParseMultibootInfo m mbi = Some \<lparr>boot_mem_map = last_tag MULTIBOOT_TAG_TYPE_MMAP ts, boot_vbe = last_tag MULTIBOOT_TAG_TYPE_VBE ts,
    boot_framebuf = last_tag MULTIBOOT_TAG_TYPE_FRAMEBUFFER ts\<rparr>"
  by (rule ParseMultibootInfo_tags [OF assms])

theorem ParseMultibootInfo_correct_witness:
  "ParseMultibootInfo (bytes_from 0x1000 mbi_bytes) 0x1000 = Some \<lparr>boot_mem_map = 0x1018, boot_vbe = 0, boot_framebuf = 0\<rparr>"
  using ParseMultibootInfo_correct [OF mbi_tags]
  by (simp add: last_tag_def MULTIBOOT_TAG_TYPE_MMAP_def MULTIBOOT_TAG_TYPE_VBE_def MULTIBOOT_TAG_TYPE_FRAMEBUFFER_def mbi_simps)

text \<open>
  A tag whose size is zero, or within eight of 4 GiB, is never left: the parser does not return.
\<close>
lemma ParseMultibootInfo_stuck:
  assumes "tags_at m (mbi + 8) (mbi + scast (load32 m mbi)) ts q" and "q < mbi + scast (load32 m mbi)"
    and "tag_size (tag_at m q) = 0 \<or> 2 ^ 32 \<le> unat (tag_size (tag_at m q)) + 7"
  shows "ParseMultibootInfo m mbi = None"
proof -
  have "unat (tag_stride (tag_size (tag_at m q))) = 0" using assms(3) by (auto simp: tag_stride_value)
  then have "tag_stride (tag_size (tag_at m q)) = 0" by (simp add: unat_eq_0)
  then show ?thesis using parse_tag_fold [OF assms(1)] parse_tags_stuck [OF assms(2)] by (simp add: ParseMultibootInfo_def)
qed

lemma ParseMultibootInfo_stuck_example:
  "ParseMultibootInfo ((bytes_from 0x1000 mbi_bytes)(0x101C := 0)) 0x1000 = None"
  by (rule ParseMultibootInfo_stuck [where ts = "[(0x1008, 1)]" and q = "0x1018"]) (simp_all add: mbi_simps)

end
