(* ===== verification/Boot.thy ===== *)
theory Boot
  imports Boot_Info Acpi_Setup Irqs Console Kmalloc
begin

text \<open>
  \<^verbatim>\<open>KernelMain\<close> (\<^verbatim>\<open>kern/main.cc\<close>): the order in which the kernel brings up its parts, each with the state the earlier ones left.
\<close>

section \<open>The state\<close>

text \<open>
  The objects of the kernel and the machine. \<^verbatim>\<open>km_pages\<close> is the global page allocator; the page tables carry a copy (\<^verbatim>\<open>pt_pages\<close>) that is handed over
  before and after they allocate. The port log is that of the machine.
\<close>

record kernel =
  k_console :: console
  k_kmem :: kmem
  k_mc :: machine
  k_mem :: mem
  k_irqs :: IrqVector
  k_acpi :: "Acpi option"
  k_idt :: u64

text \<open>What the code takes from outside: the linker, the devices, and the addresses of the objects on the stack and of the wrappers,
  the contents of \<^verbatim>\<open>rax\<close> when the descriptor table register is loaded, and what the language leaves open in the objects of the ACPI parser.\<close>

record platform =
  pf_link :: link_symbols
  pf_mmio :: mmio_answers
  pf_ports :: devices
  pf_host :: "nat \<Rightarrow> KvmCpuTimeInfo"
  pf_tsc :: "nat \<Rightarrow> u64"
  pf_wrapper :: "nat \<Rightarrow> u64"
  pf_rax :: u64
  pf_idt64 :: u64
  pf_systime :: u64
  pf_port :: nat
  pf_unspec :: unspecified

definition orbind :: "'a result option \<Rightarrow> ('a \<Rightarrow> 'b result option) \<Rightarrow> 'b result option" where
  "orbind m f = (case m of None \<Rightarrow> None | Some (Inl e) \<Rightarrow> Some (Inl e) | Some (Inr x) \<Rightarrow> f x)"

lemma orbind_simps [simp]: "orbind None f = None" "orbind (Some (Inl e)) f = Some (Inl e)" "orbind (Some (Inr x)) f = f x"
  by (simp_all add: orbind_def)

section \<open>KernelMain\<close>

text \<open>The globals, the serial console, the page allocator, the heap and the page tables.\<close>

definition boot_memory :: "platform \<Rightarrow> u64 \<Rightarrow> kernel \<Rightarrow> kernel result option" where
  "boot_memory pf mbi_paddr k =
     (let mbi = PADDR_TO_KPTR mbi_paddr;
          con = Console_init ((k_console k)\<lparr>terminal := Terminal_ctor\<rparr>);
          mp = MemPages (km_pages (k_kmem k));
          (port, log) = SerialPort_ctor COM1 (mc_ports (k_mc k));
          con = AddSource (pf_port pf) (con\<lparr>source_at := (source_at con)(pf_port pf := Serial port)\<rparr>)
      in orbind (Some (InitBootPageTable ((mc_pt (k_mc k))\<lparr>pt_pages := mp\<rparr>))) (\<lambda>pt.
         case ParseMultibootInfo (k_mem k) mbi of None \<Rightarrow> None
         | Some info \<Rightarrow>
             let mm = mmap_tag_at (k_mem k) (boot_mem_map info)
             in orbind (MemPages_Init (pf_link pf) (pt_pages pt) mm) (\<lambda>mp.
                let km = InitSlab ((k_kmem k)\<lparr>km_pages := mp\<rparr>)
                in orbind (InitKernelPageTable mm (pt\<lparr>pt_pages := km_pages km\<rparr>)) (\<lambda>pt.
                   Some (Inr (k\<lparr>k_console := con, k_kmem := km\<lparr>km_pages := pt_pages pt\<rparr>,
                     k_mc := (k_mc k)\<lparr>mc_pt := pt, mc_ports := log\<rparr>\<rparr>))))))"

text \<open>The bases of the I/O APICs, of which every one after a non-zero base has to have that same base.\<close>

fun irq_base :: "IoApic list \<Rightarrow> u64 \<Rightarrow> u64 result" where
  "irq_base [] b = Inr b"
| "irq_base (ioa # is) b =
     kassert ''irq_vector_base == io_apic->interrupt_base_address()'' (b = 0 \<or> b = ucast (interrupt_base_address ioa)) (irq_base is (ucast (interrupt_base_address ioa)))"

text \<open>The clock, the processors, the interrupt controllers and the interrupt vectors. The loop at the end halts the processor for ever: \<^verbatim>\<open>Halt\<close> leaves the state as it is.\<close>

definition boot_devices :: "platform \<Rightarrow> kernel \<Rightarrow> kernel result option" where
  "boot_devices pf k =
     (let (ti, last, c) = KvmSystemTime (pf_systime pf) (mc_cpu (k_mc k));
          mc = (k_mc k)\<lparr>mc_cpu := c, mc_last := last, mc_loads := 0\<rparr>
      in orbind (Acpi_ctor (pf_unspec pf) (k_kmem k, k_mem k, mc_pt mc)) (\<lambda>((a, km, m), pt).
         orbind (acpi_InitCpu (pf_mmio pf) (pf_host pf) (pf_tsc pf) a (m, mc\<lparr>mc_pt := pt\<rparr>)) (\<lambda>(m, mc).
         orbind (Some (InitIoApics (pf_mmio pf) (pf_ports pf) a m mc)) (\<lambda>mc.
         orbind (Some (irq_base (io_apic_elems m a) 0)) (\<lambda>irq_vector_base.
         let ((v, m, p), idt) = IrqVector_Setup (pf_wrapper pf) (pf_rax pf) (pf_idt64 pf) irq_vector_base (k_irqs k, m, mc_ports mc);
             c = Halt (EnableInterrupts (mc_cpu mc))
         in Some (Inr (k\<lparr>k_mc := mc\<lparr>mc_cpu := c, mc_ports := p\<rparr>, k_mem := m, k_irqs := v, k_acpi := Some a, k_idt := idt,
              k_kmem := km\<lparr>km_pages := pt_pages (mc_pt mc)\<rparr>\<rparr>)))))))"

definition KernelMain :: "platform \<Rightarrow> u64 \<Rightarrow> kernel \<Rightarrow> kernel result option" where
  "KernelMain pf mbi_paddr k = orbind (boot_memory pf mbi_paddr k) (boot_devices pf)"

section \<open>Interrupt bases\<close>

text \<open>Two I/O APICs behind the first one cannot differ in their bases: the third one stops the boot, as its base is never that of the second.\<close>

lemma irq_base_three:
  assumes "interrupt_base y \<noteq> 0" and "interrupt_base z \<noteq> interrupt_base y"
  shows "\<exists>msg. irq_base (x # y # z # is) 0 = Inl (Panic msg)"
proof -
  have u: "(ucast a :: u64) = ucast b \<longleftrightarrow> a = b" for a b :: u32
    by (auto simp: word_unat_eq_iff unsigned_ucast_eq take_bit_nat_eq_self unsigned_less)
  have "(ucast (interrupt_base y) :: u64) \<noteq> 0" using assms(1) u [of "interrupt_base y" 0] by simp
  then show ?thesis using assms(2) u by (auto simp: kassert_def interrupt_base_address_def)
qed

text \<open>A machine that gets through \<^verbatim>\<open>KernelMain\<close> waits with interrupts enabled, and with the descriptor table that \<^verbatim>\<open>rax\<close> happened to point to.\<close>

lemma boot_devices_end:
  assumes "boot_devices pf k = Some (Inr k')"
  shows "halted (mc_cpu (k_mc k')) \<and> bit (rflags (mc_cpu (k_mc k'))) 9 \<and> k_idt k' = pf_rax pf"
proof -
  have h: "halted (Halt (EnableInterrupts c)) \<and> bit (rflags (Halt (EnableInterrupts c))) 9" for c
    by (simp add: Halt_def EnableInterrupts_def bit_or_iff bit_numeral_rec)
  show ?thesis
    using assms unfolding boot_devices_def orbind_def Let_def
    by (auto simp: h split: prod.splits option.splits sum.splits) (metis Setup_loads_rax snd_conv)
qed

section \<open>Memory\<close>

text \<open>The collecting of pages leaves the highest address of the memory map alone.\<close>

lemma max_phy_set_page [simp]: "max_phy (set_page mp i f) = max_phy mp"
  by (simp add: set_page_def)

lemma max_phy_wr_page: "wr_page mp p f = Inr mp' \<Longrightarrow> max_phy mp' = max_phy mp"
  by (cases p) auto

lemma max_phy_append_page: "append_page mp i p = Inr mp' \<Longrightarrow> max_phy mp' = max_phy mp"
  by (auto simp: append_page_def Let_def dest: max_phy_wr_page)

lemma max_phy_collect_range:
  assumes "collect_range mp a stop klo khi p = Some r"
  shows "r = Inr (mp', q) \<longrightarrow> max_phy mp' = max_phy mp"
proof (rule collect_range.raw_induct [where P = "\<lambda>mp a stop klo khi p r. r = Inr (mp', q) \<longrightarrow> max_phy mp' = max_phy mp", OF _ assms])
qed (auto simp: Let_def dest: max_phy_append_page split: if_splits sum.splits)

lemma max_phy_collect_entries: "collect_entries mp es klo khi p = Some (Inr mp') \<Longrightarrow> max_phy mp' = max_phy mp"
  by (induction es arbitrary: mp p) (auto split: if_splits option.splits sum.splits dest: max_phy_collect_range)

lemma max_phy_fold:
  "max_phy (fst (fold MemPages_Init_entry es s)) = fold max (map (\<lambda>e. entry_addr e + entry_len e) es) (max_phy (fst s))"
proof (induction es arbitrary: s)
  case (Cons e es)
  have "max_phy (fst (MemPages_Init_entry e s)) = max (entry_addr e + entry_len e) (max_phy (fst s))"
    by (auto simp: MemPages_Init_entry_def Let_def max_def split: prod.splits)
  then show ?case using Cons by simp
qed simp

lemma MemPages_Init_max_phy:
  assumes "MemPages_Init ls mp mm = Some (Inr mp')" and "nr_mmap_entries mm = Inr n"
  shows "max_phy mp' = fold max (map (\<lambda>e. entry_addr e + entry_len e) (mmap_entry_list mm n)) (max_phy mp)"
  using assms max_phy_fold [of "mmap_entry_list mm n" "(mp, 0)"]
  by (auto simp: MemPages_Init_def CollectAvailable_def Let_def dest!: max_phy_collect_entries)

lemma InitSlab_pages: "km_pages (InitSlab km) = km_pages km" "InitSlab (km\<lparr>km_pages := mp\<rparr>) = (InitSlab km)\<lparr>km_pages := mp\<rparr>"
  by (simp_all add: InitSlab_def MemCacheBase_def upd_nodes_def upd_stat_def)

lemma fold_max_le: "\<forall>x \<in> set xs. x \<le> b \<Longrightarrow> a \<le> b \<Longrightarrow> fold max xs a \<le> b" for a b :: "'a :: linorder"
  by (induction xs arbitrary: a) auto

text \<open>A memory map the kernel can take: page-aligned entries of usable memory without overlaps, all below 512 GiB, with a page left beside the kernel.\<close>

definition good_map :: "link_symbols \<Rightarrow> multiboot_mmap_entry list \<Rightarrow> bool" where
  "good_map ls es \<longleftrightarrow> (\<forall>e \<in> set es. entry_addr e + entry_len e \<le> KERN_MAX_MEMORY \<and> (managed e \<longrightarrow> page_aligned e)) \<and>
     distinct (managed_pages es) \<and> usable_pages ls es \<noteq> [] \<and> map_ok es"

lemma good_map_structs: "good_map ls es \<Longrightarrow> unat (nr_structs es) \<le> 2 ^ 27"
proof -
  assume "good_map ls es"
  then have "fold max (map (\<lambda>e. entry_addr e + entry_len e) (filter managed es)) 0 \<le> KERN_MAX_MEMORY"
    by (intro fold_max_le) (auto simp: good_map_def)
  then have "unat (fold max (map (\<lambda>e. entry_addr e + entry_len e) (filter managed es)) 0) \<le> 2 ^ 39"
    by (simp add: word_le_nat_alt KERN_MAX_MEMORY_def)
  then have "unat (fold max (map (\<lambda>e. entry_addr e + entry_len e) (filter managed es)) 0) div 4096 \<le> 2 ^ 39 div 4096"
    by (rule div_le_mono)
  then show ?thesis by (simp add: nr_structs_def unat_div_distrib)
qed

lemma Init_good_map:
  assumes "nr_mmap_entries mm = Inr n" and "es = mmap_entry_list mm n" and "good_map ls es" and "max_phy mp = 0"
  obtains mp' where "MemPages_Init ls mp mm = Some (Inr mp')" and "mp_inv mp' (usable_pages ls es)" and "unat (nr_page_structs mp') \<le> 2 ^ 27"
    and "phys_ok mp' (set (usable_pages ls es))" and "max_phy mp' \<le> KERN_MAX_MEMORY"
proof -
  have g: "\<forall>e \<in> set es. managed e \<longrightarrow> page_aligned e" "distinct (managed_pages es)" "usable_pages ls es \<noteq> []" "es \<noteq> []"
    using assms(3) by (auto simp: good_map_def usable_pages_def managed_pages_def)
  obtain mp' l where mp': "MemPages_Init ls mp mm = Some (Inr mp')" "collected mp' (usable_pages ls es) l"
    "nr_page_structs mp' = nr_structs es" "phys_ok mp' (set (managed_pages es))"
    by (rule MemPages_Init_collected [OF assms(1,2) g(4,1,2)])
  have "max_phy mp' \<le> KERN_MAX_MEMORY"
    using MemPages_Init_max_phy [OF mp'(1) assms(1)] assms(2-4) fold_max_le [of "map (\<lambda>e. entry_addr e + entry_len e) es" KERN_MAX_MEMORY 0]
    by (simp add: good_map_def)
  then show thesis using that [OF mp'(1) collected_inv [OF mp'(2) g(3)]] mp'(3,4) good_map_structs [OF assms(3)]
    by (auto simp: phys_ok_def usable_pages_def)
qed

section \<open>Properties\<close>

text \<open>
  C2. The memory of the kernel is up after the first half of \<^verbatim>\<open>KernelMain\<close>: for boot information with a memory map the kernel can take, on the page tables of the boot code, it either runs out
  of pages for the tables (which takes a map of that many pages), or it ends with the serial port as the one source of the console, an empty heap on which allocation is safe, and installed page tables
  that send the kernel address of every byte of the page-aligned entries of the memory map (rounded up to whole pages) to that byte, and have no translation for the kernel address of any other
  byte of the first 512 GiB, nor for any address of the first slot of the top-level table, the lowest 512 GiB.
\<close>
theorem boot_memory_correct:
  fixes mbi_paddr :: u64
  defines "mbi \<equiv> PADDR_TO_KPTR mbi_paddr"
  assumes "tags_at (k_mem k) (mbi + 8) (mbi + scast (load32 (k_mem k) mbi)) ts q" and "mbi + scast (load32 (k_mem k) mbi) \<le> q"
    and "mm = mmap_tag_at (k_mem k) (last_tag MULTIBOOT_TAG_TYPE_MMAP ts)" and "nr_mmap_entries mm = Inr n" and "es = mmap_entry_list mm n"
    and "good_map (pf_link pf) es" and "max_phy (km_pages (k_kmem k)) = 0"
    and "boot_tables (mc_pt (k_mc k)) K P D" and "K \<notin> frames (usable_pages (pf_link pf) es)"
  shows "boot_memory pf mbi_paddr k = Some (Inl NullDeref) \<and> length (usable_pages (pf_link pf) es) \<le> sum_list (map table_pages es) \<or>
    (\<exists>k'. boot_memory pf mbi_paddr k = Some (Inr k') \<and> heap_ok (k_kmem k') {} \<and>
      sources (k_console k') = Some (pf_port pf) \<and> source_next (k_console k') (pf_port pf) = None \<and>
      source_at (k_console k') (pf_port pf) = Serial \<lparr>sp_port = COM1\<rparr> \<and>
      (\<forall>e \<in> set es. \<forall>a. paged e \<longrightarrow> unat a \<in> region e \<longrightarrow>
         translate (qmem (mc_pt (k_mc k'))) (cr3 (mc_pt (k_mc k'))) (KERN_OFFSET + a) = Some a) \<and>
      (\<forall>a. unat a < 2 ^ 39 \<longrightarrow> (\<forall>e \<in> set es. paged e \<longrightarrow> unat a \<notin> region e) \<longrightarrow>
         translate (qmem (mc_pt (k_mc k'))) (cr3 (mc_pt (k_mc k'))) (KERN_OFFSET + a) = None) \<and>
      (\<forall>va. ix 4 va = 0 \<longrightarrow> translate (qmem (mc_pt (k_mc k'))) (cr3 (mc_pt (k_mc k'))) va = None))"
proof -
  let ?ls = "pf_link pf" and ?mp0 = "MemPages (km_pages (k_kmem k))"
  let ?pt0 = "(mc_pt (k_mc k))\<lparr>pt_pages := ?mp0\<rparr>"
  have "boot_tables ?pt0 K P D" using assms(9) by (simp add: boot_tables_def)
  then obtain pt where pt: "InitBootPageTable ?pt0 = Inr pt" "boot_tables pt K P D" "kernel_pgt pt = cr3 ?pt0" "cr3 pt = cr3 ?pt0" "pt_pages pt = pt_pages ?pt0"
    by (rule InitBootPageTable_run)
  have mx: "max_phy ?mp0 = 0" using assms(8) by (simp add: MemPages_def)
  obtain mp' where mp': "MemPages_Init ?ls ?mp0 mm = Some (Inr mp')" "mp_inv mp' (usable_pages ?ls es)" "unat (nr_page_structs mp') \<le> 2 ^ 27"
    "phys_ok mp' (set (usable_pages ?ls es))" "max_phy mp' \<le> KERN_MAX_MEMORY"
    by (rule Init_good_map [OF assms(5,6,7) mx])
  have info: "ParseMultibootInfo (k_mem k) mbi = Some \<lparr>boot_mem_map = last_tag MULTIBOOT_TAG_TYPE_MMAP ts, boot_vbe = last_tag MULTIBOOT_TAG_TYPE_VBE ts,
    boot_framebuf = last_tag MULTIBOOT_TAG_TYPE_FRAMEBUFFER ts\<rparr>"
    by (rule ParseMultibootInfo_tags [OF assms(2,3)])
  let ?km = "InitSlab ((k_kmem k)\<lparr>km_pages := mp'\<rparr>)" and ?pt1 = "pt\<lparr>pt_pages := mp'\<rparr>"
  have K: "physical_address (kernel_pgt ?pt1) = K" "frame_ok K" using pt(2,3,4) by (simp_all add: boot_tables_def)
  have h: "mp_inv (pt_pages ?pt1) (usable_pages ?ls es)" "unat (nr_page_structs (pt_pages ?pt1)) \<le> 2 ^ 27"
    "\<forall>p \<in> set (usable_pages ?ls es). phyaddr (page_structs (pt_pages ?pt1) p) = of_nat (4096 * p)" "max_phy (pt_pages ?pt1) \<le> KERN_MAX_MEMORY"
    "frame_ok (physical_address (kernel_pgt ?pt1))" "physical_address (kernel_pgt ?pt1) \<notin> frames (usable_pages ?ls es)"
    using mp' K assms(10) by (simp_all add: phys_ok_def)
  have mo: "map_ok (mmap_entry_list mm n)" using assms(6,7) by (simp add: good_map_def)
  have run: "boot_memory pf mbi_paddr k = orbind (InitKernelPageTable mm ?pt1) (\<lambda>pt.
      Some (Inr (k\<lparr>k_console := AddSource (pf_port pf) ((Console_init ((k_console k)\<lparr>terminal := Terminal_ctor\<rparr>))
          \<lparr>source_at := (source_at (k_console k))(pf_port pf := Serial \<lparr>sp_port = COM1\<rparr>)\<rparr>),
        k_kmem := ?km\<lparr>km_pages := pt_pages pt\<rparr>, k_mc := (k_mc k)\<lparr>mc_pt := pt, mc_ports := snd (SerialPort_ctor COM1 (mc_ports (k_mc k)))\<rparr>\<rparr>)))"
    using pt(1) pt(5) [simplified] mp'(1) info by (simp add: boot_memory_def mbi_def assms(4) SerialPort_ctor_def Console_init_def InitSlab_pages Let_def)
  show ?thesis
    using InitKernelPageTable_mapped [OF h assms(5) mo]
  proof (elim disjE exE conjE, goal_cases)
    case 1
    then show ?case using run assms(6) by simp
  next
    case (2 pt' fl')
    have "heap_ok (?km\<lparr>km_pages := pt_pages pt'\<rparr>) {}"
      using InitSlab_heap_ok [of "(k_kmem k)\<lparr>km_pages := pt_pages pt'\<rparr>" fl'] 2 by (simp add: InitSlab_pages)
    then show ?case using run 2 assms(6) by (intro disjI2) (simp add: AddSource_def Console_init_def)
  qed
qed

text \<open>A machine with 2 MiB of memory at 4 MiB, as the boot information of the example describes it.\<close>

definition example_kernel :: kernel where
  "example_kernel = \<lparr>k_console = \<lparr>sources = None, source_next = \<lambda>_. None, source_at = \<lambda>_. Serial \<lparr>sp_port = 0\<rparr>, terminal = Terminal_ctor, screen = \<lambda>_. 0, ports = []\<rparr>,
     k_kmem = demo_kmem\<lparr>km_pages := demo_pages\<lparr>max_phy := 0\<rparr>\<rparr>,
     k_mc = \<lparr>mc_pt = demo_boot, mc_cpu = \<lparr>msrs = \<lambda>_. 0, rflags = 0, gs = 0, halted = False\<rparr>, mc_mmio = [], mc_ports = [], mc_loads = 0, mc_last = 0\<rparr>,
     k_mem = bytes_from (PADDR_TO_KPTR 0x1000) mbi_bytes,
     k_irqs = \<lparr>base_irq_addr = 0, handlers = \<lambda>_. None, handler_next = \<lambda>_. None, is_exception = \<lambda>_. False\<rparr>, k_acpi = None, k_idt = 0\<rparr>"

definition example_platform :: platform where
  "example_platform = \<lparr>pf_link = demo_link, pf_mmio = \<lambda>_ _. 0, pf_ports = \<lparr>answer8 = \<lambda>_ _. 0, answer16 = \<lambda>_ _. 0, answer32 = \<lambda>_ _. 0\<rparr>,
     pf_host = \<lambda>_. \<lparr>ti_version = 0, tsc_ts = 0, sys_time = 0, tsc_to_sys_mul = 0, tsc_shift = 0, flags = 0\<rparr>, pf_tsc = \<lambda>_. 0, pf_wrapper = \<lambda>_. 0,
     pf_rax = 0, pf_idt64 = 0, pf_systime = 0, pf_port = 0, pf_unspec = example_unspecified\<rparr>"

lemma example_tags:
  fixes mbi :: u64 and m :: mem
  defines "mbi \<equiv> PADDR_TO_KPTR 0x1000" and "m \<equiv> bytes_from mbi mbi_bytes"
  shows "tags_at m (mbi + 8) (mbi + scast (load32 m mbi)) [(mbi + 8, 1), (mbi + 0x18, 6), (mbi + 0x40, 0)] (mbi + 0x48)"
    and "mbi + scast (load32 m mbi) \<le> mbi + 0x48"
    and "mmap_entry_size (mmap_tag_at m (mbi + 0x18)) = 24" and "mmap_size (mmap_tag_at m (mbi + 0x18)) = 40"
    and "mmap_entries (mmap_tag_at m (mbi + 0x18)) 0 = \<lparr>entry_addr = 0x400000, entry_len = 0x200000, entry_type = 1\<rparr>"
  by (simp_all add: m_def mbi_def PADDR_TO_KPTR_def KERN_OFFSET_def mbi_simps mmap_tag_at_def mmap_entry_at_def load64_def)

definition example_entry :: multiboot_mmap_entry where
  "example_entry = \<lparr>entry_addr = 0x400000, entry_len = 0x200000, entry_type = 1\<rparr>"

lemma example_frame: "i \<in> {1024..<1536} \<Longrightarrow> unat (of_nat (4096 * i) :: u64) = 4096 * i"
  by (intro of_nat_inverse [OF refl]) simp

lemma example_pages:
  "usable_pages demo_link [example_entry] = [1024..<1536]" "managed_pages [example_entry] = [1024..<1536]"
proof -
  have m: "managed_pages [example_entry] = [1024..<1536]"
    by (simp add: managed_pages_def managed_def entry_pages_def range_pages_def example_entry_def MULTIBOOT_MEMORY_AVAILABLE_def)
  have n: "nr_structs [example_entry] = 1536"
    by (simp add: nr_structs_def managed_def example_entry_def MULTIBOOT_MEMORY_AVAILABLE_def)
  have "outside (kernel_lo demo_link) (kernel_hi demo_link (nr_structs [example_entry])) i" if "i \<in> {1024..<1536}" for i
  proof -
    have "kernel_hi demo_link 1536 = 1777664"
      by (simp add: kernel_hi_def demo_link_def PG_def PGNUM_def PAGESHIFT_def PGALIGN_def kBootLoaderSkipPages_def sizeof_Page_def)
    then show ?thesis using that example_frame [of i] unfolding n by (auto simp only: outside_def word_less_nat_alt) simp
  qed
  then show "usable_pages demo_link [example_entry] = [1024..<1536]" unfolding usable_pages_def m by (intro filter_True) (simp only: set_upt, blast)
  show "managed_pages [example_entry] = [1024..<1536]" by (rule m)
qed

theorem boot_memory_correct_witness:
  "\<exists>k'. boot_memory example_platform 0x1000 example_kernel = Some (Inr k') \<and> heap_ok (k_kmem k') {} \<and>
     translate (qmem (mc_pt (k_mc k'))) (cr3 (mc_pt (k_mc k'))) (KERN_OFFSET + 0x400123) = Some 0x400123"
proof -
  let ?mbi = "PADDR_TO_KPTR 0x1000"
  let ?m = "bytes_from ?mbi mbi_bytes"
  let ?ts = "[(?mbi + 8, 1), (?mbi + 0x18, 6), (?mbi + 0x40, 0)]"
  define mm where "mm = mmap_tag_at ?m (last_tag MULTIBOOT_TAG_TYPE_MMAP ?ts)"
  have mm: "mm = mmap_tag_at ?m (?mbi + 0x18)" by (simp add: mm_def last_tag_def MULTIBOOT_TAG_TYPE_MMAP_def)
  have n: "nr_mmap_entries mm = Inr 1" using example_tags(3,4) by (simp add: mm nr_mmap_entries_def i32_def)
  have es: "mmap_entry_list mm 1 = [example_entry]" using example_tags(5) by (simp add: mm mmap_entry_list_def example_entry_def)
  have good: "good_map demo_link [example_entry]"
    unfolding good_map_def example_pages
    by (simp add: page_aligned_def example_entry_def KERN_MAX_MEMORY_def paged_def del: upt_rec_numeral)
  have k: "k_mem example_kernel = ?m" "pf_link example_platform = demo_link" "max_phy (km_pages (k_kmem example_kernel)) = 0"
    "mc_pt (k_mc example_kernel) = demo_boot" by (simp_all add: example_kernel_def example_platform_def)
  have bt: "boot_tables demo_boot 0x200000 0x201000 0x202000"
    by (simp add: boot_tables_def demo_boot_def demo_pt_def frame_ok_def frame_def physical_address_def next_table_def Page_Walk.slot_def)
  have K: "0x200000 \<notin> frames [1024..<1536]"
  proof
    assume "0x200000 \<in> frames [1024..<1536]"
    then obtain i where i: "i \<in> {1024..<1536}" "0x200000 = (of_nat (4096 * i) :: u64)" by (auto simp: frames_def simp del: upt_rec_numeral)
    then have "unat (0x200000 :: u64) = 4096 * i" using example_frame [OF i(1)] by metis
    then show False using i(1) by simp
  qed
  have "\<not> 512 \<le> sum_list (map table_pages [example_entry])"
    by (simp add: table_pages_def paged_def map_rounds.simps step_level_def example_entry_def MULTIBOOT_MEMORY_AVAILABLE_def)
  then obtain k' where "boot_memory example_platform 0x1000 example_kernel = Some (Inr k')" "heap_ok (k_kmem k') {}"
    "\<forall>e \<in> set [example_entry]. \<forall>a. paged e \<longrightarrow> unat a \<in> region e \<longrightarrow>
         translate (qmem (mc_pt (k_mc k'))) (cr3 (mc_pt (k_mc k'))) (KERN_OFFSET + a) = Some a"
    using boot_memory_correct [of example_kernel "0x1000" ?ts "?mbi + 0x48" mm 1 "[example_entry]" example_platform "0x200000" "0x201000" "0x202000"]
      example_tags(1,2) n es good k bt K mm_def by (auto simp: example_pages simp del: upt_rec_numeral)
  then show ?thesis by (intro exI [of _ k']) (simp add: example_entry_def paged_def region_def page_up_def)
qed

end
