(* ===== verification/Scheduler.thy ===== *)
theory Scheduler
  imports Kmalloc
begin

text \<open>
  The round robin scheduler (\<^verbatim>\<open>kern/scheduler.h\<close>, \<^verbatim>\<open>kern/scheduler.cc\<close>): queues of thread nodes on intrusive lists, nodes from the kernel heap. A thread node begins with
  its list node, so that a pointer to the one is a pointer to the other.
\<close>

section \<open>Data\<close>

datatype sched_ptr = ReadyHead | WaitingHead | ExitHead | ThreadNode u64

record Scheduler =
  sched_nodes :: "sched_ptr node_heap"
  node_thr :: "u64 \<Rightarrow> u64"
  cur_thread :: "u64 option"

definition sizeof_ThreadNode :: int where "sizeof_ThreadNode = 24"

definition upd_sched :: "(sched_ptr node_heap \<Rightarrow> sched_ptr node_heap) \<Rightarrow> Scheduler \<Rightarrow> Scheduler" where
  "upd_sched f s = s\<lparr>sched_nodes := f (sched_nodes s)\<rparr>"

section \<open>Operations\<close>

text \<open>The source names members \<^verbatim>\<open>ready_head\<close>, \<^verbatim>\<open>waiting_head\<close> and \<^verbatim>\<open>exit_head\<close> that a list node does not have; the heads are the list nodes themselves.\<close>

definition InitThreadQUeue :: "Scheduler \<Rightarrow> Scheduler" where
  "InitThreadQUeue s = upd_sched (\<lambda>h. InitHead (InitHead (InitHead h ReadyHead) WaitingHead) ExitHead) s"

definition AddThread :: "nat \<Rightarrow> int \<Rightarrow> u64 \<Rightarrow> Scheduler \<times> kmem \<Rightarrow> (Scheduler \<times> kmem) result" where
  "AddThread ctz0 clz0 thr = (\<lambda>(s, km).
     ebind (Alloc ctz0 clz0 sizeof_ThreadNode km) (\<lambda>(thr_node, km).
     if thr_node = 0 then Inl NullDeref
     else let s = s\<lparr>node_thr := (node_thr s)(thr_node := thr)\<rparr>
          in Inr (upd_sched (\<lambda>h. InsertBefore h (ThreadNode thr_node) ReadyHead) s, km)))"

text \<open>The result is the pointer the function returns, \<open>None\<close> for \<^verbatim>\<open>NULL\<close>.\<close>

definition RoundRobin :: "Scheduler \<Rightarrow> (u64 option \<times> Scheduler) result" where
  "RoundRobin s =
     (let s = (case cur_thread s of Some c \<Rightarrow> upd_sched (\<lambda>h. InsertBefore h (ThreadNode c) ReadyHead) s | None \<Rightarrow> s) in
      if is_empty (sched_nodes s) ReadyHead then Inr (None, s)
      else case node_next (sched_nodes s ReadyHead) of
          ThreadNode p \<Rightarrow>
            let s = s\<lparr>cur_thread := Some p\<rparr>; s = upd_sched (\<lambda>h. Delete h (ThreadNode p)) s
            in Inr (Some p, s)
        | _ \<Rightarrow> Inl WildPointer)"

text \<open>Where control goes: a thread that has not run starts in its stub, another goes on from its saved context.\<close>

datatype switch = RunStub u64 | Resume u64

definition SwitchToNext :: "(u64 \<Rightarrow> bool) \<Rightarrow> Scheduler \<Rightarrow> switch result" where
  "SwitchToNext is_initialized s = (case cur_thread s of None \<Rightarrow> Inl NullDeref
     | Some c \<Rightarrow> let thr = node_thr s c in Inr (if \<not> is_initialized thr then RunStub thr else Resume thr))"

definition ExitCurrentThread :: "(u64 \<Rightarrow> bool) \<Rightarrow> Scheduler \<Rightarrow> (switch \<times> Scheduler) result" where
  "ExitCurrentThread is_initialized s = (case cur_thread s of None \<Rightarrow> Inl NullDeref
     | Some c \<Rightarrow>
         let s = upd_sched (\<lambda>h. InsertAfter h (ThreadNode c) ExitHead) s; s = s\<lparr>cur_thread := None\<rparr>
         in ebind (RoundRobin s) (\<lambda>(p, s).
            let s = s\<lparr>cur_thread := p\<rparr> in ebind (SwitchToNext is_initialized s) (\<lambda>w. Inr (w, s))))"

section \<open>The queues\<close>

text \<open>\<open>sched_ok s c rdy ext\<close>: the thread nodes are the current one, those on the ready queue in order, and those that have exited, latest first, all different.\<close>

definition queues :: "u64 list \<Rightarrow> u64 list \<Rightarrow> sched_ptr \<Rightarrow> sched_ptr list" where
  "queues rdy ext = (\<lambda>_. [])(ReadyHead := map ThreadNode rdy, ExitHead := map ThreadNode ext)"

abbreviation sched_heads :: "sched_ptr set" where "sched_heads \<equiv> {ReadyHead, WaitingHead, ExitHead}"

definition opt_list :: "'a option \<Rightarrow> 'a list" where "opt_list x = (case x of None \<Rightarrow> [] | Some y \<Rightarrow> [y])"

definition sched_ok :: "Scheduler \<Rightarrow> u64 option \<Rightarrow> u64 list \<Rightarrow> u64 list \<Rightarrow> bool" where
  "sched_ok s c rdy ext \<longleftrightarrow> forest (sched_nodes s) sched_heads (queues rdy ext) \<and> cur_thread s = c \<and> distinct (opt_list c @ rdy @ ext)"

lemma forest_InsertBefore:
  assumes "forest h H Q" and "a \<in> H" and "\<forall>b \<in> H. n \<notin> ring Q b"
  shows "forest (InsertBefore h n a) H (Q(a := Q a @ [n]))"
proof -
  let ?Q = "Q(a := Q a @ [n])"
  have na: "n \<notin> set (a # Q a)" using assms by (auto simp: ring_def)
  have d: "dlist h a (Q a)" using forest_dlist [OF assms(1,2)] .
  have "dlist (InsertBefore h n a) b (?Q b)" if "b \<in> H" for b
  proof (cases "b = a")
    case True
    then show ?thesis using ln.contents_push_back [OF d na] by simp
  next
    case False
    have "ring Q a \<inter> ring Q b = {}" using assms(1,2) that False unfolding forest_def by blast
    moreover have "n \<notin> ring Q b" using assms(3) that by blast
    ultimately show ?thesis
      using ln.push_back_other [OF d forest_dlist [OF assms(1) that] na] False by (auto simp: ring_def)
  qed
  moreover have "ring ?Q b \<inter> ring ?Q b' = {}" if "b \<in> H" "b' \<in> H" "b \<noteq> b'" for b b'
  proof -
    have "ring Q b \<inter> ring Q b' = {}" using assms(1) that unfolding forest_def by blast
    then show ?thesis using assms(3) that by (auto simp: ring_def)
  qed
  ultimately show ?thesis unfolding forest_def by blast
qed

lemma ring_queues:
  "ThreadNode n \<in> ring (queues rdy ext) ReadyHead \<longleftrightarrow> n \<in> set rdy" "ThreadNode n \<in> ring (queues rdy ext) ExitHead \<longleftrightarrow> n \<in> set ext"
  "ThreadNode n \<notin> ring (queues rdy ext) WaitingHead"
  by (auto simp: ring_def queues_def)

lemma queues_upd:
  "(queues rdy ext)(ReadyHead := queues rdy ext ReadyHead @ [ThreadNode n]) = queues (rdy @ [n]) ext"
  "(queues rdy ext)(ExitHead := ThreadNode n # queues rdy ext ExitHead) = queues rdy (n # ext)"
  "(queues (n # rdy) ext)(ReadyHead := remove1 (ThreadNode n) (queues (n # rdy) ext ReadyHead)) = queues rdy ext"
  by (auto simp: queues_def fun_eq_iff)

lemma enqueue_ready:
  assumes "forest h sched_heads (queues rdy ext)" and "n \<notin> set rdy \<union> set ext"
  shows "forest (InsertBefore h (ThreadNode n) ReadyHead) sched_heads (queues (rdy @ [n]) ext)"
  using forest_InsertBefore [OF assms(1), of ReadyHead "ThreadNode n"] assms(2) by (simp add: ring_queues queues_upd)

lemma enqueue_exit:
  assumes "forest h sched_heads (queues rdy ext)" and "n \<notin> set rdy \<union> set ext"
  shows "forest (InsertAfter h (ThreadNode n) ExitHead) sched_heads (queues rdy (n # ext))"
  using forest_InsertAfter [OF assms(1), of ExitHead "ThreadNode n"] assms(2) by (simp add: ring_queues queues_upd)

lemma dequeue_ready:
  assumes "forest h sched_heads (queues (n # rdy) ext)"
  shows "forest (Delete h (ThreadNode n)) sched_heads (queues rdy ext)"
  using forest_Delete [OF assms, of ReadyHead "ThreadNode n"] by (simp only: queues_upd) (simp add: queues_def)

text \<open>Taking the first ready node, with no current thread.\<close>

lemma RoundRobin_take:
  assumes "sched_ok s None (p # rdy) ext"
  shows "\<exists>s'. RoundRobin s = Inr (Some p, s') \<and> sched_ok s' (Some p) rdy ext \<and> node_thr s' = node_thr s"
proof -
  have f: "forest (sched_nodes s) sched_heads (queues (p # rdy) ext)" and c: "cur_thread s = None" using assms by (simp_all add: sched_ok_def)
  have "\<not> is_empty (sched_nodes s) ReadyHead" using forest_is_empty [OF f, of ReadyHead] by (simp add: queues_def)
  moreover have "node_next (sched_nodes s ReadyHead) = ThreadNode p"
    using forest_next [OF f, of ReadyHead "ThreadNode p" "map ThreadNode rdy"] by (simp add: queues_def)
  ultimately show ?thesis using c dequeue_ready [OF f] assms by (auto simp: RoundRobin_def upd_sched_def sched_ok_def opt_list_def)
qed

lemma RoundRobin_none:
  assumes "sched_ok s None [] ext"
  shows "RoundRobin s = Inr (None, s)"
proof -
  have "forest (sched_nodes s) sched_heads (queues [] ext)" using assms by (simp add: sched_ok_def)
  then have "is_empty (sched_nodes s) ReadyHead" using forest_is_empty [of "sched_nodes s" sched_heads "queues [] ext" ReadyHead] by (simp add: queues_def)
  then show ?thesis using assms by (simp add: RoundRobin_def sched_ok_def)
qed

text \<open>With a current thread: it goes to the end of the queue first.\<close>

lemma RoundRobin_rotate:
  assumes "sched_ok s (Some c) rdy ext" and "rdy @ [c] = p # rdy'"
  shows "\<exists>s'. RoundRobin s = Inr (Some p, s') \<and> sched_ok s' (Some p) rdy' ext \<and> node_thr s' = node_thr s"
proof -
  let ?s = "(upd_sched (\<lambda>h. InsertBefore h (ThreadNode c) ReadyHead) s)\<lparr>cur_thread := None\<rparr>"
  have "sched_ok ?s None (rdy @ [c]) ext"
    using assms(1) enqueue_ready [of "sched_nodes s" rdy ext c] by (auto simp: sched_ok_def upd_sched_def opt_list_def)
  then obtain s' where s': "RoundRobin ?s = Inr (Some p, s')" "sched_ok s' (Some p) rdy' ext" "node_thr s' = node_thr ?s"
    using RoundRobin_take [of ?s p rdy' ext] assms(2) by auto
  have "RoundRobin s = RoundRobin ?s"
    using assms(1) s'(1) by (auto simp: RoundRobin_def sched_ok_def upd_sched_def Let_def split: sched_ptr.splits if_splits)
  then show ?thesis using s' by (simp add: upd_sched_def)
qed

section \<open>Nodes from the heap\<close>

text \<open>The thread nodes are 32-byte blocks of the heap.\<close>

definition nodes_in :: "u64 option \<Rightarrow> u64 list \<Rightarrow> u64 list \<Rightarrow> (u64 \<times> nat) set \<Rightarrow> bool" where
  "nodes_in c rdy ext B \<longleftrightarrow> (\<forall>p \<in> set (opt_list c @ rdy @ ext). (p, 32) \<in> B)"

lemma Alloc_node:
  assumes "heap_ok km B" and "32 \<le> ctz0"
  shows "Alloc ctz0 clz0 sizeof_ThreadNode km = Inl NullDeref \<and> free_pages km \<le> 2 \<or>
    (\<exists>p km'. Alloc ctz0 clz0 sizeof_ThreadNode km = Inr (p, km') \<and> p \<noteq> 0 \<and> (p, 32) \<notin> B \<and> heap_ok km' (insert (p, 32) B))"
proof -
  obtain k where k: "k \<noteq> meta_slab" "block_size 24 = ObjSize k" "Alloc ctz0 clz0 24 km = Cache_Allocate ctz0 (Global k) km"
    using Alloc_small_run [of 24 ctz0 clz0 km] by auto
  have "block_size 24 = 32" by (simp add: block_size_def)
  then show ?thesis
    using Cache_Allocate_heap [OF assms(1) ctz_safe_all [OF assms(2)] k(1)] k(2,3) heap_nonzero [of "{}" _ "insert (p, 32) B" "(p, 32)" for p] by (fastforce simp: sizeof_ThreadNode_def)
qed

section \<open>Runs\<close>

fun rounds :: "nat \<Rightarrow> Scheduler \<Rightarrow> Scheduler result" where
  "rounds 0 s = Inr s"
| "rounds (Suc n) s = ebind (rounds n s) (\<lambda>s. ebind (RoundRobin s) (\<lambda>(_, s). Inr s))"

lemma rounds_rotate:
  assumes "sched_ok s (Some c) rdy ext" and "k < length (rdy @ [c])"
  shows "\<exists>s'. rounds (Suc k) s = Inr s' \<and> sched_ok s' (Some ((rdy @ [c]) ! k)) (drop (Suc k) (rdy @ [c]) @ take k (rdy @ [c])) ext \<and> node_thr s' = node_thr s"
  using assms(2)
proof (induction k)
  case 0
  obtain p r where p: "rdy @ [c] = p # r" by (cases "rdy @ [c]") auto
  then show ?case using RoundRobin_rotate [OF assms(1) p] by auto
next
  case (Suc k)
  let ?l = "rdy @ [c]"
  obtain s1 where s1: "rounds (Suc k) s = Inr s1" "sched_ok s1 (Some (?l ! k)) (drop (Suc k) ?l @ take k ?l) ext" "node_thr s1 = node_thr s"
    using Suc by auto
  have "(drop (Suc k) ?l @ take k ?l) @ [?l ! k] = ?l ! Suc k # drop (Suc (Suc k)) ?l @ take (Suc k) ?l"
    using Suc.prems by (simp only: Cons_nth_drop_Suc [symmetric] take_Suc_conv_app_nth append_assoc append_Cons)
  from RoundRobin_rotate [OF s1(2) this] obtain s2 where "RoundRobin s1 = Inr (Some (?l ! Suc k), s2)"
    "sched_ok s2 (Some (?l ! Suc k)) (drop (Suc (Suc k)) ?l @ take (Suc k) ?l) ext" "node_thr s2 = node_thr s1" by blast
  then show ?case using s1 by (subst rounds.simps) simp
qed

section \<open>Set-up\<close>

lemma InitThreadQUeue_ok: "cur_thread s = None \<Longrightarrow> sched_ok (InitThreadQUeue s) None [] []"
proof -
  have q: "(\<lambda>_. [])(a := []) = (\<lambda>_. [])" for a :: sched_ptr by auto
  have e: "forest h {} (\<lambda>_. [])" for h :: "sched_ptr node_heap" by (simp add: forest_def)
  let ?h = "sched_nodes s"
  have "forest (InitHead (InitHead (InitHead ?h ReadyHead) WaitingHead) ExitHead) {ExitHead, WaitingHead, ReadyHead} (\<lambda>_. [])"
    using forest_InitHead [OF forest_InitHead [OF forest_InitHead [OF e, of ReadyHead ?h], of WaitingHead], of ExitHead] by (simp add: q ring_def)
  moreover have "{ExitHead, WaitingHead, ReadyHead} = sched_heads" "queues [] [] = (\<lambda>_. [])" by (auto simp: queues_def)
  ultimately show "cur_thread s = None \<Longrightarrow> sched_ok (InitThreadQUeue s) None [] []"
    by (simp add: sched_ok_def InitThreadQUeue_def upd_sched_def opt_list_def)
qed

text \<open>A scheduler with the current thread node 3 and the ready nodes 1 and 2.\<close>

definition example_sched :: Scheduler where
  "example_sched = (upd_sched (\<lambda>h. InsertBefore (InsertBefore h (ThreadNode 1) ReadyHead) (ThreadNode 2) ReadyHead)
     (InitThreadQUeue \<lparr>sched_nodes = \<lambda>p. \<lparr>node_prev = p, node_next = p\<rparr>, node_thr = \<lambda>p. p + 100, cur_thread = None\<rparr>))\<lparr>cur_thread := Some 3\<rparr>"

lemma example_sched_ok: "sched_ok example_sched (Some 3) [1, 2] []"
proof -
  define s where "s = InitThreadQUeue \<lparr>sched_nodes = \<lambda>p. \<lparr>node_prev = p, node_next = p\<rparr>, node_thr = \<lambda>p. p + 100, cur_thread = None\<rparr>"
  have "sched_ok s None [] []" unfolding s_def by (rule InitThreadQUeue_ok) simp
  then have "forest (InsertBefore (InsertBefore (sched_nodes s) (ThreadNode 1) ReadyHead) (ThreadNode 2) ReadyHead) sched_heads (queues ([] @ [1] @ [2]) [])"
    using enqueue_ready [OF enqueue_ready [of "sched_nodes s" "[]" "[]" 1], of 2] by (simp add: sched_ok_def)
  then show ?thesis by (simp add: sched_ok_def example_sched_def s_def [symmetric] upd_sched_def opt_list_def)
qed

section \<open>Properties\<close>

text \<open>
  C9. Round robin is fair: with a current thread \<open>c\<close> and \<open>n\<close> others ready, call number \<open>k\<close> switches to the \<open>k\<close>-th ready thread, call \<open>n + 1\<close> back to \<open>c\<close>, the order stays the same, and no
  thread is lost or queued twice.
\<close>
theorem RoundRobin_fair:
  assumes "sched_ok s (Some c) rdy ext" and "k < length (rdy @ [c])"
  shows "\<exists>s'. rounds (Suc k) s = Inr s' \<and> cur_thread s' = Some ((rdy @ [c]) ! k) \<and>
    sched_ok s' (Some ((rdy @ [c]) ! k)) (drop (Suc k) (rdy @ [c]) @ take k (rdy @ [c])) ext"
  using rounds_rotate [OF assms] by (auto simp: sched_ok_def)

theorem RoundRobin_fair_witness: "\<exists>s'. rounds 2 example_sched = Inr s' \<and> cur_thread s' = Some 2 \<and> sched_ok s' (Some 2) [3, 1] []"
  using RoundRobin_fair [OF example_sched_ok, of 1] by (simp add: numeral_2_eq_2)

text \<open>
  C23. A new thread gets a node from the heap and goes to the end of the ready queue; the other queues, the current thread and the other nodes stay as they are, and the heap is intact. It fails only
  when at most two pages are free. The node takes 24 bytes, of the 32-byte class: the compiler's \<^verbatim>\<open>ctzl(0)\<close> has to be at least 32, or the slab may hand out a node in use.
\<close>
theorem AddThread_correct:
  assumes "sched_ok s c rdy ext" and "heap_ok km B" and "nodes_in c rdy ext B" and "32 \<le> ctz0"
  shows "AddThread ctz0 clz0 thr (s, km) = Inl NullDeref \<and> free_pages km \<le> 2 \<or>
    (\<exists>p s' km'. AddThread ctz0 clz0 thr (s, km) = Inr (s', km') \<and> sched_ok s' c (rdy @ [p]) ext \<and> nodes_in c (rdy @ [p]) ext (insert (p, 32) B) \<and>
      node_thr s' = (node_thr s)(p := thr) \<and> (p, 32) \<notin> B \<and> heap_ok km' (insert (p, 32) B))"
  using Alloc_node [OF assms(2,4), of clz0]
proof (elim disjE exE conjE)
  fix p km'
  assume a: "Alloc ctz0 clz0 sizeof_ThreadNode km = Inr (p, km')" "p \<noteq> 0" "(p, 32) \<notin> B" "heap_ok km' (insert (p, 32) B)"
  let ?s = "upd_sched (\<lambda>h. InsertBefore h (ThreadNode p) ReadyHead) (s\<lparr>node_thr := (node_thr s)(p := thr)\<rparr>)"
  have new: "p \<notin> set (opt_list c @ rdy @ ext)" using assms(3) a(3) by (auto simp: nodes_in_def)
  have "sched_ok ?s c (rdy @ [p]) ext"
    using assms(1) enqueue_ready [of "sched_nodes s" rdy ext p] new by (auto simp: sched_ok_def upd_sched_def)
  moreover have "AddThread ctz0 clz0 thr (s, km) = Inr (?s, km')" using a(1,2) by (simp add: AddThread_def Let_def)
  ultimately show ?thesis using a assms(3) by (intro disjI2 exI [of _ p] exI [of _ ?s] exI [of _ km']) (auto simp: nodes_in_def upd_sched_def)
qed (simp add: AddThread_def)

theorem AddThread_correct_witness:
  "\<exists>p s' km'. AddThread 64 32 7 (InitThreadQUeue \<lparr>sched_nodes = \<lambda>p. \<lparr>node_prev = p, node_next = p\<rparr>, node_thr = \<lambda>_. 0, cur_thread = None\<rparr>, InitSlab demo_kmem) = Inr (s', km') \<and>
     sched_ok s' None [p] [] \<and> node_thr s' p = 7"
proof -
  let ?s = "InitThreadQUeue \<lparr>sched_nodes = \<lambda>p. \<lparr>node_prev = p, node_next = p\<rparr>, node_thr = \<lambda>_. 0, cur_thread = None\<rparr>"
  have "sched_ok ?s None [] []" by (rule InitThreadQUeue_ok) simp
  then show ?thesis using AddThread_correct [OF _ demo_heap(1), of ?s None "[]" "[]" 64 32 7] demo_heap(2)
    by (auto simp: nodes_in_def opt_list_def)
qed

text \<open>
  C24. A thread that exits goes to the exit queue, and the first ready thread gets the processor, in its stub if it has never run and otherwise where it left off; when no other thread is ready the
  scheduler follows a null pointer.
\<close>
theorem ExitCurrentThread_correct:
  assumes "sched_ok s (Some c) rdy ext"
  shows "case rdy of [] \<Rightarrow> ExitCurrentThread ini s = Inl NullDeref
    | p # rdy' \<Rightarrow> \<exists>s'. ExitCurrentThread ini s = Inr (if ini (node_thr s p) then Resume (node_thr s p) else RunStub (node_thr s p), s') \<and>
        sched_ok s' (Some p) rdy' (c # ext)"
proof -
  let ?s = "(upd_sched (\<lambda>h. InsertAfter h (ThreadNode c) ExitHead) s)\<lparr>cur_thread := None\<rparr>"
  have c: "cur_thread s = Some c" using assms by (simp add: sched_ok_def)
  have ok: "sched_ok ?s None rdy (c # ext)"
    using assms enqueue_exit [of "sched_nodes s" rdy ext c] by (auto simp: sched_ok_def upd_sched_def opt_list_def)
  show ?thesis
  proof (cases rdy)
    case Nil
    then show ?thesis using c RoundRobin_none [of ?s "c # ext"] ok by (simp add: ExitCurrentThread_def SwitchToNext_def)
  next
    case (Cons p r)
    then obtain s' where s': "RoundRobin ?s = Inr (Some p, s')" "sched_ok s' (Some p) r (c # ext)" "node_thr s' = node_thr ?s"
      using RoundRobin_take [of ?s p r "c # ext"] ok by auto
    have "s'\<lparr>cur_thread := Some p\<rparr> = s'" using s'(2) by (simp add: sched_ok_def)
    then show ?thesis using c s' Cons by (simp add: ExitCurrentThread_def SwitchToNext_def upd_sched_def)
  qed
qed

theorem ExitCurrentThread_correct_witness:
  "\<exists>s'. ExitCurrentThread (\<lambda>_. True) example_sched = Inr (Resume 101, s') \<and> sched_ok s' (Some 1) [2] [3]"
  using ExitCurrentThread_correct [OF example_sched_ok, of "\<lambda>_. True"]
  by (simp add: example_sched_def upd_sched_def InitThreadQUeue_def)

end
