(* ===== verification/Thread_Switch.thy ===== *)
theory Thread_Switch
  imports Scheduler Irqs
begin

text \<open>
  Saving and restoring the registers of a thread (\<^verbatim>\<open>kern/thread.h\<close>, \<^verbatim>\<open>kern/thread.cc\<close>), instruction by instruction, and the start of a thread on its own stack. The code lays the context out in its own
  way, in fifteen quadwords.
\<close>

section \<open>Instructions\<close>

text \<open>
  Moves between registers, the context (by offset), the stack (by offset from the stack pointer) and memory; \<^verbatim>\<open>leaq\<close>, \<^verbatim>\<open>push\<close> of a
  context field, and \<^verbatim>\<open>retq\<close>. The operand \<^verbatim>\<open>%0\<close>, the context, is relative to a register of the compiler's choice, the parameter
  \<open>base\<close>: its value is taken when an instruction uses the operand, also behind an instruction of the same block that loads that
  register. The operand is printed as \<^verbatim>\<open>(%base)\<close> with no displacement, so that \<^verbatim>\<open>8%0\<close> is eight bytes behind it.
\<close>

datatype tinstr = ToCtx reg u64 | FromCtx u64 reg | FromStack u64 reg | LeaStack u64 reg | FromAddress u64 reg | PushCtx u64 | Retq

fun exec_t :: "reg \<Rightarrow> tinstr \<Rightarrow> icpu \<Rightarrow> icpu" where
  "exec_t base (ToCtx r off) c = c\<lparr>stk := (stk c)(regs c base + off := regs c r)\<rparr>"
| "exec_t base (FromCtx off r) c = c\<lparr>regs := (regs c)(r := stk c (regs c base + off))\<rparr>"
| "exec_t base (FromStack off r) c = c\<lparr>regs := (regs c)(r := stk c (regs c RSP + off))\<rparr>"
| "exec_t base (LeaStack off r) c = c\<lparr>regs := (regs c)(r := regs c RSP + off)\<rparr>"
| "exec_t base (FromAddress a r) c = c\<lparr>regs := (regs c)(r := stk c a)\<rparr>"
| "exec_t base (PushCtx off) c = c\<lparr>regs := (regs c)(RSP := regs c RSP - 8), stk := (stk c)(regs c RSP - 8 := stk c (regs c base + off))\<rparr>"
| "exec_t base Retq c = c\<lparr>regs := (regs c)(RSP := regs c RSP + 8), rip := stk c (regs c RSP)\<rparr>"

definition SaveContext_asm :: "tinstr list" where
  "SaveContext_asm = [ToCtx RAX 0, ToCtx RBX 8, ToCtx R12 24, ToCtx R13 32, ToCtx R14 40, ToCtx R15 48, ToCtx RDI 56,
     ToCtx RSI 64, ToCtx RDX 72, ToCtx RCX 80, ToCtx R8 88, ToCtx R9 96,
     FromStack 0 RCX, ToCtx RCX 16, FromStack 8 RCX, ToCtx RCX 104, LeaStack 16 RCX, ToCtx RCX 112]"

text \<open>The function itself: the caller's frame pointer and the return address are on the stack, and it returns true.\<close>

definition SaveContext :: "reg \<Rightarrow> icpu \<Rightarrow> icpu" where
  "SaveContext base c = (let c = fold (exec_t base) SaveContext_asm c; sp = regs c RSP in
     c\<lparr>regs := (regs c)(RAX := 1, RBP := stk c sp, RSP := sp + 16), rip := stk c (sp + 8)\<rparr>)"

text \<open>\<^verbatim>\<open>movq 0, %rax\<close> has no dollar sign: it loads the quadword at address 0.\<close>

definition RestoreContext_asm :: "tinstr list" where
  "RestoreContext_asm = [FromAddress 0 RAX, FromCtx 8 RBX, FromCtx 16 RBP, FromCtx 24 R12, FromCtx 32 R13, FromCtx 40 R14, FromCtx 48 R15, FromCtx 56 RDI,
     FromCtx 64 RSI, FromCtx 72 RDX, FromCtx 80 RCX, FromCtx 88 R8, FromCtx 96 R9, FromCtx 112 RSP, PushCtx 104, Retq]"

definition RestoreContext :: "reg \<Rightarrow> icpu \<Rightarrow> icpu" where
  "RestoreContext base c = fold (exec_t base) RestoreContext_asm c"

section \<open>Threads\<close>

datatype thread_state = Ready | Running | Blocked | Exited

text \<open>The members of \<^verbatim>\<open>Thread\<close> beside the registers, and \<^verbatim>\<open>context.stack\<close>, the page the constructor takes for the stack.\<close>

record Thread =
  thread_id :: u64
  priority :: u64
  states :: thread_state
  is_initialized_ :: bool
  stack_page :: page_ptr

definition Thread_Start :: "nat \<Rightarrow> int \<Rightarrow> u64 \<Rightarrow> Scheduler \<times> kmem \<Rightarrow> (Scheduler \<times> kmem) result" where
  "Thread_Start ctz0 clz0 this = AddThread ctz0 clz0 this"

text \<open>\<^verbatim>\<open>Run\<close> is virtual: what it does to the scheduler is the parameter \<open>run\<close>.\<close>

definition Stub :: "mem_pages \<Rightarrow> (icpu \<Rightarrow> Scheduler \<Rightarrow> Scheduler) \<Rightarrow> (u64 \<Rightarrow> bool) \<Rightarrow> Thread \<Rightarrow> icpu \<times> Scheduler \<Rightarrow> (Thread \<times> switch \<times> Scheduler) result" where
  "Stub mp run ini t = (\<lambda>(c, s).
     ebind (rd_page mp (stack_page t)) (\<lambda>p.
     let stack_ptr = PADDR_TO_KPTR (phyaddr p); c = c\<lparr>regs := (regs c)(RSP := stack_ptr)\<rparr>; t = t\<lparr>is_initialized_ := True\<rparr>; s = run c s
     in ebind (ExitCurrentThread ini s) (\<lambda>(w, s). Inr (t, w, s))))"

section \<open>Properties\<close>

definition ctx_slots :: "u64 \<Rightarrow> u64 set" where "ctx_slots ctx = (\<lambda>k. ctx + 8 * of_nat k) ` {..<15}"

lemma ctx_slots_mem: "k \<in> {0, 8, 16, 24, 32, 40, 48, 56, 64, 72, 80, 88, 96, 104, 112} \<Longrightarrow> ctx + k \<in> ctx_slots ctx"
proof -
  assume "k \<in> {0, 8, 16, 24, 32, 40, 48, 56, 64, 72, 80, 88, 96, 104, 112}"
  then have "k \<in> (\<lambda>k. 8 * of_nat k) ` {..<15}" by (auto simp: image_iff lessThan_nat_numeral lessThan_Suc)
  then show ?thesis by (auto simp: ctx_slots_def)
qed

abbreviation ctx_fields :: "u64 set" where "ctx_fields \<equiv> {0, 8, 16, 24, 32, 40, 48, 56, 64, 72, 80, 88, 96, 104, 112}"

text \<open>The registers with a field of their own, but for \<^verbatim>\<open>rax\<close>, and the fields.\<close>

fun ctx_field :: "reg \<Rightarrow> u64" where
  "ctx_field RBX = 8" | "ctx_field R12 = 24" | "ctx_field R13 = 32" | "ctx_field R14 = 40" | "ctx_field R15 = 48" | "ctx_field RDI = 56"
| "ctx_field RSI = 64" | "ctx_field RDX = 72" | "ctx_field RCX = 80" | "ctx_field R8 = 88" | "ctx_field R9 = 96" | "ctx_field r = 0"

definition kept_regs :: "reg set" where "kept_regs = {RBX, R12, R13, R14, R15, RDI, RSI, RDX, RCX, R8, R9}"

text \<open>The registers from which the context can be addressed: not those that hold the stack, and not the two the blocks use themselves.\<close>

definition base_regs :: "reg set" where "base_regs = - {RAX, RCX, RBP, RSP}"

lemma SaveContext_slots:
  assumes "base \<in> base_regs" and "regs c base = ctx" and "\<forall>k \<in> ctx_fields. regs c RSP \<noteq> ctx + k \<and> regs c RSP + 8 \<noteq> ctx + k"
  defines "m \<equiv> stk (SaveContext base c)"
  shows "r \<in> kept_regs \<Longrightarrow> m (ctx + ctx_field r) = regs c r" "m (ctx + 16) = stk c (regs c RSP)"
    "m (ctx + 104) = stk c (regs c RSP + 8)" "m (ctx + 112) = regs c RSP + 16"
    "regs (SaveContext base c) RSP = regs c RSP + 16" "rip (SaveContext base c) = stk c (regs c RSP + 8)" "regs (SaveContext base c) RBP = stk c (regs c RSP)"
    "r \<in> kept_regs - {RCX} \<Longrightarrow> regs (SaveContext base c) r = regs c r" "regs (SaveContext base c) RAX = 1"
proof -
  have b: "base \<noteq> RCX" using assms(1) by (auto simp: base_regs_def)
  have ne: "regs c RSP \<noteq> ctx" "regs c RSP + 8 \<noteq> ctx" using assms(3) by simp_all
  define g where "g = regs c"
  define k where "k = (stk c)(ctx := g RAX, ctx + 8 := g RBX, ctx + 24 := g R12, ctx + 32 := g R13, ctx + 40 := g R14, ctx + 48 := g R15, ctx + 56 := g RDI,
    ctx + 64 := g RSI, ctx + 72 := g RDX, ctx + 80 := g RCX, ctx + 88 := g R8, ctx + 96 := g R9)"
  have k: "k (g RSP) = stk c (g RSP)" "k (g RSP + 8) = stk c (g RSP + 8)" using ne assms(3) by (simp_all add: k_def g_def)
  have asm: "SaveContext_asm = take 12 SaveContext_asm @ drop 12 SaveContext_asm" by simp
  have "fold (exec_t base) (take 12 SaveContext_asm) c = c\<lparr>stk := k\<rparr>"
    by (simp add: SaveContext_asm_def assms(2) k_def g_def)
  then have c: "fold (exec_t base) SaveContext_asm c =
      c\<lparr>regs := g(RCX := g RSP + 16), stk := k(ctx + 16 := k (g RSP), ctx + 104 := k (g RSP + 8), ctx + 112 := g RSP + 16)\<rparr>"
    using b ne assms(2,3) by (subst asm) (simp add: SaveContext_asm_def g_def)
  have m: "m = k(ctx + 16 := stk c (g RSP), ctx + 104 := stk c (g RSP + 8), ctx + 112 := g RSP + 16)" by (simp add: m_def SaveContext_def Let_def c k)
  show "m (ctx + 16) = stk c (regs c RSP)" "m (ctx + 104) = stk c (regs c RSP + 8)" "m (ctx + 112) = regs c RSP + 16"
    unfolding m by (simp_all add: g_def)
  show "r \<in> kept_regs \<Longrightarrow> m (ctx + ctx_field r) = regs c r" unfolding m by (auto simp: kept_regs_def k_def g_def)
  show "regs (SaveContext base c) RSP = regs c RSP + 16" "rip (SaveContext base c) = stk c (regs c RSP + 8)" "regs (SaveContext base c) RBP = stk c (regs c RSP)"
    "r \<in> kept_regs - {RCX} \<Longrightarrow> regs (SaveContext base c) r = regs c r" "regs (SaveContext base c) RAX = 1"
    using assms(3) ne by (auto simp: SaveContext_def Let_def c k kept_regs_def g_def [symmetric])
qed

text \<open>A sequence of loads from the context, the base register loaded with its own value if at all.\<close>

lemma loads_from_ctx:
  assumes "regs d base = ctx" and "\<forall>(off, r) \<in> set ls. r = base \<longrightarrow> stk d (ctx + off) = ctx"
  shows "fold (exec_t base) (map (\<lambda>(off, r). FromCtx off r) ls) d = d\<lparr>regs := fold (\<lambda>(off, r) g. g(r := stk d (ctx + off))) ls (regs d)\<rparr> \<and>
    fold (\<lambda>(off, r) g. g(r := stk d (ctx + off))) ls (regs d) base = ctx"
  using assms
proof (induction ls arbitrary: d)
  case (Cons x ls)
  obtain off r where x: "x = (off, r)" by (cases x)
  let ?d = "d\<lparr>regs := (regs d)(r := stk d (ctx + off))\<rparr>"
  have "regs ?d base = ctx" using Cons.prems x by auto
  moreover have "\<forall>(off, r) \<in> set ls. r = base \<longrightarrow> stk ?d (ctx + off) = ctx" using Cons.prems by auto
  ultimately show ?case using Cons.IH [of ?d] Cons.prems(1) by (simp add: x)
qed simp

lemma RestoreContext_regs:
  assumes "base \<in> base_regs" and "regs d base = ctx" and "base \<in> kept_regs \<longrightarrow> stk d (ctx + ctx_field base) = ctx"
  defines "e \<equiv> RestoreContext base d" and "m \<equiv> stk d"
  shows "r \<in> kept_regs \<Longrightarrow> regs e r = m (ctx + ctx_field r)" "regs e RBP = m (ctx + 16)"
    "regs e RSP = m (ctx + 112)" "rip e = m (ctx + 104)" "regs e RAX = m 0" "stk e = m(m (ctx + 112) - 8 := m (ctx + 104))"
proof -
  define ls where "ls = [(8, RBX), (16, RBP), (24, R12), (32, R13), (40, R14), (48, R15), (56, RDI), (64, RSI), (72, RDX), (80, RCX), (88, R8),
    (96, R9), (112 :: u64, RSP)]"
  have asm: "RestoreContext_asm = FromAddress 0 RAX # map (\<lambda>(off, r). FromCtx off r) ls @ [PushCtx 104, Retq]"
    by (simp add: RestoreContext_asm_def ls_def)
  let ?d = "d\<lparr>regs := (regs d)(RAX := m 0)\<rparr>"
  let ?g = "fold (\<lambda>(off, r) g. g(r := m (ctx + off))) ls (regs ?d)"
  have "regs ?d base = ctx" using assms(1,2) by (auto simp: base_regs_def)
  moreover have "\<forall>(off, r) \<in> set ls. r = base \<longrightarrow> stk ?d (ctx + off) = ctx"
    using assms(1,3) by (auto simp: ls_def base_regs_def kept_regs_def)
  ultimately have l: "fold (exec_t base) (map (\<lambda>(off, r). FromCtx off r) ls) ?d = ?d\<lparr>regs := ?g\<rparr>" "?g base = ctx"
    using loads_from_ctx [of ?d base ctx ls] by (simp_all add: m_def)
  have bs: "base \<noteq> RSP" using assms(1) by (auto simp: base_regs_def)
  have g: "?g RSP = m (ctx + 112)" "?g RBP = m (ctx + 16)" "?g RAX = m 0" and gk: "r \<in> kept_regs \<Longrightarrow> ?g r = m (ctx + ctx_field r)" for r
    by (auto simp: ls_def kept_regs_def)
  have "e = fold (exec_t base) [PushCtx 104, Retq] (?d\<lparr>regs := ?g\<rparr>)"
    using l(1) by (simp add: e_def RestoreContext_def asm m_def)
  then have e: "e = d\<lparr>regs := ?g, stk := m(m (ctx + 112) - 8 := m (ctx + 104)), rip := m (ctx + 104)\<rparr>"
    using bs l(2) g(1) by (simp add: m_def fun_upd_idem)
  show "r \<in> kept_regs \<Longrightarrow> regs e r = m (ctx + ctx_field r)" "regs e RBP = m (ctx + 16)"
    "regs e RSP = m (ctx + 112)" "rip e = m (ctx + 104)" "regs e RAX = m 0" "stk e = m(m (ctx + 112) - 8 := m (ctx + 104))"
    unfolding e using g gk by simp_all
qed

text \<open>
  C25. A context switch goes back to where the context was saved, when the compiler addresses the context in both functions from the same register and that is none of \<^verbatim>\<open>rax\<close>, \<^verbatim>\<open>rcx\<close>, \<^verbatim>\<open>rbp\<close>
  and \<^verbatim>\<open>rsp\<close>: whatever the processor did in between, as long as the fifteen quadwords of the context are kept, restoring continues at the return of \<^verbatim>\<open>SaveContext\<close> with its stack pointer and
  frame pointer and with the callee-saved and argument registers (\<^verbatim>\<open>rcx\<close> included) that the call of \<^verbatim>\<open>SaveContext\<close> was given; the base register itself is among the loaded ones and gets its old value
  back. \<^verbatim>\<open>rax\<close> is true after saving, and after restoring it is the quadword at address 0, not false.
\<close>
theorem RestoreContext_returns_to_save:
  assumes "base \<in> base_regs" and "regs c base = ctx" and "regs d base = ctx"
    and "regs c RSP \<notin> ctx_slots ctx" and "regs c RSP + 8 \<notin> ctx_slots ctx" and "\<forall>a \<in> ctx_slots ctx. stk d a = stk (SaveContext base c) a"
  shows "(\<forall>r \<in> kept_regs. regs (RestoreContext base d) r = regs c r \<and> (r = RCX \<or> regs (SaveContext base c) r = regs c r)) \<and>
    (\<forall>r \<in> {RSP, RBP}. regs (RestoreContext base d) r = regs (SaveContext base c) r) \<and> rip (RestoreContext base d) = rip (SaveContext base c) \<and>
    regs (SaveContext base c) RAX = 1 \<and> regs (RestoreContext base d) RAX = stk d 0 \<and>
    (\<forall>a. a \<noteq> regs (SaveContext base c) RSP - 8 \<longrightarrow> stk (RestoreContext base d) a = stk d a)"
proof -
  have ne: "\<forall>k \<in> ctx_fields. regs c RSP \<noteq> ctx + k \<and> regs c RSP + 8 \<noteq> ctx + k" using ctx_slots_mem assms(4,5) by metis
  have m: "stk d (ctx + k) = stk (SaveContext base c) (ctx + k)" if "k \<in> ctx_fields" for k using ctx_slots_mem [OF that] assms(6) by blast
  have f: "ctx_field r \<in> ctx_fields" for r by (cases r) simp_all
  note S = SaveContext_slots [OF assms(1,2) ne]
  have "base \<in> kept_regs \<longrightarrow> stk d (ctx + ctx_field base) = ctx" using m [OF f] S(1) assms(2) by metis
  note R = RestoreContext_regs [OF assms(1,3) this]
  have "regs (RestoreContext base d) r = regs c r \<and> (r = RCX \<or> regs (SaveContext base c) r = regs c r)" if "r \<in> kept_regs" for r
    using R(1) [OF that] S(1) [OF that] S(8) [of r] m [OF f] that by auto
  then show ?thesis using R(2-6) S(2-7,9) by (simp add: m)
qed

text \<open>A thread at stack pointer \<^verbatim>\<open>0x9000\<close> with its context at \<^verbatim>\<open>0x5000\<close>, addressed from \<^verbatim>\<open>rdi\<close>, and another processor state with that context in memory.\<close>

theorem RestoreContext_returns_to_save_witness:
  "\<exists>c d. regs (RestoreContext RDI d) RCX = 42 \<and> regs (SaveContext RDI c) RCX \<noteq> 42 \<and> rip (RestoreContext RDI d) = rip (SaveContext RDI c) \<and>
     regs (RestoreContext RDI d) RAX = 7 \<and> regs d RCX = 1"
proof -
  let ?c = "\<lparr>regs = (\<lambda>_. 0)(RSP := 0x9000, RDI := 0x5000, RCX := 42), stk = (\<lambda>_. 7), rip = 0, fenv = \<lambda>_. 0, mxcsr = 0\<rparr>"
  let ?d = "(SaveContext RDI ?c)\<lparr>regs := (\<lambda>_. 1)(RDI := 0x5000)\<rparr>"
  have n: "(x :: u64) \<notin> ctx_slots 0x5000" if "0x9000 \<le> x" for x
  proof
    assume "x \<in> ctx_slots 0x5000"
    then show False using that by (auto simp: ctx_slots_def lessThan_nat_numeral lessThan_Suc)
  qed
  have "regs ?c RSP \<notin> ctx_slots 0x5000" "regs ?c RSP + 8 \<notin> ctx_slots 0x5000" by (intro n; simp)+
  then have "regs (RestoreContext RDI ?d) RCX = regs ?c RCX \<and> rip (RestoreContext RDI ?d) = rip (SaveContext RDI ?c) \<and>
      regs (RestoreContext RDI ?d) RAX = stk ?d 0"
    using RestoreContext_returns_to_save [of RDI ?c "0x5000" ?d] by (simp add: base_regs_def kept_regs_def)
  moreover have "regs (SaveContext RDI ?c) RCX = 0x9010" "stk ?d 0 = 7" by (simp_all add: SaveContext_def SaveContext_asm_def Let_def)
  ultimately show ?thesis by (intro exI [of _ ?c] exI [of _ ?d]) simp
qed

text \<open>
  When the compiler addresses the context from \<^verbatim>\<open>rax\<close>, the first instruction of \<^verbatim>\<open>RestoreContext\<close> destroys the address: every register comes from the memory the quadword at address 0
  points to, whatever context was saved.
\<close>

lemma RestoreContext_base_rax:
  "r \<in> kept_regs \<Longrightarrow> regs (RestoreContext RAX d) r = stk d (stk d 0 + ctx_field r)"
  "rip (RestoreContext RAX d) = stk d (stk d 0 + 104)" "regs (RestoreContext RAX d) RSP = stk d (stk d 0 + 112)"
  by (auto simp: kept_regs_def RestoreContext_def RestoreContext_asm_def)

text \<open>The stub sets the stack pointer to the lowest address of the stack page, from which the stack grows down and out of the page.\<close>

lemma Stub_stack:
  assumes "rd_page mp (stack_page t) = Inr p"
  shows "Stub mp run ini t (c, s) = ebind (ExitCurrentThread ini (run (c\<lparr>regs := (regs c)(RSP := PADDR_TO_KPTR (phyaddr p))\<rparr>) s)) (\<lambda>(w, s). Inr (t\<lparr>is_initialized_ := True\<rparr>, w, s))"
    and "\<not> (PADDR_TO_KPTR (phyaddr p) - 8 - PADDR_TO_KPTR (phyaddr p) < 4096)"
  using assms by (simp_all add: Stub_def Let_def)

end
