(* ===== verification/Spec2Isabelle.thy ===== *)
theory Spec2Isabelle
  imports Kmalloc Console Kernel_Map Vector Kvm_Clock Irqs Apic_Timer Acpi_Setup Boot Thread_Switch
begin

text \<open>
  Verification of the kernel Chestnut-64 (\<^verbatim>\<open>src/kern\<close>), a small 64-bit kernel in C++ for x86 under KVM.

  \<^bold>\<open>The program.\<close> The boot loader enters \<^verbatim>\<open>KernelMain\<close>
  (\<^verbatim>\<open>main.cc\<close>) through assembly. It constructs the terminal, the console and the page allocator in place,
  attaches a serial port to the console, finishes the boot page table, finds the memory map in the boot information, sets up the
  page allocator, the slab allocator and the page table of the kernel, then the clock, the processors and interrupt controllers
  the ACPI tables name, and the interrupt vectors, and waits for interrupts. A scheduler and threads are in the repository but not
  in its build.

  \<^bold>\<open>The theories,\<close> each with the data, operations and lemmas of one part, under the names of the code:

  \<^item> \<open>Kernel_Prelude\<close>: integer types, panics and faults as the error values of a sum type, the address macros
    of \<^verbatim>\<open>mm/allocator.h\<close>.
  \<^item> \<open>List_Node\<close> (\<^verbatim>\<open>libc/list.h\<close>): the intrusive list on a store of nodes, its contract
    as the locale \<open>intrusive_list\<close>, and several lists in one store.
  \<^item> \<open>Multiboot\<close>, \<open>Memory_Loads\<close>, \<open>Boot_Info\<close>
    (\<^verbatim>\<open>multiboot2.h\<close>, \<^verbatim>\<open>main.cc\<close>): the memory map, loads of little-endian words,
    and the search for tags: which tags it returns from boot information laid out as the specification has it (\<open>tags_at\<close>), and
    that a tag of size zero stops it for ever.
  \<^item> \<open>Mem_Pages\<close> (\<^verbatim>\<open>mm/allocator.h\<close>, \<^verbatim>\<open>mm/allocator.cc\<close>): the
    array of page structures with the free list through it. The invariant \<open>mp_inv\<close> is kept by every operation;
    \<^verbatim>\<open>Init\<close> frees exactly the usable pages, \<^verbatim>\<open>AllocPages\<close> is first fit, and
    \<^verbatim>\<open>FreePages\<close> takes it back.
  \<^item> \<open>Slab_Bodies\<close>, \<open>Mem_Cache\<close>, \<open>Slab_Frames\<close>, \<open>Slab_Invariant\<close>,
    \<open>Slab_Provider\<close>, \<open>Slab_Classes\<close>, \<open>Kmalloc\<close> (\<^verbatim>\<open>mm/uslab.h\<close>,
    \<^verbatim>\<open>mm/uslab.cc\<close>, \<^verbatim>\<open>libc/cxxrt.cc\<close>): the representations of a slab against the
    locale \<open>slab_body\<close>, the cache template with its slab queues, the invariant \<open>kinv\<close> of queues, slabs
    and pages, the locale \<open>slab_provider\<close> with one interpretation for the meta slabs and one for each size class of
    bitmap slabs, and the heap: \<open>heap_ok km B\<close> says that \<open>B\<close> are the blocks handed out; they never
    overlap, \<^verbatim>\<open>Alloc\<close> adds one and \<^verbatim>\<open>Free\<close> removes one. \<open>heap_res R km B\<close>
    says in addition that the heap keeps away from the pages \<open>R\<close>; it rests on what no operation changes in the page
    structures (locale \<open>slab_frame\<close>).
  \<^item> \<open>Libc_String\<close> (\<^verbatim>\<open>libc/string.c\<close>, \<^verbatim>\<open>libc/ctype.h\<close>): the
    string functions on byte memory. \<open>Vector\<close> (\<^verbatim>\<open>libc/vector.h\<close>,
    \<^verbatim>\<open>libc/vector.cc\<close>): insertion refines insertion in a list, on the heap; removal does not.
    \<open>Heap_Objects\<close>: objects made with \<^verbatim>\<open>new\<close> and pushed elements beside each other on the heap,
    and how many pages they take.
  \<^item> \<open>Io_Ports\<close>, \<open>Terminal\<close>, \<open>Vga_Buffer\<close>, \<open>Console\<close>
    (\<^verbatim>\<open>io-ports.h\<close>, \<^verbatim>\<open>terminal.h\<close>, \<^verbatim>\<open>terminal.cc\<close>,
    \<^verbatim>\<open>console.h\<close>, \<^verbatim>\<open>console.cc\<close>): port accesses as a log, PCI configuration space against a host
    bridge that decodes ports, address and enable bit,
    the cells of the screen, the scrolling text buffer as a refinement of a list of lines, the chain of console sources (locale
    \<open>console_source\<close>, for screen and serial port), and \<^verbatim>\<open>printf\<close>.
  \<^item> \<open>Word_Bits\<close>, \<open>Page_Table\<close>, \<open>Page_Walk\<close>, \<open>Page_Map\<close>,
    \<open>Page_Ops\<close>, \<open>Kernel_Map\<close> (\<^verbatim>\<open>page-table.h\<close>,
    \<^verbatim>\<open>page-table.cc\<close>): entries and tables in physical memory, the translation the processor makes
    (\<open>translate\<close>), tables as a tree of frames (\<open>pt_inv\<close>), and what each operation does to the
    translation.
  \<^item> \<open>Cpu_Platform\<close>, \<open>Kvm_Clock\<close> (\<^verbatim>\<open>cpu.h\<close>,
    \<^verbatim>\<open>cpu.cc\<close>, \<^verbatim>\<open>kvm-clock.h\<close>, \<^verbatim>\<open>kvm-clock.cc\<close>):
    registers, and the clocks read while the host writes them; concurrent callers are a step relation in which every access to
    the shared variable and every return is a step of its own: no call returns a time below one returned before it began.
  \<^item> \<open>Apic\<close>, \<open>Apic_Timer\<close>, \<open>Irqs\<close>, \<open>Acpi_Objects\<close>, \<open>Acpi\<close>, \<open>Acpi_Setup\<close> (\<^verbatim>\<open>apic.h\<close>,
    \<^verbatim>\<open>apic.cc\<close>, \<^verbatim>\<open>irqs.h\<close>, \<^verbatim>\<open>irqs.cc\<close>,
    \<^verbatim>\<open>acpi.h\<close>, \<^verbatim>\<open>acpi.cc\<close>): the interrupt controllers as logs of register
    accesses, the calibration of the timer against the clock, the descriptor table byte by byte, the wrapper instruction by instruction (with the floating point environment and \<^verbatim>\<open>mxcsr\<close> in the bytes of the stack where the code puts them), and the parser of the ACPI tables. The
    parser reads the tables from memory and builds its objects (the local APIC, the I/O APICs, two vectors) on the heap in the same
    memory; \<open>acpi_rel\<close> says what those objects stand for. \<open>Acpi_Setup\<close> puts page tables, heap and parser
    together: the pages the tables take leave the heap intact, and the object that comes up stands for what the firmware lists. An
    entry takes at most four pages and the start at most 98 for up to 85 entries, up to which a vector stays in the size classes.
  \<^item> \<open>Boot\<close> (\<^verbatim>\<open>main.cc\<close>): \<^verbatim>\<open>KernelMain\<close> over all of these, in
    the two halves \<open>boot_memory\<close> and \<open>boot_devices\<close>.
  \<^item> \<open>Scheduler\<close>, \<open>Thread_Switch\<close> (\<^verbatim>\<open>scheduler.h\<close>,
    \<^verbatim>\<open>scheduler.cc\<close>, \<^verbatim>\<open>thread.h\<close>, \<^verbatim>\<open>thread.cc\<close>): the
    queues of threads on intrusive lists with nodes from the heap, fairness of round robin, and saving and restoring of contexts,
    with the register the compiler addresses the context from as a parameter.

  \<^bold>\<open>Results and loops.\<close> An operation that can panic or fault returns \<open>'a result\<close>. A loop whose
  end is not plain from its data is a partial function into \<open>option\<close>, where \<open>None\<close> is not returning; no
  definition uses fuel. That such a loop returns is part of the theorems about it.

  \<^bold>\<open>How far the model goes.\<close> A failed \<^verbatim>\<open>kassert\<close> or \<^verbatim>\<open>panic\<close>
  ends the run (the code halts with interrupts off). Messages printed with \<^verbatim>\<open>kprintf\<close> inside other
  components are left out, \<^verbatim>\<open>kprintf\<close> itself is modelled. Table memory is seen as quadwords of physical
  memory, other memory as bytes; that the two do not overlap is a matter of the page allocator and is not expressed, as is the
  mapping of a kernel pointer to its frame, which the code takes as given. The page table carries its own copy of the page
  allocator, handed over in \<open>Boot\<close> and \<open>Acpi\<close>. The wrapper of an interrupt saves no data registers of the floating point unit, and none are modelled; faults of
  \<^verbatim>\<open>ldmxcsr\<close> on reserved bits are not. In the clock the loads happen in the
  order of the source, and the two operands of the last subtraction from left to right. The undefined results of
  \<^verbatim>\<open>__builtin_ctzl\<close> and \<^verbatim>\<open>__builtin_clz\<close> at 0 are the parameters
  \<open>ctz0\<close> and \<open>clz0\<close>, or the fields of \<open>unspecified\<close>, which also has the padding of a pushed
  \<^verbatim>\<open>AcpiCPU\<close>. The first of them matters in the 16 and 32-byte classes, whose slabs have several bitmap rows:
  with a value below 32 such a slab hands out objects that are in use (\<open>Slab_Bodies\<close> shows it for every value), so every
  theorem about requests that may be of at most 32 bytes has the hypothesis that it is at least 32 (\<open>ctz_safe\<close>; the instruction
  \<^verbatim>\<open>tzcnt\<close> gives 64, \<^verbatim>\<open>bsf\<close> nothing definite). Larger requests, and
  \<^verbatim>\<open>Free\<close>, do not depend on it. The instruction that should load the descriptor table register takes its operand from
  \<^verbatim>\<open>rax\<close>, whose contents at that point the compiler decides: they are the parameter \<open>pf_rax\<close>. What devices answer, what the host writes, what an interrupt handler or a thread
  does, and the addresses the linker gives are parameters.

  \<^bold>\<open>Not modelled.\<close> The assembly of \<^verbatim>\<open>boot.asm\<close> and
  \<^verbatim>\<open>smp-boot.asm\<close>, whose page tables are a hypothesis (\<open>boot_tables\<close>); the linker script and
  build files; \<^verbatim>\<open>stdarg.h\<close>; functions that only print (\<^verbatim>\<open>DumpPageTableFromEntry\<close>,
  \<^verbatim>\<open>PrintStat\<close>); the structures of \<^verbatim>\<open>multiboot2.h\<close> the kernel does not read;
  constructor and destructor of \<^verbatim>\<open>Thread\<close>, which use a function that is nowhere defined.
\<close>

section \<open>From boot to the first thread\<close>

text \<open>On the heap that the boot leaves, the scheduler can take its first thread.\<close>

lemma boot_first_thread:
  assumes "heap_ok (k_kmem k) {}" and "32 \<le> ctz0" and "2 < free_pages (k_kmem k)" and "cur_thread s = None"
  shows "\<exists>p s' km'. Thread_Start ctz0 clz0 thr (InitThreadQUeue s, k_kmem k) = Inr (s', km') \<and> sched_ok s' None [p] [] \<and> node_thr s' p = thr \<and>
    heap_ok km' {(p, 32)}"
proof -
  obtain p km' where a: "Alloc ctz0 clz0 sizeof_ThreadNode (k_kmem k) = Inr (p, km')" "p \<noteq> 0" "heap_ok km' {(p, 32)}"
    using Alloc_node [OF assms(1,2), of clz0] assms(3) by auto
  have "forest (sched_nodes (InitThreadQUeue s)) sched_heads (queues [] [])" "cur_thread (InitThreadQUeue s) = None"
    using InitThreadQUeue_ok [OF assms(4)] by (simp_all add: sched_ok_def)
  then show ?thesis
    using a enqueue_ready [of "sched_nodes (InitThreadQUeue s)" "[]" "[]" p]
    by (auto simp: Thread_Start_def AddThread_def sched_ok_def upd_sched_def opt_list_def Let_def)
qed

end
